(* ===== verification/Chess_Prelude.thy ===== *)
theory Chess_Prelude
  imports Main "HOL-Library.Word" "HOL-Library.Signed_Division"
begin

text \<open>
  The vocabulary shared by every component of the chess engine model: the machine
  words and results the code computes with, the failure modes of a C++ program
  (a failed \<open>ABSL_RAW_CHECK\<close>, a failed \<open>assert\<close>, undefined behaviour), the loop
  combinator for a range-based \<open>for\<close>, signed arithmetic at its width, and the
  lemmas on 64-bit words with a single bit that the bitboard proofs rest on.
\<close>

unbundle bit_operations_syntax

named_theorems result_simps \<open>rewriting through the result monad\<close>
named_theorems square_simps \<open>bitboards with exactly one bit\<close>

section \<open>Results\<close>

text \<open>
  \<open>Raw_check_failed\<close> is an \<open>ABSL_RAW_CHECK\<close> whose condition is false (the program logs
  the message and aborts), \<open>Assertion_failed\<close> a failed \<open>assert\<close>,
  \<open>Undefined_behaviour\<close> an operation to which C++ gives no meaning, \<open>Out_of_range\<close> the
  exception \<open>std::out_of_range\<close>.
\<close>

datatype error =
    Raw_check_failed string
  | Assertion_failed
  | Undefined_behaviour string
  | Out_of_range string

type_synonym 'a result = "error + 'a"

type_synonym Bitboard = "64 word"

definition bindr :: "'a result \<Rightarrow> ('a \<Rightarrow> 'b result) \<Rightarrow> 'b result" where
  "bindr m f = (case m of Inl e \<Rightarrow> Inl e | Inr x \<Rightarrow> f x)"

lemma bindr_Inl [simp, result_simps]: "bindr (Inl e) f = Inl e"
  by (simp add: bindr_def)

lemma bindr_Inr [simp, result_simps]: "bindr (Inr x) f = f x"
  by (simp add: bindr_def)

lemma bindr_eq_Inr_iff: "bindr m f = Inr y \<longleftrightarrow> (\<exists>x. m = Inr x \<and> f x = Inr y)"
  by (cases m) simp_all

lemma bindr_eq_InrE [elim!]:
  assumes "bindr m f = Inr y"
  obtains x where "m = Inr x" "f x = Inr y"
  using assms by (auto simp: bindr_eq_Inr_iff)

lemma bindr_cong [fundef_cong]:
  "m = m' \<Longrightarrow> (\<And>x. m' = Inr x \<Longrightarrow> f x = g x) \<Longrightarrow> bindr m f = bindr m' g"
  by (cases m') simp_all

lemma bindr_assoc: "bindr (bindr m f) g = bindr m (\<lambda>x. bindr (f x) g)"
  by (cases m) simp_all

definition raw_check :: "bool \<Rightarrow> string \<Rightarrow> 'a result \<Rightarrow> 'a result" where
  "raw_check c msg k = (if c then k else Inl (Raw_check_failed msg))"

lemma raw_check_True [simp, result_simps]: "raw_check True msg k = k"
  by (simp add: raw_check_def)

lemma raw_check_False [simp, result_simps]: "raw_check False msg k = Inl (Raw_check_failed msg)"
  by (simp add: raw_check_def)

lemma raw_check_eq_Inr_iff [simp]: "raw_check c msg k = Inr x \<longleftrightarrow> c \<and> k = Inr x"
  by (simp add: raw_check_def)

lemma raw_check_cong [fundef_cong]:
  "c = c' \<Longrightarrow> (c' \<Longrightarrow> k = k') \<Longrightarrow> raw_check c msg k = raw_check c' msg k'"
  by (simp add: raw_check_def)

text \<open>The value of a call whose argument is a literal for which the call cannot fail.\<close>

definition value_of :: "Bitboard result \<Rightarrow> Bitboard" where
  "value_of r = (case r of Inr x \<Rightarrow> x | Inl _ \<Rightarrow> 0)"

lemma value_of_Inr [simp]: "value_of (Inr x) = x"
  by (simp add: value_of_def)

section \<open>A range-based for loop that threads a state\<close>

fun for_each :: "'a list \<Rightarrow> ('a \<Rightarrow> 's \<Rightarrow> 's result) \<Rightarrow> 's \<Rightarrow> 's result" where
  "for_each [] body s = Inr s"
| "for_each (x # xs) body s = bindr (body x s) (for_each xs body)"

lemma for_each_append:
  assumes "\<And>x s. x \<in> set xs \<Longrightarrow> body x s = Inr (s @ g x)"
  shows "for_each xs body s = Inr (s @ concat (map g xs))"
  using assms by (induction xs arbitrary: s) auto

lemma for_each_fold:
  assumes "\<And>x s. x \<in> set xs \<Longrightarrow> body x s = Inr (g x s)"
  shows "for_each xs body s = Inr (fold g xs s)"
  using assms by (induction xs arbitrary: s) auto

text \<open>The Hoare rule of the loop.\<close>

lemma for_each_inv:
  assumes "for_each xs body s = Inr t" "I s"
    and "\<And>x s t. x \<in> set xs \<Longrightarrow> I s \<Longrightarrow> body x s = Inr t \<Longrightarrow> I t"
  shows "I t"
  using assms
proof (induction xs arbitrary: s)
  case Nil
  then show ?case by simp
next
  case (Cons x xs)
  from Cons.prems(1) obtain u where "body x s = Inr u" "for_each xs body u = Inr t"
    by auto
  with Cons.prems(2,3) show ?case
    by (intro Cons.IH [of u]) (auto intro: Cons.prems(3) [of x s u])
qed

section \<open>Signed machine arithmetic\<close>

text \<open>
  \<open>int\<close> is 32 bits wide and \<open>int64_t\<close> 64. Signed overflow is undefined behaviour, so an
  operation that can overflow returns a result.
\<close>

definition int_max :: int where
  "int_max = 2147483647"

definition int_min :: int where
  "int_min = - 2147483648"

definition in_int :: "int \<Rightarrow> bool" where
  "in_int x \<longleftrightarrow> int_min \<le> x \<and> x \<le> int_max"

definition add_int :: "int \<Rightarrow> int \<Rightarrow> int result" where
  "add_int x y = (if in_int (x + y) then Inr (x + y)
     else Inl (Undefined_behaviour ''signed overflow''))"

definition neg_int :: "int \<Rightarrow> int result" where
  "neg_int x = (if in_int (- x) then Inr (- x)
     else Inl (Undefined_behaviour ''signed overflow''))"

definition int64_max :: int where
  "int64_max = 9223372036854775807"

definition int64_min :: int where
  "int64_min = - 9223372036854775808"

definition add_int64 :: "int \<Rightarrow> int \<Rightarrow> int result" where
  "add_int64 x y = (if int64_min \<le> x + y \<and> x + y \<le> int64_max then Inr (x + y)
     else Inl (Undefined_behaviour ''signed overflow''))"

lemmas int_bounds = in_int_def int_max_def int_min_def int64_max_def int64_min_def

text \<open>\<open>lsb_bitboard << n\<close>: a shift by a negative amount or by the width is undefined.\<close>

definition shl_lsb :: "int \<Rightarrow> Bitboard result" where
  "shl_lsb n = (if 0 \<le> n \<and> n < 64 then Inr (push_bit (nat n) 1)
     else Inl (Undefined_behaviour ''shift amount''))"

section \<open>Words with a single bit\<close>

definition sqw :: "nat \<Rightarrow> Bitboard" where
  "sqw i = push_bit i 1"

lemma bb_eq_iff: "(a :: Bitboard) = b \<longleftrightarrow> (\<forall>i<64. bit a i \<longleftrightarrow> bit b i)"
  by (auto intro: bit_word_eqI)

lemma bit_word_bound: "bit (w :: Bitboard) i \<Longrightarrow> i < 64"
  using bit_imp_le_length [of w i] by simp

lemma bit_sqw [square_simps]: "bit (sqw i) j \<longleftrightarrow> i = j \<and> i < 64"
  by (auto simp: sqw_def bit_simps)

lemma bb_eqI: "(\<And>i. i < 64 \<Longrightarrow> bit (a :: Bitboard) i \<longleftrightarrow> bit b i) \<Longrightarrow> a = b"
  by (simp add: bb_eq_iff)

lemma bb_neq_0_iff: "(w :: Bitboard) \<noteq> 0 \<longleftrightarrow> (\<exists>i. bit w i)"
  by (auto simp: bb_eq_iff dest: bit_word_bound)

lemma sqw_neq_0 [square_simps]: "i < 64 \<Longrightarrow> sqw i \<noteq> 0"
  by (auto simp: bb_neq_0_iff bit_sqw)

lemma sqw_inj [square_simps]: "i < 64 \<Longrightarrow> sqw i = sqw j \<longleftrightarrow> i = j"
  by (auto simp: bb_eq_iff bit_sqw)

lemma sqw_and [square_simps]: "i < 64 \<Longrightarrow> sqw i AND w = (if bit w i then sqw i else 0)"
  by (auto simp: bb_eq_iff bit_sqw bit_and_iff)

lemma and_sqw [square_simps]: "i < 64 \<Longrightarrow> w AND sqw i = (if bit w i then sqw i else 0)"
  by (subst and.commute) (rule sqw_and)

lemma bb_and_eq_0_iff: "(v :: Bitboard) AND w = 0 \<longleftrightarrow> (\<forall>i. \<not> (bit v i \<and> bit w i))"
  by (auto simp: bb_eq_iff bit_and_iff dest: bit_word_bound)

lemma bb_or_and_eq_0: "((u :: Bitboard) OR v) AND w = 0 \<longleftrightarrow> u AND w = 0 \<and> v AND w = 0"
  by (auto simp: bb_and_eq_0_iff bit_or_iff)

lemma sqw_eq_power: "sqw i = 2 ^ i"
  by (simp add: sqw_def push_bit_eq_mult)

end
