(* ===== verification/Squares.thy ===== *)
theory Squares
  imports Chess_Prelude
begin

text \<open>
  The square utilities of \<open>src/src/board.cc\<close>: bit counting and bit scanning, the test for
  a single square, the eight compass steps, the two conversions between squares and
  algebraic notation, and the splitting of a bitboard into its squares. A square is a
  \<open>Bitboard\<close> with one bit: bit \<open>8 * rank + 7 - file\<close>, so that a8 is the most
  significant bit and h1 the least significant one.
\<close>

section \<open>The code\<close>

subsection \<open>Enumerations and constants of board.h\<close>

datatype Color = white | black

datatype Piece = pawn | rook | knight | bishop | queen | king

datatype MoveType =
    simple
  | en_passant
  | castle_kingside
  | castle_queenside
  | capture
  | two_step_pawn
  | promotion_to_rook
  | promotion_to_bishop
  | promotion_to_knight
  | promotion_to_queen

datatype Direction =
    north
  | south
  | east
  | west
  | northeast
  | northwest
  | southeast
  | southwest

definition board_size :: int where
  "board_size = 8"

definition promotion_move_types :: "MoveType list" where
  "promotion_move_types =
     [promotion_to_rook, promotion_to_bishop, promotion_to_knight, promotion_to_queen]"

definition all_directions :: "Direction list" where
  "all_directions =
     [north, south, east, west, northeast, northwest, southeast, southwest]"

definition knight_move_directions :: "(Direction \<times> Direction) list" where
  "knight_move_directions =
     [(north, northwest), (north, northeast),
      (west, northwest), (west, southwest),
      (east, northeast), (east, southeast),
      (south, southeast), (south, southwest)]"

definition bishop_move_directions :: "Direction list" where
  "bishop_move_directions = [northeast, northwest, southeast, southwest]"

definition rook_move_directions :: "Direction list" where
  "rook_move_directions = [north, south, east, west]"

definition flip_color :: "Color \<Rightarrow> Color" where
  "flip_color color = (if color = white then black else white)"

subsection \<open>Bit scanning\<close>

text \<open>Clearing the lowest bit makes a non-zero word smaller; so does a shift to the right.\<close>

lemma unat_clear_lsb_less:
  assumes "(w :: Bitboard) \<noteq> 0"
  shows "unat (w AND (w - 1)) < unat w"
proof -
  have "w AND (w - 1) \<le> w - 1" by (rule word_and_le1)
  moreover have "w - 1 < w" using assms by (simp add: measure_unat word_less_nat_alt)
  ultimately show ?thesis by (simp add: word_less_nat_alt word_le_nat_alt)
qed

lemma unat_shift_less:
  assumes "(w :: Bitboard) \<noteq> 0"
  shows "unat (drop_bit 1 w) < unat w"
  using assms by (simp add: drop_bit_eq_div unat_div unat_eq_zero unat_gt_0)

function pop_count_loop :: "Bitboard \<Rightarrow> int \<Rightarrow> int" where
  "pop_count_loop bb res =
     (if bb \<noteq> 0 then pop_count_loop (bb AND (bb - 1)) (res + 1) else res)"
  by pat_completeness auto
termination
  by (relation "measure (\<lambda>(bb, res). unat bb)") (simp_all add: unat_clear_lsb_less)

definition pop_count :: "Bitboard \<Rightarrow> int" where
  "pop_count bb = pop_count_loop bb 0"

definition is_square :: "Bitboard \<Rightarrow> bool" where
  "is_square square =
     (let has_more_than_one_set_bit = (square AND (square - 1) \<noteq> 0)
      in square \<noteq> 0 \<and> \<not> has_more_than_one_set_bit)"

function square_idx_loop :: "Bitboard \<Rightarrow> int \<Rightarrow> int" where
  "square_idx_loop square res =
     (if square \<noteq> 0 then square_idx_loop (drop_bit 1 square) (res + 1) else res)"
  by pat_completeness auto
termination
  by (relation "measure (\<lambda>(square, res). unat square)") (use unat_shift_less in simp_all)

definition square_idx :: "Bitboard \<Rightarrow> int" where
  "square_idx square = square_idx_loop square (- 1)"

text \<open>C++ division and remainder truncate towards zero.\<close>

definition rank_idx :: "Bitboard \<Rightarrow> int" where
  "rank_idx square = (let idx = square_idx square in idx sdiv 8)"

definition file_idx :: "Bitboard \<Rightarrow> int" where
  "file_idx square = (let idx = square_idx square in 7 - idx smod 8)"

definition on_a_file :: "Bitboard \<Rightarrow> bool" where
  "on_a_file square \<longleftrightarrow> file_idx square = 0"

definition on_h_file :: "Bitboard \<Rightarrow> bool" where
  "on_h_file square \<longleftrightarrow> file_idx square = 7"

subsection \<open>Compass steps\<close>

definition north_of :: "Bitboard \<Rightarrow> Bitboard result" where
  "north_of square =
     raw_check (is_square square) ''Is not square.'' (Inr (push_bit (nat board_size) square))"

definition south_of :: "Bitboard \<Rightarrow> Bitboard result" where
  "south_of square =
     raw_check (is_square square) ''Is not square.'' (Inr (drop_bit (nat board_size) square))"

definition east_of :: "Bitboard \<Rightarrow> Bitboard result" where
  "east_of square =
     raw_check (is_square square) ''Is not square.''
       (Inr (if on_h_file square then 0 else drop_bit 1 square))"

definition west_of :: "Bitboard \<Rightarrow> Bitboard result" where
  "west_of square =
     raw_check (is_square square) ''Is not square.''
       (Inr (if on_a_file square then 0 else push_bit 1 square))"

definition northeast_of :: "Bitboard \<Rightarrow> Bitboard result" where
  "northeast_of square =
     raw_check (is_square square) ''Is not square.''
       (bindr (north_of square) (\<lambda>north_square.
          if north_square \<noteq> 0 then east_of north_square else Inr 0))"

definition northwest_of :: "Bitboard \<Rightarrow> Bitboard result" where
  "northwest_of square =
     raw_check (is_square square) ''Is not square.''
       (bindr (north_of square) (\<lambda>north_square.
          if north_square \<noteq> 0 then west_of north_square else Inr 0))"

definition southeast_of :: "Bitboard \<Rightarrow> Bitboard result" where
  "southeast_of square =
     raw_check (is_square square) ''Is not square.''
       (bindr (south_of square) (\<lambda>south_square.
          if south_square \<noteq> 0 then east_of south_square else Inr 0))"

definition southwest_of :: "Bitboard \<Rightarrow> Bitboard result" where
  "southwest_of square =
     raw_check (is_square square) ''Is not square.''
       (bindr (south_of square) (\<lambda>south_square.
          if south_square \<noteq> 0 then west_of south_square else Inr 0))"

fun direction_to_function :: "Direction \<Rightarrow> Bitboard \<Rightarrow> Bitboard result" where
  "direction_to_function north = north_of"
| "direction_to_function south = south_of"
| "direction_to_function east = east_of"
| "direction_to_function west = west_of"
| "direction_to_function northeast = northeast_of"
| "direction_to_function northwest = northwest_of"
| "direction_to_function southeast = southeast_of"
| "direction_to_function southwest = southwest_of"

subsection \<open>Coordinates and algebraic notation\<close>

definition coordinates_to_square :: "int \<Rightarrow> int \<Rightarrow> Bitboard result" where
  "coordinates_to_square file rank = shl_lsb (rank * board_size + board_size - file - 1)"

text \<open>
  \<open>absl::string_view::operator[]\<close> does not check its index: reading past the end is
  undefined.
\<close>

definition str_to_square :: "string \<Rightarrow> Bitboard result" where
  "str_to_square algebraic_square =
     (if length algebraic_square < 2 then Inl (Undefined_behaviour ''string_view index'')
      else let file_char = (of_char (algebraic_square ! 0) :: int);
               rank_char = (of_char (algebraic_square ! 1) :: int)
           in raw_check (97 \<le> file_char \<and> file_char \<le> 104) ''Invalid file.''
             (raw_check (49 \<le> rank_char \<and> rank_char \<le> 56) ''Invalid rank.''
               (let file = file_char - 97;
                    rank = rank_char - 49
                in coordinates_to_square file rank)))"

definition square_to_str :: "Bitboard \<Rightarrow> string result" where
  "square_to_str sq =
     raw_check (is_square sq) ''Not a square.''
       (let rank = rank_idx sq;
            file = file_idx sq
        in Inr [char_of (97 + file), char_of (49 + rank)])"

subsection \<open>Splitting a bitboard\<close>

function bitboard_split_loop :: "Bitboard \<Rightarrow> Bitboard list \<Rightarrow> Bitboard list" where
  "bitboard_split_loop bb res =
     (if bb \<noteq> 0 then
        let bb_with_lsb_cleared = bb AND (bb - 1);
            bb_with_only_lsb = bb XOR bb_with_lsb_cleared
        in bitboard_split_loop bb_with_lsb_cleared (res @ [bb_with_only_lsb])
      else res)"
  by pat_completeness auto
termination
  by (relation "measure (\<lambda>(bb, res). unat bb)") (simp_all add: unat_clear_lsb_less)

definition bitboard_split :: "Bitboard \<Rightarrow> Bitboard list" where
  "bitboard_split bb = bitboard_split_loop bb []"

declare pop_count_loop.simps [simp del]
declare square_idx_loop.simps [simp del]
declare bitboard_split_loop.simps [simp del]

section \<open>Bit scanning is correct\<close>

definition lowest_bit :: "Bitboard \<Rightarrow> nat \<Rightarrow> bool" where
  "lowest_bit w i \<longleftrightarrow> bit w i \<and> (\<forall>j<i. \<not> bit w j)"

lemma lowest_bit_ex:
  assumes "w \<noteq> 0"
  obtains i where "lowest_bit w i" "i < 64"
proof -
  from assms obtain k where "bit w k" by (auto simp: bb_neq_0_iff)
  then have "lowest_bit w (LEAST i. bit w i)"
    unfolding lowest_bit_def by (auto intro: LeastI dest: not_less_Least)
  then show ?thesis using that by (auto simp: lowest_bit_def dest: bit_word_bound)
qed

lemma bit_pred_word:
  assumes "lowest_bit w i"
  shows "bit (w - 1) j \<longleftrightarrow> j < 64 \<and> (j < i \<or> (i < j \<and> bit w j))"
proof -
  define hi where "hi = w AND NOT (mask (Suc i))"
  have i: "i < 64" using assms by (auto simp: lowest_bit_def dest: bit_word_bound)
  have hi_bit: "bit hi j \<longleftrightarrow> i < j \<and> bit w j" for j
    by (auto simp: hi_def bit_simps dest: bit_word_bound)
  have "bit w j \<longleftrightarrow> bit hi j \<or> j = i" for j
    using assms by (cases j i rule: linorder_cases) (auto simp: hi_bit lowest_bit_def)
  then have "w = hi OR sqw i"
    using i by (intro bb_eqI) (auto simp: bit_or_iff bit_sqw)
  also have "\<dots> = hi + sqw i"
    by (rule disjunctive_add_eq_or [symmetric])
      (auto simp: bb_and_eq_0_iff hi_bit bit_sqw)
  finally have "w - 1 = hi + (sqw i - 1)" by simp
  also have "sqw i - 1 = mask i"
    by (simp add: sqw_eq_power mask_eq_exp_minus_1)
  also have "hi + mask i = hi OR mask i"
    by (rule disjunctive_add_eq_or) (auto simp: bb_and_eq_0_iff hi_bit bit_mask_iff)
  finally show ?thesis
    by (auto simp: bit_or_iff hi_bit bit_mask_iff dest: bit_word_bound)
qed

lemma bit_clear_lsb:
  assumes "lowest_bit w i"
  shows "bit (w AND (w - 1)) j \<longleftrightarrow> bit w j \<and> j \<noteq> i"
  using assms by (auto simp: bit_and_iff bit_pred_word lowest_bit_def dest: bit_word_bound)

lemma xor_clear_lsb:
  assumes "lowest_bit w i"
  shows "w XOR (w AND (w - 1)) = sqw i"
  using assms by (intro bb_eqI)
    (auto simp: bit_xor_iff bit_clear_lsb bit_sqw lowest_bit_def)

definition bits :: "Bitboard \<Rightarrow> nat set" where
  "bits w = {i. bit w i}"

lemma finite_bits [simp]: "finite (bits w)"
  by (rule finite_subset [of _ "{..<64}"]) (auto simp: bits_def dest: bit_word_bound)

lemma pop_count_loop_eq: "pop_count_loop w n = n + int (card (bits w))"
proof (induction w n rule: pop_count_loop.induct)
  case (1 w n)
  show ?case
  proof (cases "w = 0")
    case True
    then show ?thesis by (simp add: pop_count_loop.simps bits_def)
  next
    case False
    then obtain i where i: "lowest_bit w i" by (rule lowest_bit_ex)
    then have "bits w = insert i (bits (w AND (w - 1)))" "i \<notin> bits (w AND (w - 1))"
      by (auto simp: bits_def bit_clear_lsb lowest_bit_def)
    with "1.IH" [OF False] False show ?thesis
      by (subst pop_count_loop.simps) simp
  qed
qed

lemma bitboard_split_loop_eq:
  "bitboard_split_loop w res = res @ map sqw (filter (bit w) [0..<64])"
proof (induction w res rule: bitboard_split_loop.induct)
  case (1 w res)
  show ?case
  proof (cases "w = 0")
    case True
    then show ?thesis by (simp add: bitboard_split_loop.simps)
  next
    case False
    then obtain i where i: "lowest_bit w i" "i < 64" by (rule lowest_bit_ex)
    let ?w' = "w AND (w - 1)"
    have split: "[0..<64] = [0..<i] @ i # [Suc i..<64]"
      using i(2) by (metis upt_add_eq_append le0 le_add_diff_inverse less_imp_le_nat upt_conv_Cons)
    have "filter (bit w) [0..<i] = []" "filter (bit ?w') [0..<i] = []"
      using i(1) by (auto simp: filter_empty_conv bit_clear_lsb lowest_bit_def)
    moreover have "filter (bit ?w') [Suc i..<64] = filter (bit w) [Suc i..<64]"
      using i(1) by (intro filter_cong) (auto simp: bit_clear_lsb)
    moreover have "bit w i" "\<not> bit ?w' i"
      using i(1) by (auto simp: bit_clear_lsb lowest_bit_def)
    ultimately have "filter (bit w) [0..<64] = i # filter (bit ?w') [0..<64]"
      by (simp add: split)
    with "1.IH" [OF False refl refl] False i(1) show ?thesis
      by (subst bitboard_split_loop.simps) (simp add: Let_def xor_clear_lsb)
  qed
qed

lemma bitboard_split_eq: "bitboard_split w = map sqw (filter (bit w) [0..<64])"
  by (simp add: bitboard_split_def bitboard_split_loop_eq)

lemma set_bitboard_split: "set (bitboard_split w) = sqw ` bits w"
  by (auto simp: bitboard_split_eq bits_def dest: bit_word_bound)

lemma is_square_iff: "is_square w \<longleftrightarrow> (\<exists>i<64. w = sqw i)"
proof
  assume sq: "is_square w"
  then have "w \<noteq> 0" by (auto simp: is_square_def)
  then obtain i where i: "lowest_bit w i" "i < 64" by (rule lowest_bit_ex)
  have "w AND (w - 1) = 0" using sq by (simp add: is_square_def)
  with xor_clear_lsb [OF i(1)] have "w = sqw i" by simp
  with i(2) show "\<exists>i<64. w = sqw i" by blast
next
  assume "\<exists>i<64. w = sqw i"
  then obtain i where i: "i < 64" "w = sqw i" by blast
  then have low: "lowest_bit w i" by (simp add: lowest_bit_def bit_sqw)
  have "w AND (w - 1) = 0"
    by (rule bb_eqI) (simp add: bit_clear_lsb [OF low], simp add: i bit_sqw)
  with i show "is_square w" by (simp add: is_square_def sqw_neq_0)
qed

lemma is_square_sqw [square_simps]: "i < 64 \<Longrightarrow> is_square (sqw i)"
  by (auto simp: is_square_iff)

lemma not_is_square_0 [simp]: "\<not> is_square 0"
  by (simp add: is_square_def)

lemma square_idx_loop_sqw: "i < 64 \<Longrightarrow> square_idx_loop (sqw i) n = n + int i + 1"
proof (induction i arbitrary: n)
  case 0
  have "drop_bit 1 (sqw 0) = 0" by (rule bb_eqI) (simp add: bit_drop_bit_eq bit_sqw)
  then show ?case
    by (subst square_idx_loop.simps) (simp add: sqw_neq_0 square_idx_loop.simps [of 0])
next
  case (Suc i)
  have "drop_bit 1 (sqw (Suc i)) = sqw i"
    using Suc.prems by (intro bb_eqI) (auto simp: bit_drop_bit_eq bit_sqw)
  with Suc show ?case
    by (subst square_idx_loop.simps) (simp add: sqw_neq_0)
qed

lemma square_idx_sqw [square_simps]: "i < 64 \<Longrightarrow> square_idx (sqw i) = int i"
  by (simp add: square_idx_def square_idx_loop_sqw)

section \<open>Coordinates\<close>

text \<open>
  The reading of a square as a pair of a file and a rank, both from 0: the square a1 is
  \<open>(0, 0)\<close> and h8 is \<open>(7, 7)\<close>. \<open>csq\<close> gives the bitboard of a pair on the board.
\<close>

type_synonym coord = "int \<times> int"

declare split_paired_All [simp del] split_paired_Ex [simp del]

definition on_board :: "coord \<Rightarrow> bool" where
  "on_board c \<longleftrightarrow> 0 \<le> fst c \<and> fst c < 8 \<and> 0 \<le> snd c \<and> snd c < 8"

definition cidx :: "coord \<Rightarrow> nat" where
  "cidx c = nat (8 * snd c + 7 - fst c)"

definition csq :: "coord \<Rightarrow> Bitboard" where
  "csq c = sqw (cidx c)"

definition idxc :: "nat \<Rightarrow> coord" where
  "idxc i = (7 - int i mod 8, int i div 8)"

lemma on_board_idxc [simp]: "i < 64 \<Longrightarrow> on_board (idxc i)"
  by (auto simp: on_board_def idxc_def)

lemma cidx_idxc [simp]: "i < 64 \<Longrightarrow> cidx (idxc i) = i"
  by (simp add: cidx_def idxc_def)

lemma file_rank_arith:
  assumes "0 \<le> f" "f < (8 :: int)"
  shows "(8 * r + 7 - f) mod 8 = 7 - f" "(8 * r + 7 - f) div 8 = r"
  using assms by presburger+

lemma idxc_cidx [simp]: "on_board c \<Longrightarrow> idxc (cidx c) = c"
  by (cases c) (simp add: cidx_def idxc_def on_board_def file_rank_arith)

lemma cidx_less [simp]: "on_board c \<Longrightarrow> cidx c < 64"
  by (auto simp: cidx_def on_board_def)

lemma cidx_inj: "on_board c \<Longrightarrow> on_board d \<Longrightarrow> cidx c = cidx d \<longleftrightarrow> c = d"
  by (metis idxc_cidx)

lemma csq_inj [square_simps]: "on_board c \<Longrightarrow> on_board d \<Longrightarrow> csq c = csq d \<longleftrightarrow> c = d"
  by (simp add: csq_def sqw_inj cidx_inj)

lemma csq_neq_0 [simp, square_simps]: "on_board c \<Longrightarrow> csq c \<noteq> 0"
  by (simp add: csq_def sqw_neq_0)

lemma is_square_csq [simp, square_simps]: "on_board c \<Longrightarrow> is_square (csq c)"
  by (simp add: csq_def is_square_sqw)

lemma is_square_coord:
  assumes "is_square w"
  obtains c where "on_board c" "w = csq c"
proof -
  from assms obtain i where "i < 64" "w = sqw i" by (auto simp: is_square_iff)
  then have "on_board (idxc i)" "w = csq (idxc i)" by (simp_all add: csq_def)
  then show ?thesis by (rule that)
qed

definition occ :: "Bitboard \<Rightarrow> coord \<Rightarrow> bool" where
  "occ w c \<longleftrightarrow> on_board c \<and> bit w (cidx c)"

lemma occ_on_board: "occ w c \<Longrightarrow> on_board c"
  by (simp add: occ_def)

lemma csq_and [square_simps]: "on_board c \<Longrightarrow> csq c AND w = (if occ w c then csq c else 0)"
  by (simp add: csq_def sqw_and occ_def)

lemma and_csq [square_simps]: "on_board c \<Longrightarrow> w AND csq c = (if occ w c then csq c else 0)"
  by (simp add: csq_def and_sqw occ_def)

lemma occ_csq [square_simps]: "on_board c \<Longrightarrow> occ (csq c) d \<longleftrightarrow> c = d"
  by (auto simp: csq_def occ_def bit_sqw cidx_inj)

lemma occ_0 [simp]: "\<not> occ 0 c"
  by (simp add: occ_def)

lemma occ_or [simp]: "occ (v OR w) c \<longleftrightarrow> occ v c \<or> occ w c"
  by (auto simp: occ_def bit_or_iff)

lemma occ_and [simp]: "occ (v AND w) c \<longleftrightarrow> occ v c \<and> occ w c"
  by (auto simp: occ_def bit_and_iff)

lemma occ_xor [simp]: "occ (v XOR w) c \<longleftrightarrow> occ v c \<noteq> occ w c"
  by (auto simp: occ_def bit_xor_iff)

lemma occ_not [simp]: "occ (NOT w) c \<longleftrightarrow> on_board c \<and> \<not> occ w c"
  by (auto simp: occ_def bit_not_iff)

lemma bb_eq_occI: "(\<And>c. occ v c \<longleftrightarrow> occ w c) \<Longrightarrow> v = w"
  by (rule bb_eqI) (metis cidx_idxc occ_def on_board_idxc)

lemma bb_eq_occ_iff: "v = w \<longleftrightarrow> (\<forall>c. occ v c \<longleftrightarrow> occ w c)"
  by (auto intro: bb_eq_occI)

lemma bb_and_0_occ_iff: "v AND w = 0 \<longleftrightarrow> (\<forall>c. \<not> (occ v c \<and> occ w c))"
  by (auto simp: bb_eq_occ_iff)

lemma set_bitboard_split_csq: "set (bitboard_split w) = csq ` {c. occ w c}"
proof -
  have "sqw ` bits w = csq ` {c. occ w c}"
  proof (rule set_eqI, rule iffI)
    fix x assume "x \<in> sqw ` bits w"
    then obtain i where i: "bit w i" "x = sqw i" by (auto simp: bits_def)
    then have "occ w (idxc i)" "x = csq (idxc i)"
      using bit_word_bound [OF i(1)] by (auto simp: occ_def csq_def)
    then show "x \<in> csq ` {c. occ w c}" by blast
  next
    fix x assume "x \<in> csq ` {c. occ w c}"
    then show "x \<in> sqw ` bits w" by (auto simp: occ_def csq_def bits_def)
  qed
  then show ?thesis by (simp add: set_bitboard_split)
qed

lemma square_idx_csq [square_simps]: "on_board c \<Longrightarrow> square_idx (csq c) = 8 * snd c + 7 - fst c"
  by (simp add: csq_def square_idx_sqw) (simp add: cidx_def on_board_def)

lemma rank_idx_csq [square_simps]: "on_board c \<Longrightarrow> rank_idx (csq c) = snd c"
  by (simp add: rank_idx_def square_idx_csq signed_divide_int_def on_board_def sgn_if Let_def
      file_rank_arith)

lemma file_idx_csq [square_simps]: "on_board c \<Longrightarrow> file_idx (csq c) = fst c"
  by (simp add: file_idx_def square_idx_csq signed_modulo_int_def signed_divide_int_def
      on_board_def sgn_if Let_def file_rank_arith)

lemma coordinates_to_square_csq:
  "on_board (f, r) \<Longrightarrow> coordinates_to_square f r = Inr (csq (f, r))"
  by (auto simp: coordinates_to_square_def shl_lsb_def board_size_def csq_def sqw_def
      cidx_def on_board_def algebra_simps)

section \<open>The compass\<close>

text \<open>
  The contract between a compass step and its clients: on a square of the board the step
  moves by the vector \<open>(dx, dy)\<close> and yields the empty bitboard when that leaves the board;
  on anything else it fails its check. All eight steps of the code meet it.
\<close>

definition cadd :: "coord \<Rightarrow> int \<Rightarrow> coord \<Rightarrow> coord" where
  "cadd c k v = (fst c + k * fst v, snd c + k * snd v)"

definition square_or_0 :: "coord \<Rightarrow> Bitboard" where
  "square_or_0 c = (if on_board c then csq c else 0)"

text \<open>The squares left in the direction of \<open>v\<close>, counting the square itself.\<close>

definition room :: "coord \<Rightarrow> Bitboard \<Rightarrow> nat" where
  "room v w = (if w = 0 then 0 else
     Suc (nat (if fst v = 1 then 7 - file_idx w else if fst v = -1 then file_idx w
               else if snd v = 1 then 7 - rank_idx w else rank_idx w)))"

locale compass =
  fixes step :: "Bitboard \<Rightarrow> Bitboard result" and v :: coord
  assumes step_csq: "on_board c \<Longrightarrow> step (csq c) = Inr (square_or_0 (cadd c 1 v))"
    and step_check: "\<not> is_square w \<Longrightarrow> step w = Inl (Raw_check_failed ''Is not square.'')"
    and unit: "fst v \<in> {-1, 0, 1}" "snd v \<in> {-1, 0, 1}" "v \<noteq> (0, 0)"
begin

lemma step_cases:
  assumes "step w = Inr w'"
  obtains c where "on_board c" "w = csq c" "w' = square_or_0 (cadd c 1 v)"
proof -
  have "is_square w" using assms step_check by fastforce
  then obtain c where c: "on_board c" "w = csq c" by (rule is_square_coord)
  with step_csq [of c] assms have "w' = square_or_0 (cadd c 1 v)" by simp
  with c show ?thesis by (rule that)
qed

text \<open>Every step brings a square closer to the edge, so a ray has at most eight squares.\<close>

lemma room_decreases:
  assumes "step w = Inr w'"
  shows "room v w' < room v w"
proof -
  from assms obtain c where c: "on_board c" "w = csq c" "w' = square_or_0 (cadd c 1 v)"
    by (rule step_cases)
  obtain f r where fr: "c = (f, r)" by (cases c)
  obtain dx dy where v: "v = (dx, dy)" by (cases v)
  show ?thesis
  proof (cases "on_board (cadd c 1 v)")
    case True
    with c(1) unit show ?thesis
      by (auto simp: c(2,3) room_def square_or_0_def square_simps fr v cadd_def on_board_def)
  next
    case False
    with c(1) show ?thesis by (simp add: c(2,3) room_def square_or_0_def)
  qed
qed

end

fun vec :: "Direction \<Rightarrow> coord" where
  "vec north = (0, 1)"
| "vec south = (0, -1)"
| "vec east = (1, 0)"
| "vec west = (-1, 0)"
| "vec northeast = (1, 1)"
| "vec northwest = (-1, 1)"
| "vec southeast = (1, -1)"
| "vec southwest = (-1, -1)"

lemma push_bit_sqw: "push_bit n (sqw i) = (if i + n < 64 then sqw (i + n) else 0)"
  by (rule bb_eqI) (auto simp: bit_push_bit_iff bit_sqw)

lemma drop_bit_sqw: "i < 64 \<Longrightarrow> drop_bit n (sqw i) = (if n \<le> i then sqw (i - n) else 0)"
  by (rule bb_eqI) (auto simp: bit_drop_bit_eq bit_sqw)

lemma shift_csq:
  assumes "on_board c"
  shows "push_bit 8 (csq c) = square_or_0 (cadd c 1 (0, 1))"
    and "drop_bit 8 (csq c) = square_or_0 (cadd c 1 (0, -1))"
    and "fst c \<noteq> 0 \<Longrightarrow> push_bit 1 (csq c) = csq (cadd c 1 (-1, 0))"
    and "fst c \<noteq> 7 \<Longrightarrow> drop_bit 1 (csq c) = csq (cadd c 1 (1, 0))"
proof -
  obtain f r where c: "c = (f, r)" by (cases c)
  have fr: "0 \<le> f" "f < 8" "0 \<le> r" "r < 8" using assms by (simp_all add: c on_board_def)
  have "cidx (f, r + 1) = cidx c + 8" "f \<noteq> 0 \<Longrightarrow> cidx (f - 1, r) = cidx c + 1"
    "8 \<le> cidx c \<longleftrightarrow> r \<noteq> 0" "cidx c + 8 < 64 \<longleftrightarrow> r \<noteq> 7"
    using fr by (auto simp: c cidx_def)
  moreover have "r \<noteq> 0 \<Longrightarrow> cidx (f, r - 1) = cidx c - 8"
    "f \<noteq> 7 \<Longrightarrow> cidx (f + 1, r) = cidx c - 1" "f \<noteq> 7 \<Longrightarrow> 1 \<le> cidx c"
    "f \<noteq> 0 \<Longrightarrow> cidx c + 1 < 64"
    using fr by (auto simp: c cidx_def)
  ultimately show "push_bit 8 (csq c) = square_or_0 (cadd c 1 (0, 1))"
    and "drop_bit 8 (csq c) = square_or_0 (cadd c 1 (0, -1))"
    and "fst c \<noteq> 0 \<Longrightarrow> push_bit 1 (csq c) = csq (cadd c 1 (-1, 0))"
    and "fst c \<noteq> 7 \<Longrightarrow> drop_bit 1 (csq c) = csq (cadd c 1 (1, 0))"
    using fr cidx_less [OF assms]
    by (auto simp: csq_def push_bit_sqw drop_bit_sqw square_or_0_def cadd_def c on_board_def)
qed

lemma straight_steps:
  assumes "on_board c"
  shows "north_of (csq c) = Inr (square_or_0 (cadd c 1 (0, 1)))"
    and "south_of (csq c) = Inr (square_or_0 (cadd c 1 (0, -1)))"
    and "east_of (csq c) = Inr (square_or_0 (cadd c 1 (1, 0)))"
    and "west_of (csq c) = Inr (square_or_0 (cadd c 1 (-1, 0)))"
  using assms shift_csq [OF assms]
  by (auto simp: north_of_def south_of_def east_of_def west_of_def board_size_def on_a_file_def
      on_h_file_def file_idx_csq square_or_0_def cadd_def on_board_def)

lemma square_or_0_eq_0 [simp]: "square_or_0 c = 0 \<longleftrightarrow> \<not> on_board c"
  by (simp add: square_or_0_def)

lemma diagonal_steps:
  assumes "on_board c"
  shows "northeast_of (csq c) = Inr (square_or_0 (cadd c 1 (1, 1)))"
    and "northwest_of (csq c) = Inr (square_or_0 (cadd c 1 (-1, 1)))"
    and "southeast_of (csq c) = Inr (square_or_0 (cadd c 1 (1, -1)))"
    and "southwest_of (csq c) = Inr (square_or_0 (cadd c 1 (-1, -1)))"
proof -
  have east: "on_board d \<Longrightarrow> east_of (square_or_0 d) = Inr (square_or_0 (cadd d 1 (1, 0)))"
    and west: "on_board d \<Longrightarrow> west_of (square_or_0 d) = Inr (square_or_0 (cadd d 1 (-1, 0)))"
    for d by (simp_all add: square_or_0_def straight_steps)
  have add: "cadd (cadd c 1 u) 1 v = cadd c 1 (fst u + fst v, snd u + snd v)" for u v
    by (simp add: cadd_def)
  have off: "\<not> on_board (cadd c 1 (0, y)) \<Longrightarrow> \<not> on_board (cadd c 1 (x, y))" for x y
    using assms by (auto simp: on_board_def cadd_def)
  show "northeast_of (csq c) = Inr (square_or_0 (cadd c 1 (1, 1)))"
    and "northwest_of (csq c) = Inr (square_or_0 (cadd c 1 (-1, 1)))"
    and "southeast_of (csq c) = Inr (square_or_0 (cadd c 1 (1, -1)))"
    and "southwest_of (csq c) = Inr (square_or_0 (cadd c 1 (-1, -1)))"
    using assms off [of 1] off [of _ "-1"]
    by (auto simp: northeast_of_def northwest_of_def southeast_of_def southwest_of_def
        straight_steps east west add off dest: off)
qed

lemmas compass_steps = straight_steps diagonal_steps

lemma direction_to_function_csq:
  "on_board c \<Longrightarrow> direction_to_function d (csq c) = Inr (square_or_0 (cadd c 1 (vec d)))"
  by (cases d) (simp_all add: compass_steps)

lemma direction_to_function_check:
  "\<not> is_square w \<Longrightarrow> direction_to_function d w = Inl (Raw_check_failed ''Is not square.'')"
  by (cases d) (simp_all add: north_of_def south_of_def east_of_def west_of_def
      northeast_of_def northwest_of_def southeast_of_def southwest_of_def)

interpretation dir: compass "direction_to_function d" "vec d" for d
  by unfold_locales
    (simp_all add: direction_to_function_csq direction_to_function_check,
      (cases d; simp)+)

section \<open>Algebraic notation\<close>

definition alg :: "coord \<Rightarrow> string" where
  "alg c = [char_of (97 + fst c), char_of (49 + snd c)]"

lemma of_char_char_of_int: "0 \<le> n \<Longrightarrow> n < 256 \<Longrightarrow> of_char (char_of (n :: int)) = n"
  by simp

lemma str_to_square_alg: "on_board c \<Longrightarrow> str_to_square (alg c @ rest) = Inr (csq c)"
  by (cases c) (auto simp: str_to_square_def alg_def Let_def on_board_def
      intro: coordinates_to_square_csq)

lemma square_to_str_csq: "on_board c \<Longrightarrow> square_to_str (csq c) = Inr (alg c)"
  by (simp add: square_to_str_def square_simps alg_def Let_def)

lemma str_to_square_cases:
  assumes "str_to_square s = Inr w"
  obtains c rest where "on_board c" "s = alg c @ rest" "w = csq c"
proof -
  from assms obtain x y rest where s: "s = x # y # rest"
    by (cases s rule: remdups_adj.cases) (auto simp: str_to_square_def)
  let ?c = "(of_char x - 97, of_char y - 49) :: coord"
  from assms have on: "on_board ?c"
    by (auto simp: str_to_square_def s Let_def on_board_def)
  moreover have "s = alg ?c @ rest" by (simp add: alg_def s)
  moreover from this str_to_square_alg [OF on, of rest] assms have "w = csq ?c" by simp
  ultimately show ?thesis by (rule that)
qed

end
