(* ===== verification/Board_State.thy ===== *)
theory Board_State
  imports Squares
begin

text \<open>
  The \<open>Board\<close> and \<open>Move\<close> structures of \<open>src/src/board.h\<close>, the mask methods, and the two
  primitives that change the placement of the pieces (\<open>remove_piece_on\<close> and
  \<open>move_piece\<close>). A pointer to one of the twelve bitboards is a pair of a colour and a
  piece (field names drop the trailing underscore of the source); reading and writing through it obey the laws of a store, from which the effect
  of the two primitives on the placement follows.
\<close>

section \<open>The code\<close>

record Board =
  white_pawns :: Bitboard
  white_rooks :: Bitboard
  white_knights :: Bitboard
  white_bishops :: Bitboard
  white_queens :: Bitboard
  white_king :: Bitboard
  black_pawns :: Bitboard
  black_rooks :: Bitboard
  black_knights :: Bitboard
  black_bishops :: Bitboard
  black_queens :: Bitboard
  black_king :: Bitboard
  is_whites_move :: bool
  en_passant_square :: "Bitboard option"
  white_has_right_to_castle_kingside :: bool
  white_has_right_to_castle_queenside :: bool
  black_has_right_to_castle_kingside :: bool
  black_has_right_to_castle_queenside :: bool
  fifty_move_clock :: int
  num_moves :: int

record Move =
  src_square :: Bitboard
  dst_square :: Bitboard
  piece_moving :: Piece
  move_type :: MoveType
  board_state :: Board

definition Move_init :: "Bitboard \<Rightarrow> Bitboard \<Rightarrow> Piece \<Rightarrow> MoveType \<Rightarrow> Board \<Rightarrow> Move" where
  "Move_init p_src_square p_dst_square p_piece_moving p_move_type p_board_state =
     \<lparr> src_square = p_src_square, dst_square = p_dst_square, piece_moving = p_piece_moving,
       move_type = p_move_type, board_state = p_board_state \<rparr>"

lemma Move_init_sel [simp]:
  "src_square (Move_init s d p t b) = s" "dst_square (Move_init s d p t b) = d"
  "piece_moving (Move_init s d p t b) = p" "move_type (Move_init s d p t b) = t"
  "board_state (Move_init s d p t b) = b"
  by (simp_all add: Move_init_def)

text \<open>A \<open>Bitboard*\<close> into a board, and access through it.\<close>

type_synonym bb_ptr = "Color \<times> Piece"

fun deref :: "Board \<Rightarrow> bb_ptr \<Rightarrow> Bitboard" where
  "deref b (white, pawn) = white_pawns b"
| "deref b (white, rook) = white_rooks b"
| "deref b (white, knight) = white_knights b"
| "deref b (white, bishop) = white_bishops b"
| "deref b (white, queen) = white_queens b"
| "deref b (white, king) = white_king b"
| "deref b (black, pawn) = black_pawns b"
| "deref b (black, rook) = black_rooks b"
| "deref b (black, knight) = black_knights b"
| "deref b (black, bishop) = black_bishops b"
| "deref b (black, queen) = black_queens b"
| "deref b (black, king) = black_king b"

fun assign :: "Board \<Rightarrow> bb_ptr \<Rightarrow> Bitboard \<Rightarrow> Board" where
  "assign b (white, pawn) w = b\<lparr>white_pawns := w\<rparr>"
| "assign b (white, rook) w = b\<lparr>white_rooks := w\<rparr>"
| "assign b (white, knight) w = b\<lparr>white_knights := w\<rparr>"
| "assign b (white, bishop) w = b\<lparr>white_bishops := w\<rparr>"
| "assign b (white, queen) w = b\<lparr>white_queens := w\<rparr>"
| "assign b (white, king) w = b\<lparr>white_king := w\<rparr>"
| "assign b (black, pawn) w = b\<lparr>black_pawns := w\<rparr>"
| "assign b (black, rook) w = b\<lparr>black_rooks := w\<rparr>"
| "assign b (black, knight) w = b\<lparr>black_knights := w\<rparr>"
| "assign b (black, bishop) w = b\<lparr>black_bishops := w\<rparr>"
| "assign b (black, queen) w = b\<lparr>black_queens := w\<rparr>"
| "assign b (black, king) w = b\<lparr>black_king := w\<rparr>"

definition all_bitboards :: "bb_ptr list" where
  "all_bitboards =
     [(white, pawn),   (white, rook),   (white, bishop), (white, knight),
      (white, queen),  (white, king),   (black, pawn),   (black, rook),
      (black, bishop), (black, knight), (black, queen),  (black, king)]"

subsection \<open>Masks\<close>

definition white_pieces :: "Board \<Rightarrow> Bitboard" where
  "white_pieces b = white_pawns b OR white_knights b OR white_bishops b OR white_rooks b OR
     white_queens b OR white_king b"

definition black_pieces :: "Board \<Rightarrow> Bitboard" where
  "black_pieces b = black_pawns b OR black_knights b OR black_bishops b OR black_rooks b OR
     black_queens b OR black_king b"

definition friends :: "Board \<Rightarrow> Color \<Rightarrow> Bitboard" where
  "friends b side = (if side = white then white_pieces b else black_pieces b)"

definition enemies :: "Board \<Rightarrow> Color \<Rightarrow> Bitboard" where
  "enemies b side = (if side = white then black_pieces b else white_pieces b)"

definition all_pieces :: "Board \<Rightarrow> Bitboard" where
  "all_pieces b = white_pieces b OR black_pieces b"

definition Board_eq :: "Board \<Rightarrow> Board \<Rightarrow> bool" where
  "Board_eq lhs rhs \<longleftrightarrow>
     (white_pawns lhs, white_rooks lhs, white_knights lhs,
      white_bishops lhs, white_queens lhs, white_king lhs,
      black_pawns lhs, black_rooks lhs, black_knights lhs,
      black_bishops lhs, black_queens lhs, black_king lhs,
      is_whites_move lhs, en_passant_square lhs,
      white_has_right_to_castle_kingside lhs,
      white_has_right_to_castle_queenside lhs,
      black_has_right_to_castle_kingside lhs,
      black_has_right_to_castle_queenside lhs,
      fifty_move_clock lhs, num_moves lhs) =
     (white_pawns rhs, white_rooks rhs, white_knights rhs,
      white_bishops rhs, white_queens rhs, white_king rhs,
      black_pawns rhs, black_rooks rhs, black_knights rhs,
      black_bishops rhs, black_queens rhs, black_king rhs,
      is_whites_move rhs, en_passant_square rhs,
      white_has_right_to_castle_kingside rhs,
      white_has_right_to_castle_queenside rhs,
      black_has_right_to_castle_kingside rhs,
      black_has_right_to_castle_queenside rhs,
      fifty_move_clock rhs, num_moves rhs)"

definition Move_eq :: "Move \<Rightarrow> Move \<Rightarrow> bool" where
  "Move_eq lhs rhs \<longleftrightarrow>
     src_square lhs = src_square rhs \<and> dst_square lhs = dst_square rhs \<and>
     piece_moving lhs = piece_moving rhs \<and> move_type lhs = move_type rhs \<and>
     Board_eq (board_state lhs) (board_state rhs)"

subsection \<open>Changing the placement\<close>

fun remove_piece_loop :: "bb_ptr list \<Rightarrow> Board \<Rightarrow> Bitboard \<Rightarrow> Board" where
  "remove_piece_loop [] b sq = b"
| "remove_piece_loop (bb_ptr # bb_ptrs) b sq =
     (if sq AND deref b bb_ptr \<noteq> 0 then assign b bb_ptr (deref b bb_ptr XOR sq)
      else remove_piece_loop bb_ptrs b sq)"

definition remove_piece_on :: "Board \<Rightarrow> Bitboard \<Rightarrow> Board" where
  "remove_piece_on b sq = remove_piece_loop all_bitboards b sq"

fun move_piece_loop :: "bb_ptr list \<Rightarrow> Board \<Rightarrow> Bitboard \<Rightarrow> Bitboard \<Rightarrow> Board result" where
  "move_piece_loop [] b src dst = Inl (Raw_check_failed ''Move not valid.'')"
| "move_piece_loop (bb_ptr # bb_ptrs) b src dst =
     (if src AND deref b bb_ptr \<noteq> 0
      then Inr (assign b bb_ptr ((deref b bb_ptr XOR src) OR dst))
      else move_piece_loop bb_ptrs b src dst)"

definition move_piece :: "Board \<Rightarrow> Bitboard \<Rightarrow> Bitboard \<Rightarrow> Board result" where
  "move_piece b src dst = move_piece_loop all_bitboards b src dst"

section \<open>The store of bitboards\<close>

text \<open>What the two loops rely on: a write through a pointer is seen through that pointer only.\<close>

locale bitboard_store =
  fixes get :: "'b \<Rightarrow> 'p \<Rightarrow> Bitboard" and put :: "'b \<Rightarrow> 'p \<Rightarrow> Bitboard \<Rightarrow> 'b"
    and ptrs :: "'p list"
  assumes get_put: "get (put b p w) q = (if p = q then w else get b q)"
    and ptrs_all: "p \<in> set ptrs"
    and ptrs_distinct: "distinct ptrs"
begin

lemma put_put_get: "get (put (put b p v) p w) q = get (put b p w) q"
  by (simp add: get_put)

lemma finite_ptrs: "finite (UNIV :: 'p set)"
  by (metis List.finite_set ptrs_all finite_subset subsetI)

lemma sum_put:
  fixes g :: "Bitboard \<Rightarrow> int"
  shows "(\<Sum>q\<leftarrow>ptrs. g (get (put b p w) q)) = (\<Sum>q\<leftarrow>ptrs. g (get b q)) - g (get b p) + g w"
proof -
  have "(\<Sum>q\<leftarrow>ptrs. g (get (put b p w) q)) = (\<Sum>q\<in>set ptrs. g (get (put b p w) q))"
    by (simp add: sum_list_distinct_conv_sum_set ptrs_distinct)
  also have "\<dots> = g w + (\<Sum>q\<in>set ptrs - {p}. g (get b q))"
    by (simp add: sum.remove [of _ p] ptrs_all get_put)
  also have "\<dots> = g w + ((\<Sum>q\<in>set ptrs. g (get b q)) - g (get b p))"
    by (simp add: sum.remove [of "set ptrs" p] ptrs_all)
  finally show ?thesis
    by (simp add: sum_list_distinct_conv_sum_set ptrs_distinct)
qed

end

lemma deref_assign: "deref (assign b p w) q = (if p = q then w else deref b q)"
proof -
  obtain c k d l where "p = (c, k)" "q = (d, l)" by (metis surj_pair)
  then show ?thesis by (cases c; cases d; cases k; cases l) simp_all
qed

lemma all_bitboards_all: "p \<in> set all_bitboards"
proof -
  obtain c k where "p = (c, k)" by (cases p)
  then show ?thesis by (cases c; cases k) (simp_all add: all_bitboards_def)
qed

interpretation store: bitboard_store deref assign all_bitboards
  by unfold_locales (auto simp: deref_assign all_bitboards_all, simp add: all_bitboards_def)

section \<open>Placements\<close>

definition on :: "Board \<Rightarrow> bb_ptr \<Rightarrow> coord \<Rightarrow> bool" where
  "on b p c \<longleftrightarrow> occ (deref b p) c"

definition occupied :: "Board \<Rightarrow> coord \<Rightarrow> bool" where
  "occupied b c \<longleftrightarrow> (\<exists>p. on b p c)"

text \<open>No square carries two pieces.\<close>

definition disjoint_pieces :: "Board \<Rightarrow> bool" where
  "disjoint_pieces b \<longleftrightarrow> (\<forall>p q c. on b p c \<longrightarrow> on b q c \<longrightarrow> p = q)"

lemma on_on_board: "on b p c \<Longrightarrow> on_board c"
  by (simp add: on_def occ_on_board)

lemma disjoint_piecesD: "disjoint_pieces b \<Longrightarrow> on b p c \<Longrightarrow> on b q c \<Longrightarrow> p = q"
  unfolding disjoint_pieces_def by blast

lemma ex_Piece: "(\<exists>k. P k) \<longleftrightarrow> P pawn \<or> P rook \<or> P knight \<or> P bishop \<or> P queen \<or> P king"
  by (metis Piece.exhaust)

lemma ex_Color: "(\<exists>c. P c) \<longleftrightarrow> P white \<or> P black"
  by (metis Color.exhaust)

lemma all_Piece:
  "(\<forall>k. P k) \<longleftrightarrow> P pawn \<and> P rook \<and> P knight \<and> P bishop \<and> P queen \<and> P king"
  by (metis Piece.exhaust)

lemma all_Color: "(\<forall>c. P c) \<longleftrightarrow> P white \<and> P black"
  by (metis Color.exhaust)

lemma occ_white_pieces: "occ (white_pieces b) c \<longleftrightarrow> (\<exists>k. on b (white, k) c)"
  by (auto simp: white_pieces_def on_def ex_Piece)

lemma occ_black_pieces: "occ (black_pieces b) c \<longleftrightarrow> (\<exists>k. on b (black, k) c)"
  by (auto simp: black_pieces_def on_def ex_Piece)

lemma flip_color_simps [simp]:
  "flip_color white = black" "flip_color black = white"
  by (simp_all add: flip_color_def)

lemma flip_flip [simp]: "flip_color (flip_color side) = side"
  by (cases side) simp_all

lemma flip_neq [simp]: "flip_color side \<noteq> side" "side \<noteq> flip_color side"
  by (cases side; simp)+

lemma Color_neq_iff: "c \<noteq> side \<longleftrightarrow> c = flip_color side"
  by (cases c; cases side) simp_all

lemma occ_friends: "occ (friends b side) c \<longleftrightarrow> (\<exists>k. on b (side, k) c)"
  by (cases side) (simp_all add: friends_def occ_white_pieces occ_black_pieces)

lemma occ_enemies: "occ (enemies b side) c \<longleftrightarrow> (\<exists>k. on b (flip_color side, k) c)"
  by (cases side) (simp_all add: enemies_def occ_white_pieces occ_black_pieces)

lemma occ_all_pieces: "occ (all_pieces b) c \<longleftrightarrow> occupied b c"
  by (auto simp: all_pieces_def occ_white_pieces occ_black_pieces occupied_def
      split_paired_Ex ex_Color)

lemma occupied_on_board: "occupied b c \<Longrightarrow> on_board c"
  by (auto simp: occupied_def on_on_board)

lemma on_cong: "(\<And>p. deref b p = deref b' p) \<Longrightarrow> on b = on b'"
  by (intro ext) (simp add: on_def)

lemma on_assign: "on (assign b p w) q c \<longleftrightarrow> (if p = q then occ w c else on b q c)"
  by (simp add: on_def deref_assign)

text \<open>The other fields are not touched by a write to a bitboard.\<close>

definition same_state :: "Board \<Rightarrow> Board \<Rightarrow> bool" where
  "same_state b b' \<longleftrightarrow>
     is_whites_move b' = is_whites_move b \<and> en_passant_square b' = en_passant_square b \<and>
     white_has_right_to_castle_kingside b' = white_has_right_to_castle_kingside b \<and>
     white_has_right_to_castle_queenside b' = white_has_right_to_castle_queenside b \<and>
     black_has_right_to_castle_kingside b' = black_has_right_to_castle_kingside b \<and>
     black_has_right_to_castle_queenside b' = black_has_right_to_castle_queenside b \<and>
     fifty_move_clock b' = fifty_move_clock b \<and> num_moves b' = num_moves b"

lemma same_state_refl [simp]: "same_state b b"
  by (simp add: same_state_def)

lemma same_state_trans: "same_state a b \<Longrightarrow> same_state b c \<Longrightarrow> same_state a c"
  by (simp add: same_state_def)

lemma same_state_assign: "same_state b (assign b p w)"
proof -
  obtain c k where "p = (c, k)" by (cases p)
  then show ?thesis by (cases c; cases k) (simp_all add: same_state_def)
qed

subsection \<open>The two primitives\<close>

text \<open>Each loop acts on the first pointer, in the order of \<open>all_bitboards\<close>, that has the square.\<close>

lemma remove_piece_loop_find:
  "on_board c \<Longrightarrow> remove_piece_loop ps b (csq c) =
     (case find (\<lambda>p. on b p c) ps of None \<Rightarrow> b | Some p \<Rightarrow> assign b p (deref b p XOR csq c))"
  by (induction ps) (simp_all add: csq_and on_def)

lemma move_piece_loop_find:
  "on_board c \<Longrightarrow> move_piece_loop ps b (csq c) w =
     (case find (\<lambda>p. on b p c) ps of None \<Rightarrow> Inl (Raw_check_failed ''Move not valid.'')
      | Some p \<Rightarrow> Inr (assign b p ((deref b p XOR csq c) OR w)))"
  by (induction ps) (simp_all add: csq_and on_def)

lemma find_on_None: "find (\<lambda>p. on b p c) all_bitboards = None \<longleftrightarrow> \<not> occupied b c"
  unfolding occupied_def find_None_iff using all_bitboards_all by blast

lemma find_on_Some: "find (\<lambda>p. on b p c) all_bitboards = Some p \<Longrightarrow> on b p c"
  by (auto simp: find_Some_iff)

lemma remove_piece_on_cases:
  assumes "on_board c"
  obtains (found) p where "on b p c"
      "remove_piece_on b (csq c) = assign b p (deref b p XOR csq c)"
    | (absent) "\<not> occupied b c" "remove_piece_on b (csq c) = b"
  using remove_piece_loop_find [OF assms, of all_bitboards b]
  by (cases "find (\<lambda>p. on b p c) all_bitboards")
    (auto simp: remove_piece_on_def find_on_None dest: find_on_Some)

lemma same_state_remove: "on_board c \<Longrightarrow> same_state b (remove_piece_on b (csq c))"
  by (rule remove_piece_on_cases [of c b]) (auto simp: same_state_assign)

lemma on_remove:
  assumes "on_board c" "disjoint_pieces b"
  shows "on (remove_piece_on b (csq c)) q d \<longleftrightarrow> on b q d \<and> d \<noteq> c"
  using assms(1)
proof (cases rule: remove_piece_on_cases [of c b])
  case (found p)
  with assms show ?thesis
    by (auto simp: on_assign occ_csq dest: disjoint_piecesD) (auto simp: on_def)
next
  case absent
  then show ?thesis unfolding occupied_def by metis
qed

lemma move_piece_cases:
  assumes "on_board c"
  obtains (found) p where "on b p c"
      "move_piece b (csq c) w = Inr (assign b p ((deref b p XOR csq c) OR w))"
    | (absent) "\<not> occupied b c"
      "move_piece b (csq c) w = Inl (Raw_check_failed ''Move not valid.'')"
  using move_piece_loop_find [OF assms, of all_bitboards b w]
  by (cases "find (\<lambda>p. on b p c) all_bitboards")
    (auto simp: move_piece_def find_on_None dest: find_on_Some)

lemma move_piece_ok:
  assumes "disjoint_pieces b" "on b p c" "on_board d" "c \<noteq> d"
  obtains b' where "move_piece b (csq c) (csq d) = Inr b'" "same_state b b'"
    "\<And>q e. on b' q e \<longleftrightarrow> (on b q e \<and> e \<noteq> c) \<or> (q = p \<and> e = d)"
proof -
  have c: "on_board c" using assms(2) by (rule on_on_board)
  then show ?thesis
  proof (cases rule: move_piece_cases [of c b "csq d"])
    case (found q)
    with assms have "q = p" by (auto dest: disjoint_piecesD)
    with found assms c show ?thesis
      by (intro that [of "assign b p ((deref b p XOR csq c) OR csq d)"])
        (auto simp: on_assign occ_csq same_state_assign on_def [symmetric]
          dest: disjoint_piecesD)
  next
    case absent
    with assms show ?thesis unfolding occupied_def by blast
  qed
qed

end
