(* ===== verification/Absl_Ascii.thy ===== *)
theory Absl_Ascii
  imports Chess_Prelude
begin

text \<open>
  ASCII character classification, case conversion and white space, \<open>ascii.h\<close> and
  \<open>ascii.cc\<close> of the vendored Abseil. The code answers every question about a character from
  a table of 256 entries; the tables are copied, and shown to agree with the character ranges
  that the documentation names. A character is its value as an \<open>unsigned char\<close>.
\<close>

section \<open>The tables\<close>

definition kPropertyBits :: "8 word list" where
  "kPropertyBits =
    [0x40, 0x40, 0x40, 0x40, 0x40, 0x40, 0x40, 0x40,
     0x40, 0x68, 0x48, 0x48, 0x48, 0x48, 0x40, 0x40,
     0x40, 0x40, 0x40, 0x40, 0x40, 0x40, 0x40, 0x40,
     0x40, 0x40, 0x40, 0x40, 0x40, 0x40, 0x40, 0x40,
     0x28, 0x10, 0x10, 0x10, 0x10, 0x10, 0x10, 0x10,
     0x10, 0x10, 0x10, 0x10, 0x10, 0x10, 0x10, 0x10,
     0x84, 0x84, 0x84, 0x84, 0x84, 0x84, 0x84, 0x84,
     0x84, 0x84, 0x10, 0x10, 0x10, 0x10, 0x10, 0x10,
     0x10, 0x85, 0x85, 0x85, 0x85, 0x85, 0x85, 0x05,
     0x05, 0x05, 0x05, 0x05, 0x05, 0x05, 0x05, 0x05,
     0x05, 0x05, 0x05, 0x05, 0x05, 0x05, 0x05, 0x05,
     0x05, 0x05, 0x05, 0x10, 0x10, 0x10, 0x10, 0x10,
     0x10, 0x85, 0x85, 0x85, 0x85, 0x85, 0x85, 0x05,
     0x05, 0x05, 0x05, 0x05, 0x05, 0x05, 0x05, 0x05,
     0x05, 0x05, 0x05, 0x05, 0x05, 0x05, 0x05, 0x05,
     0x05, 0x05, 0x05, 0x10, 0x10, 0x10, 0x10, 0x40] @ replicate 128 0"

definition kToLower :: "char list" where
  "kToLower = map char_of
    ([0x00, 0x01, 0x02, 0x03, 0x04, 0x05, 0x06, 0x07, 0x08, 0x09, 0x0a, 0x0b, 0x0c, 0x0d, 0x0e, 0x0f,
     0x10, 0x11, 0x12, 0x13, 0x14, 0x15, 0x16, 0x17, 0x18, 0x19, 0x1a, 0x1b, 0x1c, 0x1d, 0x1e, 0x1f,
     0x20, 0x21, 0x22, 0x23, 0x24, 0x25, 0x26, 0x27, 0x28, 0x29, 0x2a, 0x2b, 0x2c, 0x2d, 0x2e, 0x2f,
     0x30, 0x31, 0x32, 0x33, 0x34, 0x35, 0x36, 0x37, 0x38, 0x39, 0x3a, 0x3b, 0x3c, 0x3d, 0x3e, 0x3f,
     0x40, 0x61, 0x62, 0x63, 0x64, 0x65, 0x66, 0x67, 0x68, 0x69, 0x6a, 0x6b, 0x6c, 0x6d, 0x6e, 0x6f,
     0x70, 0x71, 0x72, 0x73, 0x74, 0x75, 0x76, 0x77, 0x78, 0x79, 0x7a, 0x5b, 0x5c, 0x5d, 0x5e, 0x5f,
     0x60, 0x61, 0x62, 0x63, 0x64, 0x65, 0x66, 0x67, 0x68, 0x69, 0x6a, 0x6b, 0x6c, 0x6d, 0x6e, 0x6f,
     0x70, 0x71, 0x72, 0x73, 0x74, 0x75, 0x76, 0x77, 0x78, 0x79, 0x7a, 0x7b, 0x7c, 0x7d, 0x7e, 0x7f,
     0x80, 0x81, 0x82, 0x83, 0x84, 0x85, 0x86, 0x87, 0x88, 0x89, 0x8a, 0x8b, 0x8c, 0x8d, 0x8e, 0x8f,
     0x90, 0x91, 0x92, 0x93, 0x94, 0x95, 0x96, 0x97, 0x98, 0x99, 0x9a, 0x9b, 0x9c, 0x9d, 0x9e, 0x9f,
     0xa0, 0xa1, 0xa2, 0xa3, 0xa4, 0xa5, 0xa6, 0xa7, 0xa8, 0xa9, 0xaa, 0xab, 0xac, 0xad, 0xae, 0xaf,
     0xb0, 0xb1, 0xb2, 0xb3, 0xb4, 0xb5, 0xb6, 0xb7, 0xb8, 0xb9, 0xba, 0xbb, 0xbc, 0xbd, 0xbe, 0xbf,
     0xc0, 0xc1, 0xc2, 0xc3, 0xc4, 0xc5, 0xc6, 0xc7, 0xc8, 0xc9, 0xca, 0xcb, 0xcc, 0xcd, 0xce, 0xcf,
     0xd0, 0xd1, 0xd2, 0xd3, 0xd4, 0xd5, 0xd6, 0xd7, 0xd8, 0xd9, 0xda, 0xdb, 0xdc, 0xdd, 0xde, 0xdf,
     0xe0, 0xe1, 0xe2, 0xe3, 0xe4, 0xe5, 0xe6, 0xe7, 0xe8, 0xe9, 0xea, 0xeb, 0xec, 0xed, 0xee, 0xef,
     0xf0, 0xf1, 0xf2, 0xf3, 0xf4, 0xf5, 0xf6, 0xf7, 0xf8, 0xf9, 0xfa, 0xfb, 0xfc, 0xfd, 0xfe, 0xff] :: nat list)"

definition kToUpper :: "char list" where
  "kToUpper = map char_of
    ([0x00, 0x01, 0x02, 0x03, 0x04, 0x05, 0x06, 0x07, 0x08, 0x09, 0x0a, 0x0b, 0x0c, 0x0d, 0x0e, 0x0f,
     0x10, 0x11, 0x12, 0x13, 0x14, 0x15, 0x16, 0x17, 0x18, 0x19, 0x1a, 0x1b, 0x1c, 0x1d, 0x1e, 0x1f,
     0x20, 0x21, 0x22, 0x23, 0x24, 0x25, 0x26, 0x27, 0x28, 0x29, 0x2a, 0x2b, 0x2c, 0x2d, 0x2e, 0x2f,
     0x30, 0x31, 0x32, 0x33, 0x34, 0x35, 0x36, 0x37, 0x38, 0x39, 0x3a, 0x3b, 0x3c, 0x3d, 0x3e, 0x3f,
     0x40, 0x41, 0x42, 0x43, 0x44, 0x45, 0x46, 0x47, 0x48, 0x49, 0x4a, 0x4b, 0x4c, 0x4d, 0x4e, 0x4f,
     0x50, 0x51, 0x52, 0x53, 0x54, 0x55, 0x56, 0x57, 0x58, 0x59, 0x5a, 0x5b, 0x5c, 0x5d, 0x5e, 0x5f,
     0x60, 0x41, 0x42, 0x43, 0x44, 0x45, 0x46, 0x47, 0x48, 0x49, 0x4a, 0x4b, 0x4c, 0x4d, 0x4e, 0x4f,
     0x50, 0x51, 0x52, 0x53, 0x54, 0x55, 0x56, 0x57, 0x58, 0x59, 0x5a, 0x7b, 0x7c, 0x7d, 0x7e, 0x7f,
     0x80, 0x81, 0x82, 0x83, 0x84, 0x85, 0x86, 0x87, 0x88, 0x89, 0x8a, 0x8b, 0x8c, 0x8d, 0x8e, 0x8f,
     0x90, 0x91, 0x92, 0x93, 0x94, 0x95, 0x96, 0x97, 0x98, 0x99, 0x9a, 0x9b, 0x9c, 0x9d, 0x9e, 0x9f,
     0xa0, 0xa1, 0xa2, 0xa3, 0xa4, 0xa5, 0xa6, 0xa7, 0xa8, 0xa9, 0xaa, 0xab, 0xac, 0xad, 0xae, 0xaf,
     0xb0, 0xb1, 0xb2, 0xb3, 0xb4, 0xb5, 0xb6, 0xb7, 0xb8, 0xb9, 0xba, 0xbb, 0xbc, 0xbd, 0xbe, 0xbf,
     0xc0, 0xc1, 0xc2, 0xc3, 0xc4, 0xc5, 0xc6, 0xc7, 0xc8, 0xc9, 0xca, 0xcb, 0xcc, 0xcd, 0xce, 0xcf,
     0xd0, 0xd1, 0xd2, 0xd3, 0xd4, 0xd5, 0xd6, 0xd7, 0xd8, 0xd9, 0xda, 0xdb, 0xdc, 0xdd, 0xde, 0xdf,
     0xe0, 0xe1, 0xe2, 0xe3, 0xe4, 0xe5, 0xe6, 0xe7, 0xe8, 0xe9, 0xea, 0xeb, 0xec, 0xed, 0xee, 0xef,
     0xf0, 0xf1, 0xf2, 0xf3, 0xf4, 0xf5, 0xf6, 0xf7, 0xf8, 0xf9, 0xfa, 0xfb, 0xfc, 0xfd, 0xfe, 0xff] :: nat list)"

section \<open>Classification\<close>

definition ascii_isalpha :: "char \<Rightarrow> bool" where
  "ascii_isalpha c \<longleftrightarrow> kPropertyBits ! of_char c AND 0x01 \<noteq> 0"

definition ascii_isalnum :: "char \<Rightarrow> bool" where
  "ascii_isalnum c \<longleftrightarrow> kPropertyBits ! of_char c AND 0x04 \<noteq> 0"

definition ascii_isspace :: "char \<Rightarrow> bool" where
  "ascii_isspace c \<longleftrightarrow> kPropertyBits ! of_char c AND 0x08 \<noteq> 0"

definition ascii_ispunct :: "char \<Rightarrow> bool" where
  "ascii_ispunct c \<longleftrightarrow> kPropertyBits ! of_char c AND 0x10 \<noteq> 0"

definition ascii_isblank :: "char \<Rightarrow> bool" where
  "ascii_isblank c \<longleftrightarrow> kPropertyBits ! of_char c AND 0x20 \<noteq> 0"

definition ascii_iscntrl :: "char \<Rightarrow> bool" where
  "ascii_iscntrl c \<longleftrightarrow> kPropertyBits ! of_char c AND 0x40 \<noteq> 0"

definition ascii_isxdigit :: "char \<Rightarrow> bool" where
  "ascii_isxdigit c \<longleftrightarrow> kPropertyBits ! of_char c AND 0x80 \<noteq> 0"

definition ascii_isdigit :: "char \<Rightarrow> bool" where
  "ascii_isdigit c \<longleftrightarrow> (of_char c :: nat) \<ge> 48 \<and> (of_char c :: nat) \<le> 57"

definition ascii_isprint :: "char \<Rightarrow> bool" where
  "ascii_isprint c \<longleftrightarrow> (of_char c :: nat) \<ge> 32 \<and> (of_char c :: nat) < 127"

definition ascii_isgraph :: "char \<Rightarrow> bool" where
  "ascii_isgraph c \<longleftrightarrow> (of_char c :: nat) > 32 \<and> (of_char c :: nat) < 127"

definition ascii_isupper :: "char \<Rightarrow> bool" where
  "ascii_isupper c \<longleftrightarrow> (of_char c :: nat) \<ge> 65 \<and> (of_char c :: nat) \<le> 90"

definition ascii_islower :: "char \<Rightarrow> bool" where
  "ascii_islower c \<longleftrightarrow> (of_char c :: nat) \<ge> 97 \<and> (of_char c :: nat) \<le> 122"

definition ascii_isascii :: "char \<Rightarrow> bool" where
  "ascii_isascii c \<longleftrightarrow> (of_char c :: nat) < 128"

definition ascii_tolower :: "char \<Rightarrow> char" where
  "ascii_tolower c = kToLower ! of_char c"

definition ascii_toupper :: "char \<Rightarrow> char" where
  "ascii_toupper c = kToUpper ! of_char c"

definition AsciiStrToLower :: "string \<Rightarrow> string" where
  "AsciiStrToLower s = map ascii_tolower s"

definition AsciiStrToUpper :: "string \<Rightarrow> string" where
  "AsciiStrToUpper s = map ascii_toupper s"

section \<open>White space\<close>

text \<open>\<open>std::find_if_not\<close>, as the index of the element it finds.\<close>

fun find_if_not :: "(char \<Rightarrow> bool) \<Rightarrow> string \<Rightarrow> nat" where
  "find_if_not P [] = 0"
| "find_if_not P (c # s) = (if \<not> P c then 0 else Suc (find_if_not P s))"

definition StripLeadingAsciiWhitespace :: "string \<Rightarrow> string" where
  "StripLeadingAsciiWhitespace str = drop (find_if_not ascii_isspace str) str"

text \<open>\<open>str.substr(0, str.rend() - it)\<close> for the reverse iterator \<open>it\<close>.\<close>

definition StripTrailingAsciiWhitespace :: "string \<Rightarrow> string" where
  "StripTrailingAsciiWhitespace str =
     take (length str - find_if_not ascii_isspace (rev str)) str"

definition StripAsciiWhitespace :: "string \<Rightarrow> string" where
  "StripAsciiWhitespace str = StripTrailingAsciiWhitespace (StripLeadingAsciiWhitespace str)"

text \<open>The overload that changes its argument in place strips the end first.\<close>

definition StripAsciiWhitespace_in_place :: "string \<Rightarrow> string" where
  "StripAsciiWhitespace_in_place str =
     StripLeadingAsciiWhitespace (StripTrailingAsciiWhitespace str)"

text \<open>
  The loop of \<open>RemoveExtraAsciiWhitespace\<close>. The output is written over the string that the
  input views, never ahead of the input; \<open>out\<close> is the reversed output so far, and
  \<open>--output_it\<close> drops its last character.
\<close>

fun remove_ws_loop :: "string \<Rightarrow> bool \<Rightarrow> string \<Rightarrow> string" where
  "remove_ws_loop [] is_ws out = rev out"
| "remove_ws_loop (c # input) is_ws out =
     (if is_ws then
        let is_ws = ascii_isspace c;
            out = (if is_ws then tl out else out)
        in remove_ws_loop input is_ws (c # out)
      else remove_ws_loop input (ascii_isspace c) (c # out))"

definition RemoveExtraAsciiWhitespace :: "string \<Rightarrow> string" where
  "RemoveExtraAsciiWhitespace str =
     (let stripped = StripAsciiWhitespace str
      in if stripped = [] then [] else remove_ws_loop stripped False [])"

section \<open>The tables and the character ranges\<close>

lemma of_char_less: "(of_char (c :: char) :: nat) < 256"
  by (metis nat_of_char_less_256)

text \<open>A table lookup is decided by comparing the whole table with the ranges once.\<close>

lemma nth_of_map_eq:
  assumes "map f xs = map g [0..<256]" "length xs = 256"
  shows "f (xs ! of_char c) = g (of_char (c :: char))"
proof -
  have "map f xs ! of_char c = map g [0..<256] ! of_char c" using assms(1) by simp
  then show ?thesis using of_char_less [of c] assms(2) by simp
qed

lemma length_kPropertyBits: "length kPropertyBits = 256"
  by (simp add: kPropertyBits_def)

lemma property_bits:
  "map (\<lambda>w. w AND 0x01 \<noteq> 0) kPropertyBits =
     map (\<lambda>n. 65 \<le> n \<and> n \<le> 90 \<or> 97 \<le> n \<and> n \<le> 122) [0..<256]"
  "map (\<lambda>w. w AND 0x04 \<noteq> 0) kPropertyBits =
     map (\<lambda>n. 48 \<le> n \<and> n \<le> 57 \<or> 65 \<le> n \<and> n \<le> 90 \<or> 97 \<le> n \<and> n \<le> 122) [0..<256]"
  "map (\<lambda>w. w AND 0x08 \<noteq> 0) kPropertyBits =
     map (\<lambda>n. n = 32 \<or> 9 \<le> n \<and> n \<le> 13) [0..<256]"
  "map (\<lambda>w. w AND 0x10 \<noteq> 0) kPropertyBits =
     map (\<lambda>n. 32 < n \<and> n < 127 \<and>
        \<not> (48 \<le> n \<and> n \<le> 57 \<or> 65 \<le> n \<and> n \<le> 90 \<or> 97 \<le> n \<and> n \<le> 122)) [0..<256]"
  "map (\<lambda>w. w AND 0x20 \<noteq> 0) kPropertyBits = map (\<lambda>n. n = 32 \<or> n = 9) [0..<256]"
  "map (\<lambda>w. w AND 0x40 \<noteq> 0) kPropertyBits = map (\<lambda>n. n < 32 \<or> n = 127) [0..<256]"
  "map (\<lambda>w. w AND 0x80 \<noteq> 0) kPropertyBits =
     map (\<lambda>n. 48 \<le> n \<and> n \<le> 57 \<or> 65 \<le> n \<and> n \<le> 70 \<or> 97 \<le> n \<and> n \<le> 102) [0..<256]"
  by code_simp+

lemmas ascii_ranges = ascii_isdigit_def ascii_isprint_def ascii_isgraph_def ascii_isupper_def
  ascii_islower_def ascii_isascii_def

lemma ascii_property:
  "ascii_isalpha c \<longleftrightarrow> ascii_isupper c \<or> ascii_islower c"
  "ascii_isalnum c \<longleftrightarrow> ascii_isdigit c \<or> ascii_isalpha c"
  "ascii_isspace c \<longleftrightarrow> c = CHR '' '' \<or> (of_char c :: nat) \<in> {9..13}"
  "ascii_ispunct c \<longleftrightarrow> ascii_isgraph c \<and> \<not> ascii_isalnum c"
  "ascii_isblank c \<longleftrightarrow> c = CHR '' '' \<or> c = CHR 0x09"
  "ascii_iscntrl c \<longleftrightarrow> ascii_isascii c \<and> \<not> ascii_isprint c"
  "ascii_isxdigit c \<longleftrightarrow> ascii_isdigit c \<or> (of_char c :: nat) \<in> {65..70} \<union> {97..102}"
proof -
  note look = property_bits [THEN nth_of_map_eq [OF _ length_kPropertyBits], of c]
  have char: "c = d \<longleftrightarrow> of_char c = (of_char d :: nat)" for d
    by simp
  show "ascii_isalpha c \<longleftrightarrow> ascii_isupper c \<or> ascii_islower c"
    using look(1) by (simp add: ascii_isalpha_def ascii_ranges)
  then show "ascii_isalnum c \<longleftrightarrow> ascii_isdigit c \<or> ascii_isalpha c"
    using look(2) by (simp add: ascii_isalnum_def ascii_ranges)
  then show "ascii_ispunct c \<longleftrightarrow> ascii_isgraph c \<and> \<not> ascii_isalnum c"
    unfolding ascii_ispunct_def look(4) \<open>ascii_isalpha c \<longleftrightarrow> _\<close> ascii_ranges by metis
  show "ascii_isspace c \<longleftrightarrow> c = CHR '' '' \<or> (of_char c :: nat) \<in> {9..13}"
    using look(3) unfolding ascii_isspace_def char by simp
  show "ascii_isblank c \<longleftrightarrow> c = CHR '' '' \<or> c = CHR 0x09"
    using look(5) unfolding ascii_isblank_def char by simp
  show "ascii_iscntrl c \<longleftrightarrow> ascii_isascii c \<and> \<not> ascii_isprint c"
    using look(6) by (auto simp: ascii_iscntrl_def ascii_ranges)
  show "ascii_isxdigit c \<longleftrightarrow> ascii_isdigit c \<or> (of_char c :: nat) \<in> {65..70} \<union> {97..102}"
    using look(7) by (simp add: ascii_isxdigit_def ascii_ranges)
qed

lemma map_of_char_char_of:
  "list_all (\<lambda>n. n < 256) ns \<Longrightarrow> map of_char (map (char_of :: nat \<Rightarrow> char) ns) = ns"
  by (induction ns) simp_all

lemma case_tables:
  "map of_char kToLower = map (\<lambda>n. if 65 \<le> n \<and> n \<le> 90 then n + 32 else n :: nat) [0..<256]"
  "map of_char kToUpper = map (\<lambda>n. if 97 \<le> n \<and> n \<le> 122 then n - 32 else n :: nat) [0..<256]"
  unfolding kToLower_def kToUpper_def
  by (subst map_of_char_char_of; code_simp)+

lemma length_case_tables: "length kToLower = 256" "length kToUpper = 256"
  by (simp_all add: kToLower_def kToUpper_def)

lemma of_char_tolower:
  "of_char (ascii_tolower c) = (if ascii_isupper c then of_char c + 32 else of_char c :: nat)"
  using nth_of_map_eq [OF case_tables(1) length_case_tables(1), of c]
  by (simp add: ascii_tolower_def ascii_ranges)

lemma of_char_toupper:
  "of_char (ascii_toupper c) = (if ascii_islower c then of_char c - 32 else of_char c :: nat)"
  using nth_of_map_eq [OF case_tables(2) length_case_tables(2), of c]
  by (simp add: ascii_toupper_def ascii_ranges)

lemma char_eq_nat: "c = d \<longleftrightarrow> of_char c = (of_char d :: nat)"
  by simp

lemma case_inverse:
  "ascii_toupper (ascii_tolower c) = ascii_toupper c"
  "ascii_tolower (ascii_toupper c) = ascii_tolower c"
  "ascii_tolower (ascii_tolower c) = ascii_tolower c"
  "ascii_toupper (ascii_toupper c) = ascii_toupper c"
  unfolding char_eq_nat of_char_tolower of_char_toupper ascii_ranges by auto

section \<open>Stripping and squeezing white space\<close>

lemma find_if_not_drop: "drop (find_if_not P s) s = dropWhile P s"
  by (induction s) simp_all

lemma find_if_not_takeWhile: "find_if_not P s = length (takeWhile P s)"
  by (induction s) simp_all

lemma strip_leading: "StripLeadingAsciiWhitespace s = dropWhile ascii_isspace s"
  by (simp add: StripLeadingAsciiWhitespace_def find_if_not_drop)

lemma strip_trailing: "StripTrailingAsciiWhitespace s = rev (dropWhile ascii_isspace (rev s))"
proof -
  have "dropWhile P (rev s) = drop (find_if_not P (rev s)) (rev s)" for P
    by (simp add: find_if_not_drop)
  then show ?thesis by (simp add: StripTrailingAsciiWhitespace_def rev_drop)
qed

lemma dropWhile_rev_dropWhile:
  "dropWhile P (rev (dropWhile P (rev s))) = rev (dropWhile P (rev (dropWhile P s)))"
proof (induction s)
  case (Cons c s)
  show ?case
  proof (cases "P c \<and> (\<forall>x\<in>set s. P x)")
    case True
    then show ?thesis by (auto simp: dropWhile_append dest: set_dropWhileD)
  next
    case False
    then consider "\<not> P c" | "P c" "\<exists>x\<in>set s. \<not> P x" by blast
    then show ?thesis
      by cases (use Cons in \<open>auto simp: dropWhile_append\<close>)
  qed
qed simp

text \<open>The last character of each run of white space is kept.\<close>

fun squeeze :: "string \<Rightarrow> string" where
  "squeeze (a # b # s) =
     (if ascii_isspace a \<and> ascii_isspace b then squeeze (b # s) else a # squeeze (b # s))"
| "squeeze s = s"

lemma remove_ws_loop_squeeze:
  "remove_ws_loop input (ascii_isspace x) (x # out) = rev out @ squeeze (x # input)"
proof (induction input arbitrary: x out)
  case (Cons c input)
  show ?case
    using Cons [of c out] Cons [of c "x # out"]
    by (cases "ascii_isspace x"; cases "ascii_isspace c") (simp_all add: Let_def)
qed simp

lemma remove_ws_loop_start: "remove_ws_loop input False [] = squeeze input"
  by (cases input) (simp_all add: remove_ws_loop_squeeze)

end
