(* ===== verification/Absl_Strings.thy ===== *)
theory Absl_Strings
  imports Chess_Prelude
begin

text \<open>
  Finding a character in a \<open>string_view\<close> of the vendored Abseil (\<open>string_view.cc\<close>), and the
  cutting of a text at a character and its inverse as list functions, which specify splitting
  and joining. A \<open>string_view\<close> is the string that it views.
\<close>

section \<open>Finding a character\<close>

text \<open>\<open>string_view::find(char, pos)\<close>: the first position from \<open>pos\<close> on, \<open>None\<close> for \<open>npos\<close>.\<close>

fun memchr :: "string \<Rightarrow> char \<Rightarrow> nat option" where
  "memchr [] c = None"
| "memchr (x # xs) c = (if x = c then Some 0 else map_option Suc (memchr xs c))"

definition string_view_find :: "string \<Rightarrow> char \<Rightarrow> nat \<Rightarrow> nat option" where
  "string_view_find text c pos =
     (if text = [] \<or> pos \<ge> length text then None
      else map_option (\<lambda>i. pos + i) (memchr (drop pos text) c))"

lemma memchr_bound: "memchr xs c = Some i \<Longrightarrow> i < length xs \<and> xs ! i = c \<and> c \<notin> set (take i xs)"
proof (induction xs arbitrary: i)
  case Nil
  then show ?case by simp
next
  case (Cons x xs)
  show ?case
  proof (cases "x = c")
    case True
    with Cons.prems show ?thesis by simp
  next
    case False
    with Cons.prems obtain j where "memchr xs c = Some j" "i = Suc j" by auto
    with Cons.IH [of j] False show ?thesis by auto
  qed
qed

lemma memchr_None: "memchr xs c = None \<longleftrightarrow> c \<notin> set xs"
  by (induction xs) auto

lemma string_view_find_Some:
  assumes "string_view_find text c p = Some i"
  shows "p \<le> i" "i < length text" "text ! i = c" "c \<notin> set (take (i - p) (drop p text))"
  using assms memchr_bound [of "drop p text" c "i - p"]
  by (auto simp: string_view_find_def split: if_splits)

lemma string_view_find_None:
  "string_view_find text c p = None \<Longrightarrow> c \<notin> set (drop p text)"
  by (auto simp: string_view_find_def memchr_None split: if_splits)

section \<open>Cutting and joining at a character\<close>

text \<open>The pieces between the delimiters, by recursion over the text.\<close>

fun split_on :: "char \<Rightarrow> string \<Rightarrow> string list" where
  "split_on c [] = [[]]"
| "split_on c (x # xs) =
     (if x = c then [] # split_on c xs
      else case split_on c xs of [] \<Rightarrow> [[x]] | p # ps \<Rightarrow> (x # p) # ps)"

fun join_with :: "char \<Rightarrow> string list \<Rightarrow> string" where
  "join_with c [] = []"
| "join_with c [p] = p"
| "join_with c (p # q # ps) = p @ c # join_with c (q # ps)"

lemma split_on_neq_Nil [simp]: "split_on c xs \<noteq> []"
  by (cases xs) (auto split: list.splits)

lemma split_on_single: "c \<notin> set xs \<Longrightarrow> split_on c xs = [xs]"
  by (induction xs) auto

lemma split_on_append: "c \<notin> set xs \<Longrightarrow> split_on c (xs @ c # ys) = xs # split_on c ys"
  by (induction xs) auto

lemma split_on_join:
  "ps \<noteq> [] \<Longrightarrow> (\<And>p. p \<in> set ps \<Longrightarrow> c \<notin> set p) \<Longrightarrow> split_on c (join_with c ps) = ps"
  by (induction c ps rule: join_with.induct) (auto simp: split_on_single split_on_append)

lemma join_Cons: "ps \<noteq> [] \<Longrightarrow> join_with c ((x # p) # ps) = x # join_with c (p # ps)"
  by (cases ps) auto

lemma join_split_on: "join_with c (split_on c xs) = xs"
proof (induction xs)
  case (Cons x xs)
  obtain p ps where ps: "split_on c xs = p # ps" by (cases "split_on c xs") auto
  with Cons show ?case by (cases ps) auto
qed simp

lemma split_on_delimiter_free: "p \<in> set (split_on c xs) \<Longrightarrow> c \<notin> set p"
  by (induction xs arbitrary: p) (auto split: if_splits list.splits)

end
