(* ===== verification/Absl_Search.thy ===== *)
theory Absl_Search
  imports Absl_Ascii Absl_Strings "HOL-Library.Sublist"
begin

text \<open>
  Searching and comparing in the vendored Abseil: the members of \<open>string_view\<close>
  (\<open>string_view.h\<close>, \<open>string_view.cc\<close>), the routines of \<open>internal/memutil.cc\<close> and
  \<open>internal/memutil.h\<close> under them, and the predicates and strippers built on them
  (\<open>match.h\<close>, \<open>match.cc\<close>, \<open>strip.h\<close>) with \<open>SimpleAtob\<close> of \<open>numbers.cc\<close>. A view is the string
  that it views, a position in it a number, \<open>npos\<close> and a null pointer are \<open>None\<close>.
\<close>

section \<open>Members of string_view\<close>

definition remove_prefix :: "string \<Rightarrow> nat \<Rightarrow> string result" where
  "remove_prefix text n = (if n \<le> length text then Inr (drop n text) else Inl Assertion_failed)"

definition remove_suffix :: "string \<Rightarrow> nat \<Rightarrow> string result" where
  "remove_suffix text n = (if n \<le> length text then Inr (take (length text - n) text) else Inl Assertion_failed)"

definition string_view_copy :: "string \<Rightarrow> nat \<Rightarrow> nat \<Rightarrow> string result" where
  "string_view_copy text n pos =
     (if pos \<le> length text then
        let rlen = min (length text - pos) n
        in if rlen > 0 then Inr (take rlen (drop pos text)) else Inr []
      else Inl Assertion_failed)"

definition substr :: "string \<Rightarrow> nat \<Rightarrow> nat \<Rightarrow> string result" where
  "substr text pos n =
     (if pos > length text then Inl (Out_of_range ''absl::string_view::substr'')
      else let n = min n (length text - pos) in Inr (take n (drop pos text)))"

text \<open>The sign of \<open>memcmp\<close> of the C library: bytes are compared as unsigned numbers.\<close>

fun memcmp :: "string \<Rightarrow> string \<Rightarrow> nat \<Rightarrow> int" where
  "memcmp (x # xs) (y # ys) (Suc n) =
     (if x = y then memcmp xs ys n else if (of_char x :: nat) < of_char y then - 1 else 1)"
| "memcmp _ _ _ = 0"

definition compare :: "string \<Rightarrow> string \<Rightarrow> int" where
  "compare s x =
     (let min_length = min (length s) (length x);
          r = (if min_length > 0 then memcmp s x min_length else 0)
      in if r < 0 then - 1 else if r > 0 then 1
         else if length s < length x then - 1
         else if length s > length x then 1
         else 0)"

section \<open>Memory routines\<close>

text \<open>\<open>memcasecmp\<close> over two buffers of the same length.\<close>

fun memcasecmp :: "string \<Rightarrow> string \<Rightarrow> int" where
  "memcasecmp (x # xs) (y # ys) =
     (let diff = int (of_char (ascii_tolower x)) - int (of_char (ascii_tolower y))
      in if diff \<noteq> 0 then diff else memcasecmp xs ys)"
| "memcasecmp _ _ = 0"

text \<open>A loop from position \<open>e\<close> down, and one from position \<open>i\<close> up.\<close>

fun down_loop :: "(char \<Rightarrow> bool) \<Rightarrow> string \<Rightarrow> nat \<Rightarrow> nat option" where
  "down_loop P text 0 = (if P (text ! 0) then Some 0 else None)"
| "down_loop P text (Suc i) = (if P (text ! Suc i) then Some (Suc i) else down_loop P text i)"

function up_loop :: "(char \<Rightarrow> bool) \<Rightarrow> string \<Rightarrow> nat \<Rightarrow> nat option" where
  "up_loop P text i =
     (if i < length text then if P (text ! i) then Some i else up_loop P text (i + 1) else None)"
  by pat_completeness auto
termination
  by (relation "measure (\<lambda>(P, text, i). length text - i)") auto

declare up_loop.simps [simp del]

definition memrchr :: "string \<Rightarrow> char \<Rightarrow> nat option" where
  "memrchr s c = (if s = [] then None else down_loop (\<lambda>x. x = c) s (length s - 1))"

text \<open>The scan of a string that ends in a null character.\<close>

fun in_c_str :: "char \<Rightarrow> string \<Rightarrow> bool" where
  "in_c_str c [] = False"
| "in_c_str c (sc # span) = (if sc = CHR 0x00 then False else if sc = c then True else in_c_str c span)"

text \<open>
  \<open>memspn\<close> on a buffer that may be longer than \<open>slen\<close>: it reads the next character before it
  tests whether there is one.
\<close>

fun memspn :: "string \<Rightarrow> nat \<Rightarrow> string \<Rightarrow> nat result" where
  "memspn [] slen accept = Inl (Undefined_behaviour ''read past the end'')"
| "memspn (c # p) slen accept =
     (if slen = 0 then Inr 0
      else if in_c_str c accept then bindr (memspn p (slen - 1) accept) (\<lambda>n. Inr (n + 1))
      else Inr 0)"

fun memcspn :: "string \<Rightarrow> nat \<Rightarrow> string \<Rightarrow> nat result" where
  "memcspn s 0 reject = Inr 0"
| "memcspn [] (Suc slen) reject = Inl (Undefined_behaviour ''read past the end'')"
| "memcspn (c # p) (Suc slen) reject =
     (if in_c_str c reject then Inr 0 else bindr (memcspn p slen reject) (\<lambda>n. Inr (n + 1)))"

fun mempbrk :: "string \<Rightarrow> string \<Rightarrow> nat option" where
  "mempbrk [] accept = None"
| "mempbrk (c # s) accept = (if in_c_str c accept then Some 0 else map_option Suc (mempbrk s accept))"

text \<open>
  \<open>memmatch\<close>: \<open>memchr\<close> jumps to the next place where the first character fits. The position
  \<open>pos\<close> is \<open>phaystack\<close> and \<open>hayend\<close> the position after the last candidate.
\<close>

function memmatch_loop :: "string \<Rightarrow> string \<Rightarrow> nat \<Rightarrow> nat \<Rightarrow> nat option" where
  "memmatch_loop haystack needle hayend pos =
     (case memchr (take (hayend - pos) (drop pos haystack)) (needle ! 0) of
        None \<Rightarrow> None
      | Some i \<Rightarrow>
          if memcmp (drop (pos + i) haystack) needle (length needle) = 0 then Some (pos + i)
          else memmatch_loop haystack needle hayend (pos + i + 1))"
  by pat_completeness auto
termination
proof (relation "measure (\<lambda>(h, n, e, p). e - p)")
  fix h n :: string and e p i
  assume "memchr (take (e - p) (drop p h)) (n ! 0) = Some i"
  then have "i < e - p" by (auto dest!: memchr_bound)
  then show "((h, n, e, p + i + 1), h, n, e, p) \<in> measure (\<lambda>(h, n, e, p). e - p)" by simp
qed simp

declare memmatch_loop.simps [simp del]

definition memmatch :: "string \<Rightarrow> string \<Rightarrow> nat option" where
  "memmatch haystack needle =
     (if length needle = 0 then Some 0
      else if length haystack < length needle then None
      else memmatch_loop haystack needle (length haystack - length needle + 1) 0)"

text \<open>
  \<open>int_memmatch\<close>: one pass over the haystack that backs up when a partial match fails;
  \<open>i\<close> and \<open>j\<close> are the positions of the two pointers.
\<close>

definition fold_case :: "bool \<Rightarrow> char \<Rightarrow> char" where
  "fold_case case_sensitive c = (if case_sensitive then c else ascii_tolower c)"

function int_memmatch_loop :: "bool \<Rightarrow> string \<Rightarrow> string \<Rightarrow> nat \<Rightarrow> nat \<Rightarrow> nat option" where
  "int_memmatch_loop cs haystack needle i j =
     (if i < length haystack then
        let hay = fold_case cs (haystack ! i);
            nee = fold_case cs (needle ! j)
        in if hay = nee then
             if j + 1 = length needle then Some (i + 1 - length needle)
             else int_memmatch_loop cs haystack needle (i + 1) (j + 1)
           else if j \<noteq> 0 then int_memmatch_loop cs haystack needle (i - j + 1) 0
           else int_memmatch_loop cs haystack needle (i + 1) j
      else None)"
  by pat_completeness auto
termination
  by (relation "measures [\<lambda>(c, h, n, i, j). length h - (i - j), \<lambda>(c, h, n, i, j). length h - i]") auto

declare int_memmatch_loop.simps [simp del]

definition int_memmatch :: "bool \<Rightarrow> string \<Rightarrow> string \<Rightarrow> nat option" where
  "int_memmatch cs haystack needle =
     (if length needle = 0 then Some 0 else int_memmatch_loop cs haystack needle 0 0)"

definition strlen :: "string \<Rightarrow> nat" where
  "strlen s = length (takeWhile (\<lambda>c. c \<noteq> CHR 0x00) s)"

definition memstr :: "string \<Rightarrow> string \<Rightarrow> nat option" where
  "memstr haystack needle = int_memmatch True haystack (take (strlen needle) needle)"

definition memcasestr :: "string \<Rightarrow> string \<Rightarrow> nat option" where
  "memcasestr haystack needle = int_memmatch False haystack (take (strlen needle) needle)"

definition memmem :: "string \<Rightarrow> string \<Rightarrow> nat option" where
  "memmem haystack needle = int_memmatch True haystack needle"

definition memcasemem :: "string \<Rightarrow> string \<Rightarrow> nat option" where
  "memcasemem haystack needle = int_memmatch False haystack needle"

section \<open>Searching a view\<close>

definition find_str :: "string \<Rightarrow> string \<Rightarrow> nat \<Rightarrow> nat option" where
  "find_str text s pos =
     (if text = [] \<or> pos > length text then
        if text = [] \<and> pos = 0 \<and> s = [] then Some 0 else None
      else map_option (\<lambda>i. pos + i) (memmatch (drop pos text) s))"

text \<open>\<open>std::find_end\<close>, \<open>None\<close> for the end of the range.\<close>

definition find_end :: "string \<Rightarrow> string \<Rightarrow> nat option" where
  "find_end hay s = find (\<lambda>i. take (length s) (drop i hay) = s) (rev [0..<length hay])"

definition rfind_str :: "string \<Rightarrow> string \<Rightarrow> nat \<Rightarrow> nat option" where
  "rfind_str text s pos =
     (if length text < length s then None
      else if s = [] then Some (min (length text) pos)
      else let last_pos = min (length text - length s) pos + length s in find_end (take last_pos text) s)"

definition rfind :: "string \<Rightarrow> char \<Rightarrow> nat \<Rightarrow> nat option" where
  "rfind text c pos =
     (if text = [] then None else down_loop (\<lambda>x. x = c) text (min pos (length text - 1)))"

definition LookupTable :: "string \<Rightarrow> bool list" where
  "LookupTable wanted = foldl (\<lambda>table c. table[of_char c := True]) (replicate 256 False) wanted"

definition find_first_of :: "string \<Rightarrow> string \<Rightarrow> nat \<Rightarrow> nat option" where
  "find_first_of text s pos =
     (if text = [] \<or> s = [] then None
      else if length s = 1 then string_view_find text (s ! 0) pos
      else let tbl = LookupTable s in up_loop (\<lambda>c. tbl ! of_char c) text pos)"

definition find_first_not_of_char :: "string \<Rightarrow> char \<Rightarrow> nat \<Rightarrow> nat option" where
  "find_first_not_of_char text c pos =
     (if text = [] then None else up_loop (\<lambda>x. x \<noteq> c) text pos)"

definition find_first_not_of :: "string \<Rightarrow> string \<Rightarrow> nat \<Rightarrow> nat option" where
  "find_first_not_of text s pos =
     (if text = [] then None
      else if length s = 1 then find_first_not_of_char text (s ! 0) pos
      else let tbl = LookupTable s in up_loop (\<lambda>c. \<not> tbl ! of_char c) text pos)"

definition find_last_of :: "string \<Rightarrow> string \<Rightarrow> nat \<Rightarrow> nat option" where
  "find_last_of text s pos =
     (if text = [] \<or> s = [] then None
      else if length s = 1 then rfind text (s ! 0) pos
      else let tbl = LookupTable s in down_loop (\<lambda>c. tbl ! of_char c) text (min pos (length text - 1)))"

definition find_last_not_of_char :: "string \<Rightarrow> char \<Rightarrow> nat \<Rightarrow> nat option" where
  "find_last_not_of_char text c pos =
     (if text = [] then None else let i = min pos (length text - 1) in down_loop (\<lambda>x. x \<noteq> c) text i)"

definition find_last_not_of :: "string \<Rightarrow> string \<Rightarrow> nat \<Rightarrow> nat option" where
  "find_last_not_of text s pos =
     (if text = [] then None
      else
        let i = min pos (length text - 1)
        in if s = [] then Some i
           else if length s = 1 then find_last_not_of_char text (s ! 0) pos
           else let tbl = LookupTable s in down_loop (\<lambda>c. \<not> tbl ! of_char c) text i)"

section \<open>Matching and stripping\<close>

definition StrContains :: "string \<Rightarrow> string \<Rightarrow> bool" where
  "StrContains haystack needle \<longleftrightarrow> find_str haystack needle 0 \<noteq> None"

definition StartsWith :: "string \<Rightarrow> string \<Rightarrow> bool" where
  "StartsWith text pre \<longleftrightarrow> pre = [] \<or> (length text \<ge> length pre \<and> memcmp text pre (length pre) = 0)"

definition EndsWith :: "string \<Rightarrow> string \<Rightarrow> bool" where
  "EndsWith text suf \<longleftrightarrow>
     suf = [] \<or> (length text \<ge> length suf \<and> memcmp (drop (length text - length suf) text) suf (length suf) = 0)"

definition EqualsIgnoreCase :: "string \<Rightarrow> string \<Rightarrow> bool" where
  "EqualsIgnoreCase piece1 piece2 \<longleftrightarrow> length piece1 = length piece2 \<and> 0 = memcasecmp piece1 piece2"

definition StartsWithIgnoreCase :: "string \<Rightarrow> string \<Rightarrow> bool result" where
  "StartsWithIgnoreCase text pre =
     (if length text \<ge> length pre then
        bindr (substr text 0 (length pre)) (\<lambda>t. Inr (EqualsIgnoreCase t pre))
      else Inr False)"

definition EndsWithIgnoreCase :: "string \<Rightarrow> string \<Rightarrow> bool result" where
  "EndsWithIgnoreCase text suf =
     (if length text \<ge> length suf then
        bindr (substr text (length text - length suf) (length text)) (\<lambda>t. Inr (EqualsIgnoreCase t suf))
      else Inr False)"

definition ConsumePrefix :: "string \<Rightarrow> string \<Rightarrow> (bool \<times> string) result" where
  "ConsumePrefix str expected =
     (if \<not> StartsWith str expected then Inr (False, str)
      else bindr (remove_prefix str (length expected)) (\<lambda>str. Inr (True, str)))"

definition ConsumeSuffix :: "string \<Rightarrow> string \<Rightarrow> (bool \<times> string) result" where
  "ConsumeSuffix str expected =
     (if \<not> EndsWith str expected then Inr (False, str)
      else bindr (remove_suffix str (length expected)) (\<lambda>str. Inr (True, str)))"

definition StripPrefix :: "string \<Rightarrow> string \<Rightarrow> string result" where
  "StripPrefix str pre = (if StartsWith str pre then remove_prefix str (length pre) else Inr str)"

definition StripSuffix :: "string \<Rightarrow> string \<Rightarrow> string result" where
  "StripSuffix str suf = (if EndsWith str suf then remove_suffix str (length suf) else Inr str)"

text \<open>\<open>None\<close> when the text is refused.\<close>

definition SimpleAtob :: "string \<Rightarrow> bool option" where
  "SimpleAtob str =
     (if EqualsIgnoreCase str ''true'' \<or> EqualsIgnoreCase str ''t'' \<or> EqualsIgnoreCase str ''yes'' \<or>
         EqualsIgnoreCase str ''y'' \<or> EqualsIgnoreCase str ''1'' then Some True
      else if EqualsIgnoreCase str ''false'' \<or> EqualsIgnoreCase str ''f'' \<or> EqualsIgnoreCase str ''no'' \<or>
         EqualsIgnoreCase str ''n'' \<or> EqualsIgnoreCase str ''0'' then Some False
      else None)"

section \<open>What the loops find\<close>

lemma find_append: "find P (xs @ ys) = (case find P xs of None \<Rightarrow> find P ys | Some x \<Rightarrow> Some x)"
  by (induction xs) auto

lemma find_cong_set: "xs = ys \<Longrightarrow> (\<And>x. x \<in> set ys \<Longrightarrow> P x = Q x) \<Longrightarrow> find P xs = find Q ys"
  by (auto intro: find_cong)

lemma find_False [simp]: "find (\<lambda>_. False) xs = None"
  by (simp add: find_None_iff)

lemma up_loop_eq: "up_loop P text i = find (\<lambda>k. P (text ! k)) [i..<length text]"
proof (induction P "text" i rule: up_loop.induct)
  case (1 P "text" i)
  then show ?case by (subst up_loop.simps) (simp add: upt_rec [of i])
qed

lemma down_loop_eq: "down_loop P text i = find (\<lambda>k. P (text ! k)) (rev [0..<Suc i])"
  by (induction i) simp_all

lemma LookupTable_nth: "LookupTable w ! of_char c \<longleftrightarrow> c \<in> set w"
proof -
  have "length t = 256 \<Longrightarrow>
      foldl (\<lambda>table c. table[of_char c := True]) t w ! of_char c \<longleftrightarrow> c \<in> set w \<or> t ! of_char c" for t
  proof (induction w arbitrary: t)
    case (Cons d w)
    have "t[of_char d := True] ! of_char c \<longleftrightarrow> c = d \<or> t ! of_char c"
      using of_char_less [of c] Cons.prems by (simp add: nth_list_update)
    with Cons show ?case by auto
  qed simp
  from this [of "replicate 256 False"] show ?thesis
    using of_char_less [of c] by (simp add: LookupTable_def)
qed

lemma memchr_find: "memchr xs c = find (\<lambda>k. xs ! k = c) [0..<length xs]"
proof (induction xs)
  case (Cons x xs)
  have "find (\<lambda>k. (x # xs) ! k = c) (map Suc ks) = map_option Suc (find (\<lambda>k. xs ! k = c) ks)" for ks
    by (induction ks) auto
  with Cons show ?case by (simp add: upt_conv_Cons map_Suc_upt [symmetric] del: upt_Suc)
qed simp

lemma find_shift: "find P [pos..<pos + n] = map_option (\<lambda>i. pos + i) (find (\<lambda>i. P (pos + i)) [0..<n])"
proof (induction n)
  case (Suc n)
  then show ?case by (simp add: find_append split: option.splits)
qed simp

lemma string_view_find_eq: "string_view_find text c pos = find (\<lambda>k. text ! k = c) [pos..<length text]"
proof (cases "pos < length text")
  case True
  then show ?thesis
    using find_shift [of "\<lambda>k. text ! k = c" pos "length text - pos"]
    by (auto simp: string_view_find_def memchr_find add.commute intro!: arg_cong [where f = "map_option _"] find_cong)
qed (auto simp: string_view_find_def)

text \<open>The six searches for a character in or out of a set.\<close>

lemma single: "length s = 1 \<Longrightarrow> (c = s ! 0) = (c \<in> set s)"
  by (cases s) auto

lemma find_first_of_eq: "find_first_of text s pos = find (\<lambda>k. text ! k \<in> set s) [pos..<length text]"
  by (auto simp: find_first_of_def string_view_find_eq up_loop_eq LookupTable_nth single find_None_iff)

lemma find_first_not_of_eq: "find_first_not_of text s pos = find (\<lambda>k. text ! k \<notin> set s) [pos..<length text]"
  by (auto simp: find_first_not_of_def find_first_not_of_char_def up_loop_eq LookupTable_nth single)

lemma find_last_of_eq:
  "find_last_of text s pos = find (\<lambda>k. text ! k \<in> set s) (rev [0..<min (Suc pos) (length text)])"
proof -
  have "text \<noteq> [] \<Longrightarrow> Suc (min pos (length text - 1)) = min (Suc pos) (length text)" by (cases "text") auto
  then show ?thesis
    by (auto simp: find_last_of_def rfind_def down_loop_eq LookupTable_nth single find_None_iff simp del: upt_Suc)
qed

lemma find_last_not_of_eq:
  "find_last_not_of text s pos = find (\<lambda>k. text ! k \<notin> set s) (rev [0..<min (Suc pos) (length text)])"
proof -
  have e: "text \<noteq> [] \<Longrightarrow> Suc (min pos (length text - 1)) = min (Suc pos) (length text)" by (cases "text") auto
  have "find (\<lambda>k. True) (rev [0..<Suc i]) = Some i" for i by simp
  note this [of "min pos (length text - 1)"]
  with e show ?thesis
    by (auto simp: find_last_not_of_def find_last_not_of_char_def down_loop_eq LookupTable_nth single Let_def
        simp del: upt_Suc)
qed

section \<open>What the matchers find\<close>

text \<open>The first place where a string occurs, from a position on.\<close>

definition occurs_at :: "string \<Rightarrow> string \<Rightarrow> nat \<Rightarrow> bool" where
  "occurs_at haystack needle p \<longleftrightarrow> prefix needle (drop p haystack)"

definition first_from :: "string \<Rightarrow> string \<Rightarrow> nat \<Rightarrow> nat option" where
  "first_from haystack needle pos = find (occurs_at haystack needle) [pos..<Suc (length haystack)]"

lemma occurs_at_length: "occurs_at h n p \<Longrightarrow> length n \<le> length h - p"
  by (auto simp: occurs_at_def dest: prefix_length_le)

lemma occurs_at_nth: "occurs_at h n p \<Longrightarrow> j < length n \<Longrightarrow> h ! (p + j) = n ! j"
proof -
  assume *: "occurs_at h n p" "j < length n"
  then obtain r where "drop p h = n @ r" by (auto simp: occurs_at_def prefix_def)
  then have "drop p h ! j = n ! j" using *(2) by (simp add: nth_append)
  moreover have "p + j < length h" using occurs_at_length [OF *(1)] *(2) by linarith
  ultimately show ?thesis by simp
qed

lemma occurs_at_iff:
  "p + length n \<le> length h \<Longrightarrow> occurs_at h n p \<longleftrightarrow> (\<forall>j<length n. h ! (p + j) = n ! j)"
proof -
  assume le: "p + length n \<le> length h"
  have "prefix n (drop p h) \<longleftrightarrow> take (length n) (drop p h) = n"
    by (metis append_eq_conv_conj prefix_def append_take_drop_id)
  also have "\<dots> \<longleftrightarrow> (\<forall>j<length n. h ! (p + j) = n ! j)"
    using le by (auto simp: list_eq_iff_nth_eq)
  finally show ?thesis by (simp add: occurs_at_def)
qed

lemma memcmp_0: "n \<le> length xs \<Longrightarrow> n \<le> length ys \<Longrightarrow> memcmp xs ys n = 0 \<longleftrightarrow> take n xs = take n ys"
  by (induction xs ys n rule: memcmp.induct) auto

lemma memcmp_prefix: "length n \<le> length h \<Longrightarrow> memcmp h n (length n) = 0 \<longleftrightarrow> prefix n h"
  by (simp add: memcmp_0) (metis append_eq_conv_conj prefix_def append_take_drop_id)

lemma find_skip:
  assumes "pos \<le> p" "p \<le> e" "\<And>k. pos \<le> k \<Longrightarrow> k < p \<Longrightarrow> \<not> P k"
  shows "find P [pos..<e] = find P [p..<e]"
proof -
  have "[pos..<e] = [pos..<p] @ [p..<e]" using assms(1,2) by (metis le_Suc_ex upt_add_eq_append)
  moreover have "find P [pos..<p] = None" using assms(3) by (auto simp: find_None_iff)
  ultimately show ?thesis by (simp add: find_append)
qed

lemma find_upt_Cons: "p < e \<Longrightarrow> find P [p..<e] = (if P p then Some p else find P [Suc p..<e])"
  by (simp add: upt_rec)

lemma memmatch_loop_eq:
  "n \<noteq> [] \<Longrightarrow> e + length n = length h + 1 \<Longrightarrow>
   memmatch_loop h n e pos = find (occurs_at h n) [pos..<e]"
proof (induction h n e pos rule: memmatch_loop.induct)
  case (1 h n e pos)
  have e: "e \<le> length h" using "1.prems" by (cases n) auto
  show ?case
  proof (cases "memchr (take (e - pos) (drop pos h)) (n ! 0)")
    case None
    have "\<not> occurs_at h n p" if "pos \<le> p" "p < e" for p
    proof
      assume "occurs_at h n p"
      then have "h ! p = n ! 0" using occurs_at_nth [of h n p 0] "1.prems"(1) by simp
      moreover have "p - pos < length (take (e - pos) (drop pos h))" using that e by auto
      moreover have "take (e - pos) (drop pos h) ! (p - pos) = h ! p" using that e by simp
      ultimately show False using None by (metis memchr_None nth_mem)
    qed
    then have "find (occurs_at h n) [pos..<e] = None" by (auto simp: find_None_iff)
    then show ?thesis by (subst memmatch_loop.simps) (simp add: None)
  next
    case (Some i)
    note b = memchr_bound [OF Some]
    then have less: "pos + i < e" by auto
    have skip: "\<not> occurs_at h n p" if "pos \<le> p" "p < pos + i" for p
    proof
      assume "occurs_at h n p"
      then have "h ! p = n ! 0" using occurs_at_nth [of h n p 0] "1.prems"(1) by simp
      moreover have "p - pos < length (take i (take (e - pos) (drop pos h)))" using that b by simp
      moreover have "take i (take (e - pos) (drop pos h)) ! (p - pos) = h ! p" using that b by (auto simp: nth_drop)
      ultimately show False using b by (metis nth_mem)
    qed
    have cmp: "memcmp (drop (pos + i) h) n (length n) = 0 \<longleftrightarrow> occurs_at h n (pos + i)"
      unfolding occurs_at_def by (rule memcmp_prefix) (use less "1.prems" in simp)
    have "find (occurs_at h n) [pos..<e] = find (occurs_at h n) [pos + i..<e]"
      by (rule find_skip) (use less skip in auto)
    also have "\<dots> = (if occurs_at h n (pos + i) then Some (pos + i) else find (occurs_at h n) [Suc (pos + i)..<e])"
      by (rule find_upt_Cons [OF less])
    finally show ?thesis
      using "1.IH" [OF Some] "1.prems" by (subst memmatch_loop.simps) (simp add: Some cmp)
  qed
qed

lemma memmatch_eq: "memmatch h n = first_from h n 0"
proof (cases "n = [] \<or> length h < length n")
  case True
  then show ?thesis
  proof
    assume "n = []"
    then show ?thesis by (simp add: memmatch_def first_from_def find_upt_Cons occurs_at_def del: upt_Suc)
  next
    assume *: "length h < length n"
    then have "\<not> occurs_at h n p" for p using occurs_at_length [of h n p] by auto
    then have "first_from h n 0 = None" by (simp add: first_from_def find_None_iff del: upt_Suc)
    with * show ?thesis by (auto simp: memmatch_def)
  qed
next
  case False
  let ?e = "length h - length n + 1"
  have "[0..<Suc (length h)] = [0..<?e] @ [?e..<Suc (length h)]"
    using False by (metis Suc_eq_plus1 diff_le_self add_le_mono1 le_Suc_ex upt_add_eq_append add_0 le0)
  moreover have "find (occurs_at h n) [?e..<Suc (length h)] = None"
    using False by (auto simp: find_None_iff simp del: upt_Suc dest!: occurs_at_length)
  ultimately have "first_from h n 0 = find (occurs_at h n) [0..<?e]"
    by (simp add: first_from_def find_append del: upt_Suc split: option.splits)
  moreover have "memmatch_loop h n ?e 0 = find (occurs_at h n) [0..<?e]"
    by (rule memmatch_loop_eq) (use False in auto)
  ultimately show ?thesis using False by (simp add: memmatch_def)
qed

text \<open>
  The one-pass matcher: the first \<open>j\<close> characters fit at \<open>i - j\<close>, and nothing before that
  place is a match.
\<close>

lemma int_memmatch_loop_eq:
  assumes "hf = map (fold_case cs) h" "nf = map (fold_case cs) n"
  shows "j \<le> i \<Longrightarrow> i \<le> length h \<Longrightarrow> j < length n \<Longrightarrow> (\<forall>k<j. hf ! (i - j + k) = nf ! k) \<Longrightarrow>
    int_memmatch_loop cs h n i j = first_from hf nf (i - j)"
  using assms
proof (induction cs h n i j rule: int_memmatch_loop.induct)
  case (1 cs h n i j)
  have len: "length hf = length h" "length nf = length n" using "1.prems" by simp_all
  show ?case
  proof (cases "i < length h")
    case False
    then have "\<not> occurs_at hf nf p" if "i - j \<le> p" for p
      using that "1.prems"(1-3) occurs_at_length [of hf nf p] len by auto
    then have "first_from hf nf (i - j) = None" by (auto simp: first_from_def find_None_iff simp del: upt_Suc)
    with False show ?thesis by (subst int_memmatch_loop.simps) simp
  next
    case True
    have nth: "fold_case cs (h ! i) = hf ! i" "fold_case cs (n ! j) = nf ! j" using True "1.prems" by simp_all
    have head: "first_from hf nf (i - j) =
        (if occurs_at hf nf (i - j) then Some (i - j) else first_from hf nf (Suc (i - j)))"
      unfolding first_from_def by (rule find_upt_Cons) (use True len in simp)
    show ?thesis
    proof (cases "hf ! i = nf ! j")
      case fits: True
      then have more: "\<forall>k<Suc j. hf ! (i - j + k) = nf ! k"
        using "1.prems"(1,4) by (simp add: less_Suc_eq)
      show ?thesis
      proof (cases "j + 1 = length n")
        case complete: True
        then have "occurs_at hf nf (i - j)"
          using more True "1.prems"(1) len by (subst occurs_at_iff) auto
        with head fits complete True nth show ?thesis by (subst int_memmatch_loop.simps) simp
      next
        case False
        then have "int_memmatch_loop cs h n (i + 1) (j + 1) = first_from hf nf (i + 1 - (j + 1))"
          by (intro "1.IH"(1) [OF True refl refl _ _ _ _ _ _ "1.prems"(5,6)])
            (use fits more True "1.prems"(1-3) in \<open>simp_all only: nth, auto\<close>)
        with fits False True nth show ?thesis by (subst int_memmatch_loop.simps) simp
      qed
    next
      case differs: False
      then have "\<not> occurs_at hf nf (i - j)"
        using occurs_at_nth [of hf nf "i - j" j] "1.prems"(1,3) len by auto
      then have step: "first_from hf nf (i - j) = first_from hf nf (i - j + 1)" using head by simp
      show ?thesis
      proof (cases "j = 0")
        case True': True
        then have "int_memmatch_loop cs h n (i + 1) j = first_from hf nf (i + 1 - j)"
          by (intro "1.IH"(3) [OF True refl refl _ _ _ _ _ _ "1.prems"(5,6)])
            (use differs [folded nth] True "1.prems"(1-3) in auto)
        with step differs True True' nth show ?thesis by (subst int_memmatch_loop.simps) simp
      next
        case False
        then have "int_memmatch_loop cs h n (i - j + 1) 0 = first_from hf nf (i - j + 1 - 0)"
          by (intro "1.IH"(2) [OF True refl refl _ _ _ _ _ _ "1.prems"(5,6)])
            (use differs [folded nth] True "1.prems"(1-3) in auto)
        with step differs True False nth show ?thesis by (subst int_memmatch_loop.simps) simp
      qed
    qed
  qed
qed

lemma int_memmatch_eq:
  "int_memmatch cs h n = first_from (map (fold_case cs) h) (map (fold_case cs) n) 0"
proof (cases "n = []")
  case True
  then show ?thesis by (simp add: int_memmatch_def first_from_def find_upt_Cons occurs_at_def del: upt_Suc)
next
  case False
  then show ?thesis
    using int_memmatch_loop_eq [OF refl refl, of 0 0 h n cs] by (simp add: int_memmatch_def)
qed

text \<open>What every substring search promises, whatever its algorithm.\<close>

locale substring_search =
  fixes search :: "string \<Rightarrow> string \<Rightarrow> nat option"
  assumes first: "search h n = first_from h n 0"
begin

lemma search_Some:
  "search h n = Some p \<longleftrightarrow> occurs_at h n p \<and> p \<le> length h \<and> (\<forall>q<p. \<not> occurs_at h n q)"
proof
  assume "search h n = Some p"
  then obtain i where "i < Suc (length h)" "occurs_at h n ([0..<Suc (length h)] ! i)"
    "p = [0..<Suc (length h)] ! i" "\<forall>j<i. \<not> occurs_at h n ([0..<Suc (length h)] ! j)"
    by (auto simp: first first_from_def find_Some_iff simp del: upt_Suc)
  then show "occurs_at h n p \<and> p \<le> length h \<and> (\<forall>q<p. \<not> occurs_at h n q)" by (simp del: upt_Suc)
next
  assume "occurs_at h n p \<and> p \<le> length h \<and> (\<forall>q<p. \<not> occurs_at h n q)"
  then show "search h n = Some p"
    by (auto simp: first first_from_def find_Some_iff simp del: upt_Suc intro!: exI [of _ p])
qed

lemma search_None: "search h n = None \<longleftrightarrow> \<not> sublist n h"
proof -
  have "(\<exists>p\<le>length h. prefix n (drop p h)) \<longleftrightarrow> sublist n h"
  proof
    assume "\<exists>p\<le>length h. prefix n (drop p h)"
    then obtain p r where "drop p h = n @ r" by (auto simp: prefix_def)
    then have "h = take p h @ n @ r" by (metis append_take_drop_id)
    then show "sublist n h" by (metis sublist_appendI)
  next
    assume "sublist n h"
    then obtain xs ys where "h = xs @ n @ ys" by (auto simp: sublist_def)
    then show "\<exists>p\<le>length h. prefix n (drop p h)" by (intro exI [of _ "length xs"]) simp
  qed
  then show ?thesis by (auto simp: first first_from_def find_None_iff occurs_at_def less_Suc_eq_le simp del: upt_Suc)
qed

end

interpretation memmatch: substring_search memmatch
  by unfold_locales (rule memmatch_eq)

interpretation memmem: substring_search memmem
proof
  have "map (fold_case True) xs = xs" for xs by (simp add: fold_case_def map_idI)
  then show "memmem h n = first_from h n 0" for h n by (simp add: memmem_def int_memmatch_eq)
qed

lemma find_str_eq: "find_str text s pos = first_from text s pos"
proof (cases "text = [] \<or> pos > length text")
  case True
  then show ?thesis by (auto simp: find_str_def first_from_def occurs_at_def)
next
  case False
  have "occurs_at (drop pos text) s = (\<lambda>i. occurs_at text s (pos + i))"
    by (auto simp: occurs_at_def add.commute)
  with False find_shift [of "occurs_at text s" pos "Suc (length text) - pos"] show ?thesis
    by (simp add: find_str_def memmatch_eq first_from_def Suc_diff_le del: upt_Suc)
qed

interpretation find_str: substring_search "\<lambda>text s. find_str text s 0"
  by unfold_locales (rule find_str_eq)

lemma StrContains_iff: "StrContains haystack needle \<longleftrightarrow> sublist needle haystack"
  using find_str.search_None by (auto simp: StrContains_def)

section \<open>Comparison\<close>

lemma compare_simps [simp]:
  "compare [] [] = 0" "compare [] (y # ys) = - 1" "compare (x # xs) [] = 1"
  "compare (x # xs) (y # ys) =
     (if x = y then compare xs ys else if (of_char x :: nat) < of_char y then - 1 else 1)"
proof -
  have "memcmp xs ys 0 = 0" by (cases xs; cases ys) auto
  moreover have "min (length xs) (length ys) = 0 \<Longrightarrow> memcmp xs ys (min (length xs) (length ys)) = 0"
    by (cases xs; cases ys) auto
  ultimately show "compare (x # xs) (y # ys) =
     (if x = y then compare xs ys else if (of_char x :: nat) < of_char y then - 1 else 1)"
    by (auto simp: compare_def Let_def)
qed (simp_all add: compare_def)

lemma compare_0: "compare s x = 0 \<longleftrightarrow> s = x"
proof (induction s arbitrary: x)
  case Nil
  then show ?case by (cases x) simp_all
next
  case (Cons a s)
  then show ?case by (cases x) auto
qed

definition char_less :: "(char \<times> char) set" where
  "char_less = {(a, b). (of_char a :: nat) < of_char b}"

lemma of_char_neq_less: "x \<noteq> y \<Longrightarrow> \<not> (of_char x :: nat) < of_char y \<Longrightarrow> (of_char y :: nat) < of_char x"
  by (metis linorder_neqE_nat of_char_eq_iff)

lemma compare_less: "compare s x < 0 \<longleftrightarrow> (s, x) \<in> lexord char_less"
proof (induction s arbitrary: x)
  case Nil
  then show ?case by (cases x) simp_all
next
  case (Cons a s)
  then show ?case by (cases x) (auto simp: char_less_def)
qed

lemma compare_swap: "compare x s = - compare s x"
proof (induction s arbitrary: x)
  case Nil
  then show ?case by (cases x) simp_all
next
  case (Cons a s)
  then show ?case by (cases x) (auto dest: of_char_neq_less)
qed

section \<open>Prefixes, suffixes and letter case\<close>

lemma StartsWith_iff: "StartsWith text pre \<longleftrightarrow> prefix pre text"
  using memcmp_prefix [of pre "text"] prefix_length_le [of pre "text"] by (auto simp: StartsWith_def)

lemma EndsWith_iff: "EndsWith text suf \<longleftrightarrow> suffix suf text"
proof -
  let ?d = "drop (length text - length suf) text"
  have "prefix suf ?d \<longleftrightarrow> suffix suf text" if "length suf \<le> length text"
  proof
    assume "prefix suf ?d"
    moreover have "length suf = length ?d" using that by simp
    ultimately have "suf = ?d" by (metis prefix_def append_eq_conv_conj take_all order_refl)
    then show "suffix suf text" by (metis suffix_drop)
  qed (auto simp: suffix_def)
  then show ?thesis
    using memcmp_prefix [of suf ?d] suffix_length_le [of suf "text"] by (auto simp: EndsWith_def)
qed

lemma StripPrefix_eq: "StripPrefix str pre = Inr (if prefix pre str then drop (length pre) str else str)"
  by (auto simp: StripPrefix_def StartsWith_iff remove_prefix_def dest: prefix_length_le)

lemma StripSuffix_eq:
  "StripSuffix str suf = Inr (if suffix suf str then take (length str - length suf) str else str)"
  by (auto simp: StripSuffix_def EndsWith_iff remove_suffix_def dest: suffix_length_le)

lemma memcasecmp_0:
  "length xs = length ys \<Longrightarrow> memcasecmp xs ys = 0 \<longleftrightarrow> map ascii_tolower xs = map ascii_tolower ys"
  by (induction xs ys rule: list_induct2) (auto simp: Let_def)

lemma EqualsIgnoreCase_iff:
  "EqualsIgnoreCase s t \<longleftrightarrow> map ascii_tolower s = map ascii_tolower t"
  using memcasecmp_0 [of s t] by (auto simp: EqualsIgnoreCase_def dest: map_eq_imp_length_eq)

lemma tolower_same: "\<not> ascii_isupper c \<Longrightarrow> ascii_tolower c = c"
  unfolding char_eq_nat of_char_tolower by simp

lemma SimpleAtob_eq:
  "SimpleAtob str =
     (let s = map ascii_tolower str
      in if s \<in> {''true'', ''t'', ''yes'', ''y'', ''1''} then Some True
         else if s \<in> {''false'', ''f'', ''no'', ''n'', ''0''} then Some False else None)"
proof -
  have "map ascii_tolower ''true'' = ''true''" "map ascii_tolower ''t'' = ''t''"
    "map ascii_tolower ''yes'' = ''yes''" "map ascii_tolower ''y'' = ''y''" "map ascii_tolower ''1'' = ''1''"
    "map ascii_tolower ''false'' = ''false''" "map ascii_tolower ''f'' = ''f''"
    "map ascii_tolower ''no'' = ''no''" "map ascii_tolower ''n'' = ''n''" "map ascii_tolower ''0'' = ''0''"
    by (simp_all add: tolower_same ascii_ranges)
  then show ?thesis
    unfolding SimpleAtob_def EqualsIgnoreCase_iff Let_def by (simp only: insert_iff empty_iff simp_thms)
qed

text \<open>
  \<open>memspn\<close> over the whole of a buffer that holds accepted characters only reads behind its end;
  \<open>memcspn\<close> never does.
\<close>

lemma memspn_overrun:
  "(\<forall>c\<in>set s. in_c_str c accept) \<Longrightarrow> memspn s (length s) accept = Inl (Undefined_behaviour ''read past the end'')"
  by (induction s) auto

lemma memcspn_eq:
  "memcspn s (length s) reject = Inr (length (takeWhile (\<lambda>c. \<not> in_c_str c reject) s))"
  by (induction s) auto

end
