(* ===== verification/Absl_Split.thy ===== *)
theory Absl_Split
  imports Absl_Search
begin

text \<open>
  \<open>absl::StrSplit\<close> of the vendored Abseil (\<open>str_split.h\<close>, \<open>str_split.cc\<close>,
  \<open>internal/str_split_internal.h\<close>): the delimiters with their \<open>Find\<close>, the predicates, the
  iterator, and the conversions of a splitter to vectors, pairs and maps. What a delimiter has to
  promise is the locale \<open>delimiter\<close>; the library's own delimiters are an interpretation of it.
  The iterator calls \<open>Find\<close> of a delimiter type \<open>'d\<close> that a caller may define, so its loops are
  partial: \<open>None\<close> is a loop that does not end, \<open>Some (Inl e)\<close> an error of \<open>Find\<close> or the exception
  of \<open>substr\<close>.
\<close>

section \<open>Delimiters\<close>

text \<open>
  A view that \<open>Find\<close> returns lies in the text: it is the offset of its start and its length. Not
  found is the empty view at the end of the text. The counter of \<open>MaxSplitsImpl\<close> is the state of
  the delimiter, so that \<open>Find\<close> also returns the delimiter.
\<close>

datatype Delimiter =
    ByString string
  | ByChar char
  | ByAnyChar string
  | ByLength int
  | MaxSplitsImpl Delimiter int int

definition ByLength_ctor :: "int \<Rightarrow> Delimiter result" where
  "ByLength_ctor len = (if len > 0 then Inr (ByLength len) else Inl (Raw_check_failed ''''))"

definition MaxSplits :: "Delimiter \<Rightarrow> int \<Rightarrow> Delimiter" where
  "MaxSplits delimiter limit = MaxSplitsImpl delimiter limit 0"

text \<open>\<open>GenericFind\<close> with the two functions of its policy: where, and how long.\<close>

definition GenericFind ::
    "string \<Rightarrow> string \<Rightarrow> nat \<Rightarrow> (string \<Rightarrow> string \<Rightarrow> nat \<Rightarrow> nat option) \<times> (string \<Rightarrow> nat) \<Rightarrow> nat \<times> nat" where
  "GenericFind text delimiter pos find_policy =
     (if delimiter = [] \<and> length text > 0 then (pos + 1, 0)
      else case fst find_policy text delimiter pos of
             None \<Rightarrow> (length text, 0)
           | Some found_pos \<Rightarrow> (found_pos, snd find_policy delimiter))"

definition LiteralPolicy :: "(string \<Rightarrow> string \<Rightarrow> nat \<Rightarrow> nat option) \<times> (string \<Rightarrow> nat)" where
  "LiteralPolicy = (find_str, length)"

definition AnyOfPolicy :: "(string \<Rightarrow> string \<Rightarrow> nat \<Rightarrow> nat option) \<times> (string \<Rightarrow> nat)" where
  "AnyOfPolicy = (find_first_of, \<lambda>_. 1)"

definition ByChar_Find :: "char \<Rightarrow> string \<Rightarrow> nat \<Rightarrow> nat \<times> nat" where
  "ByChar_Find c text pos =
     (case string_view_find text c pos of
        None \<Rightarrow> (length text, 0)
      | Some found_pos \<Rightarrow> (found_pos, 1))"

definition ByString_Find :: "string \<Rightarrow> string \<Rightarrow> nat \<Rightarrow> nat \<times> nat" where
  "ByString_Find delimiter text pos =
     (if length delimiter = 1 then
        case string_view_find text (delimiter ! 0) pos of
          None \<Rightarrow> (length text, 0)
        | Some found_pos \<Rightarrow> (found_pos, 1)
      else GenericFind text delimiter pos LiteralPolicy)"

definition ByAnyChar_Find :: "string \<Rightarrow> string \<Rightarrow> nat \<Rightarrow> nat \<times> nat" where
  "ByAnyChar_Find delimiters text pos = GenericFind text delimiters pos AnyOfPolicy"

definition ByLength_Find :: "int \<Rightarrow> string \<Rightarrow> nat \<Rightarrow> nat \<times> nat" where
  "ByLength_Find len text pos =
     (let pos = min pos (length text);
          sub = drop pos text
      in if length sub \<le> nat len then (length text, 0) else (pos + nat len, 0))"

text \<open>The counter of \<open>MaxSplitsImpl\<close> is an \<open>int\<close> that every call increments.\<close>

primrec Delimiter_Find :: "Delimiter \<Rightarrow> string \<Rightarrow> nat \<Rightarrow> ((nat \<times> nat) \<times> Delimiter) result" where
  "Delimiter_Find (ByString s) text pos = Inr (ByString_Find s text pos, ByString s)"
| "Delimiter_Find (ByChar c) text pos = Inr (ByChar_Find c text pos, ByChar c)"
| "Delimiter_Find (ByAnyChar s) text pos = Inr (ByAnyChar_Find s text pos, ByAnyChar s)"
| "Delimiter_Find (ByLength n) text pos = Inr (ByLength_Find n text pos, ByLength n)"
| "Delimiter_Find (MaxSplitsImpl delimiter limit count) text pos =
     bindr (add_int count 1) (\<lambda>incremented.
       if count = limit then Inr ((length text, 0), MaxSplitsImpl delimiter limit incremented)
       else bindr (Delimiter_Find delimiter text pos) (\<lambda>(found, delimiter).
         Inr (found, MaxSplitsImpl delimiter limit incremented)))"

section \<open>Predicates\<close>

definition AllowEmpty :: "string \<Rightarrow> bool" where
  "AllowEmpty sp = True"

definition SkipEmpty :: "string \<Rightarrow> bool" where
  "SkipEmpty sp \<longleftrightarrow> sp \<noteq> []"

definition SkipWhitespace :: "string \<Rightarrow> bool" where
  "SkipWhitespace sp \<longleftrightarrow> StripAsciiWhitespace sp \<noteq> []"

section \<open>The iterator\<close>

datatype SplitState = kInitState | kLastState | kEndState

record 'd SplitIterator =
  split_pos :: nat
  split_state :: SplitState
  split_curr :: string
  split_delimiter :: 'd

text \<open>The text of a splitter is \<open>None\<close> when the data pointer of the view is null.\<close>

record 'd Splitter =
  splitter_text :: "string option"
  splitter_delimiter :: 'd
  splitter_predicate :: "string \<Rightarrow> bool"

type_synonym 'd find = "'d \<Rightarrow> string \<Rightarrow> nat \<Rightarrow> ((nat \<times> nat) \<times> 'd) result"

definition view_text :: "string option \<Rightarrow> string" where
  "view_text t = (case t of None \<Rightarrow> [] | Some s \<Rightarrow> s)"

text \<open>
  The size of a piece: a negative difference of pointers becomes a number above every length when
  it is converted to \<open>size_t\<close>, and \<open>substr\<close> cuts it to the rest of the text.
\<close>

definition piece_size :: "string \<Rightarrow> nat \<Rightarrow> nat \<Rightarrow> nat" where
  "piece_size text from to = (if from \<le> to then to - from else length text)"

partial_function (option) SplitIterator_incr ::
    "'d find \<Rightarrow> 'd Splitter \<Rightarrow> 'd SplitIterator \<Rightarrow> 'd SplitIterator result option" where
  "SplitIterator_incr Find sp it =
     (if split_state it = kLastState then Some (Inr (it\<lparr>split_state := kEndState\<rparr>))
      else
        let text = view_text (splitter_text sp)
        in case Find (split_delimiter it) text (split_pos it) of
             Inl e \<Rightarrow> Some (Inl e)
           | Inr found \<Rightarrow>
               let d = fst found; delimiter = snd found;
                   state = (if fst d = length text then kLastState else split_state it)
               in case substr text (split_pos it) (piece_size text (split_pos it) (fst d)) of
                    Inl e \<Rightarrow> Some (Inl e)
                  | Inr piece \<Rightarrow>
                      let it = \<lparr>split_pos = split_pos it + length piece + snd d, split_state = state,
                                split_curr = piece, split_delimiter = delimiter\<rparr>
                      in if splitter_predicate sp piece then Some (Inr it) else SplitIterator_incr Find sp it)"

declare SplitIterator_incr.simps [code]

definition SplitIterator_ctor ::
    "'d find \<Rightarrow> 'd Splitter \<Rightarrow> SplitState \<Rightarrow> 'd SplitIterator result option" where
  "SplitIterator_ctor Find sp state =
     (let it = \<lparr>split_pos = 0, split_state = state, split_curr = [], split_delimiter = splitter_delimiter sp\<rparr>;
          n = length (view_text (splitter_text sp))
      in if splitter_text sp = None then Some (Inr (it\<lparr>split_state := kEndState, split_pos := n\<rparr>))
         else if state = kEndState then Some (Inr (it\<lparr>split_pos := n\<rparr>))
         else SplitIterator_incr Find sp it)"

definition at_end :: "'d SplitIterator \<Rightarrow> bool" where
  "at_end it \<longleftrightarrow> split_state it = kEndState"

definition SplitIterator_eq :: "'d SplitIterator \<Rightarrow> 'd SplitIterator \<Rightarrow> bool" where
  "SplitIterator_eq a b \<longleftrightarrow> split_state a = split_state b \<and> split_pos a = split_pos b"

text \<open>\<open>begin()\<close> and \<open>end()\<close>. The end of a splitter needs no \<open>Find\<close>: its constructor does not search.\<close>

definition Splitter_begin :: "'d find \<Rightarrow> 'd Splitter \<Rightarrow> 'd SplitIterator result option" where
  "Splitter_begin Find sp = SplitIterator_ctor Find sp kInitState"

definition Splitter_end :: "'d Splitter \<Rightarrow> 'd SplitIterator" where
  "Splitter_end sp =
     \<lparr>split_pos = length (view_text (splitter_text sp)), split_state = kEndState, split_curr = [],
      split_delimiter = splitter_delimiter sp\<rparr>"

lemma Splitter_end_ctor: "SplitIterator_ctor Find sp kEndState = Some (Inr (Splitter_end sp))"
  by (simp add: SplitIterator_ctor_def Splitter_end_def Let_def)

section \<open>Conversions\<close>

text \<open>
  The range-based loop over a splitter: the values that its body sees, in order. The general
  \<open>ConvertToContainer\<close> inserts them at the end of the container.
\<close>

partial_function (option) Splitter_loop ::
    "'d find \<Rightarrow> 'd Splitter \<Rightarrow> 'd SplitIterator \<Rightarrow> string list \<Rightarrow> string list result option" where
  "Splitter_loop Find sp it c =
     (if SplitIterator_eq it (Splitter_end sp) then Some (Inr c)
      else Option.bind (SplitIterator_incr Find sp it)
             (\<lambda>r. case r of Inl e \<Rightarrow> Some (Inl e)
                  | Inr it' \<Rightarrow> Splitter_loop Find sp it' (c @ [split_curr it])))"

declare Splitter_loop.simps [code]

definition ConvertToContainer :: "'d find \<Rightarrow> 'd Splitter \<Rightarrow> string list result option" where
  "ConvertToContainer Find sp =
     Option.bind (Splitter_begin Find sp)
       (\<lambda>r. case r of Inl e \<Rightarrow> Some (Inl e) | Inr it \<Rightarrow> Splitter_loop Find sp it [])"

text \<open>The conversion to a vector of views, which fills an array of 16 views and appends it.\<close>

partial_function (option) fill_array ::
    "'d find \<Rightarrow> 'd Splitter \<Rightarrow> 'd SplitIterator \<Rightarrow> string list \<Rightarrow> ('d SplitIterator \<times> string list) result option" where
  "fill_array Find sp it ar =
     Option.bind (SplitIterator_incr Find sp it)
       (\<lambda>r. case r of Inl e \<Rightarrow> Some (Inl e)
            | Inr it' \<Rightarrow>
                let ar = ar @ [split_curr it]
                in if length ar \<noteq> 16 \<and> \<not> at_end it' then fill_array Find sp it' ar else Some (Inr (it', ar)))"

partial_function (option) vector_loop ::
    "'d find \<Rightarrow> 'd Splitter \<Rightarrow> 'd SplitIterator \<Rightarrow> string list \<Rightarrow> string list result option" where
  "vector_loop Find sp it v =
     (if at_end it then Some (Inr v)
      else Option.bind (fill_array Find sp it [])
             (\<lambda>r. case r of Inl e \<Rightarrow> Some (Inl e)
                  | Inr x \<Rightarrow> vector_loop Find sp (fst x) (v @ snd x)))"

declare fill_array.simps [code] vector_loop.simps [code]

definition ConvertToVector :: "'d find \<Rightarrow> 'd Splitter \<Rightarrow> string list result option" where
  "ConvertToVector Find sp =
     Option.bind (Splitter_begin Find sp)
       (\<lambda>r. case r of Inl e \<Rightarrow> Some (Inl e) | Inr it \<Rightarrow> vector_loop Find sp it [])"

text \<open>The conversion to a pair.\<close>

definition ConvertToPair :: "'d find \<Rightarrow> 'd Splitter \<Rightarrow> (string \<times> string) result option" where
  "ConvertToPair Find sp =
     Option.bind (Splitter_begin Find sp)
       (\<lambda>r. case r of Inl e \<Rightarrow> Some (Inl e)
            | Inr it \<Rightarrow>
                if \<not> SplitIterator_eq it (Splitter_end sp) then
                  Option.bind (SplitIterator_incr Find sp it)
                    (\<lambda>r. case r of Inl e \<Rightarrow> Some (Inl e)
                         | Inr it' \<Rightarrow>
                             if \<not> SplitIterator_eq it' (Splitter_end sp)
                             then Some (Inr (split_curr it, split_curr it'))
                             else Some (Inr (split_curr it, [])))
                else Some (Inr ([], [])))"

text \<open>
  The conversion to a \<open>std::map\<close>. \<open>emplace\<close> leaves the value of a key that is already there, and
  its iterator, the key here, is where the next item is assigned.
\<close>

definition map_emplace :: "(string \<rightharpoonup> string) \<Rightarrow> string \<Rightarrow> string \<Rightarrow> (string \<rightharpoonup> string) \<times> string" where
  "map_emplace m k v = (if m k = None then (m(k \<mapsto> v), k) else (m, k))"

fun map_items :: "(string \<rightharpoonup> string) \<Rightarrow> string \<Rightarrow> bool \<Rightarrow> string list \<Rightarrow> (string \<rightharpoonup> string)" where
  "map_items m it ins [] = m"
| "map_items m it ins (sp # sps) =
     (if ins then let (m, it) = map_emplace m sp [] in map_items m it (\<not> ins) sps
      else map_items (m(it \<mapsto> sp)) it (\<not> ins) sps)"

definition ConvertToMap :: "'d find \<Rightarrow> 'd Splitter \<Rightarrow> (string \<rightharpoonup> string) result option" where
  "ConvertToMap Find sp =
     Option.bind (ConvertToContainer Find sp)
       (\<lambda>r. case r of Inl e \<Rightarrow> Some (Inl e) | Inr items \<Rightarrow> Some (Inr (map_items Map.empty [] True items)))"

section \<open>StrSplit\<close>

definition StrSplit_if :: "string option \<Rightarrow> Delimiter \<Rightarrow> (string \<Rightarrow> bool) \<Rightarrow> Delimiter Splitter" where
  "StrSplit_if text d p = \<lparr>splitter_text = text, splitter_delimiter = d, splitter_predicate = p\<rparr>"

definition StrSplit_by :: "string option \<Rightarrow> Delimiter \<Rightarrow> Delimiter Splitter" where
  "StrSplit_by text d = StrSplit_if text d AllowEmpty"

text \<open>
  The call of the FEN constructor, with a string of one character as delimiter and a vector of
  strings as result. The conversion returns, see \<open>StrSplit_eq\<close>: the other branch is not reached.
\<close>

definition StrSplit :: "string \<Rightarrow> char \<Rightarrow> string list" where
  "StrSplit text c =
     (case ConvertToVector Delimiter_Find (StrSplit_by (Some text) (ByString [c])) of
        Some (Inr v) \<Rightarrow> v
      | _ \<Rightarrow> [])"

section \<open>What an iterator enumerates\<close>

text \<open>
  The values of an iterator up to the end of its splitter. Each conversion is then a function of
  them.
\<close>

inductive enumerates :: "'d find \<Rightarrow> 'd Splitter \<Rightarrow> 'd SplitIterator \<Rightarrow> string list \<Rightarrow> bool" for Find sp where
  finished: "SplitIterator_eq it (Splitter_end sp) \<Longrightarrow> enumerates Find sp it []"
| item: "split_state it \<noteq> kEndState \<Longrightarrow> SplitIterator_incr Find sp it = Some (Inr it') \<Longrightarrow>
    enumerates Find sp it' ps \<Longrightarrow> enumerates Find sp it (split_curr it # ps)"

inductive_cases enumerates_NilE: "enumerates Find sp it []"
inductive_cases enumerates_ConsE: "enumerates Find sp it (p # ps)"

lemma eq_end_state: "SplitIterator_eq it (Splitter_end sp) \<Longrightarrow> split_state it = kEndState"
  by (simp add: SplitIterator_eq_def Splitter_end_def)

lemma Splitter_loop_enumerates: "enumerates Find sp it ps \<Longrightarrow> Splitter_loop Find sp it c = Some (Inr (c @ ps))"
proof (induction arbitrary: c rule: enumerates.induct)
  case (finished it)
  then show ?case by (subst Splitter_loop.simps) simp
next
  case (item it it' ps)
  have "\<not> SplitIterator_eq it (Splitter_end sp)" using item.hyps(1) eq_end_state by blast
  with item.hyps(2) item.IH show ?case by (subst Splitter_loop.simps) simp
qed

lemma enumerates_at_end: "enumerates Find sp it ps \<Longrightarrow> at_end it \<longleftrightarrow> ps = []"
  by (auto simp: at_end_def eq_end_state elim: enumerates.cases)

lemma fill_array_enumerates:
  "enumerates Find sp it ps \<Longrightarrow> ps \<noteq> [] \<Longrightarrow> length ar < 16 \<Longrightarrow>
     \<exists>it'. fill_array Find sp it ar = Some (Inr (it', ar @ take (16 - length ar) ps)) \<and>
       enumerates Find sp it' (drop (16 - length ar) ps)"
proof (induction arbitrary: ar rule: enumerates.induct)
  case (finished it)
  then show ?case by simp
next
  case (item it it' ps)
  let ?ar = "ar @ [split_curr it]"
  have unfold: "fill_array Find sp it ar =
      (if length ?ar \<noteq> 16 \<and> \<not> at_end it' then fill_array Find sp it' ?ar else Some (Inr (it', ?ar)))"
    using item.hyps(2) by (subst fill_array.simps) (simp add: Let_def)
  show ?case
  proof (cases "length ?ar \<noteq> 16 \<and> \<not> at_end it'")
    case True
    have left: "16 - length ar = Suc (16 - length ?ar)" using True item.prems(2) by simp
    have "ps \<noteq> []" using True enumerates_at_end [OF item.hyps(3)] by simp
    moreover have "length ?ar < 16" using True item.prems(2) by simp
    ultimately show ?thesis
      using item.IH [of ?ar] True unfolding unfold left by simp
  next
    case False
    have "drop (16 - length ar) (split_curr it # ps) = ps \<and>
        ar @ take (16 - length ar) (split_curr it # ps) = ?ar"
    proof (cases "at_end it'")
      case True
      then have "ps = []" using enumerates_at_end [OF item.hyps(3)] by simp
      then show ?thesis using item.prems(2) by (cases "16 - length ar") auto
    next
      case not_end: False
      then have "16 - length ar = 1" using False by simp
      then show ?thesis by simp
    qed
    then show ?thesis using False item.hyps(3) unfolding unfold by auto
  qed
qed

lemma vector_loop_enumerates: "enumerates Find sp it ps \<Longrightarrow> vector_loop Find sp it v = Some (Inr (v @ ps))"
proof (induction "length ps" arbitrary: it ps v rule: less_induct)
  case less
  show ?case
  proof (cases "ps = []")
    case True
    then show ?thesis
      using enumerates_at_end [OF less.prems] by (subst vector_loop.simps) simp
  next
    case False
    obtain it' where it': "fill_array Find sp it [] = Some (Inr (it', take 16 ps))"
        "enumerates Find sp it' (drop 16 ps)"
      using fill_array_enumerates [OF less.prems False, of "[]"] by auto
    have "vector_loop Find sp it' (v @ take 16 ps) = Some (Inr ((v @ take 16 ps) @ drop 16 ps))"
      using False by (intro less.hyps it'(2)) (cases ps, auto)
    then show ?thesis
      using it' False enumerates_at_end [OF less.prems] by (subst vector_loop.simps) simp
  qed
qed

section \<open>What a delimiter cuts\<close>

text \<open>
  The cuts of a delimiter from a position on: the pieces of the text, each with the delimiter that
  ended it, the last one with the end of the text.
\<close>

inductive cuts :: "'d find \<Rightarrow> string \<Rightarrow> 'd \<Rightarrow> nat \<Rightarrow> (string \<times> string) list \<Rightarrow> bool" for Find "text" where
  last_piece: "Find d text pos = Inr ((length text, 0), d') \<Longrightarrow> pos \<le> length text \<Longrightarrow>
    cuts Find text d pos [(drop pos text, [])]"
| piece: "Find d text pos = Inr ((b, l), d') \<Longrightarrow> pos \<le> b \<Longrightarrow> b < length text \<Longrightarrow> b + l \<le> length text \<Longrightarrow>
    cuts Find text d' (b + l) ps \<Longrightarrow>
    cuts Find text d pos ((take (b - pos) (drop pos text), take l (drop b text)) # ps)"

inductive_simps cuts_Nil [simp]: "cuts Find text d pos []"
inductive_cases cuts_ConsE: "cuts Find text d pos (p # ps)"

lemma substr_piece: "pos \<le> b \<Longrightarrow> b \<le> length text \<Longrightarrow>
    substr text pos (piece_size text pos b) = Inr (take (b - pos) (drop pos text))"
  by (simp add: substr_def piece_size_def)

text \<open>An iterator at a position before the last piece enumerates the pieces that the predicate accepts.\<close>

lemma cuts_enumerates:
  assumes "cuts Find text d pos ps" "splitter_text sp = Some text"
    "split_state it = kInitState" "split_pos it = pos" "split_delimiter it = d"
  shows "\<exists>it'. SplitIterator_incr Find sp it = Some (Inr it') \<and>
    enumerates Find sp it' (filter (splitter_predicate sp) (map fst ps))"
  using assms
proof (induction arbitrary: it rule: cuts.induct)
  case (last_piece d pos d')
  let ?it = "\<lparr>split_pos = length text, split_state = kLastState, split_curr = drop pos text, split_delimiter = d'\<rparr>"
  have incr: "SplitIterator_incr Find sp it =
      (if splitter_predicate sp (drop pos text) then Some (Inr ?it) else SplitIterator_incr Find sp ?it)"
    using last_piece substr_piece [of pos "length text" "text"]
    by (subst SplitIterator_incr.simps) (simp add: view_text_def)
  have last: "SplitIterator_incr Find sp ?it = Some (Inr (?it\<lparr>split_state := kEndState\<rparr>))"
    by (subst SplitIterator_incr.simps) simp
  have fin: "enumerates Find sp (?it\<lparr>split_state := kEndState\<rparr>) []"
    using last_piece.prems(1)
    by (intro enumerates.finished) (simp add: SplitIterator_eq_def Splitter_end_def view_text_def)
  show ?case
    using enumerates.item [OF _ last fin] incr last fin by auto
next
  case (piece d pos b l d' ps)
  let ?p = "take (b - pos) (drop pos text)"
  let ?it = "\<lparr>split_pos = b + l, split_state = kInitState, split_curr = ?p, split_delimiter = d'\<rparr>"
  have incr: "SplitIterator_incr Find sp it =
      (if splitter_predicate sp ?p then Some (Inr ?it) else SplitIterator_incr Find sp ?it)"
    using piece substr_piece [of pos b "text"]
    by (subst SplitIterator_incr.simps) (simp add: view_text_def)
  obtain it' where it': "SplitIterator_incr Find sp ?it = Some (Inr it')"
      "enumerates Find sp it' (filter (splitter_predicate sp) (map fst ps))"
    using piece.IH [of ?it] piece.prems(1) by auto
  show ?case
    using enumerates.item [OF _ it'] incr it' by auto
qed

lemma cuts_concat: "cuts Find text d pos ps \<Longrightarrow> concat (map (\<lambda>(p, s). p @ s) ps) = drop pos text"
proof (induction rule: cuts.induct)
  case (piece d pos b l d' ps)
  have "drop pos text = take (b - pos) (drop pos text) @ drop b text"
    using piece.hyps(2) append_take_drop_id [of "b - pos" "drop pos text"] by simp
  also have "drop b text = take l (drop b text) @ drop (b + l) text"
    using append_take_drop_id [of l "drop b text"] by (simp add: add.commute)
  finally show ?case using piece.IH by simp
qed simp

text \<open>
  The contract of a delimiter, as the comment of \<open>str_split.h\<close> states it: the view that \<open>Find\<close>
  returns lies in the text, from the position on, and a piece and its delimiter together are not
  empty; and it returns. \<open>ready\<close> is what the delimiter may rely on when it is called, and what the iterator keeps.
\<close>

locale delimiter =
  fixes Find :: "'d find" and ready :: "'d \<Rightarrow> string \<Rightarrow> nat \<Rightarrow> bool"
  assumes found: "ready d text pos \<Longrightarrow> \<exists>b l d'. Find d text pos = Inr ((b, l), d') \<and>
      pos \<le> b \<and> b + l \<le> length text \<and> (b < length text \<longrightarrow> pos < b + l \<and> ready d' text (b + l))"
begin

lemma ready_cuts: "ready d text pos \<Longrightarrow> \<exists>ps. cuts Find text d pos ps"
proof (induction "length text - pos" arbitrary: d pos rule: less_induct)
  case less
  obtain b l d' where f: "Find d text pos = Inr ((b, l), d')"
    and bl: "pos \<le> b" "b + l \<le> length text" "b < length text \<longrightarrow> pos < b + l \<and> ready d' text (b + l)"
    using found [OF less.prems] by blast
  show ?case
  proof (cases "b = length text")
    case True
    then show ?thesis using bl f cuts.last_piece [of Find d "text" pos d'] by auto
  next
    case False
    then have "length text - (b + l) < length text - pos" "ready d' text (b + l)" using bl by auto
    then obtain ps where "cuts Find text d' (b + l) ps" using less.hyps by blast
    then show ?thesis using cuts.piece [of Find d "text" pos b l d' ps] bl f False by auto
  qed
qed

lemma splitting_returns:
  assumes "ready (splitter_delimiter sp) text 0" "splitter_text sp = Some text"
  obtains ps it where "cuts Find text (splitter_delimiter sp) 0 ps"
    "concat (map (\<lambda>(p, s). p @ s) ps) = text"
    "Splitter_begin Find sp = Some (Inr it)"
    "enumerates Find sp it (filter (splitter_predicate sp) (map fst ps))"
proof -
  obtain ps where ps: "cuts Find text (splitter_delimiter sp) 0 ps" using ready_cuts assms(1) by blast
  let ?it = "\<lparr>split_pos = 0, split_state = kInitState, split_curr = [], split_delimiter = splitter_delimiter sp\<rparr>"
  obtain it where "SplitIterator_incr Find sp ?it = Some (Inr it)"
      "enumerates Find sp it (filter (splitter_predicate sp) (map fst ps))"
    using cuts_enumerates [OF ps assms(2), of ?it] by auto
  then show thesis
    using that [OF ps] cuts_concat [OF ps] assms(2)
    by (auto simp: Splitter_begin_def SplitIterator_ctor_def)
qed

end

section \<open>The conversions as functions of the cuts\<close>

lemma cuts_begin:
  assumes "cuts Find text (splitter_delimiter sp) 0 ps" "splitter_text sp = Some text"
  obtains it where "Splitter_begin Find sp = Some (Inr it)"
    "enumerates Find sp it (filter (splitter_predicate sp) (map fst ps))"
  using cuts_enumerates [OF assms,
      of "\<lparr>split_pos = 0, split_state = kInitState, split_curr = [], split_delimiter = splitter_delimiter sp\<rparr>"]
    assms(2) that by (auto simp: Splitter_begin_def SplitIterator_ctor_def)

lemma ConvertToContainer_cuts:
  assumes "cuts Find text (splitter_delimiter sp) 0 ps" "splitter_text sp = Some text"
  shows "ConvertToContainer Find sp = Some (Inr (filter (splitter_predicate sp) (map fst ps)))"
proof -
  from assms obtain it where "Splitter_begin Find sp = Some (Inr it)"
      "enumerates Find sp it (filter (splitter_predicate sp) (map fst ps))"
    by (rule cuts_begin)
  then show ?thesis by (simp add: ConvertToContainer_def Splitter_loop_enumerates)
qed

lemma ConvertToVector_cuts:
  assumes "cuts Find text (splitter_delimiter sp) 0 ps" "splitter_text sp = Some text"
  shows "ConvertToVector Find sp = Some (Inr (filter (splitter_predicate sp) (map fst ps)))"
proof -
  from assms obtain it where "Splitter_begin Find sp = Some (Inr it)"
      "enumerates Find sp it (filter (splitter_predicate sp) (map fst ps))"
    by (rule cuts_begin)
  then show ?thesis by (simp add: ConvertToVector_def vector_loop_enumerates)
qed

definition first_two :: "string list \<Rightarrow> string \<times> string" where
  "first_two ps = (case ps of [] \<Rightarrow> ([], []) | [p] \<Rightarrow> (p, []) | p # q # _ \<Rightarrow> (p, q))"

lemma enumerates_eq_end: "enumerates Find sp it ps \<Longrightarrow> SplitIterator_eq it (Splitter_end sp) \<longleftrightarrow> ps = []"
  by (auto simp: eq_end_state elim: enumerates.cases)

lemma ConvertToPair_cuts:
  assumes "cuts Find text (splitter_delimiter sp) 0 ps" "splitter_text sp = Some text"
  shows "ConvertToPair Find sp = Some (Inr (first_two (filter (splitter_predicate sp) (map fst ps))))"
proof -
  obtain it qs where it: "Splitter_begin Find sp = Some (Inr it)" "enumerates Find sp it qs"
      and qs: "qs = filter (splitter_predicate sp) (map fst ps)"
    using cuts_begin [OF assms] by blast
  show ?thesis
  proof (cases qs)
    case Nil
    with it enumerates_eq_end [OF it(2)] show ?thesis
      by (simp add: ConvertToPair_def first_two_def qs)
  next
    case (Cons q rs)
    then obtain it' where it': "SplitIterator_incr Find sp it = Some (Inr it')" "enumerates Find sp it' rs"
        "split_curr it = q"
      using it(2) by (auto elim: enumerates_ConsE)
    have "rs = [] \<or> (\<exists>r. rs = split_curr it' # r)"
      using it'(2) by (cases rs) (auto elim: enumerates_ConsE)
    with it it' Cons enumerates_eq_end [OF it(2)] enumerates_eq_end [OF it'(2)] show ?thesis
      by (auto simp: ConvertToPair_def first_two_def qs [symmetric])
  qed
qed

text \<open>
  The map of a sequence of keys and values: a later value of a key replaces an earlier one, and a
  last key without a value keeps the value that it has, or gets the empty one.
\<close>

lemma map_items_pair: "map_items m it True (k # v # sps) = map_items (m(k \<mapsto> v)) k True sps"
proof -
  have "(fst (map_emplace m k []))(k \<mapsto> v) = m(k \<mapsto> v)" "snd (map_emplace m k []) = k"
    by (auto simp: map_emplace_def)
  then show ?thesis by (simp add: split_def del: fun_upd_apply)
qed

lemma map_add_snoc: "m ++ map_of (xs @ [(k, v)]) = m(k \<mapsto> v) ++ map_of xs"
  by (rule ext) (auto simp: map_add_def map_of_append split: option.split)

lemma map_items_pairs:
  "map_items m it True (concat (map (\<lambda>(k, v). [k, v]) kvs)) = m ++ map_of (rev kvs)"
proof (induction kvs arbitrary: m it)
  case (Cons kv kvs)
  show ?case
    by (cases kv) (simp add: map_items_pair Cons.IH map_add_snoc del: map_items.simps(2) map_of_append fun_upd_apply)
qed simp

lemma map_items_odd:
  "map_items m it True (concat (map (\<lambda>(k, v). [k, v]) kvs) @ [k]) =
     fst (map_emplace (m ++ map_of (rev kvs)) k [])"
proof (induction kvs arbitrary: m it)
  case Nil
  then show ?case by (simp add: map_emplace_def)
next
  case (Cons kv kvs)
  show ?case
    by (cases kv) (simp add: map_items_pair Cons.IH map_add_snoc del: map_items.simps(2) map_of_append fun_upd_apply)
qed

section \<open>The delimiters of the library\<close>

text \<open>
  When \<open>Find\<close> may be called. The counter of \<open>MaxSplits\<close> must not overflow: the text that is left
  is shorter than the numbers that it has left, or its limit stops it.
\<close>

primrec Delimiter_ready :: "Delimiter \<Rightarrow> string \<Rightarrow> nat \<Rightarrow> bool" where
  "Delimiter_ready (ByString s) text pos \<longleftrightarrow> pos \<le> length text \<and> (s = [] \<longrightarrow> pos < length text \<or> text = [])"
| "Delimiter_ready (ByChar c) text pos \<longleftrightarrow> pos \<le> length text"
| "Delimiter_ready (ByAnyChar s) text pos \<longleftrightarrow> pos \<le> length text \<and> (s = [] \<longrightarrow> pos < length text \<or> text = [])"
| "Delimiter_ready (ByLength n) text pos \<longleftrightarrow> pos \<le> length text \<and> 0 < n"
| "Delimiter_ready (MaxSplitsImpl d limit count) text pos \<longleftrightarrow> Delimiter_ready d text pos \<and> 0 \<le> count \<and>
     (count + int (length text - pos) < int_max \<or> count \<le> limit \<and> limit < int_max)"

lemma first_from_Some:
  assumes "first_from text s pos = Some i"
  shows "pos \<le> i" "i + length s \<le> length text" "take (length s) (drop i text) = s"
    "\<And>j. pos \<le> j \<Longrightarrow> j < i \<Longrightarrow> \<not> occurs_at text s j"
proof -
  obtain k where k: "k < length [pos..<Suc (length text)]" "occurs_at text s ([pos..<Suc (length text)] ! k)"
      "i = [pos..<Suc (length text)] ! k" "\<forall>j<k. \<not> occurs_at text s ([pos..<Suc (length text)] ! j)"
    using assms by (auto simp: first_from_def find_Some_iff simp del: upt_Suc)
  then have i: "i = pos + k" "i \<le> length text" by (auto simp del: upt_Suc)
  then show "pos \<le> i" by simp
  have occ: "occurs_at text s i" using k by simp
  then show "i + length s \<le> length text" using occurs_at_length [OF occ] i by simp
  show "take (length s) (drop i text) = s" using occ by (auto simp: occurs_at_def prefix_def)
  show "\<not> occurs_at text s j" if "pos \<le> j" "j < i" for j
    using k(4) [rule_format, of "j - pos"] that i by (simp del: upt_Suc)
qed

lemma first_from_None: "first_from text s pos = None \<Longrightarrow> pos \<le> j \<Longrightarrow> j \<le> length text \<Longrightarrow> \<not> occurs_at text s j"
  by (auto simp: first_from_def find_None_iff simp del: upt_Suc)

lemma occurs_at_single: "occurs_at text [c] k \<longleftrightarrow> k < length text \<and> text ! k = c"
  by (cases "k < length text") (auto simp: occurs_at_def Cons_nth_drop_Suc [symmetric])

lemma string_view_find_first: "string_view_find text c pos = first_from text [c] pos"
proof -
  have "find (\<lambda>k. text ! k = c) [pos..<length text] = find (occurs_at text [c]) [pos..<length text]"
    by (rule find_cong_set) (auto simp: occurs_at_single)
  then show ?thesis
    by (simp add: string_view_find_eq first_from_def find_append occurs_at_single split: option.split)
qed

text \<open>The one-character case of \<open>ByString\<close> and \<open>ByChar\<close> are the general search.\<close>

lemma ByString_Find_eq:
  "ByString_Find s text pos =
     (if s = [] \<and> text \<noteq> [] then (pos + 1, 0)
      else case first_from text s pos of None \<Rightarrow> (length text, 0) | Some i \<Rightarrow> (i, length s))"
proof (cases "length s = 1")
  case True
  then obtain c where "s = [c]" by (cases s) auto
  then show ?thesis by (simp add: ByString_Find_def string_view_find_first split: option.split)
next
  case False
  then show ?thesis by (simp add: ByString_Find_def GenericFind_def LiteralPolicy_def find_str_eq split: option.split)
qed

lemma ByChar_Find_eq: "ByChar_Find c text pos = ByString_Find [c] text pos"
  by (simp add: ByChar_Find_def ByString_Find_def)

lemma ByAnyChar_Find_eq:
  "ByAnyChar_Find s text pos =
     (if s = [] \<and> text \<noteq> [] then (pos + 1, 0)
      else case find (\<lambda>k. text ! k \<in> set s) [pos..<length text] of None \<Rightarrow> (length text, 0) | Some i \<Rightarrow> (i, 1))"
  by (simp add: ByAnyChar_Find_def GenericFind_def AnyOfPolicy_def find_first_of_eq split: option.split)

lemma ByString_Find_bounds:
  assumes "ByString_Find s text pos = (b, l)" "pos \<le> length text" "s = [] \<longrightarrow> pos < length text \<or> text = []"
  shows "pos \<le> b \<and> b + l \<le> length text \<and> (b < length text \<longrightarrow> pos < b + l \<and> (s = [] \<longrightarrow> b + l < length text))"
  using assms first_from_Some [of "text" s pos b]
  by (auto simp: ByString_Find_eq split: if_splits option.splits)

lemma ByAnyChar_Find_bounds:
  assumes "ByAnyChar_Find s text pos = (b, l)" "pos \<le> length text" "s = [] \<longrightarrow> pos < length text \<or> text = []"
  shows "pos \<le> b \<and> b + l \<le> length text \<and> (b < length text \<longrightarrow> pos < b + l \<and> (s = [] \<longrightarrow> b + l < length text))"
  using assms by (auto simp: ByAnyChar_Find_eq find_Some_iff split: if_splits option.splits)

lemma ByLength_Find_bounds:
  assumes "ByLength_Find n text pos = (b, l)" "pos \<le> length text" "0 < n"
  shows "pos \<le> b \<and> b + l \<le> length text \<and> (b < length text \<longrightarrow> pos < b + l)"
  using assms by (auto simp: ByLength_Find_def Let_def split: if_splits)

lemma Delimiter_ready_le: "Delimiter_ready d text pos \<Longrightarrow> pos \<le> length text"
  by (induction d) auto

lemma add_int_count: "0 \<le> count \<Longrightarrow> count < int_max \<Longrightarrow> add_int count 1 = Inr (count + 1)"
  by (simp add: add_int_def int_bounds)

interpretation absl_delimiter: delimiter Delimiter_Find Delimiter_ready
proof
  fix d "text" pos
  assume "Delimiter_ready d text pos"
  then show "\<exists>b l d'. Delimiter_Find d text pos = Inr ((b, l), d') \<and> pos \<le> b \<and> b + l \<le> length text \<and>
      (b < length text \<longrightarrow> pos < b + l \<and> Delimiter_ready d' text (b + l))"
  proof (induction d)
    case (ByString s)
    obtain b l where "ByString_Find s text pos = (b, l)" by (cases "ByString_Find s text pos")
    with ByString ByString_Find_bounds [OF this] show ?case by simp
  next
    case (ByChar c)
    obtain b l where "ByString_Find [c] text pos = (b, l)" by (cases "ByString_Find [c] text pos")
    with ByChar ByString_Find_bounds [OF this] show ?case by (simp add: ByChar_Find_eq)
  next
    case (ByAnyChar s)
    obtain b l where "ByAnyChar_Find s text pos = (b, l)" by (cases "ByAnyChar_Find s text pos")
    with ByAnyChar ByAnyChar_Find_bounds [OF this] show ?case by simp
  next
    case (ByLength n)
    obtain b l where "ByLength_Find n text pos = (b, l)" by (cases "ByLength_Find n text pos")
    with ByLength ByLength_Find_bounds [OF this] show ?case by simp
  next
    case (MaxSplitsImpl d limit count)
    then have d: "Delimiter_ready d text pos" and count: "0 \<le> count"
      "count + int (length text - pos) < int_max \<or> count \<le> limit \<and> limit < int_max" by simp_all
    then have incr: "add_int count 1 = Inr (count + 1)" by (intro add_int_count) auto
    show ?case
    proof (cases "count = limit")
      case True
      then show ?thesis using incr Delimiter_ready_le [OF d] by simp
    next
      case False
      obtain b l d' where f: "Delimiter_Find d text pos = Inr ((b, l), d')" "pos \<le> b" "b + l \<le> length text"
        "b < length text \<longrightarrow> pos < b + l \<and> Delimiter_ready d' text (b + l)"
        using MaxSplitsImpl.IH [OF d] by blast
      have "Delimiter_ready (MaxSplitsImpl d' limit (count + 1)) text (b + l)" if "b < length text"
        using f that count False by auto
      then show ?thesis using False incr f by simp
    qed
  qed
qed

section \<open>Splitting by a string\<close>

fun join_str :: "string \<Rightarrow> string list \<Rightarrow> string" where
  "join_str s [] = []"
| "join_str s [p] = p"
| "join_str s (p # q # ps) = p @ s @ join_str s (q # ps)"

lemma join_str_Cons: "ps \<noteq> [] \<Longrightarrow> join_str s (p # ps) = p @ s @ join_str s ps"
  by (cases ps) auto

text \<open>
  The pieces of a text that is cut at the first occurrence of a string, again and again: behind a
  piece the string occurs and not earlier, and in the last piece it does not occur.
\<close>

definition first_cut :: "string \<Rightarrow> string \<Rightarrow> bool" where
  "first_cut s p \<longleftrightarrow> (\<forall>j<length p. \<not> occurs_at (p @ s) s j)"

definition pieces_by :: "string \<Rightarrow> string list \<Rightarrow> bool" where
  "pieces_by s ps \<longleftrightarrow> ps \<noteq> [] \<and> (\<forall>p\<in>set (butlast ps). first_cut s p) \<and> \<not> sublist s (last ps)"

lemma pieces_by_Cons:
  "ps \<noteq> [] \<Longrightarrow> pieces_by s (p # ps) \<longleftrightarrow> first_cut s p \<and> pieces_by s ps"
  by (auto simp: pieces_by_def)

lemma pieces_by_single: "pieces_by s [p] \<longleftrightarrow> \<not> sublist s p"
  by (simp add: pieces_by_def)

lemma occurs_at_append: "j + length s \<le> length xs \<Longrightarrow> occurs_at (xs @ ys) s j \<longleftrightarrow> occurs_at xs s j"
  by (auto simp: occurs_at_iff nth_append)

lemma first_cut_append: "first_cut s p \<Longrightarrow> j < length p \<Longrightarrow> \<not> occurs_at (p @ s @ ys) s j"
  using occurs_at_append [of j s "p @ s" ys] by (simp add: first_cut_def)

lemma occurs_at_self: "occurs_at (p @ s @ ys) s (length p)"
  by (simp add: occurs_at_def)

lemma pieces_by_unique: "pieces_by s ps \<Longrightarrow> pieces_by s qs \<Longrightarrow> join_str s ps = join_str s qs \<Longrightarrow> ps = qs"
proof (induction ps arbitrary: qs)
  case Nil
  then show ?case by (simp add: pieces_by_def)
next
  case (Cons p ps)
  obtain q qs' where qs: "qs = q # qs'" using Cons.prems(2) by (cases qs) (auto simp: pieces_by_def)
  show ?case
  proof (cases "ps = [] \<or> qs' = []")
    case True
    then show ?thesis
      using Cons.prems qs by (cases "ps = []"; cases "qs' = []")
        (auto simp: join_str_Cons pieces_by_single pieces_by_Cons sublist_appendI)
  next
    case False
    let ?t = "join_str s ps" and ?u = "join_str s qs'"
    have eq: "p @ s @ ?t = q @ s @ ?u" using Cons.prems(3) False qs by (simp add: join_str_Cons)
    have cut: "first_cut s p" "first_cut s q" "pieces_by s ps" "pieces_by s qs'"
      using Cons.prems(1,2) False qs by (auto simp: pieces_by_Cons)
    have "\<not> length q < length p" "\<not> length p < length q"
      using first_cut_append [OF cut(1), of "length q" ?t] occurs_at_self [of q s ?u]
        first_cut_append [OF cut(2), of "length p" ?u] occurs_at_self [of p s ?t] eq by auto
    then have "length p = length q" by simp
    with eq have "p = q" "?t = ?u" by auto
    then show ?thesis using Cons.IH [of qs'] cut qs by simp
  qed
qed

lemma ByString_cuts:
  "cuts Delimiter_Find text d pos cs \<Longrightarrow> d = ByString s \<Longrightarrow> s \<noteq> [] \<Longrightarrow>
     pieces_by s (map fst cs) \<and> join_str s (map fst cs) = drop pos text"
proof (induction rule: cuts.induct)
  case (last_piece d pos d')
  have "first_from text s pos = None"
    using last_piece first_from_Some(2) [of "text" s pos "length text"]
    by (auto simp: ByString_Find_eq split: option.splits)
  then have "\<not> occurs_at (drop pos text) s j" for j
    using first_from_None [of "text" s pos "pos + j"] last_piece.prems(2)
    by (cases "pos + j \<le> length text") (auto simp: occurs_at_def add.commute)
  then have "\<not> sublist s (drop pos text)"
    using occurs_at_self by (metis sublist_def)
  then show ?case by (simp add: pieces_by_single)
next
  case (piece d pos b l d' cs)
  have ff: "first_from text s pos = Some b" and l: "l = length s" and d': "d' = ByString s"
    using piece by (auto simp: ByString_Find_eq split: option.splits)
  note at = first_from_Some [OF ff]
  let ?p = "take (b - pos) (drop pos text)"
  have whole: "drop pos text = ?p @ s @ drop (b + l) text"
    using append_take_drop_id [of "b - pos" "drop pos text"] append_take_drop_id [of l "drop b text"] at l
    by (simp add: add.commute)
  have "first_cut s ?p"
    unfolding first_cut_def
  proof (intro allI impI)
    fix j
    assume j: "j < length ?p"
    then have "\<not> occurs_at text s (pos + j)" using at(1) by (intro at(4)) auto
    then have "\<not> occurs_at (drop pos text) s j" by (simp add: occurs_at_def add.commute)
    then show "\<not> occurs_at (?p @ s) s j"
      using whole occurs_at_append [of j s "?p @ s" "drop (b + l) text"] j by simp
  qed
  moreover have "cs \<noteq> []" using piece.hyps(5) by auto
  ultimately show ?case
    using piece.IH [OF d'] piece.prems(2) whole by (simp add: pieces_by_Cons join_str_Cons)
qed

text \<open>Splitting by a string that is not empty: the result is determined by its pieces.\<close>

lemma StrSplit_ByString:
  assumes "s \<noteq> []"
  shows "ConvertToVector Delimiter_Find (StrSplit_by (Some text) (ByString s)) = Some (Inr ps) \<longleftrightarrow>
    pieces_by s ps \<and> join_str s ps = text"
proof -
  obtain cs where cs: "cuts Delimiter_Find text (ByString s) 0 cs"
    using absl_delimiter.ready_cuts [of "ByString s" "text" 0] assms by auto
  have "ConvertToVector Delimiter_Find (StrSplit_by (Some text) (ByString s)) = Some (Inr (map fst cs))"
    using ConvertToVector_cuts [of Delimiter_Find "text" "StrSplit_by (Some text) (ByString s)"] cs
    by (simp add: StrSplit_by_def StrSplit_if_def AllowEmpty_def)
  then show ?thesis
    using ByString_cuts [OF cs refl assms] pieces_by_unique [of s ps "map fst cs"] by auto
qed

lemma sublist_single: "sublist [c] p \<longleftrightarrow> c \<in> set p"
  by (auto simp: sublist_def in_set_conv_decomp)

lemma first_cut_single: "first_cut [c] p \<longleftrightarrow> c \<notin> set p"
  by (auto simp: first_cut_def occurs_at_single nth_append in_set_conv_nth)

lemma join_str_single: "join_str [c] ps = join_with c ps"
  by (induction c ps rule: join_with.induct) auto

lemma StrSplit_eq: "StrSplit text c = split_on c text"
proof -
  have "pieces_by [c] (split_on c text)"
    using split_on_delimiter_free [of _ c "text"]
    by (auto simp: pieces_by_def first_cut_single sublist_single in_set_butlastD)
  then have "ConvertToVector Delimiter_Find (StrSplit_by (Some text) (ByString [c])) = Some (Inr (split_on c text))"
    by (subst StrSplit_ByString) (simp_all add: join_str_single join_split_on)
  then show ?thesis by (simp add: StrSplit_def)
qed

section \<open>The other delimiters\<close>

lemma find_upt_Some:
  "find P [i..<j] = Some k \<Longrightarrow> i \<le> k \<and> k < j \<and> P k \<and> (\<forall>m. i \<le> m \<and> m < k \<longrightarrow> \<not> P m)"
proof -
  assume "find P [i..<j] = Some k"
  then obtain n where n: "n < length [i..<j]" "P ([i..<j] ! n)" "k = [i..<j] ! n"
      "\<forall>m<n. \<not> P ([i..<j] ! m)"
    by (auto simp: find_Some_iff)
  have "\<not> P m" if "i \<le> m" "m < k" for m
    using n(4) [rule_format, of "m - i"] n(1,3) that by simp
  with n show ?thesis by simp
qed

text \<open>
  The form of a list of cuts: what a piece and the delimiter behind it are, and what the last
  piece is.
\<close>

fun cut_list :: "(string \<Rightarrow> string \<Rightarrow> bool) \<Rightarrow> (string \<Rightarrow> bool) \<Rightarrow> (string \<times> string) list \<Rightarrow> bool" where
  "cut_list P L [] \<longleftrightarrow> False"
| "cut_list P L [(p, s)] \<longleftrightarrow> s = [] \<and> L p"
| "cut_list P L ((p, s) # c # cs) \<longleftrightarrow> P p s \<and> cut_list P L (c # cs)"

lemma cut_list_Cons: "cs \<noteq> [] \<Longrightarrow> cut_list P L ((p, s) # cs) \<longleftrightarrow> P p s \<and> cut_list P L cs"
  by (cases cs) simp_all

lemma cuts_cut_list:
  assumes "cuts Find text d pos cs" "I pos"
    and "\<And>pos d'. I pos \<Longrightarrow> pos \<le> length text \<Longrightarrow> Find d text pos = Inr ((length text, 0), d') \<Longrightarrow>
      L (drop pos text)"
    and "\<And>pos b l d'. I pos \<Longrightarrow> pos \<le> b \<Longrightarrow> b < length text \<Longrightarrow> b + l \<le> length text \<Longrightarrow>
      Find d text pos = Inr ((b, l), d') \<Longrightarrow>
      d' = d \<and> I (b + l) \<and> P (take (b - pos) (drop pos text)) (take l (drop b text))"
  shows "cut_list P L cs"
proof -
  have "cut_list P L cs" if "cuts Find text e pos cs" "e = d" "I pos" for e pos cs
    using that
  proof (induction rule: cuts.induct)
    case (last_piece e pos d')
    then show ?case using assms(3) by simp
  next
    case (piece e pos b l d' cs)
    have "d' = d \<and> I (b + l) \<and> P (take (b - pos) (drop pos text)) (take l (drop b text))"
      using piece by (intro assms(4)) simp_all
    moreover have "cs \<noteq> []" using piece.hyps(5) by auto
    ultimately show ?case using piece.IH by (simp add: cut_list_Cons)
  qed
  then show ?thesis using assms(1,2) by blast
qed

lemma ByString_cut_list:
  assumes "cuts Delimiter_Find text (ByString s) pos cs" "s \<noteq> []"
  shows "cut_list (\<lambda>p t. t = s \<and> first_cut s p) (\<lambda>p. \<not> sublist s p) cs"
proof -
  have found: "first_from text s pos = Some b \<and> l = length s \<and> d' = ByString s"
    if "Delimiter_Find (ByString s) text pos = Inr ((b, l), d')" "b < length text" for pos b l d'
    using that assms(2) by (auto simp: ByString_Find_eq split: option.splits)
  from assms show ?thesis
  proof (induction "ByString s" pos cs rule: cuts.induct)
    case (last_piece pos d')
    then have "cuts Delimiter_Find text (ByString s) pos [(drop pos text, [])]" by (intro cuts.last_piece)
    from ByString_cuts [OF this refl assms(2)] show ?case by (simp add: pieces_by_single)
  next
    case (piece pos b l d' cs)
    let ?p = "take (b - pos) (drop pos text)"
    have d': "d' = ByString s" and l: "l = length s" and at: "first_from text s pos = Some b"
      using found piece.hyps(1,3) by blast+
    have ne: "cs \<noteq> []" using piece.hyps(5) by auto
    have "cuts Delimiter_Find text (ByString s) pos ((?p, take l (drop b text)) # cs)"
      using piece.hyps(1-5) by (rule cuts.piece)
    from ByString_cuts [OF this refl assms(2)] have "first_cut s ?p" using ne by (simp add: pieces_by_Cons)
    moreover have "take l (drop b text) = s" using first_from_Some(3) [OF at] l by simp
    ultimately show ?case using piece.hyps(6) [OF d'] piece.prems ne by (simp add: cut_list_Cons)
  qed
qed

lemma ByAnyChar_cut_list:
  assumes "cuts Delimiter_Find text (ByAnyChar s) pos cs" "s \<noteq> []"
  shows "cut_list (\<lambda>p t. (\<exists>c\<in>set s. t = [c]) \<and> set p \<inter> set s = {}) (\<lambda>p. set p \<inter> set s = {}) cs"
  using assms(1)
proof (rule cuts_cut_list [where I = "\<lambda>_. True"])
  fix pos d' assume "Delimiter_Find (ByAnyChar s) text pos = Inr ((length text, 0), d')"
  then have "find (\<lambda>k. text ! k \<in> set s) [pos..<length text] = None"
    using assms(2) by (auto simp: ByAnyChar_Find_eq find_Some_iff split: option.splits)
  then show "set (drop pos text) \<inter> set s = {}" by (auto simp: find_None_iff in_set_conv_nth)
next
  fix pos b l d' assume "Delimiter_Find (ByAnyChar s) text pos = Inr ((b, l), d')" "b < length text"
  then have ff: "find (\<lambda>k. text ! k \<in> set s) [pos..<length text] = Some b" and l: "l = 1" "d' = ByAnyChar s"
    using assms(2) by (auto simp: ByAnyChar_Find_eq split: option.splits)
  note at = find_upt_Some [OF ff]
  have "take l (drop b text) = [text ! b]" using at l by (simp add: take_Suc_conv_app_nth hd_drop_conv_nth take_Suc)
  moreover have "set (take (b - pos) (drop pos text)) \<inter> set s = {}"
    using at by (auto simp: in_set_conv_nth)
  ultimately show "d' = ByAnyChar s \<and> True \<and> (\<exists>c\<in>set s. take l (drop b text) = [c]) \<and>
      set (take (b - pos) (drop pos text)) \<inter> set s = {}" using at l by blast
qed simp

text \<open>Both delimiters that are made of the empty string cut between all characters.\<close>

lemma empty_cut_list:
  assumes "cuts Delimiter_Find text d 0 cs" "d = ByString [] \<or> d = ByAnyChar []"
  shows "cut_list (\<lambda>p t. length p = 1 \<and> t = []) (\<lambda>p. length p = 1 \<or> text = []) cs"
  using assms(1)
proof (rule cuts_cut_list [where I = "\<lambda>pos. pos < length text \<or> text = []"])
  fix pos d' assume "pos < length text \<or> text = []" "Delimiter_Find d text pos = Inr ((length text, 0), d')"
  then show "length (drop pos text) = 1 \<or> text = []"
    using assms(2) by (auto simp: ByString_Find_eq ByAnyChar_Find_eq split: if_splits)
next
  fix pos b l d' assume "pos < length text \<or> text = []" "b < length text" "Delimiter_Find d text pos = Inr ((b, l), d')"
  then have "b = Suc pos" "l = 0" "d' = d"
    using assms(2) by (auto simp: ByString_Find_eq ByAnyChar_Find_eq split: if_splits)
  then show "d' = d \<and> (b + l < length text \<or> text = []) \<and>
      length (take (b - pos) (drop pos text)) = 1 \<and> take l (drop b text) = []"
    using \<open>b < length text\<close> by simp
qed auto

lemma ByLength_cut_list:
  assumes "cuts Delimiter_Find text (ByLength n) 0 cs" "0 < n"
  shows "cut_list (\<lambda>p t. length p = nat n \<and> t = [])
    (\<lambda>p. length p \<le> nat n \<and> (p = [] \<longrightarrow> text = [])) cs"
  using assms(1)
proof (rule cuts_cut_list [where I = "\<lambda>pos. pos < length text \<or> text = []"])
  fix pos d' assume "pos < length text \<or> text = []" "Delimiter_Find (ByLength n) text pos = Inr ((length text, 0), d')"
  then show "length (drop pos text) \<le> nat n \<and> (drop pos text = [] \<longrightarrow> text = [])"
    using assms(2) by (auto simp: ByLength_Find_def Let_def split: if_splits)
next
  fix pos b l d' assume "b < length text" "Delimiter_Find (ByLength n) text pos = Inr ((b, l), d')"
  then have "b = pos + nat n" "l = 0" "d' = ByLength n"
    by (auto simp: ByLength_Find_def Let_def min_def split: if_splits)
  then show "d' = ByLength n \<and> (b + l < length text \<or> text = []) \<and>
      length (take (b - pos) (drop pos text)) = nat n \<and> take l (drop b text) = []"
    using \<open>b < length text\<close> by simp
qed auto

text \<open>\<open>MaxSplits\<close> keeps the first cuts, and the rest of the text is one piece.\<close>

definition limit_cuts :: "int \<Rightarrow> (string \<times> string) list \<Rightarrow> (string \<times> string) list" where
  "limit_cuts k cs =
     (if 0 \<le> k \<and> nat k < length cs
      then take (nat k) cs @ [(concat (map (\<lambda>(p, s). p @ s) (drop (nat k) cs)), [])] else cs)"

lemma MaxSplits_step:
  assumes "Delimiter_ready (MaxSplitsImpl d limit count) text pos" "count \<noteq> limit"
    "Delimiter_Find d text pos = Inr ((b, l), d')"
  shows "Delimiter_Find (MaxSplitsImpl d limit count) text pos = Inr ((b, l), MaxSplitsImpl d' limit (count + 1))"
    "b < length text \<Longrightarrow> Delimiter_ready (MaxSplitsImpl d' limit (count + 1)) text (b + l)"
proof -
  have "add_int count 1 = Inr (count + 1)" using assms(1) by (intro add_int_count) auto
  then show find: "Delimiter_Find (MaxSplitsImpl d limit count) text pos = Inr ((b, l), MaxSplitsImpl d' limit (count + 1))"
    using assms(2,3) by simp
  from absl_delimiter.found [OF assms(1)]
  show "b < length text \<Longrightarrow> Delimiter_ready (MaxSplitsImpl d' limit (count + 1)) text (b + l)"
    unfolding find by (auto simp del: Delimiter_ready.simps)
qed

lemma MaxSplits_stop:
  assumes "Delimiter_ready (MaxSplitsImpl d limit limit) text pos"
  shows "cuts Delimiter_Find text (MaxSplitsImpl d limit limit) pos [(drop pos text, [])]"
proof (rule cuts.last_piece)
  have "add_int limit 1 = Inr (limit + 1)" using assms by (intro add_int_count) auto
  then show "Delimiter_Find (MaxSplitsImpl d limit limit) text pos =
      Inr ((length text, 0), MaxSplitsImpl d limit (limit + 1))" by simp
  show "pos \<le> length text" using Delimiter_ready_le [OF assms] .
qed

lemma MaxSplits_cuts:
  "cuts Delimiter_Find text d pos cs \<Longrightarrow> Delimiter_ready (MaxSplitsImpl d limit count) text pos \<Longrightarrow>
     cuts Delimiter_Find text (MaxSplitsImpl d limit count) pos (limit_cuts (limit - count) cs)"
proof (induction arbitrary: count rule: cuts.induct)
  case (last_piece d pos d')
  have "limit_cuts (limit - count) [(drop pos text, [])] = [(drop pos text, [])]"
    by (auto simp: limit_cuts_def)
  moreover have "cuts Delimiter_Find text (MaxSplitsImpl d limit count) pos [(drop pos text, [])]"
  proof (cases "count = limit")
    case True
    then show ?thesis using MaxSplits_stop last_piece.prems by simp
  next
    case False
    from MaxSplits_step(1) [OF last_piece.prems False last_piece.hyps(1)] last_piece.hyps(2)
    show ?thesis by (rule cuts.last_piece)
  qed
  ultimately show ?case by simp
next
  case (piece d pos b l d' cs)
  let ?cs = "(take (b - pos) (drop pos text), take l (drop b text)) # cs"
  show ?case
  proof (cases "count = limit")
    case True
    have "cuts Delimiter_Find text d pos ?cs" using piece.hyps by (rule cuts.piece)
    from cuts_concat [OF this] have "limit_cuts (limit - count) ?cs = [(drop pos text, [])]"
      using True by (simp add: limit_cuts_def)
    then show ?thesis using MaxSplits_stop piece.prems True by simp
  next
    case False
    have "limit_cuts (limit - count) ?cs = hd ?cs # limit_cuts (limit - (count + 1)) cs"
    proof (cases "0 \<le> limit - count")
      case True
      then have "nat (limit - count) = Suc (nat (limit - (count + 1)))" using False by simp
      then show ?thesis using True False by (simp add: limit_cuts_def)
    qed (simp add: limit_cuts_def)
    moreover note step = MaxSplits_step [OF piece.prems False piece.hyps(1)]
    ultimately show ?thesis
      using cuts.piece [OF step(1) piece.hyps(2-4) piece.IH [OF step(2) [OF piece.hyps(3)]]] by simp
  qed
qed

text \<open>
  What each delimiter of the library cuts: its pieces with the delimiters behind them. The lemma
  \<open>exact_cuts_unique\<close> shows that this and the text that they make up determine them.
\<close>

primrec exact_cuts :: "Delimiter \<Rightarrow> string \<Rightarrow> (string \<times> string) list \<Rightarrow> bool" where
  "exact_cuts (ByString s) text cs \<longleftrightarrow>
     (if s = [] then cut_list (\<lambda>p t. length p = 1 \<and> t = []) (\<lambda>p. length p = 1 \<or> text = []) cs
      else cut_list (\<lambda>p t. t = s \<and> first_cut s p) (\<lambda>p. \<not> sublist s p) cs)"
| "exact_cuts (ByChar c) text cs \<longleftrightarrow> cut_list (\<lambda>p t. t = [c] \<and> c \<notin> set p) (\<lambda>p. c \<notin> set p) cs"
| "exact_cuts (ByAnyChar s) text cs \<longleftrightarrow>
     (if s = [] then cut_list (\<lambda>p t. length p = 1 \<and> t = []) (\<lambda>p. length p = 1 \<or> text = []) cs
      else cut_list (\<lambda>p t. (\<exists>c\<in>set s. t = [c]) \<and> set p \<inter> set s = {}) (\<lambda>p. set p \<inter> set s = {}) cs)"
| "exact_cuts (ByLength n) text cs \<longleftrightarrow>
     cut_list (\<lambda>p t. length p = nat n \<and> t = []) (\<lambda>p. length p \<le> nat n \<and> (p = [] \<longrightarrow> text = [])) cs"
| "exact_cuts (MaxSplitsImpl d limit count) text cs \<longleftrightarrow>
     (\<exists>ds. exact_cuts d text ds \<and> concat (map (\<lambda>(p, s). p @ s) ds) = text \<and> cs = limit_cuts (limit - count) ds)"

lemma ByChar_cuts:
  "cuts Delimiter_Find text d pos cs \<Longrightarrow> d = ByChar c \<Longrightarrow> cuts Delimiter_Find text (ByString [c]) pos cs"
proof (induction rule: cuts.induct)
  case (last_piece d pos d')
  then show ?case by (intro cuts.last_piece) (simp_all add: ByChar_Find_eq)
next
  case (piece d pos b l d' cs)
  then have "cuts Delimiter_Find text (ByString [c]) (b + l) cs" by auto
  with piece.hyps(1-4) piece.prems show ?case
    by (intro cuts.piece [where d' = "ByString [c]"]) (simp_all add: ByChar_Find_eq)
qed

lemma exact_cuts_exist:
  "Delimiter_ready d text 0 \<Longrightarrow> \<exists>cs. cuts Delimiter_Find text d 0 cs \<and> exact_cuts d text cs"
proof (induction d)
  case (ByString s)
  with absl_delimiter.ready_cuts [OF this] ByString_cut_list empty_cut_list show ?case
    by (cases "s = []") (force simp del: cut_list.simps)+
next
  case (ByChar c)
  with absl_delimiter.ready_cuts [OF this] obtain cs where cs: "cuts Delimiter_Find text (ByChar c) 0 cs" by blast
  have "cut_list (\<lambda>p t. t = [c] \<and> c \<notin> set p) (\<lambda>p. c \<notin> set p) cs"
    using ByString_cut_list [OF ByChar_cuts [OF cs refl]] by (simp add: first_cut_single sublist_single)
  with cs show ?case by auto
next
  case (ByAnyChar s)
  with absl_delimiter.ready_cuts [OF this] ByAnyChar_cut_list empty_cut_list show ?case
    by (cases "s = []") (force simp del: cut_list.simps)+
next
  case (ByLength n)
  with absl_delimiter.ready_cuts [OF this] ByLength_cut_list show ?case by force
next
  case (MaxSplitsImpl d limit count)
  then obtain ds where ds: "cuts Delimiter_Find text d 0 ds" "exact_cuts d text ds" by auto
  with MaxSplits_cuts [OF ds(1) MaxSplitsImpl.prems] cuts_concat [OF ds(1)] show ?case by auto
qed

text \<open>
  The form of the cuts and the text that they make up determine them, when the first piece is
  determined and the last piece is not the beginning of a longer list.
\<close>

abbreviation cat :: "(string \<times> string) list \<Rightarrow> string" where
  "cat cs \<equiv> concat (map (\<lambda>(p, s). p @ s) cs)"

lemma cut_list_unique:
  assumes "\<And>p s q t u v. P p s \<Longrightarrow> P q t \<Longrightarrow> p @ s @ u = q @ t @ v \<Longrightarrow> p = q \<and> s = t"
    and "\<And>p s q es. P p s \<Longrightarrow> L q \<Longrightarrow> cut_list P L es \<Longrightarrow> p @ s @ cat es \<noteq> q"
  shows "cut_list P L cs \<Longrightarrow> cut_list P L ds \<Longrightarrow> cat cs = cat ds \<Longrightarrow> cs = ds"
proof (induction cs arbitrary: ds)
  case (Cons c cs)
  obtain p s where c: "c = (p, s)" by (cases c)
  obtain q t ds' where ds: "ds = (q, t) # ds'" using Cons.prems(2) by (cases ds) auto
  show ?case
  proof (cases "cs = [] \<or> ds' = []")
    case True
    have False if "cs = []" "ds' \<noteq> []"
      using Cons.prems assms(2) [of q t p ds'] that by (auto simp: c ds cut_list_Cons)
    moreover have False if "cs \<noteq> []" "ds' = []"
      using Cons.prems assms(2) [of p s q cs] that by (auto simp: c ds cut_list_Cons)
    ultimately have "cs = []" "ds' = []" using True by blast+
    then show ?thesis using Cons.prems by (simp add: c ds)
  next
    case False
    then have "p = q \<and> s = t" using Cons.prems assms(1) [of p s q t "cat cs" "cat ds'"] by (simp add: c ds cut_list_Cons)
    then show ?thesis using Cons.IH [of ds'] Cons.prems False by (simp add: c ds cut_list_Cons)
  qed
qed simp

lemma cut_list_empty_text:
  assumes "cut_list P L cs" "cat cs = []" "\<And>p s. P p s \<Longrightarrow> p \<noteq> []"
  shows "cs = [([], [])]"
  using assms by (induction P L cs rule: cut_list.induct) auto

lemma cut_list_cat:
  "cut_list P L cs \<Longrightarrow> (\<And>p s. P p s \<Longrightarrow> p \<noteq> []) \<Longrightarrow> (\<And>p. L p \<Longrightarrow> p \<noteq> []) \<Longrightarrow> cat cs \<noteq> []"
  by (induction P L cs rule: cut_list.induct) auto

text \<open>Pieces of a fixed length: the two empty delimiters and \<open>ByLength\<close>.\<close>

lemma sized_cuts_unique:
  assumes "0 < k" "cut_list (\<lambda>p t. length p = k \<and> t = []) L cs" "cut_list (\<lambda>p t. length p = k \<and> t = []) L ds"
    "cat cs = text" "cat ds = text" "\<And>p. L p \<Longrightarrow> length p \<le> k \<and> p \<noteq> [] \<or> text = []"
  shows "cs = ds"
proof (cases "text = []")
  case True
  then show ?thesis using cut_list_empty_text [OF assms(2)] cut_list_empty_text [OF assms(3)] assms by fastforce
next
  case False
  have "cat es \<noteq> []" if "cut_list (\<lambda>p t. length p = k \<and> t = []) L es" for es
    using that by (rule cut_list_cat) (use assms(1,6) False in auto)
  then have "p @ s @ cat es \<noteq> q" if "length p = k \<and> s = []" "L q" "cut_list (\<lambda>p t. length p = k \<and> t = []) L es" for p s q es
    using that assms(6) [of q] False by fastforce
  then show ?thesis using assms(2-5) by (intro cut_list_unique [of "\<lambda>p t. length p = k \<and> t = []" L cs ds]) auto
qed

lemma ByString_cuts_unique:
  assumes "cut_list (\<lambda>p t. t = s \<and> first_cut s p) (\<lambda>p. \<not> sublist s p) cs"
    "cut_list (\<lambda>p t. t = s \<and> first_cut s p) (\<lambda>p. \<not> sublist s p) ds" "cat cs = cat ds"
  shows "cs = ds"
proof (rule cut_list_unique [OF _ _ assms])
  fix p r q t u v
  assume *: "r = s \<and> first_cut s p" "t = s \<and> first_cut s q" "p @ r @ u = q @ t @ v"
  then have "\<not> length q < length p" "\<not> length p < length q"
    using first_cut_append [of s p "length q" u] occurs_at_self [of q s v]
      first_cut_append [of s q "length p" v] occurs_at_self [of p s u] by auto
  then have "length p = length q" by simp
  with * show "p = q \<and> r = t" by simp
next
  fix p r q es
  assume "r = s \<and> first_cut s p" "\<not> sublist s q"
  then show "p @ r @ cat es \<noteq> q" by (metis sublist_appendI)
qed

lemma ByAnyChar_cuts_unique:
  assumes "cut_list (\<lambda>p t. (\<exists>c\<in>set s. t = [c]) \<and> set p \<inter> set s = {}) (\<lambda>p. set p \<inter> set s = {}) cs"
    "cut_list (\<lambda>p t. (\<exists>c\<in>set s. t = [c]) \<and> set p \<inter> set s = {}) (\<lambda>p. set p \<inter> set s = {}) ds" "cat cs = cat ds"
  shows "cs = ds"
proof (rule cut_list_unique [OF _ _ assms])
  fix p r q t u v
  assume *: "(\<exists>c\<in>set s. r = [c]) \<and> set p \<inter> set s = {}" "(\<exists>c\<in>set s. t = [c]) \<and> set q \<inter> set s = {}"
    "p @ r @ u = q @ t @ v"
  then obtain c d where cd: "r = [c]" "c \<in> set s" "t = [d]" "d \<in> set s" by blast
  have before: "takeWhile (\<lambda>x. x \<notin> set s) (xs @ y # zs) = xs" if "set xs \<inter> set s = {}" "y \<in> set s" for xs y zs
    using that by (subst takeWhile_append2) auto
  have "p = takeWhile (\<lambda>x. x \<notin> set s) (p @ r @ u)" "q = takeWhile (\<lambda>x. x \<notin> set s) (q @ t @ v)"
    using before [of p c u] before [of q d v] * cd by simp_all
  then have "p = q" using *(3) by simp
  then show "p = q \<and> r = t" using *(3) cd by simp
next
  fix p r q es
  assume "(\<exists>c\<in>set s. r = [c]) \<and> set p \<inter> set s = {}" "set q \<inter> set s = {}"
  then show "p @ r @ cat es \<noteq> q" by auto
qed

lemma exact_cuts_unique:
  "Delimiter_ready d text pos \<Longrightarrow> exact_cuts d text cs \<Longrightarrow> cat cs = text \<Longrightarrow>
     exact_cuts d text ds \<Longrightarrow> cat ds = text \<Longrightarrow> cs = ds"
proof (induction d arbitrary: cs ds)
  case (ByString s)
  then show ?case
    using sized_cuts_unique [of 1 "\<lambda>p. length p = 1 \<or> text = []" cs ds "text"] ByString_cuts_unique [of s cs ds]
    by (cases "s = []") (fastforce simp del: cut_list.simps)+
next
  case (ByChar c)
  then show ?case using ByString_cuts_unique [of "[c]" cs ds] by (simp add: first_cut_single sublist_single)
next
  case (ByAnyChar s)
  then show ?case
    using sized_cuts_unique [of 1 "\<lambda>p. length p = 1 \<or> text = []" cs ds "text"] ByAnyChar_cuts_unique [of s cs ds]
    by (cases "s = []") (fastforce simp del: cut_list.simps)+
next
  case (ByLength n)
  then show ?case
    using sized_cuts_unique [of "nat n" "\<lambda>p. length p \<le> nat n \<and> (p = [] \<longrightarrow> text = [])" cs ds "text"] by auto
next
  case (MaxSplitsImpl d limit count)
  then obtain cs' ds' where "exact_cuts d text cs'" "cat cs' = text" "cs = limit_cuts (limit - count) cs'"
    "exact_cuts d text ds'" "cat ds' = text" "ds = limit_cuts (limit - count) ds'" by auto
  with MaxSplitsImpl.IH [of cs' ds'] MaxSplitsImpl.prems(1) show ?case by simp
qed

end
