(* ===== verification/Absl_Numbers.thy ===== *)
theory Absl_Numbers
  imports Absl_Ascii
begin

text \<open>
  Parsing integers, \<open>numbers.h\<close> and \<open>numbers.cc\<close> of the vendored Abseil: \<open>SimpleAtoi\<close> and
  the functions it calls, at each of the four integer types they are instantiated with. A
  \<open>string_view\<close> is the string it views; a view whose data pointer is null does not arise.
  A parser returns whether it succeeded and the value that it stored in its output argument.
  A failed \<open>assert\<close>, an index outside a table and a signed operation that leaves the range of
  its type are error results.
\<close>

section \<open>Integer types\<close>

datatype IntType = int32_t | int64_t | uint32_t | uint64_t

fun numeric_max :: "IntType \<Rightarrow> int" where
  "numeric_max int32_t = int_max"
| "numeric_max int64_t = int64_max"
| "numeric_max uint32_t = 2 ^ 32 - 1"
| "numeric_max uint64_t = 2 ^ 64 - 1"

fun numeric_min :: "IntType \<Rightarrow> int" where
  "numeric_min int32_t = int_min"
| "numeric_min int64_t = int64_min"
| "numeric_min uint32_t = 0"
| "numeric_min uint64_t = 0"

definition signed_type :: "IntType \<Rightarrow> bool" where
  "signed_type ty \<longleftrightarrow> ty = int32_t \<or> ty = int64_t"

text \<open>
  Arithmetic of a type: a result of a signed type that leaves the range is undefined, one of an
  unsigned type wraps around. \<open>wrap\<close> is also the conversion to the type.
\<close>

definition wrap :: "IntType \<Rightarrow> int \<Rightarrow> int" where
  "wrap ty x = (x - numeric_min ty) mod (numeric_max ty - numeric_min ty + 1) + numeric_min ty"

definition arith :: "IntType \<Rightarrow> int \<Rightarrow> int result" where
  "arith ty x =
     (if \<not> signed_type ty then Inr (wrap ty x)
      else if numeric_min ty \<le> x \<and> x \<le> numeric_max ty then Inr x
      else Inl (Undefined_behaviour ''signed overflow''))"

section \<open>Parsing integers\<close>

definition kAsciiToInt :: "int list" where
  "kAsciiToInt =
    replicate 48 36 @
    [0, 1, 2, 3, 4, 5, 6, 7, 8, 9] @ replicate 7 36 @
    [10, 11, 12, 13, 14, 15, 16, 17, 18, 19, 20, 21, 22, 23, 24, 25, 26, 27, 28, 29, 30, 31,
     32, 33, 34, 35] @ replicate 6 36 @
    [10, 11, 12, 13, 14, 15, 16, 17, 18, 19, 20, 21, 22, 23, 24, 25, 26, 27, 28, 29, 30, 31,
     32, 33, 34, 35] @ replicate 133 36"

text \<open>
  \<open>safe_parse_sign_and_base\<close>: \<open>None\<close> for \<open>false\<close>, otherwise the remaining text, the base
  and whether the number is negative.
\<close>

definition safe_parse_sign_and_base :: "string \<Rightarrow> int \<Rightarrow> (string \<times> int \<times> bool) option" where
  "safe_parse_sign_and_base text base =
     (let text = dropWhile ascii_isspace text;
          text = rev (dropWhile ascii_isspace (rev text))
      in if text = [] then None
         else
           let negative = (hd text = CHR ''-'');
               text = (if negative \<or> hd text = CHR ''+'' then tl text else text)
           in if text = [] then None
              else if base = 0 then
                if length text \<ge> 2 \<and> text ! 0 = CHR ''0'' \<and>
                   (text ! 1 = CHR ''x'' \<or> text ! 1 = CHR ''X'') then
                  if drop 2 text = [] then None else Some (drop 2 text, 16, negative)
                else if length text \<ge> 1 \<and> text ! 0 = CHR ''0'' then Some (drop 1 text, 8, negative)
                else Some (text, 10, negative)
              else if base = 16 then
                if length text \<ge> 2 \<and> text ! 0 = CHR ''0'' \<and>
                   (text ! 1 = CHR ''x'' \<or> text ! 1 = CHR ''X'') then
                  if drop 2 text = [] then None else Some (drop 2 text, base, negative)
                else Some (text, base, negative)
              else if base \<ge> 2 \<and> base \<le> 36 then Some (text, base, negative)
              else None)"

definition X_OVER_BASE_INITIALIZER :: "int \<Rightarrow> int list" where
  "X_OVER_BASE_INITIALIZER X = [0, 0] @ map (\<lambda>base. X sdiv base) [2..36]"

definition kVmaxOverBase :: "IntType \<Rightarrow> int list" where
  "kVmaxOverBase ty = X_OVER_BASE_INITIALIZER (numeric_max ty)"

definition kVminOverBase :: "IntType \<Rightarrow> int list" where
  "kVminOverBase ty = X_OVER_BASE_INITIALIZER (numeric_min ty)"

text \<open>
  The digit loops, in the arithmetic of the type, and the two functions with their assertions.
  The tables have 37 entries.
\<close>

fun safe_parse_positive_loop :: "IntType \<Rightarrow> int \<Rightarrow> int \<Rightarrow> string \<Rightarrow> int \<Rightarrow> (bool \<times> int) result" where
  "safe_parse_positive_loop ty vmax_over_base base [] v = Inr (True, v)"
| "safe_parse_positive_loop ty vmax_over_base base (c # text) v =
     (let vmax = numeric_max ty; digit = kAsciiToInt ! of_char c
      in if digit \<ge> base then Inr (False, v)
         else if v > vmax_over_base then Inr (False, vmax)
         else
           bindr (arith ty (v * base)) (\<lambda>v.
           bindr (arith ty (vmax - digit)) (\<lambda>bound.
             if v > bound then Inr (False, vmax)
             else bindr (arith ty (v + digit)) (safe_parse_positive_loop ty vmax_over_base base text))))"

definition safe_parse_positive_int :: "IntType \<Rightarrow> string \<Rightarrow> int \<Rightarrow> (bool \<times> int) result" where
  "safe_parse_positive_int ty text base =
     (let vmax = numeric_max ty
      in if \<not> (vmax > 0 \<and> base \<ge> 0 \<and> vmax \<ge> wrap ty base) then Inl Assertion_failed
         else if length (kVmaxOverBase ty) \<le> nat base then
           Inl (Undefined_behaviour ''kVmaxOverBase out of bounds'')
         else safe_parse_positive_loop ty (kVmaxOverBase ty ! nat base) base text 0)"

fun safe_parse_negative_loop :: "IntType \<Rightarrow> int \<Rightarrow> int \<Rightarrow> string \<Rightarrow> int \<Rightarrow> (bool \<times> int) result" where
  "safe_parse_negative_loop ty vmin_over_base base [] v = Inr (True, v)"
| "safe_parse_negative_loop ty vmin_over_base base (c # text) v =
     (let vmin = numeric_min ty; digit = kAsciiToInt ! of_char c
      in if digit \<ge> base then Inr (False, v)
         else if v < vmin_over_base then Inr (False, vmin)
         else
           bindr (arith ty (v * base)) (\<lambda>v.
           bindr (arith ty (vmin + digit)) (\<lambda>bound.
             if v < bound then Inr (False, vmin)
             else bindr (arith ty (v - digit)) (safe_parse_negative_loop ty vmin_over_base base text))))"

definition safe_parse_negative_int :: "IntType \<Rightarrow> string \<Rightarrow> int \<Rightarrow> (bool \<times> int) result" where
  "safe_parse_negative_int ty text base =
     (let vmin = numeric_min ty
      in if \<not> (vmin < 0 \<and> vmin \<le> 0 - base) then Inl Assertion_failed
         else if base < 0 \<or> length (kVminOverBase ty) \<le> nat base then
           Inl (Undefined_behaviour ''kVminOverBase out of bounds'')
         else if base = 0 then Inl (Undefined_behaviour ''division by zero'')
         else
           let vmin_over_base = kVminOverBase ty ! nat base
           in bindr (if vmin smod base > 0 then arith ty (vmin_over_base + 1) else Inr vmin_over_base)
                (\<lambda>vmin_over_base. safe_parse_negative_loop ty vmin_over_base base text 0))"

definition safe_int_internal :: "IntType \<Rightarrow> string \<Rightarrow> int \<Rightarrow> (bool \<times> int) result" where
  "safe_int_internal ty text base =
     (case safe_parse_sign_and_base text base of
        None \<Rightarrow> Inr (False, 0)
      | Some (text, base, negative) \<Rightarrow>
          if \<not> negative then safe_parse_positive_int ty text base
          else safe_parse_negative_int ty text base)"

definition safe_uint_internal :: "IntType \<Rightarrow> string \<Rightarrow> int \<Rightarrow> (bool \<times> int) result" where
  "safe_uint_internal ty text base =
     (case safe_parse_sign_and_base text base of
        None \<Rightarrow> Inr (False, 0)
      | Some (text, base, negative) \<Rightarrow>
          if negative then Inr (False, 0) else safe_parse_positive_int ty text base)"

definition safe_strto32_base :: "string \<Rightarrow> int \<Rightarrow> (bool \<times> int) result" where
  "safe_strto32_base text base = safe_int_internal int32_t text base"

definition safe_strto64_base :: "string \<Rightarrow> int \<Rightarrow> (bool \<times> int) result" where
  "safe_strto64_base text base = safe_int_internal int64_t text base"

definition safe_strtou32_base :: "string \<Rightarrow> int \<Rightarrow> (bool \<times> int) result" where
  "safe_strtou32_base text base = safe_uint_internal uint32_t text base"

definition safe_strtou64_base :: "string \<Rightarrow> int \<Rightarrow> (bool \<times> int) result" where
  "safe_strtou64_base text base = safe_uint_internal uint64_t text base"

text \<open>The branch that \<open>safe_strtoi_base\<close> takes is chosen by the type of its output.\<close>

fun safe_strtoi_base :: "IntType \<Rightarrow> string \<Rightarrow> int \<Rightarrow> (bool \<times> int) result" where
  "safe_strtoi_base int64_t s base = safe_strto64_base s base"
| "safe_strtoi_base int32_t s base = safe_strto32_base s base"
| "safe_strtoi_base uint64_t s base = safe_strtou64_base s base"
| "safe_strtoi_base uint32_t s base = safe_strtou32_base s base"

definition SimpleAtoi :: "IntType \<Rightarrow> string \<Rightarrow> (bool \<times> int) result" where
  "SimpleAtoi ty s = safe_strtoi_base ty s 10"

section \<open>The digit loops\<close>

text \<open>
  The value that a character has as a digit, 36 for a character that is none, and the number a
  text denotes in a base.
\<close>

definition digit_value :: "char \<Rightarrow> int" where
  "digit_value c =
     (let n = of_char c
      in if 48 \<le> n \<and> n \<le> 57 then int n - 48 else if 65 \<le> n \<and> n \<le> 90 then int n - 55
         else if 97 \<le> n \<and> n \<le> 122 then int n - 87 else 36)"

definition numeral_value :: "int \<Rightarrow> string \<Rightarrow> int" where
  "numeral_value base ds = foldl (\<lambda>v c. base * v + digit_value c) 0 ds"

lemma length_kAsciiToInt: "length kAsciiToInt = 256"
  by (simp add: kAsciiToInt_def)

lemma digit_value_table:
  "map (\<lambda>x. x) kAsciiToInt =
     map (\<lambda>n. if 48 \<le> n \<and> n \<le> 57 then int n - 48 else if 65 \<le> n \<and> n \<le> 90 then int n - 55
       else if 97 \<le> n \<and> n \<le> 122 then int n - 87 else 36) [0..<256]"
  by code_simp

lemma kAsciiToInt_eq: "kAsciiToInt ! of_char c = digit_value c"
  using nth_of_map_eq [OF digit_value_table length_kAsciiToInt, of c]
  by (simp add: digit_value_def Let_def)

lemma digit_value_eq:
  "digit_value c =
     (if ascii_isdigit c then int (of_char c) - 48 else if ascii_isupper c then int (of_char c) - 55
      else if ascii_islower c then int (of_char c) - 87 else 36)"
  by (simp add: digit_value_def ascii_ranges Let_def)

lemma digit_value_bounds: "0 \<le> digit_value c" "digit_value c \<le> 36"
  unfolding digit_value_eq ascii_ranges by auto

lemma fold_value_ge:
  "1 \<le> base \<Longrightarrow> 0 \<le> v \<Longrightarrow> v \<le> foldl (\<lambda>v c. base * v + digit_value c) v ds"
proof (induction ds arbitrary: v)
  case (Cons c ds)
  have "1 * v \<le> base * v" using Cons.prems by (rule mult_right_mono)
  then have "v \<le> base * v + digit_value c" using digit_value_bounds(1) [of c] by simp
  with Cons.IH [of "base * v + digit_value c"] Cons.prems show ?case by simp
qed simp

lemma le_div_iff: "0 < base \<Longrightarrow> v \<le> m div base \<longleftrightarrow> v * base \<le> (m :: int)"
proof
  assume b: "0 < base" "v \<le> m div base"
  then have "v * base \<le> (m div base) * base" by simp
  also have "\<dots> \<le> m" using b(1) pos_mod_sign [of base m] div_mult_mod_eq [of m base] by linarith
  finally show "v * base \<le> m" .
next
  assume b: "0 < base" "v * base \<le> m"
  then show "v \<le> m div base" using zdiv_mono1 [of "v * base" m base] by simp
qed

lemma over_base:
  assumes "2 \<le> base" "base \<le> 36"
  shows "X_OVER_BASE_INITIALIZER X ! nat base = X sdiv base"
proof -
  have "nat base = Suc (Suc (nat (base - 2)))" using assms by linarith
  moreover have "map (\<lambda>base. X sdiv base) [2..36] ! nat (base - 2) = X sdiv base"
    using assms by (subst nth_map) (simp_all only: length_upto nth_upto, simp_all)
  ultimately show ?thesis
    by (simp only: X_OVER_BASE_INITIALIZER_def append_Cons append_Nil nth_Cons_Suc)
qed

lemma numeric_range: "numeric_min ty \<le> 0" "36 \<le> numeric_max ty"
  "signed_type ty \<Longrightarrow> numeric_min ty \<le> - 36" "\<not> signed_type ty \<Longrightarrow> numeric_min ty = 0"
  by (cases ty; simp add: int_bounds signed_type_def)+

lemma sdiv_bounds:
  assumes "2 \<le> base"
  shows "numeric_max ty sdiv base = numeric_max ty div base"
    "numeric_min ty sdiv base = - ((- numeric_min ty) div base)"
    "\<not> 0 < numeric_min ty smod base"
  using assms numeric_range [of ty]
  by (simp_all add: signed_divide_int_def signed_modulo_int_def sgn_if mult_nonpos_nonneg not_less)

text \<open>No operation of the loops leaves the range of the type.\<close>

lemma wrap_in_range: "numeric_min ty \<le> x \<Longrightarrow> x \<le> numeric_max ty \<Longrightarrow> wrap ty x = x"
  by (simp add: wrap_def)

lemma arith_in_range: "numeric_min ty \<le> x \<Longrightarrow> x \<le> numeric_max ty \<Longrightarrow> arith ty x = Inr x"
  by (simp add: arith_def wrap_in_range)

lemma arith_nonneg: "0 \<le> x \<Longrightarrow> x \<le> numeric_max ty \<Longrightarrow> arith ty x = Inr x"
  using numeric_range(1) [of ty] by (simp add: arith_in_range)

lemma arith_nonpos: "x \<le> 0 \<Longrightarrow> numeric_min ty \<le> x \<Longrightarrow> arith ty x = Inr x"
  using numeric_range(2) [of ty] by (simp add: arith_in_range)

text \<open>
  The loop over the digits of a text that may hold other characters: it succeeds when there are
  only digits and their number fits, and stores the number of the leading digits, cut off at the
  end of the range.
\<close>

lemma positive_loop_eq:
  assumes "2 \<le> base" "base \<le> 36" "0 \<le> v" "v \<le> numeric_max ty"
  shows "safe_parse_positive_loop ty (numeric_max ty div base) base ds v =
    Inr (list_all (\<lambda>c. digit_value c < base) ds \<and>
           foldl (\<lambda>v c. base * v + digit_value c) v ds \<le> numeric_max ty,
         min (numeric_max ty)
           (foldl (\<lambda>v c. base * v + digit_value c) v (takeWhile (\<lambda>c. digit_value c < base) ds)))"
  using assms(3-)
proof (induction ds arbitrary: v)
  case Nil
  then show ?case by simp
next
  case (Cons c ds)
  let ?d = "digit_value c" let ?w = "base * v + ?d" let ?max = "numeric_max ty"
  note d = digit_value_bounds(1) [of c]
  have w: "0 \<le> base * v" "0 \<le> ?w" using Cons.prems assms(1) d by simp_all
  have le: "?max div base < v \<longleftrightarrow> ?max < base * v"
    using le_div_iff [of base v ?max] assms(1) by (simp add: not_le [symmetric] mult.commute)
  show ?case
  proof (cases "?d < base")
    case False
    then show ?thesis using Cons.prems by (simp add: kAsciiToInt_eq min_def)
  next
    case True
    have bound: "arith ty (?max - ?d) = Inr (?max - ?d)"
      using True assms(2) d numeric_range(2) [of ty] by (intro arith_nonneg) simp_all
    show ?thesis
    proof (cases "?w \<le> ?max")
      case fits: True
      then have "arith ty (base * v) = Inr (base * v)" "arith ty ?w = Inr ?w" "\<not> ?max < base * v"
        using w d by (simp_all add: arith_nonneg)
      with True fits bound le Cons.IH [OF w(2) fits] show ?thesis
        by (simp add: kAsciiToInt_eq Let_def mult.commute [of v])
    next
      case over: False
      have "?w \<le> foldl (\<lambda>v c. base * v + digit_value c) ?w es" for es
        using assms(1) w(2) by (intro fold_value_ge) simp_all
      then have beyond: "?max < foldl (\<lambda>v c. base * v + digit_value c) ?w es" for es
        using over by (meson not_le order_less_le_trans)
      have "safe_parse_positive_loop ty (?max div base) base (c # ds) v = Inr (False, ?max)"
      proof (cases "?max < base * v")
        case True
        with \<open>?d < base\<close> le show ?thesis by (simp add: kAsciiToInt_eq)
      next
        case False
        then have "arith ty (base * v) = Inr (base * v)" using w by (simp add: arith_nonneg)
        with \<open>?d < base\<close> False over le bound show ?thesis
          by (simp add: kAsciiToInt_eq Let_def mult.commute [of v])
      qed
      with True beyond [of ds] beyond [of "takeWhile (\<lambda>c. digit_value c < base) ds"] show ?thesis
        by simp
    qed
  qed
qed

lemma negative_loop_eq:
  assumes "2 \<le> base" "base \<le> 36" "signed_type ty" "0 \<le> v" "v \<le> - numeric_min ty"
  shows "safe_parse_negative_loop ty (- ((- numeric_min ty) div base)) base ds (- v) =
    Inr (list_all (\<lambda>c. digit_value c < base) ds \<and>
           numeric_min ty \<le> - foldl (\<lambda>v c. base * v + digit_value c) v ds,
         max (numeric_min ty)
           (- foldl (\<lambda>v c. base * v + digit_value c) v (takeWhile (\<lambda>c. digit_value c < base) ds)))"
  using assms(4-)
proof (induction ds arbitrary: v)
  case Nil
  then show ?case by simp
next
  case (Cons c ds)
  let ?d = "digit_value c" let ?w = "base * v + ?d" let ?min = "numeric_min ty"
  note d = digit_value_bounds(1) [of c]
  have w: "0 \<le> base * v" "0 \<le> ?w" using Cons.prems assms(1) d by simp_all
  have le: "- v < - ((- ?min) div base) \<longleftrightarrow> - ?min < base * v"
    using le_div_iff [of base v "- ?min"] assms(1) by (simp add: not_le [symmetric] mult.commute)
  have neg: "- v * base = - (base * v)" "- (base * v) - ?d = - ?w" by simp_all
  show ?case
  proof (cases "?d < base")
    case False
    then show ?thesis using Cons.prems by (simp add: kAsciiToInt_eq max_def)
  next
    case True
    have bound: "arith ty (?min + ?d) = Inr (?min + ?d)"
      using True assms(2) d numeric_range(3) [OF assms(3)] by (intro arith_nonpos) simp_all
    show ?thesis
    proof (cases "?w \<le> - ?min")
      case fits: True
      then have "arith ty (- (base * v)) = Inr (- (base * v))" "arith ty (- ?w) = Inr (- ?w)"
        "\<not> - ?min < base * v" "\<not> - (base * v) < ?min + ?d"
        using w d by (simp_all add: arith_nonpos)
      with True fits bound le Cons.IH [OF w(2) fits] show ?thesis
        by (simp add: kAsciiToInt_eq Let_def neg mult.commute [of v] del: minus_add_distrib)
    next
      case over: False
      have "?w \<le> foldl (\<lambda>v c. base * v + digit_value c) ?w es" for es
        using assms(1) w(2) by (intro fold_value_ge) simp_all
      then have beyond: "- ?min < foldl (\<lambda>v c. base * v + digit_value c) ?w es" for es
        using over by (meson not_le order_less_le_trans)
      have "safe_parse_negative_loop ty (- ((- ?min) div base)) base (c # ds) (- v) = Inr (False, ?min)"
      proof (cases "- ?min < base * v")
        case True
        with \<open>?d < base\<close> le show ?thesis by (simp add: kAsciiToInt_eq)
      next
        case False
        then have "arith ty (- (base * v)) = Inr (- (base * v))" using w by (simp add: arith_nonpos)
        moreover have "- (base * v) < ?min + ?d" using over by linarith
        ultimately show ?thesis using \<open>?d < base\<close> False le bound
          by (simp add: kAsciiToInt_eq Let_def mult.commute [of v])
      qed
      with True beyond [of ds] beyond [of "takeWhile (\<lambda>c. digit_value c < base) ds"] show ?thesis
        by simp
    qed
  qed
qed

lemma length_over_base: "length (X_OVER_BASE_INITIALIZER X) = 37"
  by (simp add: X_OVER_BASE_INITIALIZER_def)

lemma safe_parse_positive_int_eq:
  assumes "2 \<le> base" "base \<le> 36"
  shows "safe_parse_positive_int ty s base =
    Inr (list_all (\<lambda>c. digit_value c < base) s \<and> numeral_value base s \<le> numeric_max ty,
         min (numeric_max ty) (numeral_value base (takeWhile (\<lambda>c. digit_value c < base) s)))"
proof -
  have "wrap ty base = base" using assms numeric_range [of ty] by (intro wrap_in_range) simp_all
  with assms numeric_range(2) [of ty] positive_loop_eq [OF assms, of 0 ty s] show ?thesis
    by (simp add: safe_parse_positive_int_def Let_def kVmaxOverBase_def length_over_base over_base
        sdiv_bounds numeral_value_def)
qed

lemma safe_parse_negative_int_eq:
  assumes "2 \<le> base" "base \<le> 36" "signed_type ty"
  shows "safe_parse_negative_int ty s base =
    Inr (list_all (\<lambda>c. digit_value c < base) s \<and> numeric_min ty \<le> - numeral_value base s,
         max (numeric_min ty) (- numeral_value base (takeWhile (\<lambda>c. digit_value c < base) s)))"
  using assms numeric_range(3) [OF assms(3)] negative_loop_eq [OF assms, of 0 s]
  by (simp add: safe_parse_negative_int_def Let_def kVminOverBase_def length_over_base over_base
      sdiv_bounds numeral_value_def)

lemma safe_parse_negative_int_unsigned:
  "\<not> signed_type ty \<Longrightarrow> safe_parse_negative_int ty s base = Inl Assertion_failed"
  using numeric_range(4) [of ty] by (simp add: safe_parse_negative_int_def)

lemma numeral_value_nonneg: "1 \<le> base \<Longrightarrow> 0 \<le> numeral_value base ds"
  unfolding numeral_value_def by (rule fold_value_ge) simp_all

lemma takeWhile_list_all: "list_all P xs \<Longrightarrow> takeWhile P xs = xs"
  by (simp add: takeWhile_eq_all_conv list_all_iff)

text \<open>The digits of a text are either all valid, and then the value decides, or the parse fails.\<close>

lemma safe_parse_positive_int_True:
  assumes "2 \<le> base" "base \<le> 36"
  shows "safe_parse_positive_int ty ds base = Inr (True, n) \<longleftrightarrow>
    list_all (\<lambda>c. digit_value c < base) ds \<and> n = numeral_value base ds \<and> n \<le> numeric_max ty"
  by (auto simp: safe_parse_positive_int_eq [OF assms] takeWhile_list_all min_def)

lemma safe_parse_negative_int_True:
  assumes "2 \<le> base" "base \<le> 36" "signed_type ty"
  shows "safe_parse_negative_int ty ds base = Inr (True, n) \<longleftrightarrow>
    list_all (\<lambda>c. digit_value c < base) ds \<and> n = - numeral_value base ds \<and> numeric_min ty \<le> n"
  by (auto simp: safe_parse_negative_int_eq [OF assms] takeWhile_list_all max_def)

section \<open>What \<open>SimpleAtoi\<close> accepts\<close>

lemma digit_value_less_10: "digit_value c < 10 \<longleftrightarrow> ascii_isdigit c"
  unfolding digit_value_eq ascii_ranges by auto

lemma digit_not_space: "ascii_isdigit c \<Longrightarrow> \<not> ascii_isspace c"
  by (auto simp: ascii_property(3) ascii_ranges)

lemma digit_not_sign: "ascii_isdigit c \<Longrightarrow> c \<noteq> CHR ''-'' \<and> c \<noteq> CHR ''+''"
  by (auto simp: ascii_ranges)

lemma SimpleAtoi_unfold:
  "SimpleAtoi ty s =
     (let t = StripAsciiWhitespace s
      in if t = [] then Inr (False, 0)
         else if hd t = CHR ''-'' then
           if tl t = [] \<or> \<not> signed_type ty then Inr (False, 0) else safe_parse_negative_int ty (tl t) 10
         else let u = (if hd t = CHR ''+'' then tl t else t)
              in if u = [] then Inr (False, 0) else safe_parse_positive_int ty u 10)"
  by (cases ty)
    (simp_all add: SimpleAtoi_def safe_strto32_base_def safe_strto64_base_def safe_strtou32_base_def
      safe_strtou64_base_def safe_int_internal_def safe_uint_internal_def signed_type_def
      safe_parse_sign_and_base_def StripAsciiWhitespace_def strip_leading strip_trailing Let_def)

lemma SimpleAtoi_True:
  "SimpleAtoi ty s = Inr (True, n) \<longleftrightarrow>
     (\<exists>ds. ds \<noteq> [] \<and> list_all ascii_isdigit ds \<and> numeric_min ty \<le> n \<and> n \<le> numeric_max ty \<and>
        (StripAsciiWhitespace s \<in> {ds, CHR ''+'' # ds} \<and> n = numeral_value 10 ds \<or>
         signed_type ty \<and> StripAsciiWhitespace s = CHR ''-'' # ds \<and> n = - numeral_value 10 ds))"
proof (cases "StripAsciiWhitespace s")
  case Nil
  then show ?thesis by (auto simp: SimpleAtoi_unfold)
next
  case (Cons c t)
  have pos: "safe_parse_positive_int ty ds 10 = Inr (True, n) \<longleftrightarrow> list_all ascii_isdigit ds \<and>
      n = numeral_value 10 ds \<and> n \<le> numeric_max ty" for ds
    using safe_parse_positive_int_True [of 10 ty ds n] by (simp add: digit_value_less_10)
  have neg: "safe_parse_negative_int ty ds 10 = Inr (True, n) \<longleftrightarrow> list_all ascii_isdigit ds \<and>
      n = - numeral_value 10 ds \<and> numeric_min ty \<le> n" if "signed_type ty" for ds
    using safe_parse_negative_int_True [of 10 ty ds n] that by (simp add: digit_value_less_10)
  have range: "numeric_min ty \<le> numeral_value 10 ds" "- numeral_value 10 ds \<le> numeric_max ty" for ds
    using numeral_value_nonneg [of 10 ds] numeric_range [of ty] by simp_all
  have sign: "\<not> ascii_isdigit CHR ''-''" "\<not> ascii_isdigit CHR ''+''" by (auto simp: ascii_ranges)
  consider "c = CHR ''-''" | "c = CHR ''+''" | "c \<noteq> CHR ''-''" "c \<noteq> CHR ''+''" by blast
  then show ?thesis
  proof cases
    case 1
    then show ?thesis using neg [of t] range(2) [of t] sign by (auto simp: SimpleAtoi_unfold Cons)
  next
    case 2
    then show ?thesis using pos [of t] range(1) [of t] sign by (auto simp: SimpleAtoi_unfold Cons)
  next
    case 3
    then show ?thesis
      using pos [of "c # t"] range(1) [of "c # t"] by (auto simp: SimpleAtoi_unfold Cons)
  qed
qed

text \<open>\<open>SimpleAtoi\<close> meets no assertion and no overflow, and what it stores lies in the range.\<close>

lemma SimpleAtoi_returns:
  "\<exists>ok v. SimpleAtoi ty s = Inr (ok, v) \<and> numeric_min ty \<le> v \<and> v \<le> numeric_max ty"
proof -
  have "\<exists>ok v. safe_parse_positive_int ty t 10 = Inr (ok, v) \<and> numeric_min ty \<le> v \<and> v \<le> numeric_max ty" for t
    using numeric_range [of ty] numeral_value_nonneg [of 10 "takeWhile (\<lambda>c. digit_value c < 10) t"]
    by (simp add: safe_parse_positive_int_eq min_def)
  moreover have "\<exists>ok v. safe_parse_negative_int ty t 10 = Inr (ok, v) \<and> numeric_min ty \<le> v \<and> v \<le> numeric_max ty"
    if "signed_type ty" for t
    using that numeric_range [of ty] numeral_value_nonneg [of 10 "takeWhile (\<lambda>c. digit_value c < 10) t"]
    by (simp add: safe_parse_negative_int_eq max_def)
  ultimately show ?thesis
    using numeric_range [of ty] by (auto simp: SimpleAtoi_unfold Let_def)
qed

end
