(* ===== verification/Fen.thy ===== *)
theory Fen
  imports Board_State Absl_Split Absl_Numbers
begin

text \<open>
  The constructors of \<open>Board\<close> in \<open>src/src/board.cc\<close>: the parser of Forsyth-Edwards
  notation. A constructor runs on storage with indeterminate contents, which is the
  argument \<open>b\<close> (or \<open>storage\<close>) of the definitions.
\<close>

section \<open>The code\<close>

definition get_start_fen :: string where
  "get_start_fen = ''rnbqkbnr/pppppppp/8/8/8/8/PPPPPPPP/RNBQKBNR w KQkq - 0 1''"

definition zero_all_bitboards :: "Board \<Rightarrow> Board" where
  "zero_all_bitboards b =
     b\<lparr>white_pawns := 0, white_rooks := 0, white_knights := 0, white_bishops := 0,
       white_queens := 0, white_king := 0, black_pawns := 0, black_rooks := 0,
       black_knights := 0, black_bishops := 0, black_queens := 0, black_king := 0\<rparr>"

text \<open>
  One iteration of the loop of \<open>init_bitboards\<close> over the board, \<open>rank\<close> and \<open>file\<close>. The shift, which
  comes first, is undefined unless its amount is between 0 and 63: this keeps \<open>rank\<close> and \<open>file\<close> far
  from the ends of \<open>int\<close>.
\<close>

definition init_bitboards_char :: "char \<Rightarrow> Board \<times> int \<times> int \<Rightarrow> (Board \<times> int \<times> int) result" where
  "init_bitboards_char c = (\<lambda>(b, rank, file).
     bindr (shl_lsb (rank * board_size + board_size - file - 1)) (\<lambda>square_mask.
       if c \<in> set ''12345678'' then Inr (b, rank, file + (of_char c - of_char (CHR ''0'')))
       else if c = CHR ''/'' then Inr (b, rank - 1, 0)
       else if c = CHR ''P'' then Inr (b\<lparr>white_pawns := white_pawns b OR square_mask\<rparr>, rank, file + 1)
       else if c = CHR ''R'' then Inr (b\<lparr>white_rooks := white_rooks b OR square_mask\<rparr>, rank, file + 1)
       else if c = CHR ''N'' then Inr (b\<lparr>white_knights := white_knights b OR square_mask\<rparr>, rank, file + 1)
       else if c = CHR ''B'' then Inr (b\<lparr>white_bishops := white_bishops b OR square_mask\<rparr>, rank, file + 1)
       else if c = CHR ''Q'' then Inr (b\<lparr>white_queens := white_queens b OR square_mask\<rparr>, rank, file + 1)
       else if c = CHR ''K'' then Inr (b\<lparr>white_king := white_king b OR square_mask\<rparr>, rank, file + 1)
       else if c = CHR ''p'' then Inr (b\<lparr>black_pawns := black_pawns b OR square_mask\<rparr>, rank, file + 1)
       else if c = CHR ''r'' then Inr (b\<lparr>black_rooks := black_rooks b OR square_mask\<rparr>, rank, file + 1)
       else if c = CHR ''n'' then Inr (b\<lparr>black_knights := black_knights b OR square_mask\<rparr>, rank, file + 1)
       else if c = CHR ''b'' then Inr (b\<lparr>black_bishops := black_bishops b OR square_mask\<rparr>, rank, file + 1)
       else if c = CHR ''q'' then Inr (b\<lparr>black_queens := black_queens b OR square_mask\<rparr>, rank, file + 1)
       else if c = CHR ''k'' then Inr (b\<lparr>black_king := black_king b OR square_mask\<rparr>, rank, file + 1)
       else Inl Assertion_failed))"

definition init_bitboards :: "Board \<Rightarrow> string \<Rightarrow> Board result" where
  "init_bitboards b pieces_fen =
     bindr (for_each pieces_fen init_bitboards_char (zero_all_bitboards b, board_size - 1, 0))
       (\<lambda>(b, rank, file). Inr b)"

definition init_is_whites_move :: "Board \<Rightarrow> string \<Rightarrow> Board result" where
  "init_is_whites_move b side_to_move =
     raw_check (side_to_move = ''w'' \<or> side_to_move = ''b'')
       ''Invalid FEN. Side to move must be either w or b''
       (Inr (if side_to_move = ''w'' then b\<lparr>is_whites_move := True\<rparr>
             else if side_to_move = ''b'' then b\<lparr>is_whites_move := False\<rparr>
             else b))"

definition init_castling_rights :: "Board \<Rightarrow> string \<Rightarrow> Board" where
  "init_castling_rights b castling_rights_fen =
     b\<lparr>white_has_right_to_castle_kingside :=
         string_view_find castling_rights_fen (CHR ''K'') 0 \<noteq> None,
       white_has_right_to_castle_queenside :=
         string_view_find castling_rights_fen (CHR ''Q'') 0 \<noteq> None,
       black_has_right_to_castle_kingside :=
         string_view_find castling_rights_fen (CHR ''k'') 0 \<noteq> None,
       black_has_right_to_castle_queenside :=
         string_view_find castling_rights_fen (CHR ''q'') 0 \<noteq> None\<rparr>"

definition init_en_passant :: "Board \<Rightarrow> string \<Rightarrow> Board result" where
  "init_en_passant b algebraic_square =
     (if algebraic_square = ''-'' then Inr (b\<lparr>en_passant_square := None\<rparr>)
      else bindr (str_to_square algebraic_square) (\<lambda>square.
        Inr (b\<lparr>en_passant_square := Some square\<rparr>)))"

text \<open>\<open>split_fen[i]\<close>: \<open>std::vector::operator[]\<close> does not check its index.\<close>

definition vector_get :: "'a list \<Rightarrow> nat \<Rightarrow> 'a result" where
  "vector_get xs i = (if i < length xs then Inr (xs ! i)
     else Inl (Undefined_behaviour ''vector index''))"

definition Board_fen :: "Board \<Rightarrow> string \<Rightarrow> Board result" where
  "Board_fen storage fen =
     (let split_fen = StrSplit fen (CHR '' '')
      in bindr (vector_get split_fen 0) (\<lambda>f.
         bindr (init_bitboards storage f) (\<lambda>b.
         bindr (vector_get split_fen 1) (\<lambda>f.
         bindr (init_is_whites_move b f) (\<lambda>b.
         bindr (vector_get split_fen 2) (\<lambda>f.
         let b = init_castling_rights b f
         in bindr (vector_get split_fen 3) (\<lambda>f.
         bindr (init_en_passant b f) (\<lambda>b.
         bindr (vector_get split_fen 4) (\<lambda>f.
         bindr (SimpleAtoi int32_t f) (\<lambda>(ok, n).
         let b = b\<lparr>fifty_move_clock := n\<rparr>
         in raw_check ok ''FEN invalid: Fifty move clock not convertible to integer.''
         (bindr (vector_get split_fen 5) (\<lambda>f.
         bindr (SimpleAtoi int32_t f) (\<lambda>(ok, n).
         let b = b\<lparr>num_moves := n\<rparr>
         in raw_check ok ''FEN invalid: Number of moves not convertible to integer.''
         (Inr b))))))))))))))"

definition Board_default :: "Board \<Rightarrow> Board result" where
  "Board_default storage = Board_fen storage get_start_fen"

definition Move_default :: "Board \<Rightarrow> Move result" where
  "Move_default storage =
     bindr (Board_default storage) (\<lambda>board. Inr (Move_init 0 0 pawn simple board))"

end
