(* ===== verification/Absl_Print.thy ===== *)
theory Absl_Print
  imports Absl_Numbers
begin

text \<open>
  Printing integers, the four overloads of \<open>FastIntToBuffer\<close> in \<open>numbers.cc\<close> of the vendored
  Abseil. A function returns the characters that it writes before the terminating \<open>NUL\<close>; the
  pointer that the code returns is the end of them. The labels of the 32-bit overload, which
  fall through to each other, are one definition each.
\<close>

section \<open>The code\<close>

definition two_ASCII_digits :: "string list" where
  "two_ASCII_digits =
    [''00'', ''01'', ''02'', ''03'', ''04'', ''05'', ''06'', ''07'', ''08'', ''09'',
     ''10'', ''11'', ''12'', ''13'', ''14'', ''15'', ''16'', ''17'', ''18'', ''19'',
     ''20'', ''21'', ''22'', ''23'', ''24'', ''25'', ''26'', ''27'', ''28'', ''29'',
     ''30'', ''31'', ''32'', ''33'', ''34'', ''35'', ''36'', ''37'', ''38'', ''39'',
     ''40'', ''41'', ''42'', ''43'', ''44'', ''45'', ''46'', ''47'', ''48'', ''49'',
     ''50'', ''51'', ''52'', ''53'', ''54'', ''55'', ''56'', ''57'', ''58'', ''59'',
     ''60'', ''61'', ''62'', ''63'', ''64'', ''65'', ''66'', ''67'', ''68'', ''69'',
     ''70'', ''71'', ''72'', ''73'', ''74'', ''75'', ''76'', ''77'', ''78'', ''79'',
     ''80'', ''81'', ''82'', ''83'', ''84'', ''85'', ''86'', ''87'', ''88'', ''89'',
     ''90'', ''91'', ''92'', ''93'', ''94'', ''95'', ''96'', ''97'', ''98'', ''99'']"

definition PutTwoDigits :: "nat \<Rightarrow> string result" where
  "PutTwoDigits i = (if i < 100 then Inr (two_ASCII_digits ! i) else Inl Assertion_failed)"

definition one_ASCII_final_digits :: "string list" where
  "one_ASCII_final_digits = [''0'', ''1'', ''2'', ''3'', ''4'', ''5'', ''6'', ''7'', ''8'', ''9'']"

text \<open>Writing two digits and going on behind them.\<close>

definition put_two :: "'a::len word \<Rightarrow> string result \<Rightarrow> string result" where
  "put_two digits rest =
     bindr (PutTwoDigits (unat digits)) (\<lambda>w. bindr rest (\<lambda>r. Inr (w @ r)))"

text \<open>\<open>*buffer++ = '0' + digits\<close>.\<close>

definition put_one :: "'a::len word \<Rightarrow> string result \<Rightarrow> string result" where
  "put_one digits rest = bindr rest (\<lambda>r. Inr (char_of (48 + unat digits) # r))"

definition lt100 :: "32 word \<Rightarrow> string result" where
  "lt100 i = (let digits = i in put_two digits (Inr []))"

definition lt10_000 :: "32 word \<Rightarrow> string result" where
  "lt10_000 i = (let digits = i div 100; i = i - digits * 100 in put_two digits (lt100 i))"

definition lt1_000_000 :: "32 word \<Rightarrow> string result" where
  "lt1_000_000 i = (let digits = i div 10000; i = i - digits * 10000 in put_two digits (lt10_000 i))"

definition lt100_000_000 :: "32 word \<Rightarrow> string result" where
  "lt100_000_000 i =
     (let digits = i div 1000000; i = i - digits * 1000000 in put_two digits (lt1_000_000 i))"

definition FastIntToBuffer_u32 :: "32 word \<Rightarrow> string result" where
  "FastIntToBuffer_u32 i =
     (if i \<ge> 1000000000 then
        let digits = i div 100000000; i = i - digits * 100000000
        in put_two digits (lt100_000_000 i)
      else if i < 100 then
        if i \<ge> 10 then lt100 i else Inr (one_ASCII_final_digits ! unat i)
      else if i < 10000 then
        if i \<ge> 1000 then lt10_000 i
        else let digits = i div 100; i = i - digits * 100 in put_one digits (lt100 i)
      else if i < 1000000 then
        if i \<ge> 100000 then lt1_000_000 i
        else let digits = i div 10000; i = i - digits * 10000 in put_one digits (lt10_000 i)
      else if i < 100000000 then
        if i \<ge> 10000000 then lt100_000_000 i
        else let digits = i div 1000000; i = i - digits * 1000000 in put_one digits (lt1_000_000 i)
      else
        let digits = i div 100000000; i = i - digits * 100000000
        in put_one digits (lt100_000_000 i))"

text \<open>The signed overloads negate modulo the width.\<close>

definition FastIntToBuffer_i32 :: "32 word \<Rightarrow> string result" where
  "FastIntToBuffer_i32 i =
     (let u = i
      in if sint i < 0 then bindr (FastIntToBuffer_u32 (0 - u)) (\<lambda>r. Inr (CHR ''-'' # r))
         else FastIntToBuffer_u32 u)"

definition FastIntToBuffer_u64 :: "64 word \<Rightarrow> string result" where
  "FastIntToBuffer_u64 i =
     (let u32 = (ucast i :: 32 word)
      in if ucast u32 = i then FastIntToBuffer_u32 u32
         else
           let top_1to11 = i div 1000000000;
               u32 = (ucast (i - top_1to11 * 1000000000) :: 32 word);
               top_1to11_32 = (ucast top_1to11 :: 32 word)
           in bindr
                (if ucast top_1to11_32 = top_1to11 then FastIntToBuffer_u32 top_1to11_32
                 else
                   let top_8to9 = (ucast (top_1to11 div 100) :: 32 word);
                       mid_2 = (ucast (top_1to11 - ucast (top_8to9 * 100)) :: 32 word)
                   in bindr (FastIntToBuffer_u32 top_8to9) (\<lambda>w.
                        bindr (PutTwoDigits (unat mid_2)) (\<lambda>x. Inr (w @ x))))
                (\<lambda>w.
                   let digits = u32 div 10000000; u32 = u32 - digits * 10000000
                   in bindr (put_two digits
                        (let digits = u32 div 100000; u32 = u32 - digits * 100000
                         in put_two digits
                           (let digits = u32 div 1000; u32 = u32 - digits * 1000
                            in put_two digits
                              (let digits = u32 div 10; u32 = u32 - digits * 10
                               in put_two digits (Inr (one_ASCII_final_digits ! unat u32))))))
                        (\<lambda>r. Inr (w @ r))))"

definition FastIntToBuffer_i64 :: "64 word \<Rightarrow> string result" where
  "FastIntToBuffer_i64 i =
     (let u = i
      in if sint i < 0 then bindr (FastIntToBuffer_u64 (0 - u)) (\<lambda>r. Inr (CHR ''-'' # r))
         else FastIntToBuffer_u64 u)"

section \<open>Decimal notation\<close>

definition digit_char :: "nat \<Rightarrow> char" where
  "digit_char n = char_of (48 + n)"

fun show_nat :: "nat \<Rightarrow> string" where
  "show_nat n = (if n < 10 then [digit_char n] else show_nat (n div 10) @ [digit_char (n mod 10)])"

definition show_int :: "int \<Rightarrow> string" where
  "show_int i = (if i < 0 then CHR ''-'' # show_nat (nat (- i)) else show_nat (nat i))"

declare show_nat.simps [simp del]

text \<open>Two digits, and \<open>2 * k\<close> of them with leading zeros.\<close>

definition two :: "nat \<Rightarrow> string" where
  "two n = [digit_char (n div 10), digit_char (n mod 10)]"

fun pairs :: "nat \<Rightarrow> nat \<Rightarrow> string" where
  "pairs 0 n = []"
| "pairs (Suc k) n = two (n div 100 ^ k) @ pairs k (n mod 100 ^ k)"

lemma nth_map_from_0: "i < n \<Longrightarrow> map f [0..<n] ! i = f i"
  by simp

lemma two_ASCII_digits: "n < 100 \<Longrightarrow> two_ASCII_digits ! n = two n"
proof -
  assume n: "n < 100"
  have eq: "two_ASCII_digits = map two [0..<100]" by code_simp
  show ?thesis unfolding eq using n by (rule nth_map_from_0)
qed

lemma one_ASCII_final_digits: "n < 10 \<Longrightarrow> one_ASCII_final_digits ! n = [digit_char n]"
proof -
  assume n: "n < 10"
  have eq: "one_ASCII_final_digits = map (\<lambda>n. [digit_char n]) [0..<10]" by code_simp
  show ?thesis unfolding eq using n by (rule nth_map_from_0)
qed

lemma PutTwoDigits_eq: "n < 100 \<Longrightarrow> PutTwoDigits n = Inr (two n)"
  by (simp add: PutTwoDigits_def two_ASCII_digits)

lemma show_nat_digit: "0 < n \<Longrightarrow> d < 10 \<Longrightarrow> show_nat (n * 10 + d) = show_nat n @ [digit_char d]"
  by (subst show_nat.simps) simp

lemma show_nat_two:
  assumes "0 < n" "m < 100"
  shows "show_nat (n * 100 + m) = show_nat n @ two m"
proof -
  have "show_nat ((n * 10 + m div 10) * 10 + m mod 10) = show_nat n @ two m"
    using assms by (subst show_nat_digit; simp add: show_nat_digit two_def)
  moreover have "(n * 10 + m div 10) * 10 + m mod 10 = n * 100 + m" by simp
  ultimately show ?thesis by metis
qed

lemma show_nat_pairs:
  "0 < n \<Longrightarrow> m < 100 ^ k \<Longrightarrow> show_nat (n * 100 ^ k + m) = show_nat n @ pairs k m"
proof (induction k arbitrary: n m)
  case (Suc k)
  let ?q = "m div 100 ^ k"
  have q: "?q < 100" using Suc.prems(2) by (simp add: div_less_iff_less_mult mult.commute)
  have "n * 100 ^ Suc k + m = (n * 100 + ?q) * 100 ^ k + m mod 100 ^ k"
    by (simp add: algebra_simps)
  then show ?case
    using Suc.IH [of "n * 100 + ?q" "m mod 100 ^ k"] Suc.prems(1) q by (simp add: show_nat_two)
qed simp

section \<open>What the overloads print\<close>

lemma unat_numeral_32:
  "unat (10 :: 32 word) = 10" "unat (100 :: 32 word) = 100" "unat (1000 :: 32 word) = 1000"
  "unat (10000 :: 32 word) = 10000" "unat (100000 :: 32 word) = 100000"
  "unat (1000000 :: 32 word) = 1000000" "unat (10000000 :: 32 word) = 10000000"
  "unat (100000000 :: 32 word) = 100000000" "unat (1000000000 :: 32 word) = 1000000000"
  by simp_all

text \<open>The quotient and the remainder that a step computes.\<close>

lemma step_word:
  fixes i k :: "'a::len word"
  shows "unat (i div k) = unat i div unat k" "unat (i - i div k * k) = unat i mod unat k"
  by (simp_all add: unat_div minus_div_mult_eq_mod unat_mod)

lemma put_two_Inr: "unat d < 100 \<Longrightarrow> put_two d (Inr r) = Inr (two (unat d) @ r)"
  by (simp add: put_two_def PutTwoDigits_eq)

lemma put_one_Inr: "put_one d (Inr r) = Inr (digit_char (unat d) # r)"
  by (simp add: put_one_def digit_char_def)

lemma pairs_numeral:
  "pairs (Suc 0) n = two n" "pairs 2 n = two (n div 100) @ two (n mod 100)"
  "pairs 3 n = two (n div 10000) @ pairs 2 (n mod 10000)"
  "pairs 4 n = two (n div 1000000) @ pairs 3 (n mod 1000000)"
proof -
  show "pairs (Suc 0) n = two n" for n by simp
  then show "pairs 2 n = two (n div 100) @ two (n mod 100)"
    using pairs.simps(2) [of "Suc 0" n] by (simp add: numeral_2_eq_2)
  have "(3 :: nat) = Suc 2" "(4 :: nat) = Suc 3" by simp_all
  then show "pairs 3 n = two (n div 10000) @ pairs 2 (n mod 10000)"
    "pairs 4 n = two (n div 1000000) @ pairs 3 (n mod 1000000)"
    using pairs.simps(2) [of 2 n] pairs.simps(2) [of 3 n] by simp_all
qed

lemma lt_labels:
  "unat i < 100 \<Longrightarrow> lt100 i = Inr (pairs 1 (unat i))"
  "unat i < 10000 \<Longrightarrow> lt10_000 i = Inr (pairs 2 (unat i))"
  "unat i < 1000000 \<Longrightarrow> lt1_000_000 i = Inr (pairs 3 (unat i))"
  "unat i < 100000000 \<Longrightarrow> lt100_000_000 i = Inr (pairs 4 (unat i))"
proof -
  have less: "m < 100 * k \<Longrightarrow> m div k < 100" for m k :: nat
    by (rule less_mult_imp_div_less)
  show l1: "unat i < 100 \<Longrightarrow> lt100 i = Inr (pairs 1 (unat i))" for i
    by (simp add: lt100_def put_two_Inr pairs_numeral(1))
  show l2: "unat i < 10000 \<Longrightarrow> lt10_000 i = Inr (pairs 2 (unat i))" for i
    using less [of "unat i" 100] l1 [of "i - i div 100 * 100"]
    by (simp add: lt10_000_def put_two_Inr step_word Let_def pairs_numeral(2))
  show l3: "unat i < 1000000 \<Longrightarrow> lt1_000_000 i = Inr (pairs 3 (unat i))" for i
    using less [of "unat i" 10000] l2 [of "i - i div 10000 * 10000"]
    by (simp add: lt1_000_000_def put_two_Inr step_word Let_def pairs_numeral(3))
  show "unat i < 100000000 \<Longrightarrow> lt100_000_000 i = Inr (pairs 4 (unat i))"
    using less [of "unat i" 1000000] l3 [of "i - i div 1000000 * 1000000"]
    by (simp add: lt100_000_000_def put_two_Inr step_word Let_def pairs_numeral(4))
qed

lemma show_nat_small: "n < 100 \<Longrightarrow> show_nat n = (if n < 10 then [digit_char n] else two n)"
  using show_nat.simps [of n] show_nat.simps [of "n div 10"]
  by (simp add: two_def less_mult_imp_div_less)

text \<open>A leading part that is not zero, written before pairs of digits.\<close>

lemma show_nat_leading:
  assumes "100 ^ k \<le> n" "n < 100 ^ Suc k"
  shows "show_nat n = (if n div 100 ^ k < 10 then [digit_char (n div 100 ^ k)] else two (n div 100 ^ k))
    @ pairs k (n mod 100 ^ k)"
proof -
  let ?q = "n div 100 ^ k"
  have q: "0 < ?q" "?q < 100"
    using assms by (simp_all add: div_greater_zero_iff less_mult_imp_div_less)
  have "show_nat ?q = (if ?q < 10 then [digit_char ?q] else two ?q)"
    using q by (rule_tac show_nat_small) simp
  moreover have "show_nat n = show_nat ?q @ pairs k (n mod 100 ^ k)"
    using show_nat_pairs [OF q(1), of "n mod 100 ^ k" k] by (simp only: div_mult_mod_eq) simp
  ultimately show ?thesis by simp
qed

lemma show_nat_leading_numeral:
  "100 \<le> n \<Longrightarrow> n < 10000 \<Longrightarrow> show_nat n =
     (if n < 1000 then [digit_char (n div 100)] else two (n div 100)) @ pairs 1 (n mod 100)"
  "10000 \<le> n \<Longrightarrow> n < 1000000 \<Longrightarrow> show_nat n =
     (if n < 100000 then [digit_char (n div 10000)] else two (n div 10000)) @ pairs 2 (n mod 10000)"
  "1000000 \<le> n \<Longrightarrow> n < 100000000 \<Longrightarrow> show_nat n =
     (if n < 10000000 then [digit_char (n div 1000000)] else two (n div 1000000)) @ pairs 3 (n mod 1000000)"
  "100000000 \<le> n \<Longrightarrow> n < 10000000000 \<Longrightarrow> show_nat n =
     (if n < 1000000000 then [digit_char (n div 100000000)] else two (n div 100000000))
       @ pairs 4 (n mod 100000000)"
  using show_nat_leading [of 1 n] show_nat_leading [of 2 n] show_nat_leading [of 3 n]
    show_nat_leading [of 4 n]
  by (simp_all add: div_less_iff_less_mult)

lemma FastIntToBuffer_u32_eq: "FastIntToBuffer_u32 i = Inr (show_nat (unat i))"
proof -
  have bound: "unat i < 4294967296" using unsigned_less [of i, where ?'a = nat] by simp
  have order: "i < k \<longleftrightarrow> unat i < unat k" "i \<ge> k \<longleftrightarrow> unat k \<le> unat i" for k
    by (simp_all add: word_less_nat_alt word_le_nat_alt)
  have one: "put_one d (lt i') = Inr (digit_char (unat d) # r)" if "lt i' = Inr r" for d :: "32 word" and lt i' r
    using that by (simp add: put_one_Inr)
  consider "unat i < 100" | "100 \<le> unat i" "unat i < 10000" | "10000 \<le> unat i" "unat i < 1000000"
    | "1000000 \<le> unat i" "unat i < 100000000" | "100000000 \<le> unat i" by linarith
  then show ?thesis
  proof cases
    case 1
    then show ?thesis
      by (simp add: FastIntToBuffer_u32_def order lt_labels pairs_numeral(1) show_nat_small
          one_ASCII_final_digits)
  next
    case 2
    then show ?thesis
      using show_nat_leading_numeral(1) [of "unat i"]
      by (simp add: FastIntToBuffer_u32_def order lt_labels step_word put_one_Inr pairs_numeral Let_def)
  next
    case 3
    then show ?thesis
      using show_nat_leading_numeral(2) [of "unat i"]
      by (simp add: FastIntToBuffer_u32_def order lt_labels step_word put_one_Inr pairs_numeral(3) Let_def)
  next
    case 4
    then show ?thesis
      using show_nat_leading_numeral(3) [of "unat i"]
      by (simp add: FastIntToBuffer_u32_def order lt_labels step_word put_one_Inr pairs_numeral(4) Let_def)
  next
    case 5
    then show ?thesis
      using show_nat_leading_numeral(4) [of "unat i"] bound
      by (simp add: FastIntToBuffer_u32_def order lt_labels step_word put_one_Inr put_two_Inr
          less_mult_imp_div_less Let_def)
  qed
qed

text \<open>
  The 64-bit overload. The product \<open>top_8to9 * 100\<close> is computed in 32 bits and can wrap; the
  difference is cut to 32 bits as well, so that the two digits in the middle are right.
\<close>

lemma ucast_minus_ucast:
  "(ucast (a - ucast (c :: 32 word) :: 64 word) :: 32 word) = ucast a - c"
proof transfer
  fix a c :: int
  have "(a mod 18446744073709551616) mod 4294967296 = a mod 4294967296" for a :: int
    by (rule mod_mod_cancel) simp
  then have "(a mod 18446744073709551616 - c) mod 4294967296 = (a - c) mod 4294967296"
    by (rule mod_diff_cong) (rule refl)
  then show "take_bit LENGTH(32) (take_bit LENGTH(64) (a - take_bit LENGTH(32) c)) =
      take_bit LENGTH(32) (take_bit LENGTH(64) a - c)"
    by (simp add: take_bit_eq_mod mod_mod_cancel mod_simps)
qed

lemma ucast_minus_mult:
  "(ucast (a - b * 100 :: 64 word) :: 32 word) = ucast a - ucast b * 100"
proof transfer
  fix a b :: int
  have m: "(a mod 18446744073709551616) mod 4294967296 = a mod 4294967296" for a :: int
    by (rule mod_mod_cancel) simp
  have "(a mod 18446744073709551616 - b mod 18446744073709551616 * 100) mod 4294967296 =
      (a - b * 100) mod 4294967296"
    by (rule mod_diff_cong [OF m mod_mult_cong [OF m refl]])
  then show "take_bit LENGTH(32) (take_bit LENGTH(64) (a - b * 100)) =
      take_bit LENGTH(32) (take_bit LENGTH(64) a - take_bit LENGTH(64) b * 100)"
    by (simp add: take_bit_eq_mod mod_mod_cancel)
qed

lemma show_nat_nine:
  assumes "0 < t" "m < 1000000000"
  shows "show_nat (t * 1000000000 + m) = show_nat t @ two (m div 10000000) @
    two (m mod 10000000 div 100000) @ two (m mod 10000000 mod 100000 div 1000) @
    two (m mod 10000000 mod 100000 mod 1000 div 10) @
    [digit_char (m mod 10000000 mod 100000 mod 1000 mod 10)]"
proof -
  have "show_nat ((t * 100 ^ 4 + m div 10) * 10 + m mod 10) = show_nat t @ pairs 4 (m div 10) @ [digit_char (m mod 10)]"
    using assms show_nat_pairs [of t "m div 10" 4]
    by (subst show_nat_digit) (simp_all add: less_mult_imp_div_less)
  moreover have "(t * 100 ^ 4 + m div 10) * 10 + m mod 10 = t * 1000000000 + m" by simp
  moreover have "n div 10 mod k = n mod (10 * k) div 10" for n k :: nat
    by (simp add: mod_mult2_eq)
  ultimately show ?thesis
    by (simp add: pairs_numeral div_mult2_eq [symmetric] mod_mod_cancel ac_simps)
qed

lemma unat_ucast_32: "unat (x :: 64 word) < 4294967296 \<Longrightarrow> unat (ucast x :: 32 word) = unat x"
  by (simp add: unsigned_ucast_eq take_bit_nat_eq_self)

lemma ucast_ucast_32:
  "(ucast (ucast (x :: 64 word) :: 32 word) = x) \<longleftrightarrow> unat x < 4294967296"
proof -
  have "unat (ucast (ucast x :: 32 word) :: 64 word) = unat x mod 4294967296"
    by (simp add: unsigned_ucast_eq take_bit_eq_mod mod_mod_cancel unat_mod)
  moreover have "unat x mod 4294967296 = unat x \<longleftrightarrow> unat x < 4294967296"
    by (metis mod_less mod_less_divisor zero_less_numeral)
  ultimately show ?thesis by (metis unsigned_word_eqI)
qed

lemma top_digits:
  fixes top :: "64 word"
  assumes "4294967296 \<le> unat top" "unat top < 18446744074"
  shows "bindr (FastIntToBuffer_u32 (ucast (top div 100))) (\<lambda>w.
      bindr (PutTwoDigits (unat (ucast (top - ucast (ucast (top div 100) * 100 :: 32 word)) :: 32 word)))
        (\<lambda>x. Inr (w @ x))) = Inr (show_nat (unat top))"
proof -
  let ?w = "ucast (top div 100) :: 32 word"
  have q: "unat (top div 100) = unat top div 100" by (simp add: unat_div)
  then have w: "unat ?w = unat top div 100" using assms(2) by (subst unat_ucast_32) simp_all
  have "(ucast (top - ucast (?w * 100)) :: 32 word) = ucast (top - top div 100 * 100)"
    unfolding ucast_minus_ucast ucast_minus_mult ..
  moreover have "unat (top - top div 100 * 100) = unat top mod 100" by (simp add: step_word)
  then have "unat (ucast (top - top div 100 * 100) :: 32 word) = unat top mod 100"
    by (subst unat_ucast_32) simp_all
  moreover have "show_nat (unat top) = show_nat (unat top div 100) @ two (unat top mod 100)"
    using show_nat_two [of "unat top div 100" "unat top mod 100"] assms(1) by simp
  ultimately show ?thesis by (simp add: FastIntToBuffer_u32_eq w PutTwoDigits_eq)
qed

lemma nine_digits:
  fixes u :: "32 word"
  assumes "unat u < 1000000000" "0 < t"
  shows "(let digits = u div 10000000; u = u - digits * 10000000
      in bindr (put_two digits
           (let digits = u div 100000; u = u - digits * 100000
            in put_two digits
              (let digits = u div 1000; u = u - digits * 1000
               in put_two digits
                 (let digits = u div 10; u = u - digits * 10
                  in put_two digits (Inr (one_ASCII_final_digits ! unat u))))))
           (\<lambda>r. Inr (show_nat t @ r))) = Inr (show_nat (t * 1000000000 + unat u))"
proof -
  have less: "m mod (k * 100) div k < 100" if "0 < k" for m k :: nat
    using that by (simp add: less_mult_imp_div_less mult.commute)
  have "unat u div 10000000 < 100" using assms(1) by (simp add: less_mult_imp_div_less)
  then show ?thesis
    using less [of 100000 "unat u"] less [of 1000 "unat u mod 10000000"]
      less [of 10 "unat u mod 10000000 mod 100000"]
    by (simp add: Let_def put_two_Inr step_word one_ASCII_final_digits show_nat_nine assms)
qed

lemma FastIntToBuffer_u64_eq: "FastIntToBuffer_u64 i = Inr (show_nat (unat i))"
proof (cases "unat i < 4294967296")
  case True
  then show ?thesis
    by (simp add: FastIntToBuffer_u64_def ucast_ucast_32 FastIntToBuffer_u32_eq unat_ucast_32)
next
  case False
  let ?top = "i div 1000000000"
  let ?u = "ucast (i - ?top * 1000000000) :: 32 word"
  have top: "unat ?top = unat i div 1000000000" by (simp add: unat_div)
  have "unat (i - ?top * 1000000000) = unat i mod 1000000000" by (simp add: step_word)
  then have u: "unat ?u = unat i mod 1000000000" by (subst unat_ucast_32) simp_all
  have "unat i < 18446744073709551616" using unsigned_less [of i, where ?'a = nat] by simp
  then have small: "unat ?top < 18446744074" unfolding top by (simp add: less_mult_imp_div_less)
  have pos: "0 < unat ?top" using False unfolding top by (simp add: div_greater_zero_iff)
  have first: "(if ucast (ucast ?top :: 32 word) = ?top then FastIntToBuffer_u32 (ucast ?top)
      else let top_8to9 = (ucast (?top div 100) :: 32 word);
               mid_2 = (ucast (?top - ucast (top_8to9 * 100)) :: 32 word)
           in bindr (FastIntToBuffer_u32 top_8to9) (\<lambda>w.
                bindr (PutTwoDigits (unat mid_2)) (\<lambda>x. Inr (w @ x)))) = Inr (show_nat (unat ?top))"
    using top_digits [of ?top] small
    by (simp add: ucast_ucast_32 FastIntToBuffer_u32_eq unat_ucast_32 Let_def)
  have "unat ?u < 1000000000" unfolding u by simp
  note rest = nine_digits [OF this pos]
  have "unat ?top * 1000000000 + unat ?u = unat i" unfolding u top by simp
  with rest show ?thesis
    unfolding FastIntToBuffer_u64_def Let_def [of "ucast i"] Let_def [of ?top] Let_def [of ?u]
      Let_def [of "ucast ?top"] ucast_ucast_32 [of i]
    using False first unfolding ucast_ucast_32 by (simp only: if_False bindr_Inr)
qed

lemma unat_word_of_int:
  "0 \<le> k \<Longrightarrow> k < 2 ^ LENGTH('a) \<Longrightarrow> unat (word_of_int k :: 'a::len word) = nat k"
  by (simp add: unat_eq_nat_uint uint_word_of_int)

lemma signed_cases:
  fixes i :: "'a::len word"
  shows "sint i < 0 \<Longrightarrow> unat (0 - i) = nat (- sint i)" "0 \<le> sint i \<Longrightarrow> unat i = nat (sint i)"
proof -
  have bound: "- sint i < 2 ^ LENGTH('a)" "sint i < 2 ^ LENGTH('a)"
  proof -
    have "(2 :: int) ^ (LENGTH('a) - 1) < 2 ^ LENGTH('a)" by (rule power_strict_increasing) simp_all
    then show "- sint i < 2 ^ LENGTH('a)" "sint i < 2 ^ LENGTH('a)"
      using sint_ge [of i] sint_lt [of i] by linarith+
  qed
  have "0 - i = word_of_int (- sint i)" by simp
  then show "sint i < 0 \<Longrightarrow> unat (0 - i) = nat (- sint i)"
    using unat_word_of_int [of "- sint i", where ?'a = 'a] bound(1) by simp
  have "i = word_of_int (sint i)" by simp
  then show "0 \<le> sint i \<Longrightarrow> unat i = nat (sint i)"
    using unat_word_of_int [of "sint i", where ?'a = 'a] bound(2) by simp
qed

lemma FastIntToBuffer_signed_eq:
  "FastIntToBuffer_i32 i = Inr (show_int (sint i))"
  "FastIntToBuffer_i64 j = Inr (show_int (sint j))"
  using signed_cases [of i] signed_cases [of j]
  by (simp_all add: FastIntToBuffer_i32_def FastIntToBuffer_i64_def FastIntToBuffer_u32_eq
      FastIntToBuffer_u64_eq show_int_def not_less)

section \<open>Reading back what was printed\<close>

lemma digit_char: "d < 10 \<Longrightarrow> ascii_isdigit (digit_char d) \<and> digit_value (digit_char d) = int d"
  by (simp add: digit_value_eq ascii_ranges digit_char_def)

lemma numeral_value_snoc: "numeral_value b (ds @ [c]) = b * numeral_value b ds + digit_value c"
  by (simp add: numeral_value_def)

lemma show_nat_numeral:
  "list_all ascii_isdigit (show_nat n) \<and> show_nat n \<noteq> [] \<and> numeral_value 10 (show_nat n) = int n"
proof (induction n rule: show_nat.induct)
  case (1 n)
  show ?case
  proof (cases "n < 10")
    case True
    then show ?thesis by (simp add: show_nat.simps [of n] digit_char numeral_value_def)
  next
    case False
    have "10 * int (n div 10) + int (n mod 10) = int n" by presburger
    with False 1 show ?thesis
      by (simp add: show_nat.simps [of n] digit_char numeral_value_snoc)
  qed
qed

lemma strip_digits:
  assumes "list_all ascii_isdigit ds" "ds \<noteq> []"
  shows "StripAsciiWhitespace ds = ds" "StripAsciiWhitespace (CHR ''-'' # ds) = CHR ''-'' # ds"
proof -
  have sp: "\<not> ascii_isspace (hd ds)" "\<not> ascii_isspace (last ds)"
    using assms by (auto simp: list_all_iff digit_not_space)
  moreover have "\<not> ascii_isspace CHR ''-''" by (simp add: ascii_property(3))
  moreover have "dropWhile ascii_isspace (rev ds) = rev ds"
    "dropWhile ascii_isspace (rev ds @ xs) = rev ds @ xs" for xs
    using sp(2) assms(2) by (cases ds rule: rev_cases; simp)+
  moreover have "dropWhile ascii_isspace ds = ds" using sp(1) assms(2) by (cases ds) simp_all
  ultimately show "StripAsciiWhitespace ds = ds" "StripAsciiWhitespace (CHR ''-'' # ds) = CHR ''-'' # ds"
    by (simp_all add: StripAsciiWhitespace_def strip_leading strip_trailing)
qed

lemma SimpleAtoi_show_int:
  assumes "numeric_min ty \<le> n" "n \<le> numeric_max ty"
  shows "SimpleAtoi ty (show_int n) = Inr (True, n)"
proof (cases "n < 0")
  case True
  then have "signed_type ty" using assms(1) by (cases ty) (simp_all add: signed_type_def)
  with True assms show ?thesis
    using show_nat_numeral [of "nat (- n)"]
    by (auto simp: SimpleAtoi_True show_int_def strip_digits intro!: exI [of _ "show_nat (nat (- n))"])
next
  case False
  with assms show ?thesis
    using show_nat_numeral [of "nat n"]
    by (auto simp: SimpleAtoi_True show_int_def strip_digits intro!: exI [of _ "show_nat (nat n)"])
qed

end
