(* ===== verification/Absl_StrCat.thy ===== *)
theory Absl_StrCat
  imports Absl_Print
begin

text \<open>
  \<open>absl::StrCat\<close> and \<open>absl::StrAppend\<close> of the vendored Abseil, \<open>str_cat.h\<close> and
  \<open>str_cat.cc\<close>, with the conversions of \<open>Hex\<close> and \<open>Dec\<close> arguments. A string under
  construction is a buffer of the size that the code computes in advance; a copy outside of it
  is undefined behaviour, and a buffer that is not full at the end fails the assertion. The
  arguments are values, so the overlap that \<open>ASSERT_NO_OVERLAP\<close> forbids cannot arise.
\<close>

section \<open>Copying into a buffer\<close>

text \<open>\<open>STLStringResizeUninitialized\<close>; the new characters are not read before they are written.\<close>

definition resize_uninitialized :: "string \<Rightarrow> nat \<Rightarrow> string" where
  "resize_uninitialized s n = take n s @ replicate (n - length s) CHR 0x00"

definition memcpy :: "string \<Rightarrow> nat \<Rightarrow> string \<Rightarrow> string result" where
  "memcpy buf out src =
     (if out + length src \<le> length buf then Inr (take out buf @ src @ drop (out + length src) buf)
      else Inl (Undefined_behaviour ''memcpy out of bounds''))"

text \<open>A position in a buffer, moved behind what was copied.\<close>

definition Append :: "string \<times> nat \<Rightarrow> string \<Rightarrow> (string \<times> nat) result" where
  "Append st x = (case st of (buf, out) \<Rightarrow>
     let after = out + length x in bindr (memcpy buf out x) (\<lambda>buf. Inr (buf, after)))"

text \<open>\<open>assert(out == begin + result.size())\<close>, then the result.\<close>

definition filled :: "string \<times> nat \<Rightarrow> string result" where
  "filled st = (case st of (buf, out) \<Rightarrow> if out = length buf then Inr buf else Inl Assertion_failed)"

section \<open>Concatenation\<close>

definition StrCat2 :: "string \<Rightarrow> string \<Rightarrow> string result" where
  "StrCat2 a b =
     bindr (Append (resize_uninitialized [] (length a + length b), 0) a) (\<lambda>st.
     bindr (Append st b) filled)"

definition StrCat3 :: "string \<Rightarrow> string \<Rightarrow> string \<Rightarrow> string result" where
  "StrCat3 a b c =
     bindr (Append (resize_uninitialized [] (length a + length b + length c), 0) a) (\<lambda>st.
     bindr (Append st b) (\<lambda>st. bindr (Append st c) filled))"

definition StrCat4 :: "string \<Rightarrow> string \<Rightarrow> string \<Rightarrow> string \<Rightarrow> string result" where
  "StrCat4 a b c d =
     bindr (Append (resize_uninitialized [] (length a + length b + length c + length d), 0) a) (\<lambda>st.
     bindr (Append st b) (\<lambda>st. bindr (Append st c) (\<lambda>st. bindr (Append st d) filled)))"

text \<open>The loop over the pieces, shared by \<open>CatPieces\<close> and \<open>AppendPieces\<close>.\<close>

fun copy_pieces :: "string list \<Rightarrow> string \<times> nat \<Rightarrow> (string \<times> nat) result" where
  "copy_pieces [] st = Inr st"
| "copy_pieces (p # ps) st = bindr (Append st p) (copy_pieces ps)"

definition CatPieces :: "string list \<Rightarrow> string result" where
  "CatPieces pieces =
     (let total_size = foldl (\<lambda>n piece. n + length piece) 0 pieces
      in bindr (copy_pieces pieces (resize_uninitialized [] total_size, 0)) filled)"

definition AppendPieces :: "string \<Rightarrow> string list \<Rightarrow> string result" where
  "AppendPieces dest pieces =
     (let old_size = length dest;
          total_size = foldl (\<lambda>n piece. n + length piece) old_size pieces
      in bindr (copy_pieces pieces (resize_uninitialized dest total_size, old_size)) filled)"

definition StrAppend1 :: "string \<Rightarrow> string \<Rightarrow> string result" where
  "StrAppend1 dest a = Inr (dest @ a)"

definition StrAppend2 :: "string \<Rightarrow> string \<Rightarrow> string \<Rightarrow> string result" where
  "StrAppend2 dest a b =
     (let old_size = length dest
      in bindr (Append (resize_uninitialized dest (old_size + length a + length b), old_size) a) (\<lambda>st.
         bindr (Append st b) filled))"

definition StrAppend3 :: "string \<Rightarrow> string \<Rightarrow> string \<Rightarrow> string \<Rightarrow> string result" where
  "StrAppend3 dest a b c =
     (let old_size = length dest
      in bindr (Append (resize_uninitialized dest (old_size + length a + length b + length c), old_size) a) (\<lambda>st.
         bindr (Append st b) (\<lambda>st. bindr (Append st c) filled)))"

definition StrAppend4 :: "string \<Rightarrow> string \<Rightarrow> string \<Rightarrow> string \<Rightarrow> string \<Rightarrow> string result" where
  "StrAppend4 dest a b c d =
     (let old_size = length dest
      in bindr (Append (resize_uninitialized dest
           (old_size + length a + length b + length c + length d), old_size) a) (\<lambda>st.
         bindr (Append st b) (\<lambda>st. bindr (Append st c) (\<lambda>st. bindr (Append st d) filled))))"

section \<open>Padded numbers\<close>

text \<open>The values of the enumeration \<open>PadSpec\<close>: no padding, zeros, spaces.\<close>

type_synonym PadSpec = nat

definition kNoPad :: PadSpec where "kNoPad = 1"

definition kZeroPad2 :: PadSpec where "kZeroPad2 = 2"

definition kSpacePad2 :: PadSpec where "kSpacePad2 = kZeroPad2 + 64"

record Hex =
  hex_value :: "64 word"
  hex_width :: nat
  hex_fill :: char

record Dec =
  dec_value :: "64 word"
  dec_width :: nat
  dec_fill :: char
  dec_neg :: bool

definition pad_width :: "PadSpec \<Rightarrow> nat" where
  "pad_width spec =
     (if spec = kNoPad then 1 else if spec \<ge> kSpacePad2 then spec - kSpacePad2 + 2
      else spec - kZeroPad2 + 2)"

definition pad_fill :: "PadSpec \<Rightarrow> char" where
  "pad_fill spec = (if spec \<ge> kSpacePad2 then CHR '' '' else CHR ''0'')"

definition Hex_init :: "PadSpec \<Rightarrow> 64 word \<Rightarrow> Hex" where
  "Hex_init spec v = \<lparr>hex_value = v, hex_width = pad_width spec, hex_fill = pad_fill spec\<rparr>"

text \<open>\<open>Dec\<close> of a signed 64-bit integer.\<close>

definition Dec_init :: "64 word \<Rightarrow> PadSpec \<Rightarrow> Dec" where
  "Dec_init v spec =
     \<lparr>dec_value = (if sint v \<ge> 0 then v else 0 - v), dec_width = pad_width spec,
      dec_fill = pad_fill spec, dec_neg = (sint v < 0)\<rparr>"

definition hexdigits :: string where
  "hexdigits = ''0123456789abcdef''"

text \<open>The characters from \<open>writer\<close> to \<open>end\<close>; the loop writes before it tests.\<close>

function hex_loop :: "64 word \<Rightarrow> string \<Rightarrow> string" where
  "hex_loop value writer =
     (let writer = hexdigits ! unat (value AND 0xF) # writer;
          value = drop_bit 4 value
      in if value \<noteq> 0 then hex_loop value writer else writer)"
  by pat_completeness auto

lemma unat_drop_bit_4_less: "drop_bit 4 (v :: 64 word) \<noteq> 0 \<Longrightarrow> unat (drop_bit 4 v) < unat v"
proof -
  assume "drop_bit 4 v \<noteq> 0"
  then have "unat v \<noteq> 0" by (auto simp: unat_eq_zero)
  moreover have "unat (drop_bit 4 v) = unat v div 16"
    by (simp add: drop_bit_eq_div unat_div)
  ultimately show ?thesis by simp
qed

termination hex_loop
  by (relation "measure (\<lambda>(v, w). unat v)") (auto simp: unat_drop_bit_4_less)

definition AlphaNum_Hex :: "Hex \<Rightarrow> string" where
  "AlphaNum_Hex hex =
     (let writer = hex_loop (hex_value hex) []
      in if length writer < hex_width hex
         then replicate (hex_width hex - length writer) (hex_fill hex) @ writer
         else writer)"

function dec_loop :: "64 word \<Rightarrow> string \<Rightarrow> 64 word \<times> string" where
  "dec_loop value writer =
     (if value > 9 then dec_loop (value div 10) (char_of (48 + unat (value mod 10)) # writer)
      else (value, writer))"
  by pat_completeness auto

termination dec_loop
  by (relation "measure (\<lambda>(v, w). unat v)") (auto simp: unat_div word_less_nat_alt)

definition AlphaNum_Dec :: "Dec \<Rightarrow> string result" where
  "AlphaNum_Dec dec =
     (if dec_width dec \<le> 32 then
        let (value, writer) = dec_loop (dec_value dec) [];
            writer = char_of (48 + unat value) # writer;
            writer = (if dec_neg dec then CHR ''-'' # writer else writer);
            fillers = int (dec_width dec) - int (length writer)
        in if fillers > 0 then
             let add_sign_again = (dec_neg dec \<and> dec_fill dec = CHR ''0'');
                 writer = (if add_sign_again then tl writer else writer);
                 writer = replicate (nat fillers) (dec_fill dec) @ writer
             in Inr (if add_sign_again then CHR ''-'' # writer else writer)
           else Inr writer
      else Inl Assertion_failed)"

declare hex_loop.simps [simp del] dec_loop.simps [simp del]

section \<open>The results\<close>

lemma Append_eq:
  "Append (done @ rest, length done) x =
     (if length x \<le> length rest then Inr ((done @ x) @ drop (length x) rest, length (done @ x))
      else Inl (Undefined_behaviour ''memcpy out of bounds''))"
  by (simp add: Append_def memcpy_def)

lemma copy_pieces_eq:
  "length (concat ps) = length rest \<Longrightarrow>
     copy_pieces ps (done @ rest, length done) = Inr (done @ concat ps, length (done @ concat ps))"
proof (induction ps arbitrary: "done" rest)
  case (Cons p ps)
  then show ?case
    using Append_eq [of "done" rest p] Cons.IH [of "drop (length p) rest" "done @ p"] by simp
qed simp

lemma sum_sizes: "foldl (\<lambda>n piece. n + length piece) k ps = k + length (concat ps)"
  by (induction ps arbitrary: k) simp_all

lemma AppendPieces_eq: "AppendPieces dest ps = Inr (dest @ concat ps)"
  using copy_pieces_eq [of ps "replicate (length (concat ps)) CHR 0x00" dest]
  by (simp add: AppendPieces_def sum_sizes resize_uninitialized_def filled_def)

lemma CatPieces_eq: "CatPieces ps = Inr (concat ps)"
  using AppendPieces_eq [of "[]" ps] by (simp add: AppendPieces_def CatPieces_def)

text \<open>The overloads for two to four arguments are the loop over the pieces, unrolled.\<close>

lemma copy_pieces_unroll:
  "copy_pieces (p # ps) = (\<lambda>st. bindr (Append st p) (copy_pieces ps))" "copy_pieces [] = Inr"
  by (auto simp: fun_eq_iff)

lemma StrCat_pieces:
  "StrCat2 a b = CatPieces [a, b]" "StrCat3 a b c = CatPieces [a, b, c]"
  "StrCat4 a b c d = CatPieces [a, b, c, d]"
  by (simp_all add: StrCat2_def StrCat3_def StrCat4_def CatPieces_def copy_pieces_unroll bindr_assoc
      del: copy_pieces.simps)

lemma StrAppend_pieces:
  "StrAppend1 dest a = AppendPieces dest [a]" "StrAppend2 dest a b = AppendPieces dest [a, b]"
  "StrAppend3 dest a b c = AppendPieces dest [a, b, c]"
  "StrAppend4 dest a b c d = AppendPieces dest [a, b, c, d]"
proof -
  show "StrAppend1 dest a = AppendPieces dest [a]" by (simp add: StrAppend1_def AppendPieces_eq)
qed (simp_all add: StrAppend2_def StrAppend3_def StrAppend4_def AppendPieces_def copy_pieces_unroll
    bindr_assoc del: copy_pieces.simps)

lemma StrCat_eq:
  "StrCat2 a b = Inr (a @ b)" "StrCat3 a b c = Inr (a @ b @ c)" "StrCat4 a b c d = Inr (a @ b @ c @ d)"
  by (simp_all add: StrCat_pieces CatPieces_eq)

section \<open>The digits\<close>

lemma unat_low_nibble: "unat ((v :: 64 word) AND 0xF) = unat v mod 16" "unat (drop_bit 4 v) = unat v div 16"
proof -
  have "v AND 0xF = v mod 16"
    using take_bit_eq_mask [of 4 v] by (simp add: take_bit_eq_mod mask_eq_exp_minus_1)
  then show "unat (v AND 0xF) = unat v mod 16" by (simp add: unat_mod)
  show "unat (drop_bit 4 v) = unat v div 16" by (simp add: drop_bit_eq_div unat_div)
qed

lemma length_hexdigits: "length hexdigits = 16"
  by (simp add: hexdigits_def)

lemma hexdigits_value: "n < 16 \<Longrightarrow> digit_value (hexdigits ! n) = int n"
proof -
  assume "n < 16"
  moreover have "map (\<lambda>c. digit_value c) hexdigits = map int [0..<16]" by code_simp
  then have "map digit_value hexdigits ! n = map int [0..<16] ! n" by simp
  ultimately show ?thesis by (simp add: length_hexdigits del: upt_rec_numeral upt.simps)
qed

lemma numeral_value_append:
  "numeral_value b (xs @ ys) = foldl (\<lambda>v c. b * v + digit_value c) (numeral_value b xs) ys"
  by (simp add: numeral_value_def)

text \<open>The loop writes the digits of the value in front of what is there.\<close>

lemma hex_loop_eq:
  "\<exists>ds. hex_loop v w = ds @ w \<and> ds \<noteq> [] \<and> set ds \<subseteq> set hexdigits \<and> numeral_value 16 ds = int (unat v)"
proof (induction v w rule: hex_loop.induct)
  case (1 v w)
  let ?d = "hexdigits ! unat (v AND 0xF)"
  have d: "digit_value ?d = int (unat v mod 16)" "?d \<in> set hexdigits"
    using hexdigits_value [of "unat v mod 16"] nth_mem [of "unat v mod 16" hexdigits]
    by (simp_all add: unat_low_nibble length_hexdigits)
  show ?case
  proof (cases "drop_bit 4 v = 0")
    case True
    then have "unat v div 16 = 0" using unat_low_nibble(2) [of v] by simp
    then have "unat v mod 16 = unat v" by simp
    with True d show ?thesis
      by (subst hex_loop.simps) (auto simp: numeral_value_def intro!: exI [of _ "[?d]"])
  next
    case False
    then obtain ds where ds: "hex_loop (drop_bit 4 v) (?d # w) = ds @ ?d # w" "set ds \<subseteq> set hexdigits"
      "numeral_value 16 ds = int (unat v div 16)"
      using 1 [of "?d # w" "drop_bit 4 v"] by (auto simp: unat_low_nibble(2))
    have "16 * int (unat v div 16) + int (unat v mod 16) = int (unat v)" by presburger
    with False ds d show ?thesis
      by (subst hex_loop.simps) (auto simp: numeral_value_append intro!: exI [of _ "ds @ [?d]"])
  qed
qed

lemma dec_loop_eq:
  "show_nat (unat v) @ w = (case dec_loop v w of (u, w') \<Rightarrow> char_of (48 + unat u) # w')"
proof (induction v w rule: dec_loop.induct)
  case (1 v w)
  have gt: "v > 9 \<longleftrightarrow> \<not> unat v < 10" by (auto simp: word_less_nat_alt)
  have "unat (v div 10) = unat v div 10" "unat (v mod 10) = unat v mod 10"
    by (simp_all add: unat_div unat_mod)
  with 1 gt show ?case
    by (subst dec_loop.simps, subst show_nat.simps) (simp add: digit_char_def)
qed

section \<open>Padding\<close>

lemma foldl_zeros: "foldl (\<lambda>v c. b * v + digit_value c) 0 (replicate k CHR ''0'') = 0"
  by (induction k) (simp_all add: digit_value_eq ascii_ranges)

lemma numeral_value_zeros: "numeral_value b (replicate k CHR ''0'' @ ds) = numeral_value b ds"
  unfolding numeral_value_append by (simp add: numeral_value_def foldl_zeros)

lemma strip_spaces:
  assumes "ds \<noteq> []" "\<not> ascii_isspace (hd ds)" "\<not> ascii_isspace (last ds)"
  shows "StripAsciiWhitespace (replicate k CHR '' '' @ ds) = ds"
proof -
  have "ascii_isspace CHR '' ''" by (simp add: ascii_property(3))
  then have "dropWhile ascii_isspace (replicate k CHR '' '' @ ds) = dropWhile ascii_isspace ds"
    by (induction k) simp_all
  also have "\<dots> = ds" using assms(1,2) by (cases ds) simp_all
  finally have "StripLeadingAsciiWhitespace (replicate k CHR '' '' @ ds) = ds" by (simp add: strip_leading)
  moreover have "dropWhile ascii_isspace (rev ds) = rev ds"
    using assms(1,3) by (cases ds rule: rev_cases) simp_all
  ultimately show ?thesis by (simp add: StripAsciiWhitespace_def strip_trailing)
qed

lemma pad_fill_cases: "pad_fill spec = CHR '' '' \<or> pad_fill spec = CHR ''0''"
  by (simp add: pad_fill_def)

text \<open>
  \<open>Dec\<close>: the number with spaces in front of the sign, or zeros behind it. It is never shorter
  than the width, and never cut.
\<close>

definition padded :: "nat \<Rightarrow> char \<Rightarrow> int \<Rightarrow> string" where
  "padded width fill n =
     (let fillers = replicate (width - length (show_int n)) fill
      in if n < 0 \<and> fill = CHR ''0'' then CHR ''-'' # fillers @ show_nat (nat (- n))
         else fillers @ show_int n)"

lemma AlphaNum_Dec_eq:
  assumes "pad_width spec \<le> 32"
  shows "AlphaNum_Dec (Dec_init v spec) = Inr (padded (pad_width spec) (pad_fill spec) (sint v))"
proof -
  let ?d = "Dec_init v spec"
  have "unat (dec_value ?d) = nat \<bar>sint v\<bar>"
    using signed_cases [of v] by (auto simp: Dec_init_def)
  then have d: "(case dec_loop (dec_value ?d) [] of (u, w) \<Rightarrow> char_of (48 + unat u) # w) = show_nat (nat \<bar>sint v\<bar>)"
    using dec_loop_eq [of "dec_value ?d" "[]"] by simp
  obtain u w where uw: "dec_loop (dec_value ?d) [] = (u, w)" by (cases "dec_loop (dec_value ?d) []")
  with d have digits: "char_of (48 + unat u) # w = show_nat (nat \<bar>sint v\<bar>)" by simp
  have fields: "dec_width ?d = pad_width spec" "dec_fill ?d = pad_fill spec" "dec_neg ?d = (sint v < 0)"
    by (simp_all add: Dec_init_def)
  have shown: "show_int (sint v) =
      (if sint v < 0 then CHR ''-'' # char_of (48 + unat u) # w else char_of (48 + unat u) # w)"
    by (simp add: show_int_def digits abs_if)
  have sub: "nat (int m - int k) = m - k" "0 < int m - int k \<longleftrightarrow> k < m" for m k by simp_all
  show ?thesis
    using assms digits unfolding AlphaNum_Dec_def padded_def fields uw shown
    by (auto simp: Let_def sub abs_if)
qed

lemma SimpleAtoi_padded:
  assumes "numeric_min ty \<le> n" "n \<le> numeric_max ty" "fill = CHR '' '' \<or> fill = CHR ''0''"
  shows "SimpleAtoi ty (padded width fill n) = Inr (True, n)"
proof (cases "fill = CHR '' ''")
  case True
  have "\<not> ascii_isspace CHR ''-''" by (simp add: ascii_property(3))
  moreover have "show_nat m \<noteq> []" "\<not> ascii_isspace (hd (show_nat m))" "\<not> ascii_isspace (last (show_nat m))" for m
    using show_nat_numeral [of m] hd_in_set [of "show_nat m"] last_in_set [of "show_nat m"]
    by (auto simp: list_all_iff dest: digit_not_space)
  ultimately have "StripAsciiWhitespace (replicate k CHR '' '' @ show_int n) = show_int n" for k
    by (intro strip_spaces) (auto simp: show_int_def)
  from this this [of 0] True have "StripAsciiWhitespace (padded width fill n) = StripAsciiWhitespace (show_int n)"
    by (simp add: padded_def)
  then show ?thesis using SimpleAtoi_show_int [OF assms(1,2)] by (simp add: SimpleAtoi_unfold)
next
  case False
  then have fill: "fill = CHR ''0''" using assms(3) by simp
  define ds where "ds = replicate (width - length (show_int n)) CHR ''0'' @ show_nat (nat \<bar>n\<bar>)"
  have ds: "list_all ascii_isdigit ds" "ds \<noteq> []" "numeral_value 10 ds = \<bar>n\<bar>"
    using show_nat_numeral [of "nat \<bar>n\<bar>"]
    by (auto simp: ds_def numeral_value_zeros list_all_iff ascii_ranges)
  have "padded width fill n = (if n < 0 then CHR ''-'' # ds else ds)"
    by (simp add: padded_def fill ds_def show_int_def abs_if Let_def)
  moreover have "signed_type ty" if "n < 0" using that assms(1) by (cases ty) (simp_all add: signed_type_def)
  ultimately show ?thesis
    using ds assms(1,2) strip_digits [OF ds(1,2)]
    by (auto simp: SimpleAtoi_True abs_if intro!: exI [of _ ds])
qed

text \<open>\<open>Hex\<close>: read back by the unsigned parser in base 16.\<close>

lemma hexdigits_class: "c \<in> set hexdigits \<Longrightarrow> \<not> ascii_isspace c \<and> digit_value c < 16 \<and>
    c \<noteq> CHR ''-'' \<and> c \<noteq> CHR ''+'' \<and> c \<noteq> CHR ''x'' \<and> c \<noteq> CHR ''X''"
proof -
  assume "c \<in> set hexdigits"
  moreover have "\<forall>c\<in>set hexdigits. \<not> ascii_isspace c \<and> digit_value c < 16 \<and>
    c \<noteq> CHR ''-'' \<and> c \<noteq> CHR ''+'' \<and> c \<noteq> CHR ''x'' \<and> c \<noteq> CHR ''X''" by code_simp
  ultimately show ?thesis by blast
qed

lemma parse_hexdigits:
  assumes "set ds \<subseteq> set hexdigits" "ds \<noteq> []" "StripAsciiWhitespace t = ds"
  shows "safe_parse_sign_and_base t 16 = Some (ds, 16, False)"
proof -
  have strip: "rev (dropWhile ascii_isspace (rev (dropWhile ascii_isspace t))) = ds"
    using assms(3) by (simp add: StripAsciiWhitespace_def strip_leading strip_trailing)
  have "hd ds \<in> set hexdigits" using assms(1,2) hd_in_set by blast
  then have "hd ds \<noteq> CHR ''-''" "hd ds \<noteq> CHR ''+''" using hexdigits_class by blast+
  moreover have "ds ! 1 \<noteq> CHR ''x'' \<and> ds ! 1 \<noteq> CHR ''X''" if "2 \<le> length ds"
  proof -
    have "ds ! 1 \<in> set hexdigits" using nth_mem [of 1 ds] assms(1) that by fastforce
    then show ?thesis using hexdigits_class by blast
  qed
  ultimately show ?thesis
    using assms(2) unfolding safe_parse_sign_and_base_def Let_def strip by auto
qed

lemma AlphaNum_Hex_round_trip:
  "safe_strtou64_base (AlphaNum_Hex (Hex_init spec v)) 16 = Inr (True, int (unat v))"
proof -
  obtain ds where ds: "hex_loop v [] = ds" "ds \<noteq> []" "set ds \<subseteq> set hexdigits"
    "numeral_value 16 ds = int (unat v)" using hex_loop_eq [of v "[]"] by auto
  define k where "k = pad_width spec - length ds"
  have out: "AlphaNum_Hex (Hex_init spec v) = replicate k (pad_fill spec) @ ds"
    by (simp add: AlphaNum_Hex_def Hex_init_def ds(1) k_def Let_def)
  define es where "es = (if pad_fill spec = CHR ''0'' then replicate k CHR ''0'' @ ds else ds)"
  have "CHR ''0'' \<in> set hexdigits" by (simp add: hexdigits_def)
  then have es: "set es \<subseteq> set hexdigits" "es \<noteq> []" "numeral_value 16 es = int (unat v)"
    using ds by (auto simp: es_def numeral_value_zeros)
  then have "hd es \<in> set hexdigits" "last es \<in> set hexdigits"
    using hd_in_set last_in_set by blast+
  then have "\<not> ascii_isspace (hd es)" "\<not> ascii_isspace (last es)"
    using hexdigits_class by blast+
  then have "StripAsciiWhitespace (AlphaNum_Hex (Hex_init spec v)) = es"
    using strip_spaces [OF es(2), of 0] strip_spaces [OF es(2), of k] pad_fill_cases [of spec]
    by (auto simp: out es_def)
  then have "safe_parse_sign_and_base (AlphaNum_Hex (Hex_init spec v)) 16 = Some (es, 16, False)"
    by (rule parse_hexdigits [OF es(1,2)])
  moreover have "int (unat v) \<le> numeric_max uint64_t"
    using unsigned_less [of v, where ?'a = int] by simp
  then have "safe_parse_positive_int uint64_t es 16 = Inr (True, int (unat v))"
    using es hexdigits_class by (subst safe_parse_positive_int_True) (auto simp: list_all_iff)
  ultimately show ?thesis by (simp add: safe_strtou64_base_def safe_uint_internal_def)
qed

end
