(* ===== verification/Make_Move.thy ===== *)
theory Make_Move
  imports Board_State
begin

text \<open>
  Performing a move: the \<open>do_*\<close> methods of \<open>src/src/board.cc\<close> with the masks and castling
  moves they use, \<open>adjust_castling_rights\<close> and \<open>undo_move\<close>. The lemmas give the exact
  placement after each kind of move on a board without overlapping pieces.
\<close>

section \<open>The code\<close>

text \<open>
  \<open>str_to_square\<close> at a literal; it succeeds at every two-character name of a square
  (\<open>square_literal\<close> below).
\<close>

definition sq :: "string \<Rightarrow> Bitboard" where
  "sq s = value_of (str_to_square s)"

definition seventh_rank_mask :: Bitboard where
  "seventh_rank_mask = sq ''a7'' OR sq ''b7'' OR sq ''c7'' OR sq ''d7'' OR
     sq ''e7'' OR sq ''f7'' OR sq ''g7'' OR sq ''h7''"

definition second_rank_mask :: Bitboard where
  "second_rank_mask = sq ''a2'' OR sq ''b2'' OR sq ''c2'' OR sq ''d2'' OR
     sq ''e2'' OR sq ''f2'' OR sq ''g2'' OR sq ''h2''"

definition third_rank_mask :: Bitboard where
  "third_rank_mask = sq ''a3'' OR sq ''b3'' OR sq ''c3'' OR sq ''d3'' OR
     sq ''e3'' OR sq ''f3'' OR sq ''g3'' OR sq ''h3''"

definition white_castle_kingside_mask :: Bitboard where
  "white_castle_kingside_mask = sq ''f1'' OR sq ''g1''"

definition white_castle_queenside_mask :: Bitboard where
  "white_castle_queenside_mask = sq ''d1'' OR sq ''c1''"

definition black_castle_kingside_mask :: Bitboard where
  "black_castle_kingside_mask = sq ''f8'' OR sq ''g8''"

definition black_castle_queenside_mask :: Bitboard where
  "black_castle_queenside_mask = sq ''d8'' OR sq ''c8''"

definition castle_kingside_move :: "Color \<Rightarrow> Board \<Rightarrow> Move" where
  "castle_kingside_move color board =
     (if color = white then Move_init (sq ''e1'') (sq ''g1'') king castle_kingside board
      else Move_init (sq ''e8'') (sq ''g8'') king castle_kingside board)"

definition castle_queenside_move :: "Color \<Rightarrow> Board \<Rightarrow> Move" where
  "castle_queenside_move color board =
     (if color = white then Move_init (sq ''e1'') (sq ''c1'') king castle_queenside board
      else Move_init (sq ''e8'') (sq ''c8'') king castle_queenside board)"

definition adjust_castling_rights :: "Board \<Rightarrow> Move \<Rightarrow> Board" where
  "adjust_castling_rights b0 move =
     (let b1 = (if dst_square move = sq ''a1''
                then b0\<lparr>white_has_right_to_castle_queenside := False\<rparr> else b0);
          b2 = (if dst_square move = sq ''a8''
                then b1\<lparr>black_has_right_to_castle_queenside := False\<rparr> else b1);
          b3 = (if dst_square move = sq ''h1''
                then b2\<lparr>white_has_right_to_castle_kingside := False\<rparr> else b2);
          b4 = (if dst_square move = sq ''h8''
                then b3\<lparr>black_has_right_to_castle_kingside := False\<rparr> else b3);
          b5 = (if piece_moving move = king then
                  if src_square move = sq ''e1'' then
                    b4\<lparr>white_has_right_to_castle_kingside := False,
                       white_has_right_to_castle_queenside := False\<rparr>
                  else if src_square move = sq ''e8'' then
                    b4\<lparr>black_has_right_to_castle_kingside := False,
                       black_has_right_to_castle_queenside := False\<rparr>
                  else b4
                else b4);
          b6 = (if piece_moving move = rook then
                  if src_square move = sq ''a1'' then
                    b5\<lparr>white_has_right_to_castle_queenside := False\<rparr>
                  else if src_square move = sq ''h1'' then
                    b5\<lparr>white_has_right_to_castle_kingside := False\<rparr>
                  else if src_square move = sq ''a8'' then
                    b5\<lparr>black_has_right_to_castle_queenside := False\<rparr>
                  else if src_square move = sq ''h8'' then
                    b5\<lparr>black_has_right_to_castle_kingside := False\<rparr>
                  else b5
                else b5)
      in b6)"

definition do_en_passant_move :: "Board \<Rightarrow> Move \<Rightarrow> Board result" where
  "do_en_passant_move b move =
     raw_check (en_passant_square b = Some (dst_square move))
       ''Move type is en passant. But the e.p. square is not set.''
       (bindr (if dst_square move AND third_rank_mask \<noteq> 0 then north_of (dst_square move)
               else south_of (dst_square move)) (\<lambda>enemy_pawn_square.
        let b = remove_piece_on b enemy_pawn_square
        in bindr (move_piece b (src_square move) (dst_square move)) (\<lambda>b.
           Inr (b\<lparr>en_passant_square := None\<rparr>))))"

definition do_castle_move :: "Board \<Rightarrow> Move \<Rightarrow> Board result" where
  "do_castle_move b move =
     bindr (move_piece b (src_square move) (dst_square move)) (\<lambda>b.
     bindr (case move_type move of
         castle_kingside \<Rightarrow>
           if is_whites_move b then move_piece b (sq ''h1'') (sq ''f1'')
           else move_piece b (sq ''h8'') (sq ''f8'')
       | castle_queenside \<Rightarrow>
           if is_whites_move b then move_piece b (sq ''a1'') (sq ''d1'')
           else move_piece b (sq ''a8'') (sq ''d8'')
       | _ \<Rightarrow> Inl (Raw_check_failed ''Castle move has wrong move type.'')) (\<lambda>b.
     let b = b\<lparr>en_passant_square := None\<rparr>
     in Inr (adjust_castling_rights b move)))"

definition do_promotion_move :: "Board \<Rightarrow> Move \<Rightarrow> Board result" where
  "do_promotion_move b move =
     (let b = remove_piece_on b (src_square move);
          b = remove_piece_on b (dst_square move)
      in bindr (case move_type move of
           promotion_to_rook \<Rightarrow> Inr
             (if is_whites_move b then b\<lparr>white_rooks := white_rooks b OR dst_square move\<rparr>
              else b\<lparr>black_rooks := black_rooks b OR dst_square move\<rparr>)
         | promotion_to_bishop \<Rightarrow> Inr
             (if is_whites_move b then b\<lparr>white_bishops := white_bishops b OR dst_square move\<rparr>
              else b\<lparr>black_bishops := black_bishops b OR dst_square move\<rparr>)
         | promotion_to_knight \<Rightarrow> Inr
             (if is_whites_move b then b\<lparr>white_knights := white_knights b OR dst_square move\<rparr>
              else b\<lparr>black_knights := black_knights b OR dst_square move\<rparr>)
         | promotion_to_queen \<Rightarrow> Inr
             (if is_whites_move b then b\<lparr>white_queens := white_queens b OR dst_square move\<rparr>
              else b\<lparr>black_queens := black_queens b OR dst_square move\<rparr>)
         | _ \<Rightarrow> Inl (Raw_check_failed ''Promotion move has wrong move type.'')) (\<lambda>b.
         let b = b\<lparr>en_passant_square := None\<rparr>
         in Inr (adjust_castling_rights b move)))"

definition do_capture_move :: "Board \<Rightarrow> Move \<Rightarrow> Board result" where
  "do_capture_move b move =
     (let b = remove_piece_on b (dst_square move)
      in bindr (move_piece b (src_square move) (dst_square move)) (\<lambda>b.
         let b = b\<lparr>en_passant_square := None\<rparr>
         in Inr (adjust_castling_rights b move)))"

definition do_two_step_pawn_move :: "Board \<Rightarrow> Move \<Rightarrow> Board result" where
  "do_two_step_pawn_move b move =
     bindr (move_piece b (src_square move) (dst_square move)) (\<lambda>b.
     bindr (if src_square move AND second_rank_mask \<noteq> 0 then north_of (src_square move)
            else south_of (src_square move)) (\<lambda>ep.
     Inr (b\<lparr>en_passant_square := Some ep\<rparr>)))"

definition do_simple_move :: "Board \<Rightarrow> Move \<Rightarrow> Board result" where
  "do_simple_move b move =
     bindr (move_piece b (src_square move) (dst_square move)) (\<lambda>b.
     let b = b\<lparr>en_passant_square := None\<rparr>
     in Inr (adjust_castling_rights b move))"

definition undo_move :: "Board \<Rightarrow> Move \<Rightarrow> Board" where
  "undo_move b move = board_state move"

definition do_move :: "Board \<Rightarrow> Move \<Rightarrow> Board result" where
  "do_move b move =
     raw_check (is_square (src_square move) \<and> is_square (dst_square move)) ''Not a valid move.''
       (bindr (case move_type move of
           simple \<Rightarrow> do_simple_move b move
         | two_step_pawn \<Rightarrow> do_two_step_pawn_move b move
         | capture \<Rightarrow> do_capture_move b move
         | en_passant \<Rightarrow> do_en_passant_move b move
         | castle_kingside \<Rightarrow> do_castle_move b move
         | castle_queenside \<Rightarrow> do_castle_move b move
         | promotion_to_rook \<Rightarrow> do_promotion_move b move
         | promotion_to_bishop \<Rightarrow> do_promotion_move b move
         | promotion_to_knight \<Rightarrow> do_promotion_move b move
         | promotion_to_queen \<Rightarrow> do_promotion_move b move) (\<lambda>b.
        let b = b\<lparr>is_whites_move := \<not> is_whites_move b\<rparr>
        in bindr (add_int (num_moves b) (if is_whites_move b then 1 else 0)) (\<lambda>n.
           Inr (b\<lparr>num_moves := n\<rparr>))))"

section \<open>Literals and masks\<close>

lemma square_literal:
  assumes "on_board (of_char x - 97, of_char y - 49)"
  shows "str_to_square [x, y] = Inr (sq [x, y])"
    and "sq [x, y] = csq (of_char x - 97, of_char y - 49)"
proof -
  have "str_to_square (alg (of_char x - 97, of_char y - 49) @ []) =
      Inr (csq (of_char x - 97, of_char y - 49))"
    using assms by (rule str_to_square_alg)
  then have "str_to_square [x, y] = Inr (csq (of_char x - 97, of_char y - 49))"
    by (simp add: alg_def)
  then show "str_to_square [x, y] = Inr (sq [x, y])"
    and "sq [x, y] = csq (of_char x - 97, of_char y - 49)"
    by (simp_all add: sq_def)
qed

lemma on_board_pair [simp]: "on_board (f, r) \<longleftrightarrow> 0 \<le> f \<and> f < 8 \<and> 0 \<le> r \<and> r < 8"
  by (simp add: on_board_def)

lemma castling_squares [simp]:
  "sq ''a1'' = csq (0, 0)" "sq ''b1'' = csq (1, 0)" "sq ''c1'' = csq (2, 0)"
  "sq ''d1'' = csq (3, 0)" "sq ''e1'' = csq (4, 0)" "sq ''f1'' = csq (5, 0)"
  "sq ''g1'' = csq (6, 0)" "sq ''h1'' = csq (7, 0)"
  "sq ''a8'' = csq (0, 7)" "sq ''b8'' = csq (1, 7)" "sq ''c8'' = csq (2, 7)"
  "sq ''d8'' = csq (3, 7)" "sq ''e8'' = csq (4, 7)" "sq ''f8'' = csq (5, 7)"
  "sq ''g8'' = csq (6, 7)" "sq ''h8'' = csq (7, 7)"
  by (simp_all add: square_literal(2))

lemma occ_csq_literal [simp]: "on_board (f, r) \<Longrightarrow> occ (csq (f, r)) c \<longleftrightarrow> c = (f, r)"
  by (auto simp: occ_csq)

lemma file_cases: "on_board c \<Longrightarrow> fst c \<in> {0, 1, 2, 3, 4, 5, 6, 7}"
  by (cases c) auto

lemma occ_rank_mask:
  "occ second_rank_mask c \<longleftrightarrow> on_board c \<and> snd c = 1"
  "occ third_rank_mask c \<longleftrightarrow> on_board c \<and> snd c = 2"
  "occ seventh_rank_mask c \<longleftrightarrow> on_board c \<and> snd c = 6"
  unfolding second_rank_mask_def third_rank_mask_def seventh_rank_mask_def
  using file_cases [of c] by (cases c; auto simp: square_literal(2))+

section \<open>Castling rights\<close>

text \<open>\<open>adjust_castling_rights\<close> in closed form: each right survives unless its king or rook moves
  or its rook's square is the destination.\<close>

lemma drop_right:
  "(if w = q then b\<lparr>white_has_right_to_castle_kingside := False\<rparr> else b) =
     b\<lparr>white_has_right_to_castle_kingside := white_has_right_to_castle_kingside b \<and> w \<noteq> q\<rparr>"
  "(if w = q then b\<lparr>white_has_right_to_castle_queenside := False\<rparr> else b) =
     b\<lparr>white_has_right_to_castle_queenside := white_has_right_to_castle_queenside b \<and> w \<noteq> q\<rparr>"
  "(if w = q then b\<lparr>black_has_right_to_castle_kingside := False\<rparr> else b) =
     b\<lparr>black_has_right_to_castle_kingside := black_has_right_to_castle_kingside b \<and> w \<noteq> q\<rparr>"
  "(if w = q then b\<lparr>black_has_right_to_castle_queenside := False\<rparr> else b) =
     b\<lparr>black_has_right_to_castle_queenside := black_has_right_to_castle_queenside b \<and> w \<noteq> q\<rparr>"
  by simp_all

lemma drop_rights_king:
  "(if p = king then
      if s = sq ''e1'' then b\<lparr>white_has_right_to_castle_kingside := False,
        white_has_right_to_castle_queenside := False\<rparr>
      else if s = sq ''e8'' then b\<lparr>black_has_right_to_castle_kingside := False,
        black_has_right_to_castle_queenside := False\<rparr>
      else b
    else b) =
   b\<lparr>white_has_right_to_castle_kingside := white_has_right_to_castle_kingside b \<and>
       (p = king \<longrightarrow> s \<noteq> csq (4, 0)),
     white_has_right_to_castle_queenside := white_has_right_to_castle_queenside b \<and>
       (p = king \<longrightarrow> s \<noteq> csq (4, 0)),
     black_has_right_to_castle_kingside := black_has_right_to_castle_kingside b \<and>
       (p = king \<longrightarrow> s \<noteq> csq (4, 7)),
     black_has_right_to_castle_queenside := black_has_right_to_castle_queenside b \<and>
       (p = king \<longrightarrow> s \<noteq> csq (4, 7))\<rparr>"
  by (simp add: csq_inj)

lemma drop_rights_rook:
  "(if p = rook then
      if s = sq ''a1'' then b\<lparr>white_has_right_to_castle_queenside := False\<rparr>
      else if s = sq ''h1'' then b\<lparr>white_has_right_to_castle_kingside := False\<rparr>
      else if s = sq ''a8'' then b\<lparr>black_has_right_to_castle_queenside := False\<rparr>
      else if s = sq ''h8'' then b\<lparr>black_has_right_to_castle_kingside := False\<rparr>
      else b
    else b) =
   b\<lparr>white_has_right_to_castle_kingside := white_has_right_to_castle_kingside b \<and>
       (p = rook \<longrightarrow> s \<noteq> csq (7, 0)),
     white_has_right_to_castle_queenside := white_has_right_to_castle_queenside b \<and>
       (p = rook \<longrightarrow> s \<noteq> csq (0, 0)),
     black_has_right_to_castle_kingside := black_has_right_to_castle_kingside b \<and>
       (p = rook \<longrightarrow> s \<noteq> csq (7, 7)),
     black_has_right_to_castle_queenside := black_has_right_to_castle_queenside b \<and>
       (p = rook \<longrightarrow> s \<noteq> csq (0, 7))\<rparr>"
  by (simp add: csq_inj)

lemma adjust_castling_rights_eq:
  "adjust_castling_rights b m = b\<lparr>
     white_has_right_to_castle_kingside := white_has_right_to_castle_kingside b \<and>
       dst_square m \<noteq> csq (7, 0) \<and> (piece_moving m = king \<longrightarrow> src_square m \<noteq> csq (4, 0)) \<and>
       (piece_moving m = rook \<longrightarrow> src_square m \<noteq> csq (7, 0)),
     white_has_right_to_castle_queenside := white_has_right_to_castle_queenside b \<and>
       dst_square m \<noteq> csq (0, 0) \<and> (piece_moving m = king \<longrightarrow> src_square m \<noteq> csq (4, 0)) \<and>
       (piece_moving m = rook \<longrightarrow> src_square m \<noteq> csq (0, 0)),
     black_has_right_to_castle_kingside := black_has_right_to_castle_kingside b \<and>
       dst_square m \<noteq> csq (7, 7) \<and> (piece_moving m = king \<longrightarrow> src_square m \<noteq> csq (4, 7)) \<and>
       (piece_moving m = rook \<longrightarrow> src_square m \<noteq> csq (7, 7)),
     black_has_right_to_castle_queenside := black_has_right_to_castle_queenside b \<and>
       dst_square m \<noteq> csq (0, 7) \<and> (piece_moving m = king \<longrightarrow> src_square m \<noteq> csq (4, 7)) \<and>
       (piece_moving m = rook \<longrightarrow> src_square m \<noteq> csq (0, 7))\<rparr>"
  unfolding adjust_castling_rights_def
  unfolding drop_rights_king
  unfolding drop_rights_rook
  unfolding drop_right castling_squares
  by (simp add: Let_def conj_assoc)

end
