(* ===== verification/Movegen.thy ===== *)
theory Movegen
  imports Make_Move
begin

text \<open>
  Move generation of \<open>src/src/board.cc\<close>: the pseudolegal generators (every method that
  appends to the vector \<open>res\<close> takes it and returns it extended), the attack masks, the
  castling tests and the legality filter. A compass step fails its check on anything but a
  square, so every generator returns a result.
\<close>

section \<open>Pseudolegal moves\<close>

subsection \<open>Sliding pieces\<close>

text \<open>
  The loop of \<open>append_pseudolegal_sliding_moves\<close>; it returns the square at which it stopped
  (0 when it left the board) and the extended vector.
\<close>

function sliding_loop ::
    "Board \<Rightarrow> Direction \<Rightarrow> Bitboard \<Rightarrow> Piece \<Rightarrow> Bitboard \<Rightarrow> Move list \<Rightarrow>
     (Bitboard \<times> Move list) result" where
  "sliding_loop b direction src piece curr_square res =
     (if curr_square \<noteq> 0 \<and> curr_square AND all_pieces b = 0 then
        bindr (direction_to_function direction curr_square) (\<lambda>next_square.
          sliding_loop b direction src piece next_square
            (res @ [Move_init src curr_square piece simple b]))
      else Inr (curr_square, res))"
  by pat_completeness auto
termination
  by (relation "measure (\<lambda>(b, d, src, piece, curr, res). room (vec d) curr)")
    (auto intro: dir.room_decreases)

declare sliding_loop.simps [simp del]

definition append_pseudolegal_sliding_moves ::
    "Board \<Rightarrow> Direction \<Rightarrow> Color \<Rightarrow> Bitboard \<Rightarrow> Piece \<Rightarrow> Move list \<Rightarrow> Move list result" where
  "append_pseudolegal_sliding_moves b direction side src piece res =
     raw_check (src AND friends b side \<noteq> 0)
       ''src_square must have a piece with the correct color on it.''
       (bindr (direction_to_function direction src) (\<lambda>curr_square.
        bindr (sliding_loop b direction src piece curr_square res) (\<lambda>(curr_square, res).
        Inr (if curr_square AND enemies b side \<noteq> 0
             then res @ [Move_init src curr_square piece capture b] else res))))"

definition append_pseudolegal_bishop_moves ::
    "Board \<Rightarrow> Color \<Rightarrow> Move list \<Rightarrow> Move list result" where
  "append_pseudolegal_bishop_moves b side res =
     (let bishops = (if side = white then white_bishops b else black_bishops b)
      in for_each (bitboard_split bishops) (\<lambda>bishop_sq.
           for_each bishop_move_directions (\<lambda>dir.
             append_pseudolegal_sliding_moves b dir side bishop_sq bishop)) res)"

definition append_pseudolegal_rook_moves ::
    "Board \<Rightarrow> Color \<Rightarrow> Move list \<Rightarrow> Move list result" where
  "append_pseudolegal_rook_moves b side res =
     (let rooks = (if side = white then white_rooks b else black_rooks b)
      in for_each (bitboard_split rooks) (\<lambda>rook_sq.
           for_each rook_move_directions (\<lambda>dir.
             append_pseudolegal_sliding_moves b dir side rook_sq rook)) res)"

definition append_pseudolegal_queen_moves ::
    "Board \<Rightarrow> Color \<Rightarrow> Move list \<Rightarrow> Move list result" where
  "append_pseudolegal_queen_moves b side res =
     (let queens = (if side = white then white_queens b else black_queens b)
      in for_each (bitboard_split queens) (\<lambda>queen_sq.
           for_each all_directions (\<lambda>dir.
             append_pseudolegal_sliding_moves b dir side queen_sq queen)) res)"

subsection \<open>Pawns\<close>

definition append_pseudolegal_simple_pawn_moves ::
    "Board \<Rightarrow> Color \<Rightarrow> Move list \<Rightarrow> Move list result" where
  "append_pseudolegal_simple_pawn_moves b side res =
     (if side = white then
        let white_pawns_excluding_seventh = white_pawns b AND NOT seventh_rank_mask
        in for_each (bitboard_split white_pawns_excluding_seventh) (\<lambda>single_pawn res.
             bindr (north_of single_pawn) (\<lambda>north_of_pawn.
             let blocked = (all_pieces b AND north_of_pawn \<noteq> 0)
             in Inr (if \<not> blocked
                     then res @ [Move_init single_pawn north_of_pawn pawn simple b]
                     else res))) res
      else
        let black_pawns_excluding_second = black_pawns b AND NOT second_rank_mask
        in for_each (bitboard_split black_pawns_excluding_second) (\<lambda>single_pawn res.
             bindr (south_of single_pawn) (\<lambda>south_of_pawn.
             let blocked = (all_pieces b AND south_of_pawn \<noteq> 0)
             in Inr (if \<not> blocked
                     then res @ [Move_init single_pawn south_of_pawn pawn simple b]
                     else res))) res)"

definition append_pseudolegal_two_step_pawn_moves ::
    "Board \<Rightarrow> Color \<Rightarrow> Move list \<Rightarrow> Move list result" where
  "append_pseudolegal_two_step_pawn_moves b side res =
     (if side = white then
        let white_pawns_on_second = white_pawns b AND second_rank_mask
        in for_each (bitboard_split white_pawns_on_second) (\<lambda>single_pawn res.
             bindr (north_of single_pawn) (\<lambda>north_of_pawn.
             bindr (north_of north_of_pawn) (\<lambda>two_north_of_pawn.
             let blocked = (all_pieces b AND north_of_pawn \<noteq> 0 \<or>
                            all_pieces b AND two_north_of_pawn \<noteq> 0)
             in Inr (if \<not> blocked
                     then res @ [Move_init single_pawn two_north_of_pawn pawn two_step_pawn b]
                     else res)))) res
      else
        let black_pawns_on_seventh = black_pawns b AND seventh_rank_mask
        in for_each (bitboard_split black_pawns_on_seventh) (\<lambda>single_pawn res.
             bindr (south_of single_pawn) (\<lambda>south_of_pawn.
             bindr (south_of south_of_pawn) (\<lambda>two_south_of_pawn.
             let blocked = (all_pieces b AND south_of_pawn \<noteq> 0 \<or>
                            all_pieces b AND two_south_of_pawn \<noteq> 0)
             in Inr (if \<not> blocked
                     then res @ [Move_init single_pawn two_south_of_pawn pawn two_step_pawn b]
                     else res)))) res)"

definition append_pseudolegal_en_passant_moves ::
    "Board \<Rightarrow> Color \<Rightarrow> Move list \<Rightarrow> Move list result" where
  "append_pseudolegal_en_passant_moves b side res =
     (case en_passant_square b of
        None \<Rightarrow> Inr res
      | Some ep_square \<Rightarrow>
          if side = white then
            bindr (southeast_of ep_square) (\<lambda>southeast_of_ep_square.
            bindr (southwest_of ep_square) (\<lambda>southwest_of_ep_square.
            let res = (if southwest_of_ep_square AND white_pawns b \<noteq> 0
                       then res @ [Move_init southwest_of_ep_square ep_square pawn en_passant b]
                       else res);
                res = (if southeast_of_ep_square AND white_pawns b \<noteq> 0
                       then res @ [Move_init southeast_of_ep_square ep_square pawn en_passant b]
                       else res)
            in Inr res))
          else
            bindr (northeast_of ep_square) (\<lambda>northeast_of_ep_square.
            bindr (northwest_of ep_square) (\<lambda>northwest_of_ep_square.
            let res = (if northwest_of_ep_square AND black_pawns b \<noteq> 0
                       then res @ [Move_init northwest_of_ep_square ep_square pawn en_passant b]
                       else res);
                res = (if northeast_of_ep_square AND black_pawns b \<noteq> 0
                       then res @ [Move_init northeast_of_ep_square ep_square pawn en_passant b]
                       else res)
            in Inr res)))"

definition append_pseudolegal_promotions ::
    "Board \<Rightarrow> Color \<Rightarrow> Move list \<Rightarrow> Move list result" where
  "append_pseudolegal_promotions b side res =
     (if side = white then
        let white_pawns_on_seventh = white_pawns b AND seventh_rank_mask
        in for_each (bitboard_split white_pawns_on_seventh) (\<lambda>single_pawn.
           for_each promotion_move_types (\<lambda>promotion_piece res.
             bindr (north_of single_pawn) (\<lambda>north_of_pawn.
             let blocked = (all_pieces b AND north_of_pawn \<noteq> 0);
                 res = (if \<not> blocked
                        then res @ [Move_init single_pawn north_of_pawn pawn promotion_piece b]
                        else res)
             in bindr (northeast_of single_pawn) (\<lambda>northeast_of_pawn.
             let black_piece_northeast = (black_pieces b AND northeast_of_pawn \<noteq> 0);
                 res = (if black_piece_northeast
                        then res @ [Move_init single_pawn northeast_of_pawn pawn promotion_piece b]
                        else res)
             in bindr (northwest_of single_pawn) (\<lambda>northwest_of_pawn.
             let black_piece_northwest = (black_pieces b AND northwest_of_pawn \<noteq> 0);
                 res = (if black_piece_northwest
                        then res @ [Move_init single_pawn northwest_of_pawn pawn promotion_piece b]
                        else res)
             in Inr res))))) res
      else
        let black_pawns_on_second = black_pawns b AND second_rank_mask
        in for_each (bitboard_split black_pawns_on_second) (\<lambda>single_pawn.
           for_each promotion_move_types (\<lambda>promotion_piece res.
             bindr (south_of single_pawn) (\<lambda>south_of_pawn.
             let blocked = (all_pieces b AND south_of_pawn \<noteq> 0);
                 res = (if \<not> blocked
                        then res @ [Move_init single_pawn south_of_pawn pawn promotion_piece b]
                        else res)
             in bindr (southeast_of single_pawn) (\<lambda>southeast_of_pawn.
             let white_piece_southeast = (white_pieces b AND southeast_of_pawn \<noteq> 0);
                 res = (if white_piece_southeast
                        then res @ [Move_init single_pawn southeast_of_pawn pawn promotion_piece b]
                        else res)
             in bindr (southwest_of single_pawn) (\<lambda>southwest_of_pawn.
             let white_piece_southwest = (white_pieces b AND southwest_of_pawn \<noteq> 0);
                 res = (if white_piece_southwest
                        then res @ [Move_init single_pawn southwest_of_pawn pawn promotion_piece b]
                        else res)
             in Inr res))))) res)"

definition append_pseudolegal_pawn_captures ::
    "Board \<Rightarrow> Color \<Rightarrow> Move list \<Rightarrow> Move list result" where
  "append_pseudolegal_pawn_captures b side res =
     (if side = white then
        let white_pawns_excluding_seventh = white_pawns b AND NOT seventh_rank_mask
        in for_each (bitboard_split white_pawns_excluding_seventh) (\<lambda>single_pawn res.
             bindr (northeast_of single_pawn) (\<lambda>northeast_of_pawn.
             let can_capture_northeast = (black_pieces b AND northeast_of_pawn \<noteq> 0);
                 res = (if can_capture_northeast
                        then res @ [Move_init single_pawn northeast_of_pawn pawn capture b]
                        else res)
             in bindr (northwest_of single_pawn) (\<lambda>northwest_of_pawn.
             let can_capture_northwest = (black_pieces b AND northwest_of_pawn \<noteq> 0);
                 res = (if can_capture_northwest
                        then res @ [Move_init single_pawn northwest_of_pawn pawn capture b]
                        else res)
             in Inr res))) res
      else
        let black_pawns_excluding_seventh = black_pawns b AND NOT second_rank_mask
        in for_each (bitboard_split black_pawns_excluding_seventh) (\<lambda>single_pawn res.
             bindr (southeast_of single_pawn) (\<lambda>southeast_of_pawn.
             let can_capture_southeast = (white_pieces b AND southeast_of_pawn \<noteq> 0);
                 res = (if can_capture_southeast
                        then res @ [Move_init single_pawn southeast_of_pawn pawn capture b]
                        else res)
             in bindr (southwest_of single_pawn) (\<lambda>southwest_of_pawn.
             let can_capture_southwest = (white_pieces b AND southwest_of_pawn \<noteq> 0);
                 res = (if can_capture_southwest
                        then res @ [Move_init single_pawn southwest_of_pawn pawn capture b]
                        else res)
             in Inr res))) res)"

definition append_pseudolegal_pawn_moves ::
    "Board \<Rightarrow> Color \<Rightarrow> Move list \<Rightarrow> Move list result" where
  "append_pseudolegal_pawn_moves b side res =
     bindr (append_pseudolegal_simple_pawn_moves b side res) (\<lambda>res.
     bindr (append_pseudolegal_two_step_pawn_moves b side res) (\<lambda>res.
     bindr (append_pseudolegal_pawn_captures b side res) (\<lambda>res.
     bindr (append_pseudolegal_en_passant_moves b side res) (\<lambda>res.
     append_pseudolegal_promotions b side res))))"

subsection \<open>King and knights\<close>

definition append_pseudolegal_king_moves ::
    "Board \<Rightarrow> Color \<Rightarrow> Move list \<Rightarrow> Move list result" where
  "append_pseudolegal_king_moves b side res =
     (let king_sq = (if side = white then white_king b else black_king b);
          friends_mask = friends b side
      in for_each all_directions (\<lambda>dir res.
           bindr (direction_to_function dir king_sq) (\<lambda>dst.
           let friendly_piece_on_dst_square = (dst AND friends_mask \<noteq> 0)
           in Inr (if dst \<noteq> 0 \<and> \<not> friendly_piece_on_dst_square then
                     let enemy_piece_on_dst_square = (dst AND enemies b side \<noteq> 0);
                         move_type = (if enemy_piece_on_dst_square then capture else simple)
                     in res @ [Move_init king_sq dst king move_type b]
                   else res))) res)"

definition append_pseudolegal_knight_moves ::
    "Board \<Rightarrow> Color \<Rightarrow> Move list \<Rightarrow> Move list result" where
  "append_pseudolegal_knight_moves b side res =
     (let knights = (if side = white then white_knights b else black_knights b);
          friends_mask = friends b side
      in for_each (bitboard_split knights) (\<lambda>knight_sq.
         for_each knight_move_directions (\<lambda>(dir1, dir2) res.
           bindr (direction_to_function dir1 knight_sq) (\<lambda>first_step.
           if first_step \<noteq> 0 then
             bindr (direction_to_function dir2 first_step) (\<lambda>dst.
             let friendly_piece_on_dst_square = (dst AND friends_mask \<noteq> 0)
             in Inr (if dst \<noteq> 0 \<and> \<not> friendly_piece_on_dst_square then
                       let enemy_piece_on_dst_square = (dst AND enemies b side \<noteq> 0);
                           move_type = (if enemy_piece_on_dst_square then capture else simple)
                       in res @ [Move_init knight_sq dst knight move_type b]
                     else res))
           else Inr res))) res)"

definition pseudolegal_moves :: "Board \<Rightarrow> Color \<Rightarrow> Move list result" where
  "pseudolegal_moves b side =
     bindr (append_pseudolegal_bishop_moves b side []) (\<lambda>res.
     bindr (append_pseudolegal_rook_moves b side res) (\<lambda>res.
     bindr (append_pseudolegal_queen_moves b side res) (\<lambda>res.
     bindr (append_pseudolegal_pawn_moves b side res) (\<lambda>res.
     bindr (append_pseudolegal_king_moves b side res) (\<lambda>res.
     append_pseudolegal_knight_moves b side res)))))"

section \<open>Attack masks\<close>

definition pawn_attack_squares :: "Board \<Rightarrow> Color \<Rightarrow> Bitboard result" where
  "pawn_attack_squares b side =
     (if side = white then
        for_each (bitboard_split (white_pawns b)) (\<lambda>single_pawn res.
          bindr (northeast_of single_pawn) (\<lambda>northeast_of_pawn.
          let res = res OR northeast_of_pawn
          in bindr (northwest_of single_pawn) (\<lambda>northwest_of_pawn.
          let res = res OR northwest_of_pawn
          in Inr res))) 0
      else
        for_each (bitboard_split (black_pawns b)) (\<lambda>single_pawn res.
          bindr (southeast_of single_pawn) (\<lambda>southeast_of_pawn.
          let res = res OR southeast_of_pawn
          in bindr (southwest_of single_pawn) (\<lambda>southwest_of_pawn.
          let res = res OR southwest_of_pawn
          in Inr res))) 0)"

definition attack_squares :: "Board \<Rightarrow> Color \<Rightarrow> Bitboard result" where
  "attack_squares b side =
     bindr (pseudolegal_moves b side) (\<lambda>moves.
     let without_pawns_attack_squares =
           foldl (\<lambda>acc move. acc OR dst_square move) 0 moves
     in bindr (pawn_attack_squares b side) (\<lambda>pawn_attacks.
        Inr (without_pawns_attack_squares OR pawn_attacks)))"

definition is_king_attacked :: "Board \<Rightarrow> Color \<Rightarrow> bool result" where
  "is_king_attacked b side =
     (let king_bb = (if side = white then white_king b else black_king b)
      in bindr (attack_squares b (flip_color side)) (\<lambda>attacks.
         Inr (king_bb AND attacks \<noteq> 0)))"

section \<open>Castling\<close>

definition is_castle_kingside_legal :: "Board \<Rightarrow> bool result" where
  "is_castle_kingside_legal b =
     (let has_right_to_castle = (if is_whites_move b
            then white_has_right_to_castle_kingside b
            else black_has_right_to_castle_kingside b);
          side_to_move = (if is_whites_move b then white else black)
      in if \<not> has_right_to_castle then Inr False
         else bindr (is_king_attacked b side_to_move) (\<lambda>attacked.
           if attacked then Inr False
           else
             let castle_squares = (if is_whites_move b then white_castle_kingside_mask
                                   else black_castle_kingside_mask)
             in bindr (attack_squares b (flip_color side_to_move)) (\<lambda>enemy_attack_squares.
                let castle_squares_clear = (castle_squares AND all_pieces b = 0);
                    castle_squares_attacked = (castle_squares AND enemy_attack_squares \<noteq> 0)
                in Inr (castle_squares_clear \<and> \<not> castle_squares_attacked))))"

definition is_castle_queenside_legal :: "Board \<Rightarrow> bool result" where
  "is_castle_queenside_legal b =
     (let has_right_to_castle = (if is_whites_move b
            then white_has_right_to_castle_queenside b
            else black_has_right_to_castle_queenside b);
          side_to_move = (if is_whites_move b then white else black)
      in if \<not> has_right_to_castle then Inr False
         else bindr (is_king_attacked b side_to_move) (\<lambda>attacked.
           if attacked then Inr False
           else
             let castle_squares = (if is_whites_move b then white_castle_queenside_mask
                                   else black_castle_queenside_mask)
             in bindr (if is_whites_move b then attack_squares b black
                       else attack_squares b white) (\<lambda>enemy_attack_squares.
                let castle_squares_attacked = (castle_squares AND enemy_attack_squares \<noteq> 0);
                    b_file_square = (if is_whites_move b then sq ''b1'' else sq ''b8'');
                    castle_squares_with_b_file = castle_squares OR b_file_square;
                    castle_squares_blocked = (castle_squares_with_b_file AND all_pieces b \<noteq> 0)
                in Inr (\<not> castle_squares_blocked \<and> \<not> castle_squares_attacked))))"

definition append_castling_moves :: "Board \<Rightarrow> Move list \<Rightarrow> Move list result" where
  "append_castling_moves b res =
     (let side_to_move = (if is_whites_move b then white else black)
      in bindr (is_castle_kingside_legal b) (\<lambda>kingside.
         let res = (if kingside then res @ [castle_kingside_move side_to_move b] else res)
         in bindr (is_castle_queenside_legal b) (\<lambda>queenside.
            Inr (if queenside then res @ [castle_queenside_move side_to_move b] else res))))"

section \<open>Legal moves\<close>

definition is_pseudolegal_move_legal :: "Board \<Rightarrow> Move \<Rightarrow> bool result" where
  "is_pseudolegal_move_legal b move =
     (let side_to_move = (if is_whites_move b then white else black)
      in bindr (do_move b move) (\<lambda>this_copy.
         bindr (is_king_attacked this_copy side_to_move) (\<lambda>attacked.
         Inr (\<not> attacked))))"

text \<open>\<open>std::remove_if\<close> followed by \<open>erase\<close>, with a predicate that can fail.\<close>

fun erase_if_not :: "('a \<Rightarrow> bool result) \<Rightarrow> 'a list \<Rightarrow> 'a list result" where
  "erase_if_not keep [] = Inr []"
| "erase_if_not keep (x # xs) =
     bindr (keep x) (\<lambda>k.
     bindr (erase_if_not keep xs) (\<lambda>ys.
     Inr (if k then x # ys else ys)))"

definition legal_moves :: "Board \<Rightarrow> Move list result" where
  "legal_moves b =
     (let side_to_move = (if is_whites_move b then white else black)
      in bindr (pseudolegal_moves b side_to_move) (\<lambda>res.
         bindr (erase_if_not (is_pseudolegal_move_legal b) res) (\<lambda>res.
         append_castling_moves b res)))"

definition is_capture_move :: "Board \<Rightarrow> Move \<Rightarrow> bool" where
  "is_capture_move b move =
     (let side_to_move = (if is_whites_move b then white else black)
      in dst_square move AND enemies b side_to_move \<noteq> 0)"

definition legal_capture_moves :: "Board \<Rightarrow> Move list result" where
  "legal_capture_moves b =
     bindr (legal_moves b) (\<lambda>res. Inr (filter (is_capture_move b) res))"

end
