(* ===== verification/Rules.thy ===== *)
theory Rules
  imports Board_State
begin

text \<open>
  The rules of chess, stated on coordinates and independently of the code: how each piece
  moves and attacks, the pseudolegal moves of a side as an inductive predicate, and the
  castling conditions. The move generator is proved against these definitions.
\<close>

section \<open>Movement\<close>

definition forward :: "Color \<Rightarrow> int" where
  "forward side = (if side = white then 1 else -1)"

definition start_rank :: "Color \<Rightarrow> int" where
  "start_rank side = (if side = white then 1 else 6)"

text \<open>The rank from which the next step forward promotes.\<close>

definition promotion_rank :: "Color \<Rightarrow> int" where
  "promotion_rank side = (if side = white then 6 else 1)"

fun slide_vectors :: "Piece \<Rightarrow> coord set" where
  "slide_vectors rook = {(0, 1), (0, -1), (1, 0), (-1, 0)}"
| "slide_vectors bishop = {(1, 1), (-1, 1), (1, -1), (-1, -1)}"
| "slide_vectors queen =
     {(0, 1), (0, -1), (1, 0), (-1, 0), (1, 1), (-1, 1), (1, -1), (-1, -1)}"
| "slide_vectors _ = {}"

fun leap_vectors :: "Piece \<Rightarrow> coord set" where
  "leap_vectors king =
     {(0, 1), (0, -1), (1, 0), (-1, 0), (1, 1), (-1, 1), (1, -1), (-1, -1)}"
| "leap_vectors knight =
     {(1, 2), (-1, 2), (2, 1), (2, -1), (1, -2), (-1, -2), (-2, 1), (-2, -1)}"
| "leap_vectors _ = {}"

text \<open>
  A slider on \<open>s\<close> reaches \<open>t\<close> along \<open>v\<close> when \<open>t\<close> is on its ray and every square strictly
  between is empty.
\<close>

definition slide_reach :: "Board \<Rightarrow> coord \<Rightarrow> coord \<Rightarrow> coord \<Rightarrow> bool" where
  "slide_reach b v s t \<longleftrightarrow>
     (\<exists>k\<ge>1. t = cadd s k v \<and> on_board t \<and> (\<forall>j. 1 \<le> j \<and> j < k \<longrightarrow> \<not> occupied b (cadd s j v)))"

definition enemy_on :: "Board \<Rightarrow> Color \<Rightarrow> coord \<Rightarrow> bool" where
  "enemy_on b side c \<longleftrightarrow> (\<exists>k. on b (flip_color side, k) c)"

definition friend_on :: "Board \<Rightarrow> Color \<Rightarrow> coord \<Rightarrow> bool" where
  "friend_on b side c \<longleftrightarrow> (\<exists>k. on b (side, k) c)"

section \<open>Pseudolegal moves\<close>

inductive pseudolegal ::
    "Board \<Rightarrow> Color \<Rightarrow> coord \<Rightarrow> coord \<Rightarrow> Piece \<Rightarrow> MoveType \<Rightarrow> bool"
  for b :: Board and side :: Color
where
  slide_quiet: "on b (side, k) s \<Longrightarrow> v \<in> slide_vectors k \<Longrightarrow> slide_reach b v s t \<Longrightarrow>
     \<not> occupied b t \<Longrightarrow> pseudolegal b side s t k simple"
| slide_capture: "on b (side, k) s \<Longrightarrow> v \<in> slide_vectors k \<Longrightarrow> slide_reach b v s t \<Longrightarrow>
     enemy_on b side t \<Longrightarrow> pseudolegal b side s t k capture"
| leap_quiet: "on b (side, k) s \<Longrightarrow> v \<in> leap_vectors k \<Longrightarrow> t = cadd s 1 v \<Longrightarrow> on_board t \<Longrightarrow>
     \<not> occupied b t \<Longrightarrow> pseudolegal b side s t k simple"
| leap_capture: "on b (side, k) s \<Longrightarrow> v \<in> leap_vectors k \<Longrightarrow> t = cadd s 1 v \<Longrightarrow> on_board t \<Longrightarrow>
     enemy_on b side t \<Longrightarrow> pseudolegal b side s t k capture"
| pawn_push: "on b (side, pawn) s \<Longrightarrow> snd s \<noteq> promotion_rank side \<Longrightarrow>
     t = cadd s 1 (0, forward side) \<Longrightarrow> on_board t \<Longrightarrow> \<not> occupied b t \<Longrightarrow>
     pseudolegal b side s t pawn simple"
| pawn_double: "on b (side, pawn) s \<Longrightarrow> snd s = start_rank side \<Longrightarrow>
     t = cadd s 2 (0, forward side) \<Longrightarrow> \<not> occupied b (cadd s 1 (0, forward side)) \<Longrightarrow>
     \<not> occupied b t \<Longrightarrow> pseudolegal b side s t pawn two_step_pawn"
| pawn_capture: "on b (side, pawn) s \<Longrightarrow> snd s \<noteq> promotion_rank side \<Longrightarrow> x \<in> {-1, 1} \<Longrightarrow>
     t = cadd s 1 (x, forward side) \<Longrightarrow> enemy_on b side t \<Longrightarrow>
     pseudolegal b side s t pawn capture"
| pawn_en_passant: "on b (side, pawn) s \<Longrightarrow> x \<in> {-1, 1} \<Longrightarrow>
     t = cadd s 1 (x, forward side) \<Longrightarrow> on_board t \<Longrightarrow> en_passant_square b = Some (csq t) \<Longrightarrow>
     pseudolegal b side s t pawn en_passant"
| promotion_push: "on b (side, pawn) s \<Longrightarrow> snd s = promotion_rank side \<Longrightarrow>
     t = cadd s 1 (0, forward side) \<Longrightarrow> \<not> occupied b t \<Longrightarrow> ty \<in> set promotion_move_types \<Longrightarrow>
     pseudolegal b side s t pawn ty"
| promotion_capture: "on b (side, pawn) s \<Longrightarrow> snd s = promotion_rank side \<Longrightarrow> x \<in> {-1, 1} \<Longrightarrow>
     t = cadd s 1 (x, forward side) \<Longrightarrow> enemy_on b side t \<Longrightarrow> ty \<in> set promotion_move_types \<Longrightarrow>
     pseudolegal b side s t pawn ty"

section \<open>Attacks\<close>

definition piece_attacks :: "Board \<Rightarrow> Color \<Rightarrow> Piece \<Rightarrow> coord \<Rightarrow> coord \<Rightarrow> bool" where
  "piece_attacks b side k s t \<longleftrightarrow>
     (if k = pawn then \<exists>x\<in>{-1, 1}. t = cadd s 1 (x, forward side) \<and> on_board t
      else (\<exists>v\<in>leap_vectors k. t = cadd s 1 v \<and> on_board t) \<or>
           (\<exists>v\<in>slide_vectors k. slide_reach b v s t))"

definition attacked :: "Board \<Rightarrow> Color \<Rightarrow> coord \<Rightarrow> bool" where
  "attacked b side t \<longleftrightarrow> (\<exists>k s. on b (side, k) s \<and> piece_attacks b side k s t)"

definition in_check :: "Board \<Rightarrow> Color \<Rightarrow> bool" where
  "in_check b side \<longleftrightarrow> (\<exists>c. on b (side, king) c \<and> attacked b (flip_color side) c)"

section \<open>Castling\<close>

definition home_rank :: "Color \<Rightarrow> int" where
  "home_rank side = (if side = white then 0 else 7)"

fun kingside_right :: "Board \<Rightarrow> Color \<Rightarrow> bool" where
  "kingside_right b white = white_has_right_to_castle_kingside b"
| "kingside_right b black = black_has_right_to_castle_kingside b"

fun queenside_right :: "Board \<Rightarrow> Color \<Rightarrow> bool" where
  "queenside_right b white = white_has_right_to_castle_queenside b"
| "queenside_right b black = black_has_right_to_castle_queenside b"

text \<open>
  The right is still held, the king is not in check and does not pass over or land on an
  attacked square, and the squares between king and rook are empty.
\<close>

definition may_castle_kingside :: "Board \<Rightarrow> Color \<Rightarrow> bool" where
  "may_castle_kingside b side \<longleftrightarrow>
     kingside_right b side \<and> \<not> in_check b side \<and>
     (\<forall>f\<in>{5, 6}. \<not> occupied b (f, home_rank side) \<and>
        \<not> attacked b (flip_color side) (f, home_rank side))"

definition may_castle_queenside :: "Board \<Rightarrow> Color \<Rightarrow> bool" where
  "may_castle_queenside b side \<longleftrightarrow>
     queenside_right b side \<and> \<not> in_check b side \<and>
     (\<forall>f\<in>{1, 2, 3}. \<not> occupied b (f, home_rank side)) \<and>
     (\<forall>f\<in>{2, 3}. \<not> attacked b (flip_color side) (f, home_rank side))"

section \<open>Basic facts\<close>

lemma cadd_0 [simp]: "cadd c 0 v = c"
  by (simp add: cadd_def)

lemma cadd_cadd [simp]: "cadd (cadd c j v) k v = cadd c (j + k) v"
  by (simp add: cadd_def algebra_simps)

lemma occupied_iff: "occupied b c \<longleftrightarrow> friend_on b side c \<or> enemy_on b side c"
  by (cases side) (auto simp: occupied_def friend_on_def enemy_on_def split_paired_Ex ex_Color)

lemma enemy_on_occupied: "enemy_on b side c \<Longrightarrow> occupied b c"
  using occupied_iff by blast

lemma enemy_on_on_board: "enemy_on b side c \<Longrightarrow> on_board c"
  by (auto simp: enemy_on_def on_on_board)

lemma occ_enemies_iff: "occ (enemies b side) c \<longleftrightarrow> enemy_on b side c"
  by (simp add: occ_enemies enemy_on_def)

lemma occ_friends_iff: "occ (friends b side) c \<longleftrightarrow> friend_on b side c"
  by (simp add: occ_friends friend_on_def)

lemma slide_reach_on_board: "slide_reach b v s t \<Longrightarrow> on_board t"
  by (auto simp: slide_reach_def)

end
