(* ===== verification/Movegen_Correct.thy ===== *)
theory Movegen_Correct
  imports Movegen Rules
begin

text \<open>
  The pseudolegal move generator against the rules: on a board with its two kings and no
  pawn on a back rank, \<open>pseudolegal_moves\<close> never fails, returns every pseudolegal move of
  the side, nothing else, and none of them twice.
\<close>

section \<open>Squares of a bitboard\<close>

definition coords :: "Bitboard \<Rightarrow> coord list" where
  "coords w = map idxc (filter (bit w) [0..<64])"

lemma set_coords: "set (coords w) = {c. occ w c}"
proof (rule set_eqI, rule iffI)
  fix c assume "c \<in> set (coords w)"
  then show "c \<in> {c. occ w c}" by (auto simp: coords_def occ_def)
next
  fix c assume "c \<in> {c. occ w c}"
  then have "on_board c" "bit w (cidx c)" by (auto simp: occ_def)
  then show "c \<in> set (coords w)"
    unfolding coords_def set_map by (intro image_eqI [of _ _ "cidx c"]) simp_all
qed

lemma distinct_coords: "distinct (coords w)"
  unfolding coords_def distinct_map
  by (auto intro!: inj_onI) (metis cidx_idxc)

lemma bitboard_split_coords: "bitboard_split w = map csq (coords w)"
  by (simp add: bitboard_split_eq coords_def csq_def)

lemma for_each_map: "for_each (map f xs) body s = for_each xs (\<lambda>x. body (f x)) s"
  by (induction xs arbitrary: s) (auto simp: bindr_def split: sum.splits)

text \<open>The loop over the squares of a bitboard, when the body appends.\<close>

lemma for_each_split:
  assumes "\<And>c s. occ w c \<Longrightarrow> body (csq c) s = Inr (s @ g c)"
  shows "for_each (bitboard_split w) body s = Inr (s @ concat (map g (coords w)))"
  unfolding bitboard_split_coords for_each_map
  by (rule for_each_append) (use assms set_coords in auto)

section \<open>Moves as coordinates\<close>

type_synonym cmove = "coord \<times> coord \<times> Piece \<times> MoveType"

fun mv :: "Board \<Rightarrow> cmove \<Rightarrow> Move" where
  "mv b (s, t, k, ty) = Move_init (csq s) (csq t) k ty b"

definition cmove_ok :: "cmove \<Rightarrow> bool" where
  "cmove_ok m \<longleftrightarrow> on_board (fst m) \<and> on_board (fst (snd m))"

lemma mv_inj: "cmove_ok m \<Longrightarrow> cmove_ok n \<Longrightarrow> mv b m = mv b n \<longleftrightarrow> m = n"
  by (cases m; cases n) (auto simp: cmove_ok_def Move_init_def csq_inj)

section \<open>Sliding\<close>

definition ray :: "Board \<Rightarrow> coord \<Rightarrow> coord \<Rightarrow> int \<Rightarrow> coord list" where
  "ray b v s n = takeWhile (\<lambda>t. on_board t \<and> \<not> occupied b t) (map (\<lambda>i. cadd s i v) [n..7])"

definition ray_stop :: "Board \<Rightarrow> coord \<Rightarrow> coord \<Rightarrow> coord" where
  "ray_stop b v s = cadd s (1 + int (length (ray b v s 1))) v"

definition slide_cmoves :: "Board \<Rightarrow> Color \<Rightarrow> Piece \<Rightarrow> coord \<Rightarrow> coord \<Rightarrow> cmove list" where
  "slide_cmoves b side k s v =
     map (\<lambda>t. (s, t, k, simple)) (ray b v s 1) @
     (if enemy_on b side (ray_stop b v s) then [(s, ray_stop b v s, k, capture)] else [])"

lemma off_board_8: "on_board s \<Longrightarrow> v \<in> range vec \<Longrightarrow> 8 \<le> n \<Longrightarrow> \<not> on_board (cadd s n v)"
proof -
  assume "on_board s" "v \<in> range vec" "8 \<le> n"
  moreover from this(2) obtain d where "v = vec d" by blast
  ultimately show ?thesis by (cases s; cases d) (auto simp: on_board_def cadd_def)
qed

lemma cadd_inj: "v \<in> range vec \<Longrightarrow> cadd s i v = cadd s j v \<longleftrightarrow> i = j"
proof -
  assume "v \<in> range vec"
  then obtain d where "v = vec d" by blast
  then show ?thesis by (cases d) (auto simp: cadd_def)
qed

lemma ray_Cons:
  "n \<le> 7 \<Longrightarrow> on_board (cadd s n v) \<Longrightarrow> \<not> occupied b (cadd s n v) \<Longrightarrow>
     ray b v s n = cadd s n v # ray b v s (n + 1)"
  by (simp add: ray_def upto_rec1)

lemma ray_Nil:
  "\<not> on_board (cadd s n v) \<or> occupied b (cadd s n v) \<Longrightarrow> ray b v s n = []"
  by (cases "n \<le> 7") (auto simp: ray_def upto_rec1)

lemma square_or_0_and:
  "square_or_0 c AND w = 0 \<longleftrightarrow> \<not> (on_board c \<and> occ w c)"
  "w AND square_or_0 c = 0 \<longleftrightarrow> \<not> (on_board c \<and> occ w c)"
  by (auto simp: square_or_0_def csq_and and_csq)

lemma sliding_loop_ray:
  assumes "on_board s" "1 \<le> n" "n \<le> 8"
  shows "sliding_loop b d (csq s) k (square_or_0 (cadd s n (vec d))) res =
    Inr (square_or_0 (cadd s (n + int (length (ray b (vec d) s n))) (vec d)),
         res @ map (\<lambda>t. Move_init (csq s) (csq t) k simple b) (ray b (vec d) s n))"
  using assms(2,3)
proof (induction "nat (8 - n)" arbitrary: n res rule: less_induct)
  case less
  let ?c = "cadd s n (vec d)"
  show ?case
  proof (cases "on_board ?c \<and> \<not> occupied b ?c")
    case False
    then show ?thesis
      by (subst sliding_loop.simps)
        (auto simp: ray_Nil square_or_0_and occ_all_pieces)
  next
    case True
    then have "\<not> 8 \<le> n" using off_board_8 [OF assms(1), of "vec d" n] by blast
    then have "n \<le> 7" by simp
    have sq: "square_or_0 ?c = csq ?c" using True by (simp add: square_or_0_def)
    have "direction_to_function d (csq ?c) = Inr (square_or_0 (cadd s (n + 1) (vec d)))"
      using True by (simp add: direction_to_function_csq)
    with True \<open>n \<le> 7\<close> less.hyps [of "n + 1"] less.prems show ?thesis
      by (subst sliding_loop.simps)
        (simp add: sq csq_and occ_all_pieces ray_Cons add.assoc)
  qed
qed

lemma append_sliding:
  assumes "on_board s" "friend_on b side s"
  shows "append_pseudolegal_sliding_moves b d side (csq s) k res =
    Inr (res @ map (mv b) (slide_cmoves b side k s (vec d)))"
proof -
  have src: "csq s AND friends b side \<noteq> 0"
    using assms by (simp add: csq_and occ_friends_iff)
  have dir: "direction_to_function d (csq s) = Inr (square_or_0 (cadd s 1 (vec d)))"
    using assms(1) by (rule direction_to_function_csq)
  have stop: "square_or_0 (ray_stop b (vec d) s) AND enemies b side \<noteq> 0 \<longleftrightarrow>
      enemy_on b side (ray_stop b (vec d) s)"
    by (auto simp: square_or_0_and occ_enemies_iff enemy_on_on_board)
  have "square_or_0 (ray_stop b (vec d) s) = csq (ray_stop b (vec d) s)"
    if "enemy_on b side (ray_stop b (vec d) s)"
    using enemy_on_on_board [OF that] by (simp add: square_or_0_def)
  with src dir stop sliding_loop_ray [OF assms(1), of 1 b d k res] show ?thesis
    by (simp add: append_pseudolegal_sliding_moves_def slide_cmoves_def ray_stop_def [symmetric]
        comp_def)
qed


lemma append_slider:
  assumes "\<And>c. occ w c \<Longrightarrow> friend_on b side c"
  shows "for_each (bitboard_split w) (\<lambda>sq. for_each dirs (\<lambda>dir.
      append_pseudolegal_sliding_moves b dir side sq k)) res =
    Inr (res @ map (mv b) (concat (map (\<lambda>s. concat (map (\<lambda>d. slide_cmoves b side k s (vec d)) dirs))
      (coords w))))"
proof -
  have "for_each dirs (\<lambda>dir. append_pseudolegal_sliding_moves b dir side (csq c) k) s =
      Inr (s @ concat (map (\<lambda>d. map (mv b) (slide_cmoves b side k c (vec d))) dirs))"
    if "occ w c" for c s
    by (rule for_each_append) (use that assms append_sliding occ_on_board in blast)
  then show ?thesis
    by (subst for_each_split, assumption) (simp add: map_concat comp_def)
qed

definition slider_cmoves :: "Board \<Rightarrow> Color \<Rightarrow> Piece \<Rightarrow> Direction list \<Rightarrow> cmove list" where
  "slider_cmoves b side k dirs =
     concat (map (\<lambda>s. concat (map (\<lambda>d. slide_cmoves b side k s (vec d)) dirs))
       (coords (deref b (side, k))))"

lemma deref_friend: "occ (deref b (side, k)) c \<Longrightarrow> friend_on b side c"
  by (auto simp: friend_on_def on_def)

lemma deref_side:
  "(if side = white then white_bishops b else black_bishops b) = deref b (side, bishop)"
  "(if side = white then white_rooks b else black_rooks b) = deref b (side, rook)"
  "(if side = white then white_queens b else black_queens b) = deref b (side, queen)"
  "(if side = white then white_knights b else black_knights b) = deref b (side, knight)"
  "(if side = white then white_king b else black_king b) = deref b (side, king)"
  by (cases side; simp)+

lemma append_sliders:
  "append_pseudolegal_bishop_moves b side res =
     Inr (res @ map (mv b) (slider_cmoves b side bishop bishop_move_directions))"
  "append_pseudolegal_rook_moves b side res =
     Inr (res @ map (mv b) (slider_cmoves b side rook rook_move_directions))"
  "append_pseudolegal_queen_moves b side res =
     Inr (res @ map (mv b) (slider_cmoves b side queen all_directions))"
  unfolding append_pseudolegal_bishop_moves_def append_pseudolegal_rook_moves_def
    append_pseudolegal_queen_moves_def Let_def deref_side slider_cmoves_def
  by (rule append_slider, erule deref_friend)+

subsection \<open>What a ray holds\<close>

lemma on_board_between:
  assumes "on_board s" "on_board (cadd s k v)" "1 \<le> j" "j \<le> k" "v \<in> range vec"
  shows "on_board (cadd s j v)"
proof -
  from assms(5) obtain d where "v = vec d" by blast
  with assms(1-4) show ?thesis by (cases s; cases d) (auto simp: on_board_def cadd_def)
qed

lemma length_ray: "length (ray b v s 1) \<le> 7"
  unfolding ray_def using length_takeWhile_le [of _ "map (\<lambda>i. cadd s i v) [1..7]"] by fastforce

lemma nth_ray:
  assumes "j < length (ray b v s 1)"
  shows "ray b v s 1 ! j = cadd s (1 + int j) v"
proof -
  have "j < 7" using assms length_ray [of b v s] by simp
  then have "map (\<lambda>i. cadd s i v) [1..7] ! j = cadd s (1 + int j) v" by simp
  with assms show ?thesis by (simp add: ray_def takeWhile_nth)
qed

lemma set_ray:
  assumes "on_board s" "v \<in> range vec"
  shows "t \<in> set (ray b v s 1) \<longleftrightarrow> slide_reach b v s t \<and> \<not> occupied b t"
proof
  assume "t \<in> set (ray b v s 1)"
  then obtain i where i: "i < length (ray b v s 1)" "t = ray b v s 1 ! i"
    by (auto simp: in_set_conv_nth)
  have P: "on_board (cadd s (1 + int j) v) \<and> \<not> occupied b (cadd s (1 + int j) v)"
    if "j \<le> i" for j
  proof -
    have len: "j < length (ray b v s 1)" using that i(1) by simp
    then have "ray b v s 1 ! j \<in> set (ray b v s 1)" by simp
    then have "on_board (ray b v s 1 ! j) \<and> \<not> occupied b (ray b v s 1 ! j)"
      unfolding ray_def using set_takeWhileD by fast
    with nth_ray [OF len] show ?thesis by simp
  qed
  have t: "t = cadd s (1 + int i) v"
    using i nth_ray by simp
  have "\<not> occupied b (cadd s j v)" if "1 \<le> j" "j < 1 + int i" for j
    using P [of "nat (j - 1)"] that by (simp add: nat_le_iff)
  then show "slide_reach b v s t \<and> \<not> occupied b t"
    unfolding slide_reach_def using t P [of i] by (intro conjI exI [of _ "1 + int i"]) auto
next
  assume r: "slide_reach b v s t \<and> \<not> occupied b t"
  then obtain k where k: "1 \<le> k" "t = cadd s k v" "on_board t"
      "\<And>j. 1 \<le> j \<Longrightarrow> j < k \<Longrightarrow> \<not> occupied b (cadd s j v)"
    by (auto simp: slide_reach_def)
  have free: "on_board (cadd s j v) \<and> \<not> occupied b (cadd s j v)" if "1 \<le> j" "j \<le> k" for j
    using on_board_between [OF assms(1) _ that assms(2)] k r that by (cases "j = k") auto
  have "k \<le> 7" using off_board_8 [OF assms, of k] k(2,3) by force
  have "cadd s k v \<in> set (ray b v s j)" if "1 \<le> j" "j \<le> k" for j
    using that
  proof (induction "nat (k - j)" arbitrary: j rule: less_induct)
    case less
    have ray: "ray b v s j = cadd s j v # ray b v s (j + 1)"
      using free [OF less.prems] \<open>k \<le> 7\<close> less.prems by (intro ray_Cons) auto
    show ?case
    proof (cases "j = k")
      case True
      then show ?thesis using ray by simp
    next
      case False
      then have "cadd s k v \<in> set (ray b v s (j + 1))"
        using less.prems by (intro less.hyps) auto
      then show ?thesis by (simp add: ray)
    qed
  qed
  with k show "t \<in> set (ray b v s 1)" by simp
qed


lemma ray_stop_eq:
  assumes "on_board s" "v \<in> range vec"
  shows "slide_reach b v s t \<and> occupied b t \<longleftrightarrow> t = ray_stop b v s \<and> occupied b t"
proof -
  let ?n = "1 + int (length (ray b v s 1))"
  have before: "\<not> occupied b (cadd s j v)" if "1 \<le> j" "j < ?n" for j
  proof -
    have "nat (j - 1) < length (ray b v s 1)" using that by linarith
    with nth_ray [OF this] that have "cadd s j v \<in> set (ray b v s 1)"
      by (metis add.commute diff_add_cancel diff_ge_0_iff_ge nat_0_le nth_mem)
    then show ?thesis using set_ray [OF assms] by blast
  qed
  show ?thesis
  proof
    assume l: "slide_reach b v s t \<and> occupied b t"
    then obtain k where k: "1 \<le> k" "t = cadd s k v" "on_board t"
        "\<And>j. 1 \<le> j \<Longrightarrow> j < k \<Longrightarrow> \<not> occupied b (cadd s j v)"
      by (auto simp: slide_reach_def)
    have "\<not> k < ?n" using before [of k] k l by auto
    moreover have "\<not> ?n < k"
    proof
      assume n: "?n < k"
      then have on: "on_board (cadd s ?n v)" "\<not> occupied b (cadd s ?n v)"
        using on_board_between [OF assms(1) _ _ _ assms(2), of k ?n] k by auto
      then have "slide_reach b v s (cadd s ?n v)"
        using before unfolding slide_reach_def by (intro exI [of _ ?n]) auto
      with on have "cadd s ?n v \<in> set (ray b v s 1)" using set_ray [OF assms] by blast
      then obtain i where "i < length (ray b v s 1)" "cadd s ?n v = cadd s (1 + int i) v"
        by (metis in_set_conv_nth nth_ray)
      with assms(2) show False by (simp add: cadd_inj)
    qed
    ultimately have "k = ?n" by simp
    with k l show "t = ray_stop b v s \<and> occupied b t" by (simp add: ray_stop_def)
  next
    assume t: "t = ray_stop b v s \<and> occupied b t"
    then have "on_board t" using occupied_on_board by blast
    with t show "slide_reach b v s t \<and> occupied b t"
      using before unfolding slide_reach_def ray_stop_def
      by (intro conjI exI [of _ ?n]) auto
  qed
qed

lemma mem_slide_cmoves:
  assumes "on_board s" "v \<in> range vec"
  shows "(s', t, k', ty) \<in> set (slide_cmoves b side k s v) \<longleftrightarrow>
    s' = s \<and> k' = k \<and> slide_reach b v s t \<and>
    (ty = simple \<and> \<not> occupied b t \<or> ty = capture \<and> enemy_on b side t)"
proof -
  have "slide_reach b v s t \<and> enemy_on b side t \<longleftrightarrow> t = ray_stop b v s \<and> enemy_on b side t"
    using ray_stop_eq [OF assms, of b t] enemy_on_occupied by blast
  moreover note set_ray [OF assms, of t b]
  ultimately show ?thesis unfolding slide_cmoves_def by auto
qed

lemma distinct_concat_map:
  assumes "distinct xs" "\<And>x. x \<in> set xs \<Longrightarrow> distinct (f x)"
    and "\<And>x y. x \<in> set xs \<Longrightarrow> y \<in> set xs \<Longrightarrow> x \<noteq> y \<Longrightarrow> set (f x) \<inter> set (f y) = {}"
  shows "distinct (concat (map f xs))"
  using assms
proof (induction xs)
  case Nil
  then show ?case by simp
next
  case (Cons x xs)
  have "set (f x) \<inter> set (f y) = {}" if "y \<in> set xs" for y
    using Cons.prems(1) that by (intro Cons.prems(3)) auto
  then have "set (f x) \<inter> set (concat (map f xs)) = {}" by auto
  moreover have "distinct (concat (map f xs))"
    by (rule Cons.IH) (use Cons.prems in auto)
  ultimately show ?case using Cons.prems(2) by simp
qed

lemma distinct_ray: "v \<in> range vec \<Longrightarrow> distinct (ray b v s 1)"
  by (auto simp: distinct_conv_nth nth_ray cadd_inj)

lemma distinct_slide: "v \<in> range vec \<Longrightarrow> distinct (slide_cmoves b side k s v)"
  by (auto simp: slide_cmoves_def distinct_map distinct_ray intro: inj_onI)

lemma directions_diverge:
  "1 \<le> i \<Longrightarrow> 1 \<le> j \<Longrightarrow> cadd s i (vec d) = cadd s j (vec d') \<Longrightarrow> d = d'"
  by (cases d; cases d'; auto simp: cadd_def)

lemma slide_diverge: "slide_reach b (vec d) s t \<Longrightarrow> slide_reach b (vec d') s t \<Longrightarrow> d = d'"
  by (auto simp: slide_reach_def dest: directions_diverge)

lemma mem_slider_cmoves:
  "(s, t, k', ty) \<in> set (slider_cmoves b side k dirs) \<longleftrightarrow>
     k' = k \<and> on b (side, k) s \<and> (\<exists>d\<in>set dirs. slide_reach b (vec d) s t) \<and>
     (ty = simple \<and> \<not> occupied b t \<or> ty = capture \<and> enemy_on b side t)"
proof -
  have "(s, t, k', ty) \<in> set (slider_cmoves b side k dirs) \<longleftrightarrow>
      (\<exists>c. on b (side, k) c \<and> (\<exists>d\<in>set dirs. (s, t, k', ty) \<in> set (slide_cmoves b side k c (vec d))))"
    by (simp add: slider_cmoves_def set_coords on_def)
  then show ?thesis by (metis mem_slide_cmoves on_on_board rangeI)
qed

lemma distinct_slider_cmoves: "distinct dirs \<Longrightarrow> distinct (slider_cmoves b side k dirs)"
  unfolding slider_cmoves_def
proof (rule distinct_concat_map [OF distinct_coords])
  fix s assume d: "distinct dirs" and "s \<in> set (coords (deref b (side, k)))"
  then have s: "on_board s" by (simp add: set_coords occ_on_board)
  show "distinct (concat (map (\<lambda>d. slide_cmoves b side k s (vec d)) dirs))"
    by (rule distinct_concat_map [OF d])
      (auto simp: distinct_slide mem_slide_cmoves [OF s] dest: slide_diverge)
next
  fix s s' assume s: "s \<in> set (coords (deref b (side, k)))" "s' \<in> set (coords (deref b (side, k)))"
    and "s \<noteq> s'"
  moreover from s have "on_board s" "on_board s'" by (simp_all add: set_coords occ_on_board)
  ultimately show "set (concat (map (\<lambda>d. slide_cmoves b side k s (vec d)) dirs)) \<inter>
      set (concat (map (\<lambda>d. slide_cmoves b side k s' (vec d)) dirs)) = {}"
    by (auto simp: mem_slide_cmoves)
qed

section \<open>King and knights\<close>

definition leap_cmoves :: "Board \<Rightarrow> Color \<Rightarrow> Piece \<Rightarrow> coord \<Rightarrow> coord \<Rightarrow> cmove list" where
  "leap_cmoves b side k s v =
     (let t = cadd s 1 v
      in if on_board t \<and> \<not> friend_on b side t
         then [(s, t, k, if enemy_on b side t then capture else simple)] else [])"

definition king_cmoves :: "Board \<Rightarrow> Color \<Rightarrow> coord \<Rightarrow> cmove list" where
  "king_cmoves b side s = concat (map (\<lambda>d. leap_cmoves b side king s (vec d)) all_directions)"

lemma append_king:
  assumes "on_board s" "deref b (side, king) = csq s"
  shows "append_pseudolegal_king_moves b side res = Inr (res @ map (mv b) (king_cmoves b side s))"
proof -
  have "for_each all_directions (\<lambda>dir res.
      bindr (direction_to_function dir (csq s)) (\<lambda>dst.
        Inr (if dst \<noteq> 0 \<and> \<not> dst AND friends b side \<noteq> 0
             then res @ [Move_init (csq s) dst king
               (if dst AND enemies b side \<noteq> 0 then capture else simple) b] else res))) res =
    Inr (res @ concat (map (\<lambda>d. map (mv b) (leap_cmoves b side king s (vec d))) all_directions))"
    using assms(1)
    by (intro for_each_append)
      (auto simp: direction_to_function_csq leap_cmoves_def square_or_0_and occ_friends_iff
        occ_enemies_iff Let_def square_or_0_def csq_and)
  then show ?thesis
    unfolding append_pseudolegal_king_moves_def Let_def deref_side assms(2) king_cmoves_def
    by (simp add: map_concat comp_def)
qed


lemma mem_leap_cmoves:
  "(s', t, k', ty) \<in> set (leap_cmoves b side k s v) \<longleftrightarrow>
     s' = s \<and> k' = k \<and> t = cadd s 1 v \<and> on_board t \<and> \<not> friend_on b side t \<and>
     ty = (if enemy_on b side t then capture else simple)"
  by (auto simp: leap_cmoves_def Let_def)

lemma vec_inj: "vec d = vec d' \<longleftrightarrow> d = d'"
  by (cases d; cases d') simp_all

lemma cadd_1_inj: "cadd s 1 v = cadd s 1 w \<longleftrightarrow> v = w"
  by (auto simp: cadd_def prod_eq_iff)

lemma all_directions_all [simp]: "d \<in> set all_directions"
  by (cases d) (simp_all add: all_directions_def)

lemma distinct_leap: "distinct (leap_cmoves b side k s v)"
  by (simp add: leap_cmoves_def Let_def)

lemma distinct_king_cmoves: "distinct (king_cmoves b side s)"
  unfolding king_cmoves_def
  by (rule distinct_concat_map)
    (simp add: all_directions_def, rule distinct_leap,
      auto simp: mem_leap_cmoves cadd_1_inj vec_inj)

lemma mem_king_cmoves:
  "(s', t, k', ty) \<in> set (king_cmoves b side s) \<longleftrightarrow>
     s' = s \<and> k' = king \<and> (\<exists>d. t = cadd s 1 (vec d)) \<and> on_board t \<and> \<not> friend_on b side t \<and>
     ty = (if enemy_on b side t then capture else simple)"
  by (auto simp: king_cmoves_def mem_leap_cmoves)

definition knight_vec :: "Direction \<times> Direction \<Rightarrow> coord" where
  "knight_vec dd = (fst (vec (fst dd)) + fst (vec (snd dd)), snd (vec (fst dd)) + snd (vec (snd dd)))"

definition knight_cmoves :: "Board \<Rightarrow> Color \<Rightarrow> cmove list" where
  "knight_cmoves b side =
     concat (map (\<lambda>s. concat (map (\<lambda>dd. leap_cmoves b side knight s (knight_vec dd))
       knight_move_directions)) (coords (deref b (side, knight))))"

lemma knight_first_step:
  assumes "on_board s" "dd \<in> set knight_move_directions" "on_board (cadd s 1 (knight_vec dd))"
  shows "on_board (cadd s 1 (vec (fst dd)))"
  using assms
  by (auto simp: knight_move_directions_def knight_vec_def cadd_def on_board_def)

lemma cadd_knight: "cadd (cadd s 1 (vec d1)) 1 (vec d2) = cadd s 1 (knight_vec (d1, d2))"
  by (simp add: cadd_def knight_vec_def)

lemma append_one_knight:
  assumes "on_board s" "dd \<in> set knight_move_directions"
  shows "(case dd of (dir1, dir2) \<Rightarrow> \<lambda>res.
           bindr (direction_to_function dir1 (csq s)) (\<lambda>first_step.
           if first_step \<noteq> 0 then
             bindr (direction_to_function dir2 first_step) (\<lambda>dst.
             Inr (if dst \<noteq> 0 \<and> \<not> dst AND friends b side \<noteq> 0
                  then res @ [Move_init (csq s) dst knight
                    (if dst AND enemies b side \<noteq> 0 then capture else simple) b]
                  else res))
           else Inr res)) res =
    Inr (res @ map (mv b) (leap_cmoves b side knight s (knight_vec dd)))"
proof (cases dd)
  case (Pair d1 d2)
  show ?thesis
  proof (cases "on_board (cadd s 1 (vec d1))")
    case True
    then show ?thesis
      using assms(1)
      by (simp add: Pair direction_to_function_csq square_or_0_def cadd_knight leap_cmoves_def
          Let_def csq_and occ_friends_iff occ_enemies_iff)
  next
    case False
    then have "\<not> on_board (cadd s 1 (knight_vec dd))"
      using knight_first_step [OF assms] Pair by auto
    with False show ?thesis
      using assms(1) by (simp add: Pair direction_to_function_csq leap_cmoves_def Let_def)
  qed
qed

lemma append_knights:
  "append_pseudolegal_knight_moves b side res = Inr (res @ map (mv b) (knight_cmoves b side))"
proof -
  note app = append_one_knight [where b = b and side = side]
  show ?thesis
    unfolding append_pseudolegal_knight_moves_def Let_def deref_side
    by (subst for_each_split, rule for_each_append, rule app)
      (auto simp: knight_cmoves_def map_concat comp_def dest: occ_on_board)
qed

lemma mem_knight_cmoves:
  "(s, t, k, ty) \<in> set (knight_cmoves b side) \<longleftrightarrow>
     k = knight \<and> on b (side, knight) s \<and>
     (\<exists>v\<in>leap_vectors knight. t = cadd s 1 v) \<and> on_board t \<and> \<not> friend_on b side t \<and>
     ty = (if enemy_on b side t then capture else simple)"
proof -
  have "knight_vec ` set knight_move_directions = leap_vectors knight"
    by (simp add: knight_vec_def knight_move_directions_def) blast
  moreover have "(s, t, k, ty) \<in> set (knight_cmoves b side) \<longleftrightarrow>
      on b (side, knight) s \<and> (\<exists>v\<in>knight_vec ` set knight_move_directions.
        (s, t, k, ty) \<in> set (leap_cmoves b side knight s v))"
    by (auto simp: knight_cmoves_def set_coords on_def mem_leap_cmoves)
  ultimately show ?thesis by (auto simp: mem_leap_cmoves)
qed

lemma distinct_knight_cmoves: "distinct (knight_cmoves b side)"
  unfolding knight_cmoves_def
proof (rule distinct_concat_map [OF distinct_coords])
  fix s
  have "distinct knight_move_directions" "inj_on knight_vec (set knight_move_directions)"
    by (auto simp: knight_move_directions_def knight_vec_def inj_on_def)
  then show "distinct (concat (map (\<lambda>dd. leap_cmoves b side knight s (knight_vec dd))
      knight_move_directions))"
    by (intro distinct_concat_map) (auto simp: distinct_leap mem_leap_cmoves cadd_1_inj dest: inj_onD)
qed (auto simp: mem_leap_cmoves)

section \<open>Pawns\<close>

text \<open>No pawn stands on the first or the last rank.\<close>

definition back_ranks_mask :: Bitboard where
  "back_ranks_mask = 0xFF000000000000FF"

definition pawns_ok :: "Board \<Rightarrow> bool" where
  "pawns_ok b \<longleftrightarrow> (white_pawns b OR black_pawns b) AND back_ranks_mask = 0"

lemma occ_back_ranks_mask: "occ back_ranks_mask c \<longleftrightarrow> on_board c \<and> snd c \<in> {0, 7}"
proof -
  have "\<forall>i\<in>set [0..<64]. bit back_ranks_mask i \<longleftrightarrow> i div 8 \<in> {0, 7}"
    unfolding back_ranks_mask_def by code_simp
  then have "bit back_ranks_mask (cidx c) \<longleftrightarrow> cidx c div 8 \<in> {0, 7}" if "on_board c"
    using cidx_less [OF that] by simp
  moreover have "int (cidx c div 8) = snd c" if "on_board c"
    using that by (cases c) (simp add: cidx_def zdiv_int file_rank_arith)
  ultimately show ?thesis unfolding occ_def by fastforce
qed

lemma pawns_ok_iff:
  "pawns_ok b \<longleftrightarrow> (\<forall>side c. on b (side, pawn) c \<longrightarrow> 1 \<le> snd c \<and> snd c \<le> 6)"
proof -
  have "on_board c \<Longrightarrow> snd c \<notin> {0, 7} \<longleftrightarrow> 1 \<le> snd c \<and> snd c \<le> 6" for c
    by (auto simp: on_board_def)
  then show ?thesis
    unfolding pawns_ok_def bb_and_0_occ_iff occ_back_ranks_mask
    by (simp add: on_def all_Color) (metis occ_on_board)
qed

fun promotion_mask :: "Color \<Rightarrow> Bitboard" where
  "promotion_mask white = seventh_rank_mask"
| "promotion_mask black = second_rank_mask"

fun start_mask :: "Color \<Rightarrow> Bitboard" where
  "start_mask white = second_rank_mask"
| "start_mask black = seventh_rank_mask"

lemma occ_masks:
  "occ (promotion_mask side) c \<longleftrightarrow> on_board c \<and> snd c = promotion_rank side"
  "occ (start_mask side) c \<longleftrightarrow> on_board c \<and> snd c = start_rank side"
  by (cases side; simp add: occ_rank_mask promotion_rank_def start_rank_def)+

abbreviation ahead :: "Color \<Rightarrow> coord \<Rightarrow> coord" where
  "ahead side s \<equiv> cadd s 1 (0, forward side)"

abbreviation diag :: "Color \<Rightarrow> int \<Rightarrow> coord \<Rightarrow> coord" where
  "diag side x s \<equiv> cadd s 1 (x, forward side)"

lemma ahead_on_board:
  assumes "pawns_ok b" "on b (side, pawn) s"
  shows "on_board (ahead side s)"
proof -
  have "1 \<le> snd s" "snd s \<le> 6" "on_board s"
    using assms unfolding pawns_ok_iff by (blast intro: on_on_board)+
  then show ?thesis by (auto simp: on_board_def cadd_def forward_def)
qed

definition if_list :: "bool \<Rightarrow> 'a \<Rightarrow> 'a list" where
  "if_list c x = (if c then [x] else [])"

lemma set_if_list [simp]: "y \<in> set (if_list c x) \<longleftrightarrow> c \<and> y = x"
  by (cases c) (simp_all add: if_list_def)

lemma distinct_if_list [simp]: "distinct (if_list c x)"
  by (simp add: if_list_def)

lemma map_if_list [simp]: "map f (if_list c x) = if_list c (f x)"
  by (simp add: if_list_def)

lemma append_if_list: "(if c then res @ [x] else res) = res @ if_list c x"
  by (cases c) (simp_all add: if_list_def)

definition push_cmoves :: "Board \<Rightarrow> Color \<Rightarrow> coord \<Rightarrow> cmove list" where
  "push_cmoves b side s = if_list (\<not> occupied b (ahead side s)) (s, ahead side s, pawn, simple)"

definition double_cmoves :: "Board \<Rightarrow> Color \<Rightarrow> coord \<Rightarrow> cmove list" where
  "double_cmoves b side s =
     if_list (\<not> (occupied b (ahead side s) \<or> occupied b (cadd s 2 (0, forward side))))
       (s, cadd s 2 (0, forward side), pawn, two_step_pawn)"

definition pawn_capture_cmoves :: "Board \<Rightarrow> Color \<Rightarrow> coord \<Rightarrow> cmove list" where
  "pawn_capture_cmoves b side s =
     if_list (enemy_on b side (diag side 1 s)) (s, diag side 1 s, pawn, capture) @
     if_list (enemy_on b side (diag side (-1) s)) (s, diag side (-1) s, pawn, capture)"

definition promotion_cmoves :: "Board \<Rightarrow> Color \<Rightarrow> coord \<Rightarrow> MoveType \<Rightarrow> cmove list" where
  "promotion_cmoves b side s ty =
     if_list (\<not> occupied b (ahead side s)) (s, ahead side s, pawn, ty) @
     if_list (enemy_on b side (diag side 1 s)) (s, diag side 1 s, pawn, ty) @
     if_list (enemy_on b side (diag side (-1) s)) (s, diag side (-1) s, pawn, ty)"

definition coord_of :: "Bitboard \<Rightarrow> coord" where
  "coord_of w = (file_idx w, rank_idx w)"

lemma coord_of_csq [simp]: "on_board c \<Longrightarrow> coord_of (csq c) = c"
  by (simp add: coord_of_def file_idx_csq rank_idx_csq)

definition ep_cmoves :: "Board \<Rightarrow> Color \<Rightarrow> cmove list" where
  "ep_cmoves b side =
     (case en_passant_square b of
        None \<Rightarrow> []
      | Some w \<Rightarrow>
          let t = coord_of w; l = cadd t 1 (-1, - forward side); r = cadd t 1 (1, - forward side) in
          if_list (on b (side, pawn) l) (l, t, pawn, en_passant) @
          if_list (on b (side, pawn) r) (r, t, pawn, en_passant))"

definition pawn_list :: "Board \<Rightarrow> Color \<Rightarrow> Bitboard \<Rightarrow> coord list" where
  "pawn_list b side w = coords (deref b (side, pawn) AND w)"

lemma pawn_steps:
  assumes "on_board s"
  shows "side = white \<Longrightarrow> north_of (csq s) = Inr (square_or_0 (ahead side s))"
    "side = white \<Longrightarrow> northeast_of (csq s) = Inr (square_or_0 (diag side 1 s))"
    "side = white \<Longrightarrow> northwest_of (csq s) = Inr (square_or_0 (diag side (-1) s))"
    "side = black \<Longrightarrow> south_of (csq s) = Inr (square_or_0 (ahead side s))"
    "side = black \<Longrightarrow> southeast_of (csq s) = Inr (square_or_0 (diag side 1 s))"
    "side = black \<Longrightarrow> southwest_of (csq s) = Inr (square_or_0 (diag side (-1) s))"
  using assms by (simp_all add: compass_steps forward_def)

lemma and_square_or_0:
  "all_pieces b AND square_or_0 c = 0 \<longleftrightarrow> \<not> occupied b c"
  "black_pieces b AND square_or_0 c = 0 \<longleftrightarrow> \<not> enemy_on b white c"
  "white_pieces b AND square_or_0 c = 0 \<longleftrightarrow> \<not> enemy_on b black c"
  by (auto simp: square_or_0_and occ_all_pieces occ_black_pieces occ_white_pieces enemy_on_def
      dest: occupied_on_board on_on_board)

lemma square_or_0_enemy: "enemy_on b side c \<Longrightarrow> square_or_0 c = csq c"
  using enemy_on_on_board by (auto simp: square_or_0_def)

lemma if_list_cong: "c = c' \<Longrightarrow> (c' \<Longrightarrow> x = x') \<Longrightarrow> if_list c x = if_list c' x'"
  by (cases c') (simp_all add: if_list_def)

text \<open>A loop over the pawns in a mask whose body appends, with the colour's own steps.\<close>

lemma for_each_pawns:
  assumes "\<And>c s. on b (side, pawn) c \<Longrightarrow> occ w c \<Longrightarrow> on_board c \<Longrightarrow>
      body (csq c) s = Inr (s @ map (mv b) (g c))"
    and "pawns = deref b (side, pawn)"
  shows "for_each (bitboard_split (pawns AND w)) body s =
    Inr (s @ map (mv b) (concat (map g (pawn_list b side w))))"
proof -
  have "for_each (bitboard_split (pawns AND w)) body s =
      Inr (s @ concat (map (\<lambda>c. map (mv b) (g c)) (coords (pawns AND w))))"
    by (rule for_each_split) (use assms in \<open>simp add: on_def occ_on_board\<close>)
  then show ?thesis by (simp add: pawn_list_def assms(2) map_concat comp_def)
qed

lemma append_simple_pawns:
  assumes "pawns_ok b"
  shows "append_pseudolegal_simple_pawn_moves b side res =
    Inr (res @ map (mv b) (concat (map (push_cmoves b side)
      (pawn_list b side (NOT (promotion_mask side))))))"
  using ahead_on_board [OF assms]
  by (cases side;
      simp add: append_pseudolegal_simple_pawn_moves_def Let_def;
      subst for_each_pawns [where side = side and g = "push_cmoves b side"];
      simp add: pawn_steps square_or_0_def and_csq occ_all_pieces push_cmoves_def append_if_list)

lemma append_double_pawns:
  assumes "pawns_ok b"
  shows "append_pseudolegal_two_step_pawn_moves b side res =
    Inr (res @ map (mv b) (concat (map (double_cmoves b side)
      (pawn_list b side (start_mask side)))))"
proof -
  have "on_board (cadd s 2 (0, forward side))" if "on_board s" "snd s = start_rank side" for s
    using that by (auto simp: on_board_def cadd_def forward_def start_rank_def)
  with ahead_on_board [OF assms] show ?thesis
    by (cases side;
        simp add: append_pseudolegal_two_step_pawn_moves_def Let_def;
        subst for_each_pawns [where side = side and g = "double_cmoves b side"];
        simp add: pawn_steps square_or_0_def and_csq occ_all_pieces double_cmoves_def
          append_if_list occ_rank_mask start_rank_def)
qed

lemma append_pawn_captures:
  "append_pseudolegal_pawn_captures b side res =
    Inr (res @ map (mv b) (concat (map (pawn_capture_cmoves b side)
      (pawn_list b side (NOT (promotion_mask side))))))"
  by (cases side;
      simp add: append_pseudolegal_pawn_captures_def Let_def;
      subst for_each_pawns [where side = side and g = "pawn_capture_cmoves b side"];
      simp add: pawn_steps and_square_or_0 pawn_capture_cmoves_def append_if_list
        square_or_0_enemy cong: if_list_cong)

lemma square_or_0_ahead:
  assumes "pawns_ok b" "on b (side, pawn) c"
  shows "square_or_0 (ahead side c) = csq (ahead side c)"
  using ahead_on_board [OF assms] by (simp add: square_or_0_def)

lemma for_each_Inr: "for_each xs (\<lambda>x s. Inr (s @ g x)) s = Inr (s @ concat (map g xs))"
  by (rule for_each_append) simp

lemma append_promotions:
  assumes "pawns_ok b"
  shows "append_pseudolegal_promotions b side res =
    Inr (res @ map (mv b) (concat (map (\<lambda>s. concat (map (promotion_cmoves b side s)
      promotion_move_types)) (pawn_list b side (promotion_mask side)))))"
  using square_or_0_ahead [OF assms, of side] ahead_on_board [OF assms, of side]
  by (cases side;
      simp add: append_pseudolegal_promotions_def Let_def;
      subst for_each_pawns [where side = side and
        g = "\<lambda>s. concat (map (promotion_cmoves b side s) promotion_move_types)"];
      simp add: pawn_steps and_square_or_0 promotion_cmoves_def append_if_list for_each_Inr
        and_csq occ_all_pieces square_or_0_enemy map_concat comp_def cong: if_list_cong)

text \<open>A recorded en passant square is a square of the board.\<close>

definition ep_square_ok :: "Board \<Rightarrow> bool" where
  "ep_square_ok b \<longleftrightarrow> (case en_passant_square b of None \<Rightarrow> True | Some w \<Rightarrow> is_square w)"

lemma square_or_0_pawn:
  "square_or_0 c AND deref b p = 0 \<longleftrightarrow> \<not> on b p c"
  "on b p c \<Longrightarrow> square_or_0 c = csq c"
proof -
  have on: "occ (deref b p) c \<Longrightarrow> on_board c" by (rule occ_on_board)
  then show "square_or_0 c AND deref b p = 0 \<longleftrightarrow> \<not> on b p c"
    by (auto simp: square_or_0_and on_def)
  show "on b p c \<Longrightarrow> square_or_0 c = csq c" using on by (simp add: on_def square_or_0_def)
qed

lemma append_en_passant:
  assumes "ep_square_ok b"
  shows "append_pseudolegal_en_passant_moves b side res = Inr (res @ map (mv b) (ep_cmoves b side))"
proof (cases "en_passant_square b")
  case None
  then show ?thesis by (simp add: append_pseudolegal_en_passant_moves_def ep_cmoves_def)
next
  case (Some w)
  with assms have "is_square w" by (simp add: ep_square_ok_def)
  then obtain t where t: "on_board t" "w = csq t" by (rule is_square_coord)
  have pawns: "white_pawns b = deref b (white, pawn)" "black_pawns b = deref b (black, pawn)"
    by simp_all
  show ?thesis
    using Some t
    by (cases side)
      (simp_all add: append_pseudolegal_en_passant_moves_def ep_cmoves_def Let_def compass_steps
        pawns square_or_0_pawn append_if_list forward_def del: deref.simps cong: if_list_cong)
qed

lemma mem_ep_cmoves:
  assumes "ep_square_ok b"
  shows "(s, t, k, ty) \<in> set (ep_cmoves b side) \<longleftrightarrow>
    k = pawn \<and> ty = en_passant \<and> on b (side, pawn) s \<and> on_board t \<and>
    en_passant_square b = Some (csq t) \<and> (\<exists>x\<in>{-1, 1}. t = cadd s 1 (x, forward side))"
proof (cases "en_passant_square b")
  case None
  then show ?thesis by (simp add: ep_cmoves_def)
next
  case (Some w)
  with assms have "is_square w" by (simp add: ep_square_ok_def)
  then obtain u where u: "on_board u" "w = csq u" by (rule is_square_coord)
  have rev: "s = cadd t 1 (- x, - forward side) \<longleftrightarrow> t = cadd s 1 (x, forward side)" for x
    by (auto simp: cadd_def)
  from u Some show ?thesis
    using rev [of 1] rev [of "-1"] by (auto simp: ep_cmoves_def Let_def csq_inj)
qed

lemma distinct_ep_cmoves: "distinct (ep_cmoves b side)"
  by (auto simp: ep_cmoves_def Let_def cadd_def split: option.splits)

subsection \<open>What the pawn lists hold\<close>

definition pawn_cmoves :: "Board \<Rightarrow> Color \<Rightarrow> cmove list" where
  "pawn_cmoves b side =
     concat (map (push_cmoves b side) (pawn_list b side (NOT (promotion_mask side)))) @
     concat (map (double_cmoves b side) (pawn_list b side (start_mask side))) @
     concat (map (pawn_capture_cmoves b side) (pawn_list b side (NOT (promotion_mask side)))) @
     ep_cmoves b side @
     concat (map (\<lambda>s. concat (map (promotion_cmoves b side s) promotion_move_types))
       (pawn_list b side (promotion_mask side)))"

lemma append_pawns:
  assumes "pawns_ok b" "ep_square_ok b"
  shows "append_pseudolegal_pawn_moves b side res = Inr (res @ map (mv b) (pawn_cmoves b side))"
  unfolding append_pseudolegal_pawn_moves_def pawn_cmoves_def
  by (simp add: append_simple_pawns append_double_pawns append_pawn_captures append_en_passant
      append_promotions assms)

lemma set_pawn_list:
  "s \<in> set (pawn_list b side w) \<longleftrightarrow> on b (side, pawn) s \<and> occ w s"
  by (simp add: pawn_list_def set_coords on_def)

lemma set_pawn_lists:
  "s \<in> set (pawn_list b side (promotion_mask side)) \<longleftrightarrow>
     on b (side, pawn) s \<and> snd s = promotion_rank side"
  "s \<in> set (pawn_list b side (NOT (promotion_mask side))) \<longleftrightarrow>
     on b (side, pawn) s \<and> snd s \<noteq> promotion_rank side"
  "s \<in> set (pawn_list b side (start_mask side)) \<longleftrightarrow>
     on b (side, pawn) s \<and> snd s = start_rank side"
  using on_on_board [of b "(side, pawn)" s] by (auto simp: set_pawn_list occ_masks)

lemma distinct_pawn_list: "distinct (pawn_list b side w)"
  by (simp add: pawn_list_def distinct_coords)

lemma mem_concat_map: "y \<in> set (concat (map f xs)) \<longleftrightarrow> (\<exists>x. x \<in> set xs \<and> y \<in> set (f x))"
  by auto

lemma mem_push:
  "(s, t, k, ty) \<in> set (concat (map (push_cmoves b side)
     (pawn_list b side (NOT (promotion_mask side))))) \<longleftrightarrow>
   k = pawn \<and> ty = simple \<and> on b (side, pawn) s \<and> snd s \<noteq> promotion_rank side \<and>
   t = ahead side s \<and> \<not> occupied b t"
  unfolding mem_concat_map set_pawn_lists
  by (auto simp: push_cmoves_def)

lemma mem_double:
  "(s, t, k, ty) \<in> set (concat (map (double_cmoves b side)
     (pawn_list b side (start_mask side)))) \<longleftrightarrow>
   k = pawn \<and> ty = two_step_pawn \<and> on b (side, pawn) s \<and> snd s = start_rank side \<and>
   t = cadd s 2 (0, forward side) \<and> \<not> occupied b (ahead side s) \<and> \<not> occupied b t"
  by (auto simp: set_pawn_lists double_cmoves_def)

lemma mem_pawn_capture:
  "(s, t, k, ty) \<in> set (concat (map (pawn_capture_cmoves b side)
     (pawn_list b side (NOT (promotion_mask side))))) \<longleftrightarrow>
   k = pawn \<and> ty = capture \<and> on b (side, pawn) s \<and> snd s \<noteq> promotion_rank side \<and>
   (\<exists>x\<in>{-1, 1}. t = diag side x s) \<and> enemy_on b side t"
  unfolding mem_concat_map set_pawn_lists
  by (auto simp: pawn_capture_cmoves_def)

lemma mem_promotion:
  "(s, t, k, ty) \<in> set (concat (map (\<lambda>s. concat (map (promotion_cmoves b side s)
     promotion_move_types)) (pawn_list b side (promotion_mask side)))) \<longleftrightarrow>
   k = pawn \<and> ty \<in> set promotion_move_types \<and> on b (side, pawn) s \<and>
   snd s = promotion_rank side \<and>
   (t = ahead side s \<and> \<not> occupied b t \<or> (\<exists>x\<in>{-1, 1}. t = diag side x s) \<and> enemy_on b side t)"
  unfolding mem_concat_map set_pawn_lists
  by (auto simp: promotion_cmoves_def)

lemma steps_differ:
  "diag side x s = diag side y s \<longleftrightarrow> x = y"
  by (simp add: cadd_def)

lemma distinct_pawn_cmoves:
  assumes "ep_square_ok b"
  shows "distinct (pawn_cmoves b side)"
proof -
  note dc = distinct_concat_map [OF distinct_pawn_list]
  have "distinct (concat (map (push_cmoves b side) (pawn_list b side (NOT (promotion_mask side)))))"
    by (rule dc) (auto simp: push_cmoves_def)
  moreover have "distinct (concat (map (double_cmoves b side) (pawn_list b side (start_mask side))))"
    by (rule dc) (auto simp: double_cmoves_def)
  moreover have "distinct (concat (map (pawn_capture_cmoves b side)
      (pawn_list b side (NOT (promotion_mask side)))))"
    by (rule dc) (auto simp: pawn_capture_cmoves_def steps_differ)
  moreover have "distinct (concat (map (promotion_cmoves b side s) promotion_move_types))" for s
    by (rule distinct_concat_map)
      (auto simp: promotion_cmoves_def steps_differ promotion_move_types_def)
  then have "distinct (concat (map (\<lambda>s. concat (map (promotion_cmoves b side s)
      promotion_move_types)) (pawn_list b side (promotion_mask side))))"
    by (intro dc) (auto simp: promotion_cmoves_def)
  moreover note distinct_ep_cmoves [of b side]
  ultimately show ?thesis
    unfolding pawn_cmoves_def distinct_append
    by (simp only: set_append disjoint_iff split_paired_All mem_push mem_double mem_pawn_capture
        mem_ep_cmoves [OF assms] mem_promotion Un_iff)
      (auto simp: promotion_move_types_def)
qed

section \<open>All pseudolegal moves\<close>

definition kings_ok :: "Board \<Rightarrow> bool" where
  "kings_ok b \<longleftrightarrow> is_square (white_king b) \<and> is_square (black_king b)"

text \<open>What the generator needs of a board.\<close>

definition generator_ok :: "Board \<Rightarrow> bool" where
  "generator_ok b \<longleftrightarrow> kings_ok b \<and> pawns_ok b \<and> ep_square_ok b"

definition king_coord :: "Board \<Rightarrow> Color \<Rightarrow> coord" where
  "king_coord b side = coord_of (deref b (side, king))"

lemma king_coord:
  assumes "kings_ok b"
  shows "on_board (king_coord b side)" "deref b (side, king) = csq (king_coord b side)"
    "on b (side, king) c \<longleftrightarrow> c = king_coord b side"
proof -
  have "is_square (deref b (side, king))"
    using assms by (cases side) (simp_all add: kings_ok_def)
  then obtain k where k: "on_board k" "deref b (side, king) = csq k" by (rule is_square_coord)
  then show "on_board (king_coord b side)" "deref b (side, king) = csq (king_coord b side)"
    "on b (side, king) c \<longleftrightarrow> c = king_coord b side"
    by (auto simp: king_coord_def on_def occ_csq)
qed

definition all_cmoves :: "Board \<Rightarrow> Color \<Rightarrow> cmove list" where
  "all_cmoves b side =
     slider_cmoves b side bishop bishop_move_directions @
     slider_cmoves b side rook rook_move_directions @
     slider_cmoves b side queen all_directions @
     pawn_cmoves b side @ king_cmoves b side (king_coord b side) @ knight_cmoves b side"

lemma pseudolegal_moves_eq:
  assumes "generator_ok b"
  shows "pseudolegal_moves b side = Inr (map (mv b) (all_cmoves b side))"
  using assms king_coord [of b side]
  by (simp add: generator_ok_def pseudolegal_moves_def all_cmoves_def append_sliders append_pawns
      append_king append_knights)

lemma slide_vectors_vec:
  "slide_vectors bishop = vec ` set bishop_move_directions"
  "slide_vectors rook = vec ` set rook_move_directions"
  "slide_vectors queen = vec ` set all_directions"
  "leap_vectors king = vec ` set all_directions"
  by (auto simp: bishop_move_directions_def rook_move_directions_def all_directions_def)

lemma leap_type:
  assumes "disjoint_pieces b"
  shows "\<not> friend_on b side t \<and> ty = (if enemy_on b side t then capture else simple) \<longleftrightarrow>
    ty = simple \<and> \<not> occupied b t \<or> ty = capture \<and> enemy_on b side t"
proof -
  have "\<not> (friend_on b side t \<and> enemy_on b side t)"
    unfolding friend_on_def enemy_on_def
    using disjoint_piecesD [OF assms] by (metis flip_neq(1) prod.inject)
  then show ?thesis using occupied_iff [of b t side] by auto
qed

text \<open>The rules, piece by piece.\<close>

lemma pseudolegal_by_piece:
  assumes "pawns_ok b"
  shows "pseudolegal b side s t k ty \<longleftrightarrow>
    k \<in> {bishop, rook, queen} \<and> on b (side, k) s \<and> (\<exists>v\<in>slide_vectors k. slide_reach b v s t) \<and>
      (ty = simple \<and> \<not> occupied b t \<or> ty = capture \<and> enemy_on b side t) \<or>
    k \<in> {king, knight} \<and> on b (side, k) s \<and> (\<exists>v\<in>leap_vectors k. t = cadd s 1 v) \<and> on_board t \<and>
      (ty = simple \<and> \<not> occupied b t \<or> ty = capture \<and> enemy_on b side t) \<or>
    k = pawn \<and> on b (side, pawn) s \<and>
      (ty = simple \<and> snd s \<noteq> promotion_rank side \<and> t = ahead side s \<and> \<not> occupied b t \<or>
       ty = two_step_pawn \<and> snd s = start_rank side \<and> t = cadd s 2 (0, forward side) \<and>
         \<not> occupied b (ahead side s) \<and> \<not> occupied b t \<or>
       ty = capture \<and> snd s \<noteq> promotion_rank side \<and> (\<exists>x\<in>{-1, 1}. t = diag side x s) \<and>
         enemy_on b side t \<or>
       ty = en_passant \<and> on_board t \<and> en_passant_square b = Some (csq t) \<and>
         (\<exists>x\<in>{-1, 1}. t = diag side x s) \<or>
       ty \<in> set promotion_move_types \<and> snd s = promotion_rank side \<and>
         (t = ahead side s \<and> \<not> occupied b t \<or>
          (\<exists>x\<in>{-1, 1}. t = diag side x s) \<and> enemy_on b side t))"
    (is "?L \<longleftrightarrow> ?R")
proof
  have slider: "k \<in> {bishop, rook, queen}" if "v \<in> slide_vectors k" for v
    using that by (cases k) simp_all
  have leaper: "k \<in> {king, knight}" if "v \<in> leap_vectors k" for v
    using that by (cases k) simp_all
  assume ?L
  then show ?R
  proof cases
    case slide_quiet
    then show ?thesis using slider by blast
  next
    case slide_capture
    then show ?thesis using slider by blast
  next
    case leap_quiet
    then show ?thesis using leaper by blast
  next
    case leap_capture
    then show ?thesis using leaper by blast
  qed (simp_all, auto)
next
  note ahead = ahead_on_board [OF assms]
  assume ?R
  then show ?L
    by (elim disjE conjE bexE)
      (simp_all only: pseudolegal.intros ahead,
        rule slide_quiet, assumption+,
        rule leap_quiet, (assumption | rule refl)+,
        rule pawn_push, (assumption | rule refl | erule ahead)+,
        rule pawn_double, (assumption | rule refl)+,
        rule pawn_capture, (assumption | rule refl)+,
        rule promotion_push, (assumption | rule refl)+)
qed

lemma mem_all_cmoves:
  assumes "generator_ok b" "disjoint_pieces b"
  shows "(s, t, k, ty) \<in> set (all_cmoves b side) \<longleftrightarrow> pseudolegal b side s t k ty"
proof -
  have kc: "on b (side, king) s \<longleftrightarrow> s = king_coord b side"
    using assms(1) king_coord(3) [of b side s] by (simp add: generator_ok_def)
  have king: "(s, t, k, ty) \<in> set (king_cmoves b side (king_coord b side)) \<longleftrightarrow>
      k = king \<and> on b (side, king) s \<and> (\<exists>v\<in>leap_vectors king. t = cadd s 1 v) \<and> on_board t \<and>
      \<not> friend_on b side t \<and> ty = (if enemy_on b side t then capture else simple)"
    unfolding kc mem_king_cmoves slide_vectors_vec by auto
  have ep: "ep_square_ok b" and pawns: "pawns_ok b" using assms(1) by (simp_all add: generator_ok_def)
  have slide: "(\<exists>d\<in>set ds. slide_reach b (vec d) s t) \<longleftrightarrow> (\<exists>v\<in>vec ` set ds. slide_reach b v s t)"
    for ds by simp
  show ?thesis
    unfolding all_cmoves_def pawn_cmoves_def set_append Un_iff mem_slider_cmoves mem_push mem_double
      mem_pawn_capture mem_ep_cmoves [OF ep] mem_promotion king mem_knight_cmoves
      leap_type [OF assms(2)] slide slide_vectors_vec(1-3) [symmetric]
      pseudolegal_by_piece [OF pawns]
    by (cases k) (simp_all only: Piece.simps simp_thms insert_iff empty_iff, blast+)
qed

lemma pseudolegal_on_board:
  assumes "pawns_ok b" "pseudolegal b side s t k ty"
  shows "on_board s" "on_board t" "s \<noteq> t"
proof -
  have two: "on_board (cadd s 2 (0, forward side))" if "on_board s" "snd s = start_rank side"
    using that by (auto simp: on_board_def cadd_def forward_def start_rank_def)
  have zero: "(0, 0) \<notin> slide_vectors k" "(0, 0) \<notin> leap_vectors k" by (cases k; simp)+
  have neq: "cadd s n v \<noteq> s" if "n \<ge> 1" "v \<noteq> (0, 0)" for n v
    using that by (cases v) (auto simp: cadd_def prod_eq_iff)
  show s: "on_board s" using assms(2) by cases (rule on_on_board, assumption)+
  show "on_board t"
    using assms(2)
    by cases (use two ahead_on_board [OF assms(1)] enemy_on_on_board on_on_board
        slide_reach_on_board in blast)+
  have step: "s \<noteq> cadd s 1 v" if "v \<noteq> (0, 0)" for v using neq [of 1 v] that by auto
  have fwd: "(x, forward side) \<noteq> (0, 0)" for x by (simp add: forward_def)
  have stepf: "s \<noteq> cadd s 1 (x, forward side)" for x by (rule step [OF fwd])
  have step2: "s \<noteq> cadd s 2 (0, forward side)"
    by (rule not_sym, rule neq [OF _ fwd]) simp
  have slide: "s \<noteq> t" if "v \<in> slide_vectors k" "slide_reach b v s t" for v
    using that(2) neq zero(1) that(1) unfolding slide_reach_def by metis
  show "s \<noteq> t"
    using assms(2)
  proof cases
    case (slide_quiet v)
    then show ?thesis using slide by blast
  next
    case (slide_capture v)
    then show ?thesis using slide by blast
  next
    case (leap_quiet v)
    then show ?thesis using step zero(2) by metis
  next
    case (leap_capture v)
    then show ?thesis using step zero(2) by metis
  next
    case pawn_double
    then show ?thesis by (simp only: step2 not_False_eq_True)
  qed (simp_all add: stepf)
qed

lemma distinct_all_cmoves:
  assumes "generator_ok b"
  shows "distinct (all_cmoves b side)"
proof -
  have ep: "ep_square_ok b" using assms by (simp add: generator_ok_def)
  have pawn: "k = pawn" if "(s, t, k, ty) \<in> set (pawn_cmoves b side)" for s t k ty
    using that unfolding pawn_cmoves_def set_append Un_iff mem_push mem_double mem_pawn_capture
      mem_ep_cmoves [OF ep] mem_promotion by blast
  have dirs: "distinct bishop_move_directions" "distinct rook_move_directions"
    "distinct all_directions"
    by (simp_all add: bishop_move_directions_def rook_move_directions_def all_directions_def)
  note distinct_slider_cmoves [OF dirs(1), of b side bishop]
    distinct_slider_cmoves [OF dirs(2), of b side rook]
    distinct_slider_cmoves [OF dirs(3), of b side queen]
  moreover note distinct_pawn_cmoves [OF ep, of side] distinct_knight_cmoves [of b side]
    distinct_king_cmoves [of b side "king_coord b side"]
  ultimately show ?thesis
    unfolding all_cmoves_def distinct_append set_append disjoint_iff Un_iff split_paired_All
      mem_slider_cmoves mem_king_cmoves mem_knight_cmoves
    by (blast dest: pawn)
qed

text \<open>The generator against the rules.\<close>

theorem pseudolegal_moves_spec:
  assumes "generator_ok b" "disjoint_pieces b"
  obtains ms where "pseudolegal_moves b side = Inr ms" "distinct ms"
    "set ms = {Move_init (csq s) (csq t) k ty b | s t k ty. pseudolegal b side s t k ty}"
proof
  have pawns: "pawns_ok b" using assms(1) by (simp add: generator_ok_def)
  have mem: "m \<in> set (all_cmoves b side) \<longleftrightarrow> (case m of (s, t, k, ty) \<Rightarrow> pseudolegal b side s t k ty)"
    for m by (cases m) (simp add: mem_all_cmoves [OF assms])
  show "pseudolegal_moves b side = Inr (map (mv b) (all_cmoves b side))"
    by (rule pseudolegal_moves_eq [OF assms(1)])
  have "cmove_ok m" if "m \<in> set (all_cmoves b side)" for m
  proof -
    obtain s t k ty where m: "m = (s, t, k, ty)" using prod_cases4 by blast
    with that mem have "pseudolegal b side s t k ty" by simp
    then show ?thesis using pseudolegal_on_board [OF pawns] unfolding m cmove_ok_def fst_conv snd_conv
      by blast
  qed
  then have "inj_on (mv b) (set (all_cmoves b side))"
    by (intro inj_onI) (simp add: mv_inj)
  then show "distinct (map (mv b) (all_cmoves b side))"
    by (simp add: distinct_map distinct_all_cmoves [OF assms(1)])
  show "set (map (mv b) (all_cmoves b side)) =
      {Move_init (csq s) (csq t) k ty b | s t k ty. pseudolegal b side s t k ty}"
  proof (rule set_eqI)
    fix x
    have "x \<in> set (map (mv b) (all_cmoves b side)) \<longleftrightarrow>
        (\<exists>s t k ty. (s, t, k, ty) \<in> set (all_cmoves b side) \<and> x = mv b (s, t, k, ty))"
      by (auto simp: image_iff Bex_def split_paired_Ex)
    then show "x \<in> set (map (mv b) (all_cmoves b side)) \<longleftrightarrow>
        x \<in> {Move_init (csq s) (csq t) k ty b | s t k ty. pseudolegal b side s t k ty}"
      by (auto simp: mem)
  qed
qed

end
