(* ===== verification/Attacks.thy ===== *)
theory Attacks
  imports Movegen_Correct
begin

text \<open>
  Attack masks against the rules: the mask \<open>attack_squares\<close> is the set of destinations of
  pseudolegal moves together with the squares a pawn attacks, so on a square that carries an
  enemy piece it decides exactly whether the square is attacked. The check test follows, and
  with it the castling tests.
\<close>

section \<open>The masks\<close>

lemma occ_foldl_or:
  "occ (foldl (\<lambda>acc m. acc OR f m) w ms) c \<longleftrightarrow> occ w c \<or> (\<exists>m\<in>set ms. occ (f m) c)"
  by (induction ms arbitrary: w) auto

lemma occ_square_or_0: "occ (square_or_0 c) d \<longleftrightarrow> on_board c \<and> c = d"
  by (auto simp: square_or_0_def occ_csq)

text \<open>A loop that collects squares into a mask.\<close>

lemma for_each_or:
  assumes "\<And>c r. occ w c \<Longrightarrow> on_board c \<Longrightarrow> body (csq c) r = Inr (r OR f c)"
  shows "for_each (bitboard_split w) body r = Inr (fold (\<lambda>c r. r OR f c) (coords w) r)"
  unfolding bitboard_split_coords for_each_map
  by (rule for_each_fold) (simp add: assms set_coords occ_on_board)

lemma occ_fold_or:
  "occ (fold (\<lambda>c r. r OR f c) cs r) d \<longleftrightarrow> occ r d \<or> (\<exists>c. c \<in> set cs \<and> occ (f c) d)"
  by (induction cs arbitrary: r) auto

definition pawn_attack_mask :: "Board \<Rightarrow> Color \<Rightarrow> Bitboard" where
  "pawn_attack_mask b side =
     fold (\<lambda>c r. r OR (square_or_0 (diag side 1 c) OR square_or_0 (diag side (-1) c)))
       (coords (deref b (side, pawn))) 0"

lemma pawn_attack_squares_eq: "pawn_attack_squares b side = Inr (pawn_attack_mask b side)"
  unfolding pawn_attack_mask_def
  by (cases side; simp add: pawn_attack_squares_def Let_def;
      subst for_each_or [where f = "\<lambda>c. square_or_0 (diag side 1 c) OR square_or_0 (diag side (-1) c)"];
      simp add: pawn_steps or.assoc)

lemma occ_pawn_attack_mask:
  "occ (pawn_attack_mask b side) t \<longleftrightarrow>
     (\<exists>s. on b (side, pawn) s \<and> piece_attacks b side pawn s t)"
  by (auto simp: pawn_attack_mask_def occ_fold_or set_coords on_def piece_attacks_def
      occ_square_or_0)

definition attack_reach :: "Board \<Rightarrow> Color \<Rightarrow> coord \<Rightarrow> bool" where
  "attack_reach b side t \<longleftrightarrow>
     (\<exists>s k ty. pseudolegal b side s t k ty) \<or>
     (\<exists>s. on b (side, pawn) s \<and> piece_attacks b side pawn s t)"

definition attack_mask :: "Board \<Rightarrow> Color \<Rightarrow> Bitboard" where
  "attack_mask b side =
     foldl (\<lambda>acc move. acc OR dst_square move) 0 (map (mv b) (all_cmoves b side)) OR
     pawn_attack_mask b side"

lemma attack_squares_eq:
  "generator_ok b \<Longrightarrow> attack_squares b side = Inr (attack_mask b side)"
  by (simp add: attack_squares_def attack_mask_def pseudolegal_moves_eq pawn_attack_squares_eq Let_def)

lemma occ_attack_mask:
  assumes "generator_ok b" "disjoint_pieces b"
  shows "occ (attack_mask b side) t \<longleftrightarrow> attack_reach b side t"
proof -
  obtain ms where eq: "pseudolegal_moves b side = Inr ms" "distinct ms"
    and ms: "set ms = {Move_init (csq s) (csq t) k ty b | s t k ty. pseudolegal b side s t k ty}"
    by (rule pseudolegal_moves_spec [OF assms])
  from eq have "ms = map (mv b) (all_cmoves b side)"
    by (simp add: pseudolegal_moves_eq [OF assms(1)])
  have pawns: "pawns_ok b" using assms(1) by (simp add: generator_ok_def)
  have "occ (foldl (\<lambda>acc move. acc OR dst_square move) 0 ms) t \<longleftrightarrow>
      (\<exists>m\<in>set ms. occ (dst_square m) t)"
    by (simp add: occ_foldl_or)
  also have "\<dots> \<longleftrightarrow> (\<exists>s k ty. pseudolegal b side s t k ty)"
  proof
    assume "\<exists>m\<in>set ms. occ (dst_square m) t"
    then obtain s u k ty where u: "pseudolegal b side s u k ty" "occ (csq u) t"
      unfolding ms by auto
    then have "u = t" using pseudolegal_on_board(2) [OF pawns u(1)] by (simp add: occ_csq)
    with u(1) show "\<exists>s k ty. pseudolegal b side s t k ty" by blast
  next
    assume "\<exists>s k ty. pseudolegal b side s t k ty"
    then obtain s k ty where t: "pseudolegal b side s t k ty" by blast
    then have "Move_init (csq s) (csq t) k ty b \<in> set ms" unfolding ms by blast
    moreover have "occ (csq t) t" using pseudolegal_on_board(2) [OF pawns t] by (simp add: occ_csq)
    ultimately show "\<exists>m\<in>set ms. occ (dst_square m) t" by force
  qed
  finally show ?thesis
    by (simp add: attack_mask_def \<open>ms = _\<close> attack_reach_def occ_pawn_attack_mask)
qed

text \<open>Where an enemy stands the mask is exact.\<close>

lemma attacked_cases:
  "attacked b side t \<longleftrightarrow>
     (\<exists>s. on b (side, pawn) s \<and> piece_attacks b side pawn s t) \<or>
     (\<exists>k s v. on b (side, k) s \<and> v \<in> leap_vectors k \<and> t = cadd s 1 v \<and> on_board t) \<or>
     (\<exists>k s v. on b (side, k) s \<and> v \<in> slide_vectors k \<and> slide_reach b v s t)"
proof -
  have "piece_attacks b side k s t \<longleftrightarrow> k = pawn \<and> piece_attacks b side pawn s t \<or>
      (\<exists>v\<in>leap_vectors k. t = cadd s 1 v \<and> on_board t) \<or> (\<exists>v\<in>slide_vectors k. slide_reach b v s t)"
    for k s by (cases k) (auto simp: piece_attacks_def)
  then show ?thesis unfolding attacked_def by metis
qed

lemma pawn_attacksI: "x \<in> {-1, 1} \<Longrightarrow> t = diag side x s \<Longrightarrow> on_board t \<Longrightarrow> piece_attacks b side pawn s t"
  by (auto simp: piece_attacks_def)

lemma pseudolegal_attacks:
  assumes "pseudolegal b side s t k ty" "on_board t"
  shows "attacked b side t \<or> \<not> occupied b t \<and> k = pawn \<and>
    (t = ahead side s \<or> t = cadd s 2 (0, forward side) \<and> snd s = start_rank side)"
  using assms(1)
proof cases
  case slide_quiet
  then show ?thesis unfolding attacked_cases by blast
next
  case slide_capture
  then show ?thesis unfolding attacked_cases by blast
next
  case leap_quiet
  then show ?thesis unfolding attacked_cases by blast
next
  case leap_capture
  then show ?thesis unfolding attacked_cases by blast
next
  case pawn_capture
  then show ?thesis unfolding attacked_cases using pawn_attacksI assms by blast
next
  case pawn_en_passant
  then show ?thesis unfolding attacked_cases using pawn_attacksI by blast
next
  case promotion_capture
  then show ?thesis unfolding attacked_cases using pawn_attacksI assms by blast
qed blast+

lemma attacked_pseudolegal:
  assumes "attacked b side t" "enemy_on b side t \<or> \<not> occupied b t"
  shows "attack_reach b side t"
  using assms pseudolegal.slide_quiet pseudolegal.slide_capture pseudolegal.leap_quiet
    pseudolegal.leap_capture
  unfolding attacked_cases attack_reach_def by metis

lemma attack_reach_enemy:
  assumes "enemy_on b side t"
  shows "attack_reach b side t \<longleftrightarrow> attacked b side t"
proof
  assume "attack_reach b side t"
  then show "attacked b side t"
    unfolding attack_reach_def
    using pseudolegal_attacks enemy_on_on_board [OF assms] enemy_on_occupied [OF assms]
      attacked_cases by blast
next
  assume "attacked b side t"
  then show "attack_reach b side t" using attacked_pseudolegal assms by blast
qed

section \<open>Check\<close>

lemma in_check_iff:
  "kings_ok b \<Longrightarrow> in_check b side \<longleftrightarrow> attacked b (flip_color side) (king_coord b side)"
  unfolding in_check_def using king_coord(3) by metis

theorem is_king_attacked_eq:
  assumes "generator_ok b" "disjoint_pieces b"
  shows "is_king_attacked b side = Inr (in_check b side)"
proof -
  have k: "kings_ok b" using assms(1) by (simp add: generator_ok_def)
  let ?k = "king_coord b side"
  have "enemy_on b (flip_color side) ?k"
    unfolding enemy_on_def flip_flip using king_coord(3) [OF k] by blast
  then have "occ (attack_mask b (flip_color side)) ?k \<longleftrightarrow> in_check b side"
    unfolding occ_attack_mask [OF assms] in_check_iff [OF k] by (rule attack_reach_enemy)
  then show ?thesis
    using king_coord [OF k, of side]
    by (simp add: is_king_attacked_def Let_def deref_side attack_squares_eq [OF assms(1)] csq_and
        del: deref.simps)
qed

section \<open>Castling\<close>

lemma attacked_pawnI:
  "on b (side, pawn) s \<Longrightarrow> x \<in> {-1, 1} \<Longrightarrow> t = diag side x s \<Longrightarrow> on_board t \<Longrightarrow> attacked b side t"
  unfolding attacked_cases using pawn_attacksI by blast

lemma enemy_push_attacks:
  assumes "on b (flip_color side, pawn) s" "(f, home_rank side) = ahead (flip_color side) s"
    "x \<in> {-1, 1}" "0 \<le> f + x" "f + x < 8"
  shows "attacked b (flip_color side) (f + x, home_rank side)"
proof (rule attacked_pawnI [OF assms(1,3)])
  show "(f + x, home_rank side) = diag (flip_color side) x s"
    using assms(2) by (simp add: cadd_def prod_eq_iff)
  show "on_board (f + x, home_rank side)" using assms by (simp add: home_rank_def)
qed

text \<open>
  The mask also counts the squares enemy pawns can step to. On the home rank this changes
  nothing: such a pawn attacks the squares beside the one it steps to.
\<close>

lemma castle_square_reach:
  assumes "\<not> occupied b (f, home_rank side)" "x \<in> {-1, 1}" "0 \<le> f" "f < 8" "0 \<le> f + x" "f + x < 8"
    "\<not> attacked b (flip_color side) (f + x, home_rank side)"
  shows "attack_reach b (flip_color side) (f, home_rank side) \<longleftrightarrow>
    attacked b (flip_color side) (f, home_rank side)"
proof
  have on: "on_board (f, home_rank side)" using assms(3,4) by (simp add: home_rank_def)
  have not_double: "(f, home_rank side) \<noteq> cadd s 2 (0, forward (flip_color side))"
    if "snd s = start_rank (flip_color side)" for s
    using that by (cases side) (auto simp: cadd_def home_rank_def forward_def start_rank_def prod_eq_iff)
  assume "attack_reach b (flip_color side) (f, home_rank side)"
  then show "attacked b (flip_color side) (f, home_rank side)"
    unfolding attack_reach_def
  proof (elim disjE exE)
    fix s k ty assume p: "pseudolegal b (flip_color side) s (f, home_rank side) k ty"
    moreover have "(f, home_rank side) \<noteq> ahead (flip_color side) s" if "k = pawn"
    proof -
      have "on b (flip_color side, pawn) s" using p that by cases simp_all
      with enemy_push_attacks [OF this _ assms(2,5,6)] assms(7) show ?thesis by blast
    qed
    ultimately show ?thesis using pseudolegal_attacks [OF p on] not_double by blast
  next
    fix s assume "on b (flip_color side, pawn) s \<and>
      piece_attacks b (flip_color side) pawn s (f, home_rank side)"
    then show ?thesis unfolding attacked_def by blast
  qed
next
  assume "attacked b (flip_color side) (f, home_rank side)"
  then show "attack_reach b (flip_color side) (f, home_rank side)"
    using attacked_pseudolegal assms(1) by blast
qed

text \<open>A castling right is only held while king and rook stand on their home squares.\<close>

definition castling_ok :: "Board \<Rightarrow> bool" where
  "castling_ok b \<longleftrightarrow>
     (white_has_right_to_castle_kingside b \<longrightarrow>
        white_king b = csq (4, 0) \<and> white_rooks b AND csq (7, 0) \<noteq> 0) \<and>
     (white_has_right_to_castle_queenside b \<longrightarrow>
        white_king b = csq (4, 0) \<and> white_rooks b AND csq (0, 0) \<noteq> 0) \<and>
     (black_has_right_to_castle_kingside b \<longrightarrow>
        black_king b = csq (4, 7) \<and> black_rooks b AND csq (7, 7) \<noteq> 0) \<and>
     (black_has_right_to_castle_queenside b \<longrightarrow>
        black_king b = csq (4, 7) \<and> black_rooks b AND csq (0, 7) \<noteq> 0)"

lemma castling_ok_iff:
  assumes "kings_ok b"
  shows "castling_ok b \<longleftrightarrow> (\<forall>side.
    (kingside_right b side \<longrightarrow> on b (side, king) (4, home_rank side) \<and> on b (side, rook) (7, home_rank side)) \<and>
    (queenside_right b side \<longrightarrow> on b (side, king) (4, home_rank side) \<and> on b (side, rook) (0, home_rank side)))"
proof -
  have "on b (side, king) (4, home_rank side) \<longleftrightarrow> deref b (side, king) = csq (4, home_rank side)" for side
    using king_coord [OF assms, of side] by (auto simp: csq_inj home_rank_def)
  then show ?thesis
    by (simp add: castling_ok_def all_Color home_rank_def) (simp add: on_def and_csq)
qed

lemma castle_mask_clear:
  assumes "\<And>c. occ m c \<longleftrightarrow> c \<in> S"
  shows "m AND w = 0 \<longleftrightarrow> (\<forall>c\<in>S. \<not> occ w c)"
  using assms unfolding bb_and_0_occ_iff by blast

lemma occ_castle_masks:
  "occ white_castle_kingside_mask c \<longleftrightarrow> c \<in> {(5, 0), (6, 0)}"
  "occ black_castle_kingside_mask c \<longleftrightarrow> c \<in> {(5, 7), (6, 7)}"
  "occ white_castle_queenside_mask c \<longleftrightarrow> c \<in> {(2, 0), (3, 0)}"
  "occ black_castle_queenside_mask c \<longleftrightarrow> c \<in> {(2, 7), (3, 7)}"
  "occ (white_castle_queenside_mask OR csq (1, 0)) c \<longleftrightarrow> c \<in> {(1, 0), (2, 0), (3, 0)}"
  "occ (black_castle_queenside_mask OR csq (1, 7)) c \<longleftrightarrow> c \<in> {(1, 7), (2, 7), (3, 7)}"
  by (auto simp: white_castle_kingside_mask_def black_castle_kingside_mask_def
      white_castle_queenside_mask_def black_castle_queenside_mask_def)

lemmas castle_masks_clear = occ_castle_masks [THEN castle_mask_clear]

lemma castle_path_reach:
  assumes "\<not> attacked b (flip_color side) (4, home_rank side)"
  shows "(\<forall>f\<in>{5, 6}. \<not> occupied b (f, home_rank side)) \<Longrightarrow>
      (\<forall>f\<in>{5, 6}. \<not> attack_reach b (flip_color side) (f, home_rank side)) \<longleftrightarrow>
      (\<forall>f\<in>{5, 6}. \<not> attacked b (flip_color side) (f, home_rank side))"
    and "(\<forall>f\<in>{2, 3}. \<not> occupied b (f, home_rank side)) \<Longrightarrow>
      (\<forall>f\<in>{2, 3}. \<not> attack_reach b (flip_color side) (f, home_rank side)) \<longleftrightarrow>
      (\<forall>f\<in>{2, 3}. \<not> attacked b (flip_color side) (f, home_rank side))"
  using assms castle_square_reach [of b 5 side "-1"] castle_square_reach [of b 6 side "-1"]
    castle_square_reach [of b 3 side 1] castle_square_reach [of b 2 side 1]
  by auto

lemma side_to_move_rights:
  "kingside_right b (if is_whites_move b then white else black) =
     (if is_whites_move b then white_has_right_to_castle_kingside b
      else black_has_right_to_castle_kingside b)"
  "queenside_right b (if is_whites_move b then white else black) =
     (if is_whites_move b then white_has_right_to_castle_queenside b
      else black_has_right_to_castle_queenside b)"
  by simp_all

theorem castling_legality:
  assumes "generator_ok b" "disjoint_pieces b" "castling_ok b"
  shows "is_castle_kingside_legal b =
      Inr (may_castle_kingside b (if is_whites_move b then white else black))"
    and "is_castle_queenside_legal b =
      Inr (may_castle_queenside b (if is_whites_move b then white else black))"
proof -
  have k: "kings_ok b" using assms(1) by (simp add: generator_ok_def)
  let ?s = "if is_whites_move b then white else black"
  have home: "\<not> attacked b (flip_color ?s) (4, home_rank ?s)"
    if "kingside_right b ?s \<or> queenside_right b ?s" "\<not> in_check b ?s"
    using that assms(3) unfolding castling_ok_iff [OF k] in_check_def by blast
  note reach = castle_path_reach [of b ?s, OF home]
  note eqs = is_king_attacked_eq [OF assms(1,2)] attack_squares_eq [OF assms(1)]
    occ_attack_mask [OF assms(1,2)]
  show "is_castle_kingside_legal b = Inr (may_castle_kingside b ?s)"
    using reach(1)
    by (cases "is_whites_move b"; simp add: is_castle_kingside_legal_def may_castle_kingside_def
        eqs castle_masks_clear occ_all_pieces Let_def home_rank_def; blast)
  show "is_castle_queenside_legal b = Inr (may_castle_queenside b ?s)"
    using reach(2)
    by (cases "is_whites_move b"; simp add: is_castle_queenside_legal_def may_castle_queenside_def
        eqs castle_masks_clear occ_all_pieces Let_def home_rank_def; blast)
qed

section \<open>Executable forms\<close>

lemma on_coords: "on b p c \<longleftrightarrow> c \<in> set (coords (deref b p))"
  by (simp add: on_def set_coords)

lemma occupied_code [code]: "occupied b c \<longleftrightarrow> occ (all_pieces b) c"
  by (simp add: occ_all_pieces)

definition ray_hits :: "Board \<Rightarrow> coord \<Rightarrow> coord \<Rightarrow> coord \<Rightarrow> bool" where
  "ray_hits b s t v \<longleftrightarrow> t \<in> set (ray b v s 1) \<or> t = ray_stop b v s \<and> occupied b t"

lemma slide_vectors_range: "v \<in> slide_vectors k \<Longrightarrow> v \<in> range vec"
  using slide_vectors_vec by (cases k) (simp_all only:, auto)

lemma ray_hits: "on_board s \<Longrightarrow> v \<in> slide_vectors k \<Longrightarrow> ray_hits b s t v \<longleftrightarrow> slide_reach b v s t"
  unfolding ray_hits_def
  using set_ray [OF _ slide_vectors_range] ray_stop_eq [OF _ slide_vectors_range] by blast

lemma attacked_code [code]:
  "attacked b side t \<longleftrightarrow> (\<exists>k\<in>{pawn, rook, knight, bishop, queen, king}.
     \<exists>s\<in>set (coords (deref b (side, k))).
       k = pawn \<and> on_board t \<and> (t = diag side 1 s \<or> t = diag side (-1) s) \<or>
       on_board t \<and> (\<exists>v\<in>leap_vectors k. t = cadd s 1 v) \<or>
       (\<exists>v\<in>slide_vectors k. ray_hits b s t v))"
proof -
  have all: "k \<in> {pawn, rook, knight, bishop, queen, king}" for k by (cases k) simp_all
  have slide: "(\<exists>v\<in>slide_vectors k. ray_hits b s t v) \<longleftrightarrow> (\<exists>v\<in>slide_vectors k. slide_reach b v s t)"
    if "s \<in> set (coords (deref b (side, k)))" for k s
    using ray_hits on_on_board that on_coords by metis
  have pawn: "piece_attacks b side pawn s t \<longleftrightarrow> on_board t \<and> (t = diag side 1 s \<or> t = diag side (-1) s)" for s
    by (auto simp: piece_attacks_def)
  have "attacked b side t \<longleftrightarrow> (\<exists>k s. s \<in> set (coords (deref b (side, k))) \<and>
      (k = pawn \<and> on_board t \<and> (t = diag side 1 s \<or> t = diag side (-1) s) \<or>
       on_board t \<and> (\<exists>v\<in>leap_vectors k. t = cadd s 1 v) \<or>
       (\<exists>v\<in>slide_vectors k. slide_reach b v s t)))"
    unfolding attacked_cases pawn on_coords by blast
  also have "\<dots> \<longleftrightarrow> (\<exists>k s. s \<in> set (coords (deref b (side, k))) \<and>
      (k = pawn \<and> on_board t \<and> (t = diag side 1 s \<or> t = diag side (-1) s) \<or>
       on_board t \<and> (\<exists>v\<in>leap_vectors k. t = cadd s 1 v) \<or>
       (\<exists>v\<in>slide_vectors k. ray_hits b s t v)))"
    by (intro ex_cong1 conj_cong disj_cong refl) (erule slide [symmetric])
  finally show ?thesis unfolding Bex_def using all by simp
qed

lemma in_check_code [code]:
  "in_check b side \<longleftrightarrow> (\<exists>c\<in>set (coords (deref b (side, king))). attacked b (flip_color side) c)"
  by (simp add: in_check_def on_coords Bex_def)

end
