(* ===== verification/Material.thy ===== *)
theory Material
  imports Movegen
begin

text \<open>
  Material: the number of pieces on the board, and that every capture generated by
  \<open>legal_capture_moves\<close> makes the board smaller, on any board whatsoever. The quiescence
  search terminates by it.
\<close>

section \<open>What every generated move looks like\<close>

definition promotion_type :: "MoveType \<Rightarrow> bool" where
  "promotion_type t \<longleftrightarrow> t \<in> set promotion_move_types"

text \<open>
  \<open>generated b side m\<close> collects what the generators guarantee on every board: quiet moves go
  to an empty square, en passant moves to the en passant square, promotions start on a pawn.
\<close>

definition generated :: "Board \<Rightarrow> Color \<Rightarrow> Move \<Rightarrow> bool" where
  "generated b side m \<longleftrightarrow>
     (move_type m \<in> {simple, two_step_pawn} \<longrightarrow> dst_square m AND all_pieces b = 0) \<and>
     (move_type m = en_passant \<longrightarrow> en_passant_square b = Some (dst_square m)) \<and>
     (promotion_type (move_type m) \<longrightarrow>
        src_square m AND deref b (side, pawn) \<noteq> 0 \<and> src_square m \<noteq> dst_square m) \<and>
     move_type m \<notin> {castle_kingside, castle_queenside} \<and>
     board_state m = b"

abbreviation all_generated :: "Board \<Rightarrow> Color \<Rightarrow> Move list \<Rightarrow> bool" where
  "all_generated b side ms \<equiv> (\<forall>m\<in>set ms. generated b side m)"

lemma promotion_type_simps [simp]:
  "promotion_type promotion_to_rook" "promotion_type promotion_to_bishop"
  "promotion_type promotion_to_knight" "promotion_type promotion_to_queen"
  "\<not> promotion_type simple" "\<not> promotion_type capture" "\<not> promotion_type two_step_pawn"
  "\<not> promotion_type en_passant" "\<not> promotion_type castle_kingside"
  "\<not> promotion_type castle_queenside"
  by (simp_all add: promotion_type_def promotion_move_types_def)

lemma generated_simple [simp]:
  "generated b side (Move_init s d p simple b) \<longleftrightarrow> d AND all_pieces b = 0"
  by (simp add: generated_def)

lemma generated_two_step [simp]:
  "generated b side (Move_init s d p two_step_pawn b) \<longleftrightarrow> d AND all_pieces b = 0"
  by (simp add: generated_def)

lemma generated_capture [simp]: "generated b side (Move_init s d p capture b)"
  by (simp add: generated_def)

lemma generated_en_passant [simp]:
  "generated b side (Move_init s d p en_passant b) \<longleftrightarrow> en_passant_square b = Some d"
  by (simp add: generated_def)

lemma generated_promotion:
  "promotion_type t \<Longrightarrow> generated b side (Move_init s d p t b) \<longleftrightarrow>
     s AND deref b (side, pawn) \<noteq> 0 \<and> s \<noteq> d"
  by (auto simp: generated_def promotion_type_def promotion_move_types_def)

lemma sliding_loop_generated:
  "sliding_loop b d src p cur res = Inr (c, res') \<Longrightarrow> all_generated b side res \<Longrightarrow>
     all_generated b side res'"
proof (induction b d src p cur res rule: sliding_loop.induct)
  case (1 b d src p cur res)
  show ?case
  proof (cases "cur \<noteq> 0 \<and> cur AND all_pieces b = 0")
    case True
    with "1.prems"(1) obtain next' where
      "direction_to_function d cur = Inr next'"
      "sliding_loop b d src p next' (res @ [Move_init src cur p simple b]) = Inr (c, res')"
      by (subst (asm) sliding_loop.simps) auto
    with True "1.prems"(2) show ?thesis by (intro "1.IH" [OF True]) auto
  next
    case False
    with "1.prems" show ?thesis by (subst (asm) sliding_loop.simps) auto
  qed
qed

lemma sliding_generated:
  "append_pseudolegal_sliding_moves b d side src p res = Inr res' \<Longrightarrow>
     all_generated b side' res \<Longrightarrow> all_generated b side' res'"
  by (auto simp: append_pseudolegal_sliding_moves_def split: if_splits
      dest!: sliding_loop_generated)

lemmas for_each_generated = for_each_inv [where I = "all_generated b side" for b side]

lemma bishop_generated:
  "append_pseudolegal_bishop_moves b side res = Inr res' \<Longrightarrow>
     all_generated b side res \<Longrightarrow> all_generated b side res'"
  unfolding append_pseudolegal_bishop_moves_def Let_def
  by (erule for_each_generated, assumption) (erule for_each_generated, assumption, erule sliding_generated)


lemma rook_generated:
  "append_pseudolegal_rook_moves b side res = Inr res' \<Longrightarrow>
     all_generated b side res \<Longrightarrow> all_generated b side res'"
  unfolding append_pseudolegal_rook_moves_def Let_def
  by (erule for_each_generated, assumption) (erule for_each_generated, assumption, erule sliding_generated)

lemma queen_generated:
  "append_pseudolegal_queen_moves b side res = Inr res' \<Longrightarrow>
     all_generated b side res \<Longrightarrow> all_generated b side res'"
  unfolding append_pseudolegal_queen_moves_def Let_def
  by (erule for_each_generated, assumption) (erule for_each_generated, assumption, erule sliding_generated)

lemma simple_pawn_generated:
  "append_pseudolegal_simple_pawn_moves b side res = Inr res' \<Longrightarrow>
     all_generated b side res \<Longrightarrow> all_generated b side res'"
  unfolding append_pseudolegal_simple_pawn_moves_def Let_def
  by (cases side; simp; erule for_each_generated; auto simp: and.commute split: if_splits)

lemma two_step_pawn_generated:
  "append_pseudolegal_two_step_pawn_moves b side res = Inr res' \<Longrightarrow>
     all_generated b side res \<Longrightarrow> all_generated b side res'"
  unfolding append_pseudolegal_two_step_pawn_moves_def Let_def
  by (cases side; simp; erule for_each_generated; auto simp: and.commute split: if_splits)

lemma en_passant_generated:
  "append_pseudolegal_en_passant_moves b side res = Inr res' \<Longrightarrow>
     all_generated b side res \<Longrightarrow> all_generated b side res'"
  unfolding append_pseudolegal_en_passant_moves_def Let_def
  by (cases side; auto split: option.splits if_splits)

lemma pawn_captures_generated:
  "append_pseudolegal_pawn_captures b side res = Inr res' \<Longrightarrow>
     all_generated b side res \<Longrightarrow> all_generated b side res'"
  unfolding append_pseudolegal_pawn_captures_def Let_def
  by (cases side; simp; erule for_each_generated; auto split: if_splits)

lemma direction_neq: "direction_to_function d w = Inr w' \<Longrightarrow> w' \<noteq> w"
  by (erule dir.step_cases, cases d)
    (auto simp: square_or_0_def csq_inj cadd_def split: if_splits)

lemma step_neq [simp]:
  "north_of w \<noteq> Inr w" "south_of w \<noteq> Inr w" "northeast_of w \<noteq> Inr w"
  "northwest_of w \<noteq> Inr w" "southeast_of w \<noteq> Inr w" "southwest_of w \<noteq> Inr w"
  using direction_neq [of north w w] direction_neq [of south w w] direction_neq [of northeast w w]
    direction_neq [of northwest w w] direction_neq [of southeast w w] direction_neq [of southwest w w]
  by auto

lemma split_and_neq_0: "s \<in> set (bitboard_split (v AND w)) \<Longrightarrow> s AND v \<noteq> 0"
  by (auto simp: set_bitboard_split_csq csq_and dest: occ_on_board)

lemma promotions_generated:
  "append_pseudolegal_promotions b side res = Inr res' \<Longrightarrow>
     all_generated b side res \<Longrightarrow> all_generated b side res'"
  unfolding append_pseudolegal_promotions_def Let_def
  by (cases side; simp; erule for_each_generated, assumption, erule for_each_generated, assumption)
    (auto simp: generated_promotion promotion_type_def [symmetric] split_and_neq_0
      split: if_splits)

lemma and_all_pieces_0:
  "d AND friends b side = 0 \<Longrightarrow> d AND enemies b side = 0 \<Longrightarrow> d AND all_pieces b = 0"
  by (cases side) (auto simp: friends_def enemies_def all_pieces_def bit.conj_disj_distrib)

lemma king_generated:
  "append_pseudolegal_king_moves b side res = Inr res' \<Longrightarrow>
     all_generated b side res \<Longrightarrow> all_generated b side res'"
  unfolding append_pseudolegal_king_moves_def Let_def
  by (erule for_each_generated) (auto split: if_splits, (metis and_all_pieces_0)+)

lemma knight_generated:
  "append_pseudolegal_knight_moves b side res = Inr res' \<Longrightarrow>
     all_generated b side res \<Longrightarrow> all_generated b side res'"
  unfolding append_pseudolegal_knight_moves_def Let_def
  by (erule for_each_generated, assumption, erule for_each_generated, assumption)
    (auto split: if_splits prod.splits, (metis and_all_pieces_0)+)

lemma pawn_generated:
  "append_pseudolegal_pawn_moves b side res = Inr res' \<Longrightarrow>
     all_generated b side res \<Longrightarrow> all_generated b side res'"
  unfolding append_pseudolegal_pawn_moves_def
  by (elim bindr_eq_InrE, drule (1) simple_pawn_generated, drule (1) two_step_pawn_generated,
      drule (1) pawn_captures_generated, drule (1) en_passant_generated,
      erule (1) promotions_generated)

lemma pseudolegal_generated:
  "pseudolegal_moves b side = Inr ms \<Longrightarrow> all_generated b side ms"
  unfolding pseudolegal_moves_def
  by (elim bindr_eq_InrE, drule bishop_generated, simp, drule (1) rook_generated,
      drule (1) queen_generated, drule (1) pawn_generated, drule (1) king_generated,
      erule (1) knight_generated)

section \<open>Counting the pieces\<close>

definition material :: "Board \<Rightarrow> int" where
  "material b = (\<Sum>p\<leftarrow>all_bitboards. pop_count (deref b p))"

lemma pop_count_eq: "pop_count w = int (card (bits w))"
  by (simp add: pop_count_def pop_count_loop_eq)

lemma pop_count_nonneg: "0 \<le> pop_count w"
  by (simp add: pop_count_eq)

lemma pop_count_xor_csq:
  assumes "occ w c"
  shows "pop_count (w XOR csq c) = pop_count w - 1"
proof -
  from assms have c: "on_board c" "cidx c \<in> bits w" by (auto simp: occ_def bits_def)
  have "bits (w XOR csq c) = bits w - {cidx c}"
    using c by (auto simp: bits_def bit_xor_iff csq_def bit_sqw)
  moreover have "int (card (bits w) - 1) = int (card (bits w)) - 1"
    using c(2) by (subst of_nat_diff) (auto simp: Suc_le_eq card_gt_0_iff)
  ultimately show ?thesis using c(2) by (simp add: pop_count_eq)
qed

lemma pop_count_or_csq: "on_board c \<Longrightarrow> pop_count (w OR csq c) \<le> pop_count w + 1"
proof -
  assume "on_board c"
  then have "bits (w OR csq c) = insert (cidx c) (bits w)"
    by (auto simp: bits_def bit_or_iff csq_def bit_sqw)
  then show ?thesis by (simp add: pop_count_eq card_insert_if)
qed

lemma material_nonneg: "0 \<le> material b"
  unfolding material_def by (rule sum_list_nonneg) (auto simp: pop_count_nonneg)

lemma material_cong: "(\<And>p. deref b p = deref b' p) \<Longrightarrow> material b = material b'"
  by (simp add: material_def)

lemma material_assign:
  "material (assign b p w) = material b - pop_count (deref b p) + pop_count w"
  unfolding material_def by (rule store.sum_put)

lemma material_remove:
  assumes "on_board c"
  shows "material (remove_piece_on b (csq c)) = material b - (if occupied b c then 1 else 0)"
  using assms
proof (cases rule: remove_piece_on_cases [of c b])
  case (found p)
  then have "occupied b c" unfolding occupied_def by blast
  with found show ?thesis
    by (simp add: material_assign pop_count_xor_csq on_def)
qed simp

lemma occupied_remove_other:
  assumes "on_board c" "occupied b d" "c \<noteq> d"
  shows "occupied (remove_piece_on b (csq c)) d"
  using assms(1)
proof (cases rule: remove_piece_on_cases [of c b])
  case (found p)
  from assms(2) obtain q where "on b q d" unfolding occupied_def by blast
  with found assms have "on (remove_piece_on b (csq c)) q d"
    by (auto simp: on_assign occ_csq) (auto simp: on_def)
  then show ?thesis unfolding occupied_def by blast
qed (use assms in simp)

lemma material_move:
  assumes "on_board c" "on_board d" "move_piece b (csq c) (csq d) = Inr b'"
  shows "material b' \<le> material b"
  using assms(1)
proof (cases rule: move_piece_cases [of c b "csq d"])
  case (found p)
  have "material b' = material b - pop_count (deref b p) +
      pop_count ((deref b p XOR csq c) OR csq d)"
    using found assms(3) by (simp add: material_assign)
  also have "\<dots> \<le> material b - pop_count (deref b p) + (pop_count (deref b p XOR csq c) + 1)"
    using pop_count_or_csq [OF assms(2)] by simp
  finally show ?thesis using found by (simp add: pop_count_xor_csq on_def)
qed (use assms in simp)

section \<open>Captures shrink the board\<close>

definition capture_rank :: "Board \<Rightarrow> nat" where
  "capture_rank b = nat (2 * material b + (if en_passant_square b = None then 0 else 1))"

lemma deref_update [simp]:
  "deref (b\<lparr>en_passant_square := e\<rparr>) p = deref b p"
  "deref (b\<lparr>is_whites_move := x\<rparr>) p = deref b p"
  "deref (b\<lparr>num_moves := n\<rparr>) p = deref b p"
  "deref (b\<lparr>white_has_right_to_castle_kingside := x\<rparr>) p = deref b p"
  "deref (b\<lparr>white_has_right_to_castle_queenside := x\<rparr>) p = deref b p"
  "deref (b\<lparr>black_has_right_to_castle_kingside := x\<rparr>) p = deref b p"
  "deref (b\<lparr>black_has_right_to_castle_queenside := x\<rparr>) p = deref b p"
  by (cases p; cases "fst p"; cases "snd p"; simp)+

lemma deref_adjust [simp]: "deref (adjust_castling_rights b m) p = deref b p"
  by (simp add: adjust_castling_rights_eq)

lemma ep_adjust [simp]: "en_passant_square (adjust_castling_rights b m) = en_passant_square b"
  by (simp add: adjust_castling_rights_eq)

lemma material_update [simp]:
  "material (b\<lparr>en_passant_square := e\<rparr>) = material b"
  "material (b\<lparr>is_whites_move := w\<rparr>) = material b"
  "material (b\<lparr>num_moves := n\<rparr>) = material b"
  "material (adjust_castling_rights b m) = material b"
  by (rule material_cong; simp)+

text \<open>The board on which \<open>do_move\<close> then turns the side to move and counts the move.\<close>

definition move_pieces :: "Board \<Rightarrow> Move \<Rightarrow> Board result" where
  "move_pieces b move = (case move_type move of
           simple \<Rightarrow> do_simple_move b move
         | two_step_pawn \<Rightarrow> do_two_step_pawn_move b move
         | capture \<Rightarrow> do_capture_move b move
         | en_passant \<Rightarrow> do_en_passant_move b move
         | castle_kingside \<Rightarrow> do_castle_move b move
         | castle_queenside \<Rightarrow> do_castle_move b move
         | promotion_to_rook \<Rightarrow> do_promotion_move b move
         | promotion_to_bishop \<Rightarrow> do_promotion_move b move
         | promotion_to_knight \<Rightarrow> do_promotion_move b move
         | promotion_to_queen \<Rightarrow> do_promotion_move b move)"

lemma do_move_eq:
  "do_move b move =
     raw_check (is_square (src_square move) \<and> is_square (dst_square move)) ''Not a valid move.''
       (bindr (move_pieces b move) (\<lambda>b'.
        bindr (add_int (num_moves b') (if \<not> is_whites_move b' then 1 else 0)) (\<lambda>n.
        Inr (b'\<lparr>is_whites_move := \<not> is_whites_move b', num_moves := n\<rparr>))))"
  by (simp add: do_move_def move_pieces_def Let_def cong: if_cong)

lemma do_moveE:
  assumes "do_move b m = Inr b'"
  obtains c d b1 where "on_board c" "src_square m = csq c" "on_board d" "dst_square m = csq d"
    "move_pieces b m = Inr b1" "material b' = material b1"
    "en_passant_square b' = en_passant_square b1"
proof -
  from assms have "is_square (src_square m)" "is_square (dst_square m)"
    by (auto simp: do_move_eq)
  then obtain c d where "on_board c" "src_square m = csq c" "on_board d" "dst_square m = csq d"
    by (metis is_square_coord)
  moreover from assms obtain b1 n where "move_pieces b m = Inr b1"
      "b' = b1\<lparr>is_whites_move := \<not> is_whites_move b1, num_moves := n\<rparr>"
    by (auto simp: do_move_eq)
  ultimately show ?thesis by (intro that [of c d b1]) simp_all
qed

lemma or_square_assign:
  "b\<lparr>white_rooks := white_rooks b OR w\<rparr> = assign b (white, rook) (deref b (white, rook) OR w)"
  "b\<lparr>black_rooks := black_rooks b OR w\<rparr> = assign b (black, rook) (deref b (black, rook) OR w)"
  "b\<lparr>white_knights := white_knights b OR w\<rparr> =
     assign b (white, knight) (deref b (white, knight) OR w)"
  "b\<lparr>black_knights := black_knights b OR w\<rparr> =
     assign b (black, knight) (deref b (black, knight) OR w)"
  "b\<lparr>white_bishops := white_bishops b OR w\<rparr> =
     assign b (white, bishop) (deref b (white, bishop) OR w)"
  "b\<lparr>black_bishops := black_bishops b OR w\<rparr> =
     assign b (black, bishop) (deref b (black, bishop) OR w)"
  "b\<lparr>white_queens := white_queens b OR w\<rparr> =
     assign b (white, queen) (deref b (white, queen) OR w)"
  "b\<lparr>black_queens := black_queens b OR w\<rparr> =
     assign b (black, queen) (deref b (black, queen) OR w)"
  by simp_all

fun promoted :: "MoveType \<Rightarrow> Piece" where
  "promoted promotion_to_rook = rook"
| "promoted promotion_to_bishop = bishop"
| "promoted promotion_to_knight = knight"
| "promoted promotion_to_queen = queen"
| "promoted _ = pawn"

text \<open>\<open>do_promotion_move\<close> with the four branches of the switch folded into one write.\<close>

lemma do_promotion_move_eq:
  assumes "promotion_type (move_type m)"
  shows "do_promotion_move b m =
    (let b = remove_piece_on (remove_piece_on b (src_square m)) (dst_square m);
         p = (if is_whites_move b then white else black, promoted (move_type m))
     in Inr (adjust_castling_rights
          ((assign b p (deref b p OR dst_square m))\<lparr>en_passant_square := None\<rparr>) m))"
  using assms
  by (auto simp: do_promotion_move_def promotion_type_def promotion_move_types_def Let_def
      or_square_assign simp del: assign.simps deref.simps)

lemma remove_piece_on_0 [simp]: "remove_piece_on b 0 = b"
  by (simp add: remove_piece_on_def all_bitboards_def)

lemma material_remove_le: "material (remove_piece_on b (square_or_0 c)) \<le> material b"
  by (simp add: square_or_0_def material_remove)

lemma do_capture_move_material:
  assumes "do_capture_move b m = Inr b'" "on_board c" "src_square m = csq c"
    "on_board d" "dst_square m = csq d" "occupied b d"
  shows "material b' < material b" "en_passant_square b' = None"
proof -
  from assms obtain b1 where "move_piece (remove_piece_on b (csq d)) (csq c) (csq d) = Inr b1"
    and b': "b' = adjust_castling_rights (b1\<lparr>en_passant_square := None\<rparr>) m"
    by (auto simp: do_capture_move_def Let_def)
  from material_move [OF assms(2,4) this(1)] assms(4,6) b'
  show "material b' < material b" by (simp add: material_remove)
  from b' show "en_passant_square b' = None" by simp
qed

lemma do_en_passant_move_material:
  assumes "do_en_passant_move b m = Inr b'" "on_board c" "src_square m = csq c"
    "on_board d" "dst_square m = csq d"
  shows "material b' \<le> material b" "en_passant_square b' = None" "en_passant_square b \<noteq> None"
proof -
  let ?w = "square_or_0 (cadd d 1 (0, if csq d AND third_rank_mask \<noteq> 0 then 1 else -1))"
  from assms obtain b1 where "move_piece (remove_piece_on b ?w) (csq c) (csq d) = Inr b1"
    and b': "b' = b1\<lparr>en_passant_square := None\<rparr>"
    by (auto simp: do_en_passant_move_def Let_def straight_steps split: if_splits)
  with material_move [OF assms(2,4) this(1)] material_remove_le
  show "material b' \<le> material b" by (metis material_update(1) order_trans)
  from b' show "en_passant_square b' = None" by simp
  from assms show "en_passant_square b \<noteq> None" by (auto simp: do_en_passant_move_def)
qed

lemma do_promotion_move_material:
  assumes "do_promotion_move b m = Inr b'" "promotion_type (move_type m)"
    "on_board c" "src_square m = csq c" "on_board d" "dst_square m = csq d"
    "occupied b c" "occupied b d" "c \<noteq> d"
  shows "material b' < material b" "en_passant_square b' = None"
proof -
  let ?b = "remove_piece_on (remove_piece_on b (csq c)) (csq d)"
  let ?p = "(if is_whites_move ?b then white else black, promoted (move_type m))"
  have b': "b' = adjust_castling_rights
      ((assign ?b ?p (deref ?b ?p OR csq d))\<lparr>en_passant_square := None\<rparr>) m"
    using assms(1,4,6) by (simp add: do_promotion_move_eq [OF assms(2)] Let_def
        del: assign.simps deref.simps)
  have "material b' \<le> material ?b + 1"
    using pop_count_or_csq [OF assms(5), of "deref ?b ?p"]
    by (simp add: b' material_assign del: assign.simps deref.simps)
  also have "material ?b = material b - 2"
    using assms by (simp add: material_remove occupied_remove_other)
  finally show "material b' < material b" by simp
  from b' show "en_passant_square b' = None" by simp
qed

theorem capture_shrinks:
  assumes move: "do_move b m = Inr b'" and gen: "generated b side m"
    and cap: "dst_square m AND enemies b side \<noteq> 0"
  shows "capture_rank b' < capture_rank b"
proof -
  from move obtain c d b1 where cd: "on_board c" "src_square m = csq c"
      "on_board d" "dst_square m = csq d"
    and b1: "move_pieces b m = Inr b1" "material b' = material b1"
      "en_passant_square b' = en_passant_square b1"
    by (rule do_moveE)
  have occ: "occupied b d"
  proof -
    have "\<exists>k. on b (flip_color side, k) d"
      using cap cd by (auto simp: csq_and occ_enemies split: if_splits)
    then show ?thesis unfolding occupied_def by blast
  qed
  have not_quiet: "move_type m \<notin> {simple, two_step_pawn, castle_kingside, castle_queenside}"
    using gen occ cd by (auto simp: generated_def csq_and occ_all_pieces)
  have "material b1 < material b \<and> en_passant_square b1 = None \<or>
    material b1 \<le> material b \<and> en_passant_square b1 = None \<and> en_passant_square b \<noteq> None"
  proof (cases "promotion_type (move_type m)")
    case True
    then have "do_promotion_move b m = Inr b1"
      using b1(1) by (auto simp: move_pieces_def promotion_type_def promotion_move_types_def)
    moreover have "on b (side, pawn) c" "c \<noteq> d"
      using gen True cd by (auto simp: generated_def csq_and on_def split: if_splits)
    moreover from this have "occupied b c" unfolding occupied_def by blast
    ultimately show ?thesis using do_promotion_move_material True cd occ by metis
  next
    case False
    with not_quiet b1(1) consider "do_capture_move b m = Inr b1" | "do_en_passant_move b m = Inr b1"
      by (cases "move_type m") (auto simp: move_pieces_def)
    then show ?thesis
    proof cases
      case 1
      then show ?thesis using do_capture_move_material [OF 1 cd occ] by simp
    next
      case 2
      then show ?thesis using do_en_passant_move_material [OF 2 cd] by simp
    qed
  qed
  then show ?thesis
    using b1 material_nonneg [of b1] by (auto simp: capture_rank_def)
qed

section \<open>Legal moves are generated moves\<close>

abbreviation side_to_move :: "Board \<Rightarrow> Color" where
  "side_to_move b \<equiv> (if is_whites_move b then white else black)"

lemma erase_if_not_set:
  assumes "erase_if_not keep xs = Inr ys"
  shows "set ys = {x \<in> set xs. keep x = Inr True}"
  using assms by (induction xs arbitrary: ys) (auto split: if_splits)

lemma castle_move_quiet:
  "is_castle_kingside_legal b = Inr True \<Longrightarrow>
     dst_square (castle_kingside_move (side_to_move b) b) AND all_pieces b = 0"
  "is_castle_queenside_legal b = Inr True \<Longrightarrow>
     dst_square (castle_queenside_move (side_to_move b) b) AND all_pieces b = 0"
  by (auto simp: is_castle_kingside_legal_def is_castle_queenside_legal_def Let_def
      castle_kingside_move_def castle_queenside_move_def bb_or_and_eq_0
      white_castle_kingside_mask_def black_castle_kingside_mask_def
      white_castle_queenside_mask_def black_castle_queenside_mask_def
      split: if_splits)

lemma legal_moves_cases:
  assumes "legal_moves b = Inr ms" "m \<in> set ms"
  obtains (pseudolegal) ps where "pseudolegal_moves b (side_to_move b) = Inr ps" "m \<in> set ps"
      "is_pseudolegal_move_legal b m = Inr True"
    | (kingside) "is_castle_kingside_legal b = Inr True"
      "m = castle_kingside_move (side_to_move b) b"
    | (queenside) "is_castle_queenside_legal b = Inr True"
      "m = castle_queenside_move (side_to_move b) b"
proof -
  from assms(1) obtain ps qs k q where
    ps: "pseudolegal_moves b (side_to_move b) = Inr ps"
      "erase_if_not (is_pseudolegal_move_legal b) ps = Inr qs"
    and kq: "is_castle_kingside_legal b = Inr k" "is_castle_queenside_legal b = Inr q"
    and ms: "ms = (qs @ (if k then [castle_kingside_move (side_to_move b) b] else [])) @
      (if q then [castle_queenside_move (side_to_move b) b] else [])"
    unfolding legal_moves_def append_castling_moves_def Let_def
    by (elim bindr_eq_InrE) (simp split: if_splits)
  from assms(2) consider "m \<in> set qs" | "k" "m = castle_kingside_move (side_to_move b) b"
    | "q" "m = castle_queenside_move (side_to_move b) b"
    unfolding ms by (auto split: if_splits)
  then show ?thesis
    using pseudolegal ps kq kingside queenside erase_if_not_set [OF ps(2)] by cases auto
qed

lemma legal_capture_shrinks:
  assumes "legal_capture_moves b = Inr ms" "m \<in> set ms" "do_move b m = Inr b'"
  shows "capture_rank b' < capture_rank b"
proof -
  from assms obtain ls where ls: "legal_moves b = Inr ls" "m \<in> set ls"
    and cap: "dst_square m AND enemies b (side_to_move b) \<noteq> 0"
    by (auto simp: legal_capture_moves_def is_capture_move_def Let_def)
  have "dst_square m AND all_pieces b \<noteq> 0"
    using cap by (auto simp: bb_and_0_occ_iff all_pieces_def enemies_def split: if_splits)
  with ls obtain ps where "pseudolegal_moves b (side_to_move b) = Inr ps" "m \<in> set ps"
    by (cases rule: legal_moves_cases) (auto dest: castle_move_quiet)
  then have "generated b (side_to_move b) m" using pseudolegal_generated by blast
  then show ?thesis using cap by (rule capture_shrinks [OF assms(3)])
qed

end
