(* ===== verification/Play.thy ===== *)
theory Play
  imports Attacks Material
begin

text \<open>
  An abstract game of chess, and \<open>do_move\<close> as its implementation. A position is a partial
  function from coordinates to pieces with the state the rules need; playing a move is a few
  function updates. The bitboards refine it: from a well-formed board \<open>do_move\<close> returns a
  board whose abstraction is the position after the move.
\<close>

section \<open>Positions\<close>

type_synonym placing = "coord \<Rightarrow> bb_ptr option"

record position =
  placement :: placing
  turn :: Color
  kingside :: "Color \<Rightarrow> bool"
  queenside :: "Color \<Rightarrow> bool"
  ep_target :: "coord option"
  move_number :: int

text \<open>Moving the pieces: the rook of a castling move, the pawn taken en passant.\<close>

definition relocate :: "Color \<Rightarrow> coord \<Rightarrow> coord \<Rightarrow> Piece \<Rightarrow> MoveType \<Rightarrow> placing \<Rightarrow> placing" where
  "relocate side s t k ty f =
     (let g = f(s := None, t := Some (side, if promotion_type ty then promoted ty else k))
      in case ty of
           en_passant \<Rightarrow> g((fst t, snd s) := None)
         | castle_kingside \<Rightarrow> g((7, snd s) := None, (5, snd s) := Some (side, rook))
         | castle_queenside \<Rightarrow> g((0, snd s) := None, (3, snd s) := Some (side, rook))
         | _ \<Rightarrow> g)"

definition play :: "position \<Rightarrow> cmove \<Rightarrow> position" where
  "play p m = (case m of (s, t, k, ty) \<Rightarrow>
     \<lparr> placement = relocate (turn p) s t k ty (placement p),
       turn = flip_color (turn p),
       kingside = (\<lambda>c. kingside p c \<and> s \<notin> {(4, home_rank c), (7, home_rank c)} \<and> t \<noteq> (7, home_rank c)),
       queenside = (\<lambda>c. queenside p c \<and> s \<notin> {(4, home_rank c), (0, home_rank c)} \<and> t \<noteq> (0, home_rank c)),
       ep_target = (if ty = two_step_pawn then Some (cadd s 1 (0, forward (turn p))) else None),
       move_number = move_number p + (if turn p = black then 1 else 0) \<rparr>)"

definition piece_at :: "Board \<Rightarrow> coord \<Rightarrow> bb_ptr option" where
  "piece_at b c = find (\<lambda>p. on b p c) all_bitboards"

definition position_of :: "Board \<Rightarrow> position" where
  "position_of b =
     \<lparr> placement = piece_at b, turn = side_to_move b,
       kingside = kingside_right b, queenside = queenside_right b,
       ep_target = map_option coord_of (en_passant_square b),
       move_number = num_moves b \<rparr>"

section \<open>Boards that carry a placement\<close>

definition places :: "Board \<Rightarrow> placing \<Rightarrow> bool" where
  "places b f \<longleftrightarrow> (\<forall>p c. on b p c \<longleftrightarrow> f c = Some p)"

lemma placesD: "places b f \<Longrightarrow> on b p c \<longleftrightarrow> f c = Some p"
  unfolding places_def by blast

lemma places_disjoint: "places b f \<Longrightarrow> disjoint_pieces b"
  unfolding places_def disjoint_pieces_def by simp

lemma places_unique:
  assumes "places b f" "places b g"
  shows "f = g"
proof
  fix c
  have "f c = Some p \<longleftrightarrow> g c = Some p" for p using assms unfolding places_def by metis
  then show "f c = g c" by (metis not_Some_eq)
qed

lemma places_piece_at: "disjoint_pieces b \<Longrightarrow> places b (piece_at b)"
  unfolding places_def
proof (intro allI iffI)
  fix p c assume d: "disjoint_pieces b" and p: "on b p c"
  then have "occupied b c" unfolding occupied_def by blast
  then obtain q where q: "piece_at b c = Some q" unfolding piece_at_def using find_on_None by fastforce
  then have "on b q c" unfolding piece_at_def by (rule find_on_Some)
  with d p q show "piece_at b c = Some p" by (auto dest: disjoint_piecesD)
next
  fix p c assume "piece_at b c = Some p"
  then show "on b p c" unfolding piece_at_def by (rule find_on_Some)
qed

lemma places_piece_at_eq: "places b f \<Longrightarrow> piece_at b = f"
  using places_unique places_piece_at places_disjoint by blast

lemma places_occupied: "places b f \<Longrightarrow> occupied b c \<longleftrightarrow> f c \<noteq> None"
  unfolding places_def occupied_def by blast

lemma places_cong: "(\<And>p. deref b' p = deref b p) \<Longrightarrow> places b' f \<longleftrightarrow> places b f"
  by (simp add: places_def on_def)

lemma places_update [simp]:
  "places (b\<lparr>en_passant_square := e\<rparr>) f = places b f"
  "places (b\<lparr>is_whites_move := w, num_moves := n\<rparr>) f = places b f"
  "places (adjust_castling_rights b m) f = places b f"
  by (rule places_cong; simp)+

lemma places_remove:
  "places b f \<Longrightarrow> on_board c \<Longrightarrow> places (remove_piece_on b (csq c)) (f(c := None))"
  using on_remove [OF _ places_disjoint, of c b f] by (auto simp: places_def)

lemma places_move:
  assumes "places b f" "f c = Some p" "on_board d" "c \<noteq> d" "f d = None"
  obtains b' where "move_piece b (csq c) (csq d) = Inr b'" "same_state b b'"
    "places b' (f(c := None, d := Some p))"
proof -
  have "on b p c" using assms(1,2) by (simp add: placesD)
  then obtain b' where b': "move_piece b (csq c) (csq d) = Inr b'" "same_state b b'"
    "\<And>q e. on b' q e \<longleftrightarrow> (on b q e \<and> e \<noteq> c) \<or> (q = p \<and> e = d)"
    using move_piece_ok [OF places_disjoint [OF assms(1)] _ assms(3,4)] by blast
  have "places b' (f(c := None, d := Some p))"
    unfolding places_def b'(3) placesD [OF assms(1)] using assms(4,5) by auto
  with b'(1,2) show ?thesis by (rule that)
qed

lemma places_put:
  assumes "places b f" "f d = None" "on_board d"
  shows "places (assign b p (deref b p OR csq d)) (f(d := Some p))"
proof -
  have "on (assign b p (deref b p OR csq d)) q c \<longleftrightarrow> on b q c \<or> p = q \<and> c = d" for q c
    using assms(3) by (auto simp: on_assign occ_csq) (auto simp: on_def)
  then show ?thesis
    unfolding places_def placesD [OF assms(1)] using assms(2) by auto
qed

section \<open>The branches of \<open>do_move\<close>\<close>

text \<open>The state next to the bitboards, after the pieces have moved.\<close>

definition pieces_moved :: "Board \<Rightarrow> cmove \<Rightarrow> Board \<Rightarrow> bool" where
  "pieces_moved b m b' \<longleftrightarrow> (case m of (s, t, k, ty) \<Rightarrow>
     places b' (relocate (side_to_move b) s t k ty (piece_at b)) \<and>
     is_whites_move b' = is_whites_move b \<and> num_moves b' = num_moves b \<and>
     fifty_move_clock b' = fifty_move_clock b \<and>
     en_passant_square b' =
       (if ty = two_step_pawn then Some (csq (ahead (side_to_move b) s)) else None) \<and>
     (\<forall>c. (kingside_right b' c \<longleftrightarrow> kingside_right b c \<and>
             s \<notin> {(4, home_rank c), (7, home_rank c)} \<and> t \<noteq> (7, home_rank c)) \<and>
          (queenside_right b' c \<longleftrightarrow> queenside_right b c \<and>
             s \<notin> {(4, home_rank c), (0, home_rank c)} \<and> t \<noteq> (0, home_rank c))))"

lemma adjust_rights:
  assumes "disjoint_pieces b" "kings_ok b" "castling_ok b" "on b (side, k) s" "on_board t"
    "kingside_right b0 = kingside_right b" "queenside_right b0 = queenside_right b"
  shows "kingside_right (adjust_castling_rights b0 (mv b (s, t, k, ty))) c \<longleftrightarrow>
      kingside_right b c \<and> s \<notin> {(4, home_rank c), (7, home_rank c)} \<and> t \<noteq> (7, home_rank c)"
    and "queenside_right (adjust_castling_rights b0 (mv b (s, t, k, ty))) c \<longleftrightarrow>
      queenside_right b c \<and> s \<notin> {(4, home_rank c), (0, home_rank c)} \<and> t \<noteq> (0, home_rank c)"
proof -
  have s: "on_board s" using assms(4) by (rule on_on_board)
  have home: "on b (c, king) (4, home_rank c)" "on b (c, rook) (7, home_rank c)"
    if "kingside_right b c" using that assms(3) unfolding castling_ok_iff [OF assms(2)] by blast+
  have home': "on b (c, king) (4, home_rank c)" "on b (c, rook) (0, home_rank c)"
    if "queenside_right b c" using that assms(3) unfolding castling_ok_iff [OF assms(2)] by blast+
  note same = disjoint_piecesD [OF assms(1,4)]
  have k: "k = king" if "kingside_right b c \<or> queenside_right b c" "s = (4, home_rank c)"
    using that home(1) home'(1) same by blast
  have r: "k = rook" if "kingside_right b c" "s = (7, home_rank c)"
    using that home(2) same by blast
  have q: "k = rook" if "queenside_right b c" "s = (0, home_rank c)"
    using that home'(2) same by blast
  show "kingside_right (adjust_castling_rights b0 (mv b (s, t, k, ty))) c \<longleftrightarrow>
      kingside_right b c \<and> s \<notin> {(4, home_rank c), (7, home_rank c)} \<and> t \<noteq> (7, home_rank c)"
    unfolding assms(6) [symmetric] using k r s assms(5) unfolding assms(6,7) [symmetric]
    by (cases c) (auto simp: adjust_castling_rights_eq csq_inj home_rank_def)
  show "queenside_right (adjust_castling_rights b0 (mv b (s, t, k, ty))) c \<longleftrightarrow>
      queenside_right b c \<and> s \<notin> {(4, home_rank c), (0, home_rank c)} \<and> t \<noteq> (0, home_rank c)"
    unfolding assms(7) [symmetric] using k q s assms(5) unfolding assms(6,7) [symmetric]
    by (cases c) (auto simp: adjust_castling_rights_eq csq_inj home_rank_def)
qed

lemma rights_update [simp]:
  "kingside_right (b\<lparr>en_passant_square := e\<rparr>) c = kingside_right b c"
  "queenside_right (b\<lparr>en_passant_square := e\<rparr>) c = queenside_right b c"
  "kingside_right (b\<lparr>is_whites_move := w, num_moves := n\<rparr>) c = kingside_right b c"
  "queenside_right (b\<lparr>is_whites_move := w, num_moves := n\<rparr>) c = queenside_right b c"
  by (cases c; simp)+

lemma same_state_rights:
  "same_state b b' \<Longrightarrow> kingside_right b' = kingside_right b"
  "same_state b b' \<Longrightarrow> queenside_right b' = queenside_right b"
proof -
  assume "same_state b b'"
  then have "kingside_right b' c = kingside_right b c" "queenside_right b' c = queenside_right b c" for c
    by (cases c; simp add: same_state_def)+
  then show "kingside_right b' = kingside_right b" "queenside_right b' = queenside_right b" by blast+
qed

definition board_ok :: "Board \<Rightarrow> bool" where
  "board_ok b \<longleftrightarrow> disjoint_pieces b \<and> kings_ok b \<and> castling_ok b"

lemma pieces_moved_adjust:
  assumes "board_ok b" "on b (side_to_move b, k) s" "on_board t" "same_state b b1"
    "places b1 (relocate (side_to_move b) s t k ty (piece_at b))" "ty \<noteq> two_step_pawn"
  shows "pieces_moved b (s, t, k, ty)
    (adjust_castling_rights (b1\<lparr>en_passant_square := None\<rparr>) (mv b (s, t, k, ty)))"
proof -
  let ?b = "b1\<lparr>en_passant_square := None\<rparr>"
  have r: "kingside_right ?b = kingside_right b" "queenside_right ?b = queenside_right b"
    using same_state_rights [OF assms(4)] by (auto simp: fun_eq_iff)
  note ok = assms(1) [unfolded board_ok_def]
  note rights = adjust_rights [OF _ _ _ assms(2,3) r, where ty = ty]
  have "is_whites_move (adjust_castling_rights ?b m) = is_whites_move b"
    "num_moves (adjust_castling_rights ?b m) = num_moves b"
    "fifty_move_clock (adjust_castling_rights ?b m) = fifty_move_clock b" for m
    using assms(4) by (simp_all add: adjust_castling_rights_eq same_state_def)
  with assms(5,6) ok rights show ?thesis
    unfolding pieces_moved_def prod.case by (simp del: mv.simps)
qed

text \<open>Two pawn moves leave the castling rights alone; no right can be concerned.\<close>

lemma pieces_moved_pawn:
  assumes "board_ok b" "on b (side_to_move b, pawn) s" "\<not> occupied b t" "same_state b b1"
    "places b1 (relocate (side_to_move b) s t pawn ty (piece_at b))"
  shows "pieces_moved b (s, t, pawn, ty) (b1\<lparr>en_passant_square :=
    (if ty = two_step_pawn then Some (csq (ahead (side_to_move b) s)) else None)\<rparr>)"
proof -
  note ok = assms(1) [unfolded board_ok_def]
  have "s \<noteq> (f, r)" "t \<noteq> (f, r)" if "on b (c, k) (f, r)" "k \<noteq> pawn" for c k f r
    using that assms(2,3) ok disjoint_piecesD [of b] unfolding occupied_def by blast+
  moreover have "on b (c, king) (4, home_rank c)" "on b (c, rook) (7, home_rank c)"
    if "kingside_right b c" for c
    using that ok unfolding castling_ok_iff [OF ok [THEN conjunct2, THEN conjunct1]] by blast+
  moreover have "on b (c, king) (4, home_rank c)" "on b (c, rook) (0, home_rank c)"
    if "queenside_right b c" for c
    using that ok unfolding castling_ok_iff [OF ok [THEN conjunct2, THEN conjunct1]] by blast+
  ultimately have "(kingside_right b c \<longrightarrow> s \<notin> {(4, home_rank c), (7, home_rank c)} \<and> t \<noteq> (7, home_rank c)) \<and>
    (queenside_right b c \<longrightarrow> s \<notin> {(4, home_rank c), (0, home_rank c)} \<and> t \<noteq> (0, home_rank c))" for c
    by blast
  with assms(4,5) same_state_rights [OF assms(4)] show ?thesis
    unfolding pieces_moved_def prod.case by (auto simp: same_state_def)
qed

lemma relocate_simps:
  "relocate c s t k simple f = f(s := None, t := Some (c, k))"
  "relocate c s t k two_step_pawn f = f(s := None, t := Some (c, k))"
  "relocate c s t k capture f = f(s := None, t := Some (c, k))"
  "relocate c s t k en_passant f = f(s := None, t := Some (c, k), (fst t, snd s) := None)"
  "promotion_type ty \<Longrightarrow> relocate c s t k ty f = f(s := None, t := Some (c, promoted ty))"
  "relocate c s t k castle_kingside f =
     f(s := None, t := Some (c, k), (7, snd s) := None, (5, snd s) := Some (c, rook))"
  "relocate c s t k castle_queenside f =
     f(s := None, t := Some (c, k), (0, snd s) := None, (3, snd s) := Some (c, rook))"
  by (auto simp: relocate_def Let_def promotion_type_def promotion_move_types_def)

lemma board_ok_places: "board_ok b \<Longrightarrow> places b (piece_at b)"
  by (simp add: board_ok_def places_piece_at)

lemma do_simple_move_ok:
  assumes "board_ok b" "on b (side_to_move b, k) s" "on_board t" "\<not> occupied b t"
  obtains b' where "do_simple_move b (mv b (s, t, k, simple)) = Inr b'"
    "pieces_moved b (s, t, k, simple) b'"
proof -
  let ?f = "piece_at b"
  have f: "places b ?f" by (rule board_ok_places [OF assms(1)])
  have "?f s = Some (side_to_move b, k)" "?f t = None"
    using assms(2,4) by (simp_all add: placesD [OF f] places_occupied [OF f])
  moreover from this have "s \<noteq> t" by auto
  ultimately obtain b1 where b1: "move_piece b (csq s) (csq t) = Inr b1" "same_state b b1"
    "places b1 (?f(s := None, t := Some (side_to_move b, k)))"
    using places_move [OF f _ assms(3)] by metis
  show ?thesis
    by (rule that [OF _ pieces_moved_adjust [OF assms(1-3) b1(2)]])
      (use b1 in \<open>simp_all add: do_simple_move_def relocate_simps\<close>)
qed

lemma do_two_step_pawn_move_ok:
  assumes "board_ok b" "on b (side_to_move b, pawn) s" "snd s = start_rank (side_to_move b)"
    "t = cadd s 2 (0, forward (side_to_move b))" "\<not> occupied b t"
  obtains b' where "do_two_step_pawn_move b (mv b (s, t, pawn, two_step_pawn)) = Inr b'"
    "pieces_moved b (s, t, pawn, two_step_pawn) b'"
proof -
  let ?f = "piece_at b"
  have f: "places b ?f" by (rule board_ok_places [OF assms(1)])
  have s: "on_board s" using assms(2) by (rule on_on_board)
  have t: "on_board t" "on_board (ahead (side_to_move b) s)"
    using s assms(3,4) by (auto simp: on_board_def cadd_def forward_def start_rank_def)
  have "?f s = Some (side_to_move b, pawn)" "?f t = None"
    using assms(2,5) by (simp_all add: placesD [OF f] places_occupied [OF f])
  moreover from this have "s \<noteq> t" by auto
  ultimately obtain b1 where b1: "move_piece b (csq s) (csq t) = Inr b1" "same_state b b1"
    "places b1 (?f(s := None, t := Some (side_to_move b, pawn)))"
    using places_move [OF f _ t(1)] by metis
  have "(if csq s AND second_rank_mask \<noteq> 0 then north_of (csq s) else south_of (csq s)) =
      Inr (csq (ahead (side_to_move b) s))"
    using s t assms(3) by (simp add: csq_and occ_rank_mask start_rank_def compass_steps forward_def
        square_or_0_def split: if_splits)
  with b1 show ?thesis
    by (intro that [OF _ pieces_moved_pawn [OF assms(1,2,5) b1(2)]])
      (simp_all add: do_two_step_pawn_move_def relocate_simps split del: if_split cong: if_cong)
qed

lemma do_capture_move_ok:
  assumes "board_ok b" "on b (side_to_move b, k) s" "on_board t" "s \<noteq> t"
  obtains b' where "do_capture_move b (mv b (s, t, k, capture)) = Inr b'"
    "pieces_moved b (s, t, k, capture) b'"
proof -
  let ?f = "piece_at b"
  have f: "places b ?f" by (rule board_ok_places [OF assms(1)])
  note r = places_remove [OF f assms(3)]
  have "(?f(t := None)) s = Some (side_to_move b, k)"
    using assms(2,4) by (simp add: placesD [OF f])
  then obtain b1 where b1: "move_piece (remove_piece_on b (csq t)) (csq s) (csq t) = Inr b1"
    "same_state (remove_piece_on b (csq t)) b1"
    "places b1 (?f(t := None, s := None, t := Some (side_to_move b, k)))"
    using places_move [OF r _ assms(3,4)] by auto
  have "same_state b b1"
    using same_state_trans [OF same_state_remove [OF assms(3)] b1(2)] .
  moreover have "?f(t := None, s := None, t := Some (side_to_move b, k)) =
      ?f(s := None, t := Some (side_to_move b, k))" by auto
  ultimately show ?thesis
    using b1
    by (intro that [OF _ pieces_moved_adjust [OF assms(1-3)]])
      (simp_all add: do_capture_move_def relocate_simps)
qed

lemma do_promotion_move_ok:
  assumes "board_ok b" "on b (side_to_move b, k) s" "on_board t" "promotion_type ty"
  obtains b' where "do_promotion_move b (mv b (s, t, k, ty)) = Inr b'"
    "pieces_moved b (s, t, k, ty) b'"
proof -
  let ?f = "piece_at b" and ?p = "(side_to_move b, promoted ty)"
  let ?b = "remove_piece_on (remove_piece_on b (csq s)) (csq t)"
  have f: "places b ?f" by (rule board_ok_places [OF assms(1)])
  have s: "on_board s" using assms(2) by (rule on_on_board)
  have "places ?b (?f(s := None, t := None))"
    by (rule places_remove [OF places_remove [OF f s] assms(3)])
  then have "places (assign ?b ?p (deref ?b ?p OR csq t)) (?f(s := None, t := None, t := Some ?p))"
    by (rule places_put) (simp_all add: assms(3))
  moreover have st: "same_state b ?b"
    by (rule same_state_trans [OF same_state_remove [OF s] same_state_remove [OF assms(3)]])
  moreover from st have "is_whites_move ?b = is_whites_move b" by (simp add: same_state_def)
  ultimately show ?thesis
    using assms(4) same_state_trans [OF st same_state_assign]
    by (intro that [OF _ pieces_moved_adjust [OF assms(1-3)]])
      (simp_all add: do_promotion_move_eq Let_def relocate_simps del: assign.simps deref.simps, auto)
qed

definition ep_rank :: "Color \<Rightarrow> int" where
  "ep_rank side = (if side = white then 5 else 2)"

lemma do_en_passant_move_ok:
  assumes "board_ok b" "on b (side_to_move b, pawn) s" "on_board t"
    "en_passant_square b = Some (csq t)" "t = diag (side_to_move b) x s" "x \<in> {-1, 1}"
    "snd t = ep_rank (side_to_move b)" "\<not> occupied b t"
  obtains b' where "do_en_passant_move b (mv b (s, t, pawn, en_passant)) = Inr b'"
    "pieces_moved b (s, t, pawn, en_passant) b'"
proof -
  let ?f = "piece_at b" and ?v = "(fst t, snd s)" and ?side = "side_to_move b"
  have f: "places b ?f" by (rule board_ok_places [OF assms(1)])
  have s: "on_board s" using assms(2) by (rule on_on_board)
  have v: "on_board ?v" using s assms(3) by (simp add: on_board_def)
  have vst: "?v \<noteq> s" "?v \<noteq> t" "s \<noteq> t"
    using assms(5,6) by (auto simp: cadd_def forward_def prod_eq_iff)
  have vs: "cadd t 1 (0, if snd t = 2 then 1 else -1) = ?v"
    using assms(5,7) by (auto simp: cadd_def forward_def ep_rank_def prod_eq_iff split: if_splits)
  have victim: "(if csq t AND third_rank_mask \<noteq> 0 then north_of (csq t) else south_of (csq t)) =
      Inr (csq ?v)"
    using assms(3) vs v by (simp add: csq_and occ_rank_mask compass_steps square_or_0_def split: if_splits)
  note r = places_remove [OF f v]
  have "(?f(?v := None)) s = Some (?side, pawn)" "(?f(?v := None)) t = None"
    using assms(2,8) vst by (simp_all add: placesD [OF f] places_occupied [OF f])
  then obtain b1 where b1: "move_piece (remove_piece_on b (csq ?v)) (csq s) (csq t) = Inr b1"
    "same_state (remove_piece_on b (csq ?v)) b1"
    "places b1 (?f(?v := None, s := None, t := Some (?side, pawn)))"
    using places_move [OF r _ assms(3) vst(3)] by metis
  have "same_state b b1"
    using same_state_trans [OF same_state_remove [OF v] b1(2)] .
  moreover have "?f(?v := None, s := None, t := Some (?side, pawn)) =
      ?f(s := None, t := Some (?side, pawn), ?v := None)" using vst by (auto simp: fun_eq_iff)
  ultimately show ?thesis
    using b1 victim assms(4)
    by (intro that [OF _ pieces_moved_pawn [OF assms(1,2,8), of b1 en_passant]])
      (simp_all add: do_en_passant_move_def relocate_simps split del: if_split cong: if_cong)
qed

lemma do_castle_move_ok:
  assumes "board_ok b" "h = home_rank (side_to_move b)" "on b (side_to_move b, king) (4, h)"
    and castle: "ty = castle_kingside \<and> kf = 6 \<and> rf = 7 \<and> rt = 5 \<or>
      ty = castle_queenside \<and> kf = 2 \<and> rf = 0 \<and> rt = 3"
    and "on b (side_to_move b, rook) (rf, h)" "\<not> occupied b (kf, h)" "\<not> occupied b (rt, h)"
  obtains b' where "do_castle_move b (mv b ((4, h), (kf, h), king, ty)) = Inr b'"
    "pieces_moved b ((4, h), (kf, h), king, ty) b'"
proof -
  let ?f = "piece_at b" and ?side = "side_to_move b"
  have f: "places b ?f" by (rule board_ok_places [OF assms(1)])
  have h: "h \<in> {0, 7}" using assms(2) by (auto simp: home_rank_def)
  have on: "on_board (kf, h)" "on_board (rt, h)" using castle h by auto
  have fs: "?f (4, h) = Some (?side, king)" "?f (rf, h) = Some (?side, rook)"
    "?f (kf, h) = None" "?f (rt, h) = None"
    using assms(3,5-7) by (simp_all add: placesD [OF f] places_occupied [OF f])
  have "(4, h) \<noteq> (kf, h)" using castle by auto
  then obtain b1 where b1: "move_piece b (csq (4, h)) (csq (kf, h)) = Inr b1" "same_state b b1"
    "places b1 (?f((4, h) := None, (kf, h) := Some (?side, king)))"
    using places_move [OF f fs(1) on(1) _ fs(3)] by metis
  have "(?f((4, h) := None, (kf, h) := Some (?side, king))) (rf, h) = Some (?side, rook)"
    "(?f((4, h) := None, (kf, h) := Some (?side, king))) (rt, h) = None" "(rf, h) \<noteq> (rt, h)"
    using castle fs by auto
  then obtain b2 where b2: "move_piece b1 (csq (rf, h)) (csq (rt, h)) = Inr b2" "same_state b1 b2"
    "places b2 (?f((4, h) := None, (kf, h) := Some (?side, king), (rf, h) := None,
       (rt, h) := Some (?side, rook)))"
    using places_move [OF b1(3) _ on(2)] by metis
  have whites: "is_whites_move b1 = is_whites_move b" using b1(2) by (simp add: same_state_def)
  have "same_state b b2" by (rule same_state_trans [OF b1(2) b2(2)])
  moreover have "do_castle_move b (mv b ((4, h), (kf, h), king, ty)) =
      Inr (adjust_castling_rights (b2\<lparr>en_passant_square := None\<rparr>) (mv b ((4, h), (kf, h), king, ty)))"
    using castle b1(1) b2(1) whites assms(2)
    by (auto simp: do_castle_move_def Let_def home_rank_def)
  moreover have "places b2 (relocate ?side (4, h) (kf, h) king ty ?f)" "ty \<noteq> two_step_pawn"
    using castle b2(3) by (auto simp: relocate_simps)
  ultimately show ?thesis
    using that pieces_moved_adjust [OF assms(1,3) on(1)] by blast
qed

end
