(* ===== verification/Pretty.thy ===== *)
theory Pretty
  imports Fen Absl_StrCat Play
begin

text \<open>
  Pretty printing in \<open>src/src/board.cc\<close>: the picture of a board, a move in coordinate
  notation, and the picture of a single bitboard. Strings are the bytes of their UTF-8
  encoding. The picture is shown to determine the placement of the pieces.
\<close>

section \<open>The code\<close>

definition top_left_corner :: string where "top_left_corner = [CHR 0xE2, CHR 0x94, CHR 0x8C]"
definition top_right_corner :: string where "top_right_corner = [CHR 0xE2, CHR 0x94, CHR 0x90]"
definition bottom_left_corner :: string where "bottom_left_corner = [CHR 0xE2, CHR 0x94, CHR 0x94]"
definition bottom_right_corner :: string where "bottom_right_corner = [CHR 0xE2, CHR 0x94, CHR 0x98]"
definition horizontal :: string where "horizontal = [CHR 0xE2, CHR 0x94, CHR 0x80]"
definition vertical :: string where "vertical = [CHR 0xE2, CHR 0x94, CHR 0x82]"
definition left_side_tee :: string where "left_side_tee = [CHR 0xE2, CHR 0x94, CHR 0x9C]"
definition right_side_tee :: string where "right_side_tee = [CHR 0xE2, CHR 0x94, CHR 0xA4]"
definition top_tee :: string where "top_tee = [CHR 0xE2, CHR 0x94, CHR 0xAC]"
definition bottom_tee :: string where "bottom_tee = [CHR 0xE2, CHR 0x94, CHR 0xB4]"
definition cross :: string where "cross = [CHR 0xE2, CHR 0x94, CHR 0xBC]"

definition newline :: string where "newline = [CHR 0x0A]"

definition occupiers_unicode_symbol :: "Board \<Rightarrow> int \<Rightarrow> int \<Rightarrow> string result" where
  "occupiers_unicode_symbol b file rank =
     bindr (coordinates_to_square file rank) (\<lambda>square. Inr
       (if square AND white_pawns b \<noteq> 0 then [CHR 0xE2, CHR 0x99, CHR 0x99]
        else if square AND white_rooks b \<noteq> 0 then [CHR 0xE2, CHR 0x99, CHR 0x96]
        else if square AND white_knights b \<noteq> 0 then [CHR 0xE2, CHR 0x99, CHR 0x98]
        else if square AND white_bishops b \<noteq> 0 then [CHR 0xE2, CHR 0x99, CHR 0x97]
        else if square AND white_queens b \<noteq> 0 then [CHR 0xE2, CHR 0x99, CHR 0x95]
        else if square AND white_king b \<noteq> 0 then [CHR 0xE2, CHR 0x99, CHR 0x94]
        else if square AND black_pawns b \<noteq> 0 then [CHR 0xE2, CHR 0x99, CHR 0x9F]
        else if square AND black_rooks b \<noteq> 0 then [CHR 0xE2, CHR 0x99, CHR 0x9C]
        else if square AND black_knights b \<noteq> 0 then [CHR 0xE2, CHR 0x99, CHR 0x9E]
        else if square AND black_bishops b \<noteq> 0 then [CHR 0xE2, CHR 0x99, CHR 0x9D]
        else if square AND black_queens b \<noteq> 0 then [CHR 0xE2, CHR 0x99, CHR 0x9B]
        else if square AND black_king b \<noteq> 0 then [CHR 0xE2, CHR 0x99, CHR 0x9A]
        else '' ''))"

text \<open>The top and the bottom of the picture differ in the corners and the tee.\<close>

definition border :: "string \<Rightarrow> string \<Rightarrow> string \<Rightarrow> string \<Rightarrow> string result" where
  "border left tee right res =
     bindr (for_each [0..board_size - 2] (\<lambda>i res.
         bindr (StrCat3 horizontal horizontal horizontal) (\<lambda>s. Inr ((res @ s) @ tee)))
       ((res @ ''  '') @ left)) (\<lambda>res.
     Inr (((res @ (horizontal @ horizontal @ horizontal)) @ right) @ newline))"

definition row_of_pieces :: "Board \<Rightarrow> int \<Rightarrow> string \<Rightarrow> string result" where
  "row_of_pieces b rank res =
     bindr (for_each [0..board_size - 1] (\<lambda>file res.
         bindr (occupiers_unicode_symbol b file rank) (\<lambda>s.
           Inr ((((res @ '' '') @ s) @ '' '') @ vertical)))
       (((res @ [char_of (49 + rank)]) @ '' '') @ vertical)) (\<lambda>res.
     Inr (res @ newline))"

definition dividing_line :: "string \<Rightarrow> string result" where
  "dividing_line res =
     bindr (for_each [0..board_size - 2] (\<lambda>i res.
         bindr (StrCat4 horizontal horizontal horizontal cross) (\<lambda>s. Inr (res @ s)))
       ((res @ ''  '') @ left_side_tee)) (\<lambda>res.
     bindr (StrCat4 horizontal horizontal horizontal right_side_tee) (\<lambda>s.
     Inr ((res @ s) @ newline)))"

definition file_letters :: "string \<Rightarrow> string result" where
  "file_letters res =
     bindr (for_each [0..board_size - 2] (\<lambda>i res. Inr (((res @ '' '') @ [char_of (i + 97)]) @ ''  ''))
       (res @ ''   '')) (\<lambda>res.
     Inr (((res @ '' '') @ ''h'') @ newline))"

definition to_pretty_str :: "Board \<Rightarrow> string result" where
  "to_pretty_str b =
     bindr (border top_left_corner top_tee top_right_corner []) (\<lambda>res.
     bindr (for_each (rev [0..board_size - 1]) (\<lambda>rank res.
         bindr (row_of_pieces b rank res) (\<lambda>res. if rank \<noteq> 0 then dividing_line res else Inr res))
       res) (\<lambda>res.
     bindr (border bottom_left_corner bottom_tee bottom_right_corner res) (\<lambda>res.
     file_letters res)))"

definition Move_to_pretty_str :: "Move \<Rightarrow> string result" where
  "Move_to_pretty_str m =
     bindr (square_to_str (src_square m)) (\<lambda>s.
     bindr (square_to_str (dst_square m)) (\<lambda>d. StrCat2 s d))"

definition bb_to_pretty_str :: "Board \<Rightarrow> Bitboard \<Rightarrow> string result" where
  "bb_to_pretty_str storage bb =
     bindr (Board_default storage) (\<lambda>board.
       let board = board\<lparr>white_pawns := 0, white_rooks := 0, white_knights := 0, white_bishops := 0,
         white_queens := 0, white_king := 0, black_pawns := 0, black_rooks := 0,
         black_knights := 0, black_bishops := 0, black_queens := 0, black_king := 0\<rparr>;
           board = board\<lparr>black_pawns := bb\<rparr>
       in to_pretty_str board)"

text \<open>\<open>PrintTo\<close>, with the stream as the text written to it so far.\<close>

definition PrintTo_Board :: "Board \<Rightarrow> string \<Rightarrow> string result" where
  "PrintTo_Board board os = bindr (to_pretty_str board) (\<lambda>s. Inr (os @ s))"

definition PrintTo_Move :: "Move \<Rightarrow> string \<Rightarrow> string result" where
  "PrintTo_Move move os = bindr (Move_to_pretty_str move) (\<lambda>s. Inr (os @ s))"

section \<open>The picture\<close>

fun symbol :: "bb_ptr option \<Rightarrow> string" where
  "symbol None = '' ''"
| "symbol (Some (white, pawn)) = [CHR 0xE2, CHR 0x99, CHR 0x99]"
| "symbol (Some (white, rook)) = [CHR 0xE2, CHR 0x99, CHR 0x96]"
| "symbol (Some (white, knight)) = [CHR 0xE2, CHR 0x99, CHR 0x98]"
| "symbol (Some (white, bishop)) = [CHR 0xE2, CHR 0x99, CHR 0x97]"
| "symbol (Some (white, queen)) = [CHR 0xE2, CHR 0x99, CHR 0x95]"
| "symbol (Some (white, king)) = [CHR 0xE2, CHR 0x99, CHR 0x94]"
| "symbol (Some (black, pawn)) = [CHR 0xE2, CHR 0x99, CHR 0x9F]"
| "symbol (Some (black, rook)) = [CHR 0xE2, CHR 0x99, CHR 0x9C]"
| "symbol (Some (black, knight)) = [CHR 0xE2, CHR 0x99, CHR 0x9E]"
| "symbol (Some (black, bishop)) = [CHR 0xE2, CHR 0x99, CHR 0x9D]"
| "symbol (Some (black, queen)) = [CHR 0xE2, CHR 0x99, CHR 0x9B]"
| "symbol (Some (black, king)) = [CHR 0xE2, CHR 0x99, CHR 0x9A]"

definition bar :: string where
  "bar = horizontal @ horizontal @ horizontal"

definition frame :: "string \<Rightarrow> string \<Rightarrow> string \<Rightarrow> string" where
  "frame left tee right = ''  '' @ left @ concat (replicate 7 (bar @ tee)) @ bar @ right @ newline"

definition cell :: "bb_ptr option \<Rightarrow> string" where
  "cell p = '' '' @ symbol p @ '' '' @ vertical"

definition picture_row :: "placing \<Rightarrow> int \<Rightarrow> string" where
  "picture_row f r = [char_of (49 + r)] @ '' '' @ vertical @ concat (map (\<lambda>i. cell (f (i, r))) [0..7]) @
     newline @ (if r = 0 then [] else frame left_side_tee cross right_side_tee)"

definition picture :: "placing \<Rightarrow> string" where
  "picture f = frame top_left_corner top_tee top_right_corner @
     concat (map (picture_row f) (rev [0..7])) @
     frame bottom_left_corner bottom_tee bottom_right_corner @
     ''   '' @ concat (map (\<lambda>c. '' '' @ [c] @ ''  '') ''abcdefg'') @ '' h'' @ newline"

lemma occupiers_unicode_symbol_eq:
  assumes "disjoint_pieces b" "on_board (i, r)"
  shows "occupiers_unicode_symbol b i r = Inr (symbol (piece_at b (i, r)))"
proof -
  have on: "csq (i, r) AND deref b p \<noteq> 0 \<longleftrightarrow> piece_at b (i, r) = Some p" for p
    using placesD [OF places_piece_at [OF assms(1)], of p "(i, r)"] assms(2)
    by (simp add: csq_and on_def del: on_board_pair)
  note fields = on [of "(white, pawn)"] on [of "(white, rook)"] on [of "(white, knight)"]
    on [of "(white, bishop)"] on [of "(white, queen)"] on [of "(white, king)"]
    on [of "(black, pawn)"] on [of "(black, rook)"] on [of "(black, knight)"]
    on [of "(black, bishop)"] on [of "(black, queen)"] on [of "(black, king)"]
  show ?thesis
    unfolding occupiers_unicode_symbol_def coordinates_to_square_csq [OF assms(2)] bindr_Inr
      fields [unfolded deref.simps]
    by (cases "piece_at b (i, r)" rule: symbol.cases) simp_all
qed

lemma border_eq: "border left tee right res = Inr (res @ frame left tee right)"
  by (simp add: border_def frame_def StrCat_eq bar_def board_size_def eval_nat_numeral upto_rec1)

lemma dividing_line_eq: "dividing_line res = Inr (res @ frame left_side_tee cross right_side_tee)"
  by (simp add: dividing_line_def frame_def StrCat_eq bar_def board_size_def eval_nat_numeral upto_rec1)

lemma row_of_pieces_eq:
  assumes "disjoint_pieces b" "0 \<le> r" "r \<le> 7"
  shows "row_of_pieces b r res = Inr (res @ [char_of (49 + r)] @ '' '' @ vertical @
    concat (map (\<lambda>i. cell (piece_at b (i, r))) [0..7]) @ newline)"
proof -
  have "for_each [0..board_size - 1] (\<lambda>file res.
      bindr (occupiers_unicode_symbol b file r) (\<lambda>s. Inr ((((res @ '' '') @ s) @ '' '') @ vertical))) s =
    Inr (s @ concat (map (\<lambda>i. cell (piece_at b (i, r))) [0..board_size - 1]))" for s
    by (rule for_each_append)
      (use assms in \<open>auto simp: occupiers_unicode_symbol_eq on_board_def cell_def board_size_def\<close>)
  then show ?thesis by (simp add: row_of_pieces_def board_size_def del: upto.simps upto_rec_numeral)
qed

lemma file_letters_eq:
  "file_letters res = Inr (res @ ''   '' @ concat (map (\<lambda>c. '' '' @ [c] @ ''  '') ''abcdefg'') @ '' h'' @ newline)"
  by (simp add: file_letters_def board_size_def upto_rec1 char_of_def bit_simps)

lemma to_pretty_str_eq: "disjoint_pieces b \<Longrightarrow> to_pretty_str b = Inr (picture (piece_at b))"
proof -
  assume "disjoint_pieces b"
  then have "for_each (rev [0..board_size - 1]) (\<lambda>rank res.
      bindr (row_of_pieces b rank res) (\<lambda>res. if rank \<noteq> 0 then dividing_line res else Inr res)) s =
    Inr (s @ concat (map (picture_row (piece_at b)) (rev [0..board_size - 1])))" for s
    by (intro for_each_append)
      (auto simp: row_of_pieces_eq dividing_line_eq picture_row_def board_size_def simp del: upto.simps)
  then show ?thesis
    by (simp add: to_pretty_str_def border_eq file_letters_eq picture_def board_size_def
        del: upto.simps upto_rec_numeral)
qed

section \<open>The picture determines the placement\<close>

text \<open>The symbols are a prefix code, and so are the cells and the rows made of them.\<close>

lemma symbol_prefix: "symbol p @ x = symbol q @ y \<longleftrightarrow> p = q \<and> x = y"
proof
  assume eq: "symbol p @ x = symbol q @ y"
  have hd: "hd (symbol p @ z) = (if p = None then CHR '' '' else CHR 0xE2)" for p z
    by (cases p rule: symbol.cases) simp_all
  have len: "length (symbol p) = (if p = None then 1 else 3)" for p
    by (cases p rule: symbol.cases) simp_all
  have inj: "symbol p = symbol q \<Longrightarrow> p = q"
    by (cases p rule: symbol.cases; cases q rule: symbol.cases) simp_all
  have "hd (symbol p @ x) = hd (symbol q @ y)" using eq by simp
  then have "length (symbol p) = length (symbol q)" unfolding hd len by (simp split: if_splits)
  with eq have "symbol p = symbol q" "x = y" by simp_all
  with inj show "p = q \<and> x = y" by simp
qed simp

lemma cells_prefix:
  "length ps = length qs \<Longrightarrow> concat (map cell ps) @ x = concat (map cell qs) @ y \<longleftrightarrow> ps = qs \<and> x = y"
proof (induction ps qs rule: list_induct2)
  case (Cons p ps q qs)
  then show ?case by (auto simp: cell_def symbol_prefix)
qed simp

lemma picture_row_prefix:
  "picture_row f r @ x = picture_row g r @ y \<longleftrightarrow> (\<forall>i\<in>{0..7}. f (i, r) = g (i, r)) \<and> x = y"
proof -
  have "picture_row f r @ x = picture_row g r @ y \<longleftrightarrow>
      map (\<lambda>i. f (i, r)) [0..7] = map (\<lambda>i. g (i, r)) [0..7] \<and> x = y"
    using cells_prefix [of "map (\<lambda>i. f (i, r)) [0..7]" "map (\<lambda>i. g (i, r)) [0..7]"]
    by (simp add: picture_row_def comp_def del: upto.simps upto_rec_numeral map_eq_conv)
  also have "map (\<lambda>i. f (i, r)) [0..7] = map (\<lambda>i. g (i, r)) [0..7] \<longleftrightarrow> (\<forall>i\<in>{0..7}. f (i, r) = g (i, r))"
    by (simp only: map_eq_conv set_upto)
  finally show ?thesis .
qed

lemma rows_prefix:
  "concat (map (picture_row f) rs) @ x = concat (map (picture_row g) rs) @ y \<longleftrightarrow>
     (\<forall>r\<in>set rs. \<forall>i\<in>{0..7}. f (i, r) = g (i, r)) \<and> x = y"
  by (induction rs) (auto simp: picture_row_prefix)

lemma picture_inj:
  "picture f = picture g \<longleftrightarrow> (\<forall>c. on_board c \<longrightarrow> f c = g c)"
proof -
  have "picture f = picture g \<longleftrightarrow> (\<forall>r\<in>set (rev [0..7]). \<forall>i\<in>{0..7}. f (i, r) = g (i, r))"
    unfolding picture_def by (simp only: same_append_eq rows_prefix simp_thms)
  then show ?thesis by (auto simp: on_board_def)
qed

end
