(* ===== verification/Positions.thy ===== *)
theory Positions
  imports Play
begin

text \<open>
  Legal positions: the invariant of the engine. A board is well formed when its bitboards do
  not overlap, each side has one king, no pawn stands on a back rank, the en passant square
  and the castling rights agree with the pieces, and the move counter fits its type; it is a
  legal position when moreover the side that has just moved is not in check. From a legal
  position the generator succeeds and returns exactly the legal moves, and every one of them
  leads to a legal position.
\<close>

section \<open>The invariant\<close>

fun disjoint_bitboards :: "Bitboard list \<Rightarrow> bool" where
  "disjoint_bitboards [] = True"
| "disjoint_bitboards (w # ws) = (list_all (\<lambda>v. w AND v = 0) ws \<and> disjoint_bitboards ws)"

definition ep_ok :: "Board \<Rightarrow> bool" where
  "ep_ok b \<longleftrightarrow> (case en_passant_square b of
       None \<Rightarrow> True
     | Some w \<Rightarrow> is_square w \<and> rank_idx w = ep_rank (side_to_move b) \<and> w AND all_pieces b = 0 \<and>
         (if is_whites_move b then drop_bit 8 w AND black_pawns b \<noteq> 0
          else push_bit 8 w AND white_pawns b \<noteq> 0))"

definition wf_board :: "Board \<Rightarrow> bool" where
  "wf_board b \<longleftrightarrow> disjoint_bitboards (map (deref b) all_bitboards) \<and> kings_ok b \<and> pawns_ok b \<and>
     ep_ok b \<and> castling_ok b \<and> in_int (num_moves b)"

definition legal_position :: "Board \<Rightarrow> bool" where
  "legal_position b \<longleftrightarrow> wf_board b \<and> is_king_attacked b (flip_color (side_to_move b)) = Inr False"

lemma disjoint_bitboards_iff:
  assumes "distinct ps"
  shows "disjoint_bitboards (map (deref b) ps) \<longleftrightarrow>
    (\<forall>p\<in>set ps. \<forall>q\<in>set ps. \<forall>c. on b p c \<longrightarrow> on b q c \<longrightarrow> p = q)"
  using assms
proof (induction ps)
  case Nil
  then show ?case by simp
next
  case (Cons x ps)
  have "list_all (\<lambda>v. deref b x AND v = 0) (map (deref b) ps) \<longleftrightarrow>
      (\<forall>q\<in>set ps. \<forall>c. \<not> (on b x c \<and> on b q c))"
    unfolding list_all_iff bb_and_0_occ_iff on_def set_map by blast
  moreover have "x \<notin> set ps" using Cons.prems by simp
  moreover note Cons.IH
  ultimately show ?case using Cons.prems
    unfolding list.map disjoint_bitboards.simps distinct.simps list.set ball_simps
    by blast
qed

lemma disjoint_pieces_iff: "disjoint_bitboards (map (deref b) all_bitboards) \<longleftrightarrow> disjoint_pieces b"
  unfolding disjoint_bitboards_iff [OF store.ptrs_distinct] disjoint_pieces_def
  using all_bitboards_all by blast

lemma ep_ok_iff:
  "ep_ok b \<longleftrightarrow> (case en_passant_square b of
       None \<Rightarrow> True
     | Some w \<Rightarrow> \<exists>e. on_board e \<and> w = csq e \<and> snd e = ep_rank (side_to_move b) \<and>
         \<not> occupied b e \<and>
         on b (flip_color (side_to_move b), pawn) (cadd e 1 (0, - forward (side_to_move b))))"
proof (cases "en_passant_square b")
  case None
  then show ?thesis by (simp add: ep_ok_def)
next
  case (Some w)
  show ?thesis
  proof (cases "is_square w")
    case True
    then obtain e where e: "on_board e" "w = csq e" by (rule is_square_coord)
    have ex: "(\<exists>e'. on_board e' \<and> w = csq e' \<and> P e') \<longleftrightarrow> P e" for P
      using e csq_inj by blast
    have "square_or_0 c AND deref b p = 0 \<longleftrightarrow> \<not> on b p c" for c p by (rule square_or_0_pawn)
    from this [of _ "(white, pawn)"] this [of _ "(black, pawn)"] show ?thesis
      unfolding ep_ok_def Some option.case ex
      using e by (simp add: rank_idx_csq csq_and occ_all_pieces shift_csq forward_def)
  next
    case False
    then show ?thesis using Some by (auto simp: ep_ok_def)
  qed
qed

section \<open>Candidate moves\<close>

text \<open>Castling, and every move that a side may try: pseudolegal moves and castling moves.\<close>

definition castles :: "Board \<Rightarrow> cmove \<Rightarrow> bool" where
  "castles b m \<longleftrightarrow> (let side = side_to_move b; h = home_rank side in
     m = ((4, h), (6, h), king, castle_kingside) \<and> may_castle_kingside b side \<or>
     m = ((4, h), (2, h), king, castle_queenside) \<and> may_castle_queenside b side)"

definition candidate :: "Board \<Rightarrow> cmove \<Rightarrow> bool" where
  "candidate b m \<longleftrightarrow> castles b m \<or>
     (case m of (s, t, k, ty) \<Rightarrow> pseudolegal b (side_to_move b) s t k ty)"

lemma wf_boardD:
  assumes "wf_board b"
  shows "board_ok b" "generator_ok b" "disjoint_pieces b" "kings_ok b" "pawns_ok b" "ep_ok b"
    "castling_ok b" "in_int (num_moves b)"
proof -
  have "ep_square_ok b" if "ep_ok b"
    using that by (auto simp: ep_ok_def ep_square_ok_def split: option.splits)
  with assms show "board_ok b" "generator_ok b" "disjoint_pieces b" "kings_ok b" "pawns_ok b" "ep_ok b"
    "castling_ok b" "in_int (num_moves b)"
    by (simp_all add: wf_board_def board_ok_def generator_ok_def disjoint_pieces_iff)
qed

lemma legal_position_iff:
  "legal_position b \<longleftrightarrow> wf_board b \<and> \<not> in_check b (flip_color (side_to_move b))"
  using is_king_attacked_eq [OF wf_boardD(2,3)] by (auto simp: legal_position_def)

lemma legal_position_code [code]:
  "legal_position b \<longleftrightarrow> wf_board b \<and> \<not> in_check b (flip_color (side_to_move b))"
  by (rule legal_position_iff)

lemma ep_move_facts:
  assumes "wf_board b" "en_passant_square b = Some (csq t)" "on_board t"
  shows "snd t = ep_rank (side_to_move b)" "\<not> occupied b t"
    "on b (flip_color (side_to_move b), pawn) (cadd t 1 (0, - forward (side_to_move b)))"
  using wf_boardD(6) [OF assms(1)] assms(2,3) by (auto simp: ep_ok_iff csq_inj)

lemma ep_victim:
  "t = diag side x s \<Longrightarrow> cadd t 1 (0, - forward side) = (fst t, snd s)"
  by (simp add: cadd_def)

lemma promotion_types_iff: "ty \<in> set promotion_move_types \<longleftrightarrow> promotion_type ty"
  by (simp add: promotion_type_def)

lemma move_pieces_promotion:
  "promotion_type ty \<Longrightarrow> move_pieces b (mv b (s, t, k, ty)) = do_promotion_move b (mv b (s, t, k, ty))"
  by (auto simp: move_pieces_def promotion_type_def promotion_move_types_def)

lemma castles_move_pieces:
  assumes "wf_board b" "castles b m"
  obtains b1 where "move_pieces b (mv b m) = Inr b1" "pieces_moved b m b1"
proof -
  let ?side = "side_to_move b" let ?h = "home_rank ?side"
  note ok = wf_boardD [OF assms(1)]
  have home: "kingside_right b ?side \<Longrightarrow> on b (?side, king) (4, ?h) \<and> on b (?side, rook) (7, ?h)"
    "queenside_right b ?side \<Longrightarrow> on b (?side, king) (4, ?h) \<and> on b (?side, rook) (0, ?h)"
    using ok(7) unfolding castling_ok_iff [OF ok(4)] by blast+
  from assms(2) consider
    (k) "m = ((4, ?h), (6, ?h), king, castle_kingside)" "may_castle_kingside b ?side"
    | (q) "m = ((4, ?h), (2, ?h), king, castle_queenside)" "may_castle_queenside b ?side"
    unfolding castles_def Let_def by blast
  then show ?thesis
  proof cases
    case k
    then have "on b (?side, king) (4, ?h)" "on b (?side, rook) (7, ?h)"
      "\<not> occupied b (6, ?h)" "\<not> occupied b (5, ?h)"
      using home(1) unfolding may_castle_kingside_def by blast+
    then obtain b1 where "do_castle_move b (mv b m) = Inr b1" "pieces_moved b m b1"
      unfolding k(1) using do_castle_move_ok [OF ok(1) refl, of castle_kingside 6 7 5] by blast
    then show ?thesis by (intro that [of b1]) (simp_all add: move_pieces_def k(1))
  next
    case q
    then have "on b (?side, king) (4, ?h)" "on b (?side, rook) (0, ?h)"
      "\<not> occupied b (2, ?h)" "\<not> occupied b (3, ?h)"
      using home(2) unfolding may_castle_queenside_def by blast+
    then obtain b1 where "do_castle_move b (mv b m) = Inr b1" "pieces_moved b m b1"
      unfolding q(1) using do_castle_move_ok [OF ok(1) refl, of castle_queenside 2 0 3] by blast
    then show ?thesis by (intro that [of b1]) (simp_all add: move_pieces_def q(1))
  qed
qed

lemma pseudolegal_move_pieces:
  assumes "wf_board b" "pseudolegal b (side_to_move b) s t k ty"
  obtains b1 where "move_pieces b (mv b (s, t, k, ty)) = Inr b1" "pieces_moved b (s, t, k, ty) b1"
proof -
  note ok = wf_boardD [OF assms(1)]
  note on = pseudolegal_on_board [OF ok(5) assms(2)]
  note goal = that
  let ?side = "side_to_move b"
  have simple: thesis if "ty = simple" "on b (?side, k) s" "\<not> occupied b t"
    using do_simple_move_ok [OF ok(1) that(2) on(2) that(3)] goal that(1)
    by (auto simp: move_pieces_def)
  have capture: thesis if "ty = capture" "on b (?side, k) s"
    using do_capture_move_ok [OF ok(1) that(2) on(2,3)] goal that(1)
    by (auto simp: move_pieces_def)
  have promotion: thesis if "ty \<in> set promotion_move_types" "on b (?side, k) s"
    using do_promotion_move_ok [OF ok(1) that(2) on(2), of ty] goal that(1)
    by (metis promotion_types_iff move_pieces_promotion)
  from assms(2) show ?thesis
  proof cases
    case pawn_double
    show ?thesis
      by (rule do_two_step_pawn_move_ok [OF ok(1) pawn_double(3,4,5,7)], rule that)
        (simp_all add: pawn_double(1,2) move_pieces_def)
  next
    case (pawn_en_passant x)
    note facts = ep_move_facts [OF assms(1) pawn_en_passant(7,6)]
    show ?thesis
      by (rule do_en_passant_move_ok [OF ok(1) pawn_en_passant(3,6,7,5,4) facts(1,2)], rule that)
        (simp_all add: pawn_en_passant(1,2) move_pieces_def)
  qed (use simple capture promotion in blast)+
qed

section \<open>The invariant after a move\<close>

lemma wf_piece_at:
  assumes "wf_board b"
  shows "on b p c \<longleftrightarrow> piece_at b c = Some p" "occupied b c \<longleftrightarrow> piece_at b c \<noteq> None"
    "piece_at b c = Some (side, king) \<longleftrightarrow> c = king_coord b side"
proof -
  have f: "places b (piece_at b)" by (rule board_ok_places [OF wf_boardD(1) [OF assms]])
  show on: "on b p c \<longleftrightarrow> piece_at b c = Some p" for p by (rule placesD [OF f])
  show "occupied b c \<longleftrightarrow> piece_at b c \<noteq> None" by (rule places_occupied [OF f])
  show "piece_at b c = Some (side, king) \<longleftrightarrow> c = king_coord b side"
    unfolding on [symmetric] by (rule king_coord(3) [OF wf_boardD(4) [OF assms]])
qed

lemma pawn_target_rank:
  assumes "wf_board b" "pseudolegal b (side_to_move b) s t pawn ty" "\<not> promotion_type ty"
  shows "1 \<le> snd t \<and> snd t \<le> 6"
proof -
  let ?side = "side_to_move b"
  have s: "1 \<le> snd s" "snd s \<le> 6" if "on b (?side, pawn) s"
    using wf_boardD(5) [OF assms(1)] that unfolding pawns_ok_iff by blast+
  have one: "1 \<le> snd t \<and> snd t \<le> 6"
    if "on b (?side, pawn) s" "snd s \<noteq> promotion_rank ?side" "t = diag ?side x s" for x
    using s [OF that(1)] that(2,3) by (auto simp: promotion_rank_def cadd_def forward_def split: if_splits)
  from assms(2) show ?thesis
  proof cases
    case pawn_double
    then show ?thesis by (auto simp: start_rank_def cadd_def forward_def)
  next
    case (pawn_en_passant x)
    then show ?thesis
      using ep_move_facts(1) [OF assms(1)] by (auto simp: ep_rank_def)
  qed (use one assms(3) promotion_types_iff in auto)
qed

text \<open>
  After a pseudolegal move the mover stands on its destination, its origin and possibly the
  square of a pawn taken en passant are empty, and nothing else has changed.
\<close>

lemma pseudolegal_relocate:
  assumes "wf_board b" "\<not> in_check b (flip_color (side_to_move b))"
    "pseudolegal b (side_to_move b) s t k ty"
  obtains k' V where
    "relocate (side_to_move b) s t k ty (piece_at b) =
       (\<lambda>e. if e = t then Some (side_to_move b, k') else if e = s \<or> e \<in> V then None else piece_at b e)"
    "piece_at b s = Some (side_to_move b, k)" "s \<noteq> t" "on_board t"
    "k' = king \<longleftrightarrow> k = king" "k' = pawn \<longrightarrow> 1 \<le> snd t \<and> snd t \<le> 6"
    "\<forall>v\<in>V. piece_at b v = Some (flip_color (side_to_move b), pawn)"
    "\<forall>c. piece_at b t \<noteq> Some (c, king)" "\<forall>l. piece_at b t \<noteq> Some (side_to_move b, l)"
proof -
  let ?side = "side_to_move b" and ?f = "piece_at b"
  note ok = wf_boardD [OF assms(1)] and at = wf_piece_at [OF assms(1)]
  note on = pseudolegal_on_board [OF ok(5) assms(3)]
  have s: "?f s = Some (?side, k)" using assms(3) unfolding at(1) [symmetric] by cases blast+
  have "\<not> occupied b t \<or> enemy_on b ?side t"
    using assms(3) ep_move_facts(2) [OF assms(1)] by cases blast+
  then have friend: "\<forall>l. ?f t \<noteq> Some (?side, l)"
    unfolding enemy_on_def at(1,2) using flip_neq by (metis option.distinct(1) option.inject prod.inject)
  have enemy: "?f t \<noteq> Some (flip_color ?side, king)"
  proof
    assume "?f t = Some (flip_color ?side, king)"
    then have t: "on b (flip_color ?side, king) t" unfolding at(1) .
    then have "occupied b t" unfolding occupied_def by blast
    with pseudolegal_attacks [OF assms(3) on(2)] have "attacked b ?side t" by blast
    with t assms(2) show False unfolding in_check_def flip_flip by blast
  qed
  have nk: "\<forall>c. ?f t \<noteq> Some (c, king)"
  proof
    fix c
    have "c = ?side \<or> c = flip_color ?side" using Color_neq_iff by blast
    then show "?f t \<noteq> Some (c, king)" using friend enemy by (elim disjE) (simp_all only: simp_thms)
  qed
  note that = that [OF _ s on(3,2) _ _ _ nk friend]
  show ?thesis
  proof (cases "ty = en_passant")
    case True
    with assms(3) obtain x where ep: "k = pawn" "t = diag ?side x s"
      "en_passant_square b = Some (csq t)"
      by cases (auto simp: promotion_move_types_def)
    have v: "?f (fst t, snd s) = Some (flip_color ?side, pawn)"
      using ep_move_facts(3) [OF assms(1) ep(3) on(2)] unfolding ep_victim [OF ep(2)] at(1) .
    show ?thesis
    proof (rule that [of pawn "{(fst t, snd s)}"])
      have "(fst t, snd s) \<noteq> t" using ep(2) by (auto simp: cadd_def forward_def prod_eq_iff)
      then show "relocate ?side s t k ty ?f = (\<lambda>e. if e = t then Some (?side, pawn)
          else if e = s \<or> e \<in> {(fst t, snd s)} then None else ?f e)"
        by (auto simp: True relocate_simps ep(1) fun_eq_iff)
      show "pawn = pawn \<longrightarrow> 1 \<le> snd t \<and> snd t \<le> 6"
        using pawn_target_rank [OF assms(1), of s t ty] assms(3) ep(1) True by simp
    qed (use ep v in auto)
  next
    case False
    let ?k = "if promotion_type ty then promoted ty else k"
    have castle: "ty \<notin> {castle_kingside, castle_queenside}"
      using assms(3) by cases (auto simp: promotion_move_types_def)
    have pk: "k = pawn" if "promotion_type ty" using assms(3) that by cases simp_all
    have kp: "promoted ty \<notin> {king, pawn}" if "promotion_type ty"
      using that by (auto simp: promotion_type_def promotion_move_types_def)
    show ?thesis
    proof (rule that [of ?k "{}"])
      show "relocate ?side s t k ty ?f = (\<lambda>e. if e = t then Some (?side, ?k)
          else if e = s \<or> e \<in> {} then None else ?f e)"
        using False castle by (cases ty) (auto simp: relocate_def fun_eq_iff)
      show "?k = king \<longleftrightarrow> k = king" using pk kp by auto
      show "?k = pawn \<longrightarrow> 1 \<le> snd t \<and> snd t \<le> 6"
        using kp pawn_target_rank [OF assms(1), of s t ty] assms(3) by (auto split: if_splits)
    qed simp
  qed
qed

definition king_after :: "Board \<Rightarrow> cmove \<Rightarrow> Color \<Rightarrow> coord" where
  "king_after b m c = (case m of (s, t, k, ty) \<Rightarrow>
     if c = side_to_move b \<and> k = king then t else king_coord b c)"

text \<open>What the invariant needs of the new placement.\<close>

definition sound_placing :: "Board \<Rightarrow> cmove \<Rightarrow> placing \<Rightarrow> bool" where
  "sound_placing b m g \<longleftrightarrow> (case m of (s, t, k, ty) \<Rightarrow>
     (\<forall>c e. g e = Some (c, king) \<longleftrightarrow> e = king_after b m c) \<and>
     (\<forall>c e. g e = Some (c, pawn) \<longrightarrow> 1 \<le> snd e \<and> snd e \<le> 6) \<and>
     (\<forall>c. kingside_right b c \<and> s \<noteq> (7, home_rank c) \<and> t \<noteq> (7, home_rank c) \<and> s \<noteq> (4, home_rank c) \<longrightarrow>
        g (7, home_rank c) = Some (c, rook)) \<and>
     (\<forall>c. queenside_right b c \<and> s \<noteq> (0, home_rank c) \<and> t \<noteq> (0, home_rank c) \<and> s \<noteq> (4, home_rank c) \<longrightarrow>
        g (0, home_rank c) = Some (c, rook)) \<and>
     (s = king_coord b (side_to_move b) \<longleftrightarrow> k = king) \<and> on_board t)"

lemma sound_placingI:
  assumes "\<And>c e. g e = Some (c, king) \<longleftrightarrow> e = king_after b (s, t, k, ty) c"
    "\<And>c e. g e = Some (c, pawn) \<Longrightarrow> 1 \<le> snd e \<and> snd e \<le> 6"
    "\<And>c. kingside_right b c \<Longrightarrow> s \<noteq> (7, home_rank c) \<Longrightarrow> t \<noteq> (7, home_rank c) \<Longrightarrow>
      s \<noteq> (4, home_rank c) \<Longrightarrow> g (7, home_rank c) = Some (c, rook)"
    "\<And>c. queenside_right b c \<Longrightarrow> s \<noteq> (0, home_rank c) \<Longrightarrow> t \<noteq> (0, home_rank c) \<Longrightarrow>
      s \<noteq> (4, home_rank c) \<Longrightarrow> g (0, home_rank c) = Some (c, rook)"
    "s = king_coord b (side_to_move b) \<longleftrightarrow> k = king" "on_board t"
  shows "sound_placing b (s, t, k, ty) g"
  unfolding sound_placing_def prod.case
proof (intro conjI allI impI)
  show "1 \<le> snd e" "snd e \<le> 6" if "g e = Some (c, pawn)" for c e
    using assms(2) [OF that] by simp_all
qed (use assms in \<open>simp_all only: not_False_eq_True\<close>)

lemma wf_home:
  assumes "wf_board b"
  shows "kingside_right b c \<Longrightarrow> king_coord b c = (4, home_rank c) \<and> piece_at b (7, home_rank c) = Some (c, rook)"
    and "queenside_right b c \<Longrightarrow> king_coord b c = (4, home_rank c) \<and> piece_at b (0, home_rank c) = Some (c, rook)"
  using wf_boardD(7) [OF assms]
  unfolding castling_ok_iff [OF wf_boardD(4) [OF assms]] wf_piece_at [OF assms] by metis+

lemma pseudolegal_sound:
  assumes "wf_board b" "\<not> in_check b (flip_color (side_to_move b))"
    "pseudolegal b (side_to_move b) s t k ty"
  shows "sound_placing b (s, t, k, ty) (relocate (side_to_move b) s t k ty (piece_at b))"
    (is "sound_placing b _ ?g")
proof -
  let ?side = "side_to_move b" and ?f = "piece_at b"
  obtain k' V where g: "?g = (\<lambda>e. if e = t then Some (?side, k') else if e = s \<or> e \<in> V then None else ?f e)"
    and s: "?f s = Some (?side, k)" "s \<noteq> t" "on_board t"
    and k': "k' = king \<longleftrightarrow> k = king" "k' = pawn \<longrightarrow> 1 \<le> snd t \<and> snd t \<le> 6"
    and V: "\<forall>v\<in>V. ?f v = Some (flip_color ?side, pawn)"
    and t: "\<forall>c. ?f t \<noteq> Some (c, king)" "\<forall>l. ?f t \<noteq> Some (?side, l)"
    by (rule pseudolegal_relocate [OF assms])
  note at = wf_piece_at [OF assms(1)]
  have sk: "s = king_coord b ?side \<longleftrightarrow> k = king" using s(1) at(3) [of s ?side] by auto
  have V': "e \<notin> V" if "?f e = Some (c, l)" "l \<noteq> pawn" for e c l using that V by fastforce
  have kings: "?g e = Some (c, king) \<longleftrightarrow> e = king_after b (s, t, k, ty) c" for c e
  proof (cases "e = t")
    case True
    then show ?thesis using k'(1) t(1) at(3) unfolding g king_after_def by (auto split: if_splits)
  next
    case False
    then have "?g e = Some (c, king) \<longleftrightarrow> e \<noteq> s \<and> ?f e = Some (c, king)"
      using V' [of e c king] unfolding g by auto
    also have "\<dots> \<longleftrightarrow> e = king_after b (s, t, k, ty) c"
      unfolding at(3) king_after_def prod.case using False s(1) sk at(3) [of s c] by auto
    finally show ?thesis .
  qed
  have pawns: "1 \<le> snd e \<and> snd e \<le> 6" if "?g e = Some (c, pawn)" for c e
  proof (cases "e = t")
    case True
    then show ?thesis using that k'(2) unfolding g by simp
  next
    case False
    then have "on b (c, pawn) e" using that unfolding g at(1) by (auto split: if_splits)
    then show ?thesis using wf_boardD(5) [OF assms(1)] unfolding pawns_ok_iff by blast
  qed
  have rooks: "?g e = Some (c, rook)" if "?f e = Some (c, rook)" "e \<noteq> s" "e \<noteq> t" for e c
    using that V' [of e c rook] unfolding g by auto
  have "?g (7, home_rank c) = Some (c, rook)"
    if "kingside_right b c" "s \<noteq> (7, home_rank c)" "t \<noteq> (7, home_rank c)" for c
    using wf_home(1) [OF assms(1) that(1)] that(2,3) by (intro rooks) auto
  moreover have "?g (0, home_rank c) = Some (c, rook)"
    if "queenside_right b c" "s \<noteq> (0, home_rank c)" "t \<noteq> (0, home_rank c)" for c
    using wf_home(2) [OF assms(1) that(1)] that(2,3) by (intro rooks) auto
  ultimately show ?thesis
    using sk s(3) by (intro sound_placingI kings pawns) assumption+
qed

lemma castles_sound:
  assumes "wf_board b" "castles b (s, t, k, ty)"
  shows "sound_placing b (s, t, k, ty) (relocate (side_to_move b) s t k ty (piece_at b))"
    (is "sound_placing b _ ?g")
proof -
  let ?side = "side_to_move b" and ?f = "piece_at b" 
  define h where "h = home_rank ?side"
  note at = wf_piece_at [OF assms(1)]
  have free: "may_castle_kingside b ?side \<Longrightarrow> ?f (5, h) = None \<and> ?f (6, h) = None"
    "may_castle_queenside b ?side \<Longrightarrow> ?f (2, h) = None \<and> ?f (3, h) = None"
    using at(2) by (auto simp: may_castle_kingside_def may_castle_queenside_def h_def)
  have right: "may_castle_kingside b ?side \<Longrightarrow> kingside_right b ?side"
    "may_castle_queenside b ?side \<Longrightarrow> queenside_right b ?side"
    by (auto simp: may_castle_kingside_def may_castle_queenside_def)
  from assms(2) obtain kf rf rt where st: "s = (4, h)" "t = (kf, h)" "k = king"
    and g: "?g = ?f(s := None, t := Some (?side, king), (rf, h) := None, (rt, h) := Some (?side, rook))"
    and f: "?f (rf, h) = Some (?side, rook)" "?f (kf, h) = None" "?f (rt, h) = None" "king_coord b ?side = s"
    and fs: "kf = 6 \<and> rf = 7 \<and> rt = 5 \<or> kf = 2 \<and> rf = 0 \<and> rt = 3"
    using free right wf_home [OF assms(1), of ?side]
    unfolding castles_def Let_def h_def [symmetric] by (auto simp: relocate_simps)
  have h: "h \<in> {0, 7}" by (simp add: h_def home_rank_def)
  have king: "?f e = Some (c, king) \<longleftrightarrow> e = king_coord b c" for e c by (rule at(3))
  have "?f (king_coord b (flip_color ?side)) = Some (flip_color ?side, king)" "?f s = Some (?side, king)"
    using king f(4) by simp_all
  with f(1-3) st(2) have "king_coord b (flip_color ?side) \<notin> {s, t, (rf, h), (rt, h)}"
    by (auto split del: if_split)
  then have "?g e = Some (c, king) \<longleftrightarrow> e = king_after b (s, t, k, ty) c" for c e
    using fs king st f(4) Color_neq_iff [of c ?side]
    unfolding g king_after_def prod.case by (auto split: if_splits)
  moreover have "1 \<le> snd e \<and> snd e \<le> 6" if "?g e = Some (c, pawn)" for c e
  proof -
    have "on b (c, pawn) e" using that unfolding g at(1) by (auto split: if_splits)
    then show ?thesis using wf_boardD(5) [OF assms(1)] unfolding pawns_ok_iff by blast
  qed
  moreover have "?g (x, home_rank c) = Some (c, rook)"
    if "?f (x, home_rank c) = Some (c, rook)" "s \<noteq> (4, home_rank c)" for c x
  proof -
    have "home_rank c \<noteq> h" using that(2) st(1) by simp
    then show ?thesis using that st unfolding g by simp
  qed
  moreover have "on_board t" using st fs h by auto
  ultimately show ?thesis
    using wf_home [OF assms(1)] f(4) st(3) by (intro sound_placingI) auto
qed

lemma kings_okI:
  assumes "\<And>c. on_board (e c)" "\<And>c d. on b (c, king) d \<longleftrightarrow> d = e c"
  shows "kings_ok b"
proof -
  have "deref b (c, king) = csq (e c)" for c
    by (rule bb_eq_occI) (use assms in \<open>auto simp: occ_csq on_def\<close>)
  from this [of white] this [of black] assms(1) show ?thesis by (simp add: kings_ok_def)
qed

text \<open>The double step, for the en passant square it sets.\<close>

definition double_step_ok :: "Board \<Rightarrow> cmove \<Rightarrow> bool" where
  "double_step_ok b m \<longleftrightarrow> (case m of (s, t, k, ty) \<Rightarrow> ty = two_step_pawn \<longrightarrow>
     k = pawn \<and> on_board s \<and> snd s = start_rank (side_to_move b) \<and>
     t = cadd s 2 (0, forward (side_to_move b)) \<and> \<not> occupied b (ahead (side_to_move b) s))"

lemma wf_after:
  assumes wf: "wf_board b" and moved: "pieces_moved b (s, t, k, ty) b1"
    and sound: "sound_placing b (s, t, k, ty) (relocate (side_to_move b) s t k ty (piece_at b))"
    and double: "double_step_ok b (s, t, k, ty)" and n: "in_int n"
    and b': "b' = b1\<lparr>is_whites_move := \<not> is_whites_move b1, num_moves := n\<rparr>"
  shows "wf_board b'"
proof -
  let ?side = "side_to_move b" let ?g = "relocate ?side s t k ty (piece_at b)"
  note m = moved [unfolded pieces_moved_def prod.case]
  note snd_pl = sound [unfolded sound_placing_def prod.case]
  have places: "places b' ?g" using m b' by simp
  have on: "on b' p e \<longleftrightarrow> ?g e = Some p" for p e by (rule placesD [OF places])
  have side: "side_to_move b' = flip_color ?side" using m b' by simp
  have king: "on b' (c, king) e \<longleftrightarrow> e = king_after b (s, t, k, ty) c" for c e
    unfolding on using snd_pl by blast
  have kings: "kings_ok b'"
  proof (rule kings_okI [OF _ king])
    show "on_board (king_after b (s, t, k, ty) c)" for c
      using snd_pl king_coord(1) [OF wf_boardD(4) [OF wf]] by (simp add: king_after_def)
  qed
  have pawns: "pawns_ok b'"
    unfolding pawns_ok_iff on using snd_pl by blast
  have home: "king_after b (s, t, k, ty) c = (4, home_rank c)"
    if "kingside_right b c \<or> queenside_right b c" "s \<noteq> (4, home_rank c)" for c
    using that wf_home [OF wf, of c] snd_pl unfolding king_after_def prod.case by (metis (full_types))
  have kr: "kingside_right b' c \<longleftrightarrow> kingside_right b c \<and> s \<notin> {(4, home_rank c), (7, home_rank c)} \<and>
      t \<noteq> (7, home_rank c)"
    and qr: "queenside_right b' c \<longleftrightarrow> queenside_right b c \<and> s \<notin> {(4, home_rank c), (0, home_rank c)} \<and>
      t \<noteq> (0, home_rank c)" for c
    using m by (simp_all add: b')
  have castling: "castling_ok b'"
    unfolding castling_ok_iff [OF kings] kr qr king on
    using snd_pl home by (metis insertI1 insertI2)
  have ep: "ep_ok b'"
  proof (cases "ty = two_step_pawn")
    case False
    then show ?thesis using m by (simp add: b' ep_ok_iff)
  next
    case True
    then have d: "k = pawn" "on_board s" "snd s = start_rank ?side" "t = cadd s 2 (0, forward ?side)"
      "\<not> occupied b (ahead ?side s)"
      using double by (simp_all add: double_step_ok_def)
    have e: "on_board (ahead ?side s)" "snd (ahead ?side s) = ep_rank (flip_color ?side)"
      using d(2,3) by (auto simp: on_board_def cadd_def forward_def start_rank_def ep_rank_def)
    have neq: "ahead ?side s \<noteq> s" "ahead ?side s \<noteq> t"
      using d(4) by (auto simp: cadd_def forward_def prod_eq_iff)
    have t: "cadd (ahead ?side s) 1 (0, - forward (flip_color ?side)) = t"
      using d(4) by (auto simp: cadd_def forward_def)
    have "\<not> occupied b' (ahead ?side s)"
      using d(5) neq by (simp add: places_occupied [OF places] True relocate_simps wf_piece_at(2) [OF wf])
    moreover have "on b' (?side, pawn) t"
      by (simp add: on True relocate_simps d(1))
    moreover have "en_passant_square b' = Some (csq (ahead ?side s))" using m True by (simp add: b')
    ultimately show ?thesis
      unfolding ep_ok_iff side flip_flip using e t by force
  qed
  show ?thesis
    using places_disjoint [OF places] kings pawns castling ep n
    by (simp add: wf_board_def disjoint_pieces_iff b')
qed

section \<open>Making a candidate move\<close>

lemma candidate_facts:
  assumes "legal_position b" "candidate b (s, t, k, ty)"
  shows "sound_placing b (s, t, k, ty) (relocate (side_to_move b) s t k ty (piece_at b))"
    "double_step_ok b (s, t, k, ty)" "on_board s" "on_board t"
    "\<exists>b1. move_pieces b (mv b (s, t, k, ty)) = Inr b1 \<and> pieces_moved b (s, t, k, ty) b1"
proof -
  note legal = assms(1) [unfolded legal_position_iff]
  have wf: "wf_board b" using legal by blast
  show sound: "sound_placing b (s, t, k, ty) (relocate (side_to_move b) s t k ty (piece_at b))"
    using assms(2) legal castles_sound pseudolegal_sound unfolding candidate_def prod.case by blast
  then show "on_board t" unfolding sound_placing_def prod.case by blast
  show "on_board s"
    using assms(2) unfolding candidate_def prod.case
  proof
    assume "castles b (s, t, k, ty)"
    then show ?thesis by (auto simp: castles_def home_rank_def Let_def)
  next
    assume "pseudolegal b (side_to_move b) s t k ty"
    then show ?thesis by (rule pseudolegal_on_board(1) [OF wf_boardD(5) [OF wf]])
  qed
  show "double_step_ok b (s, t, k, ty)"
    using assms(2) unfolding candidate_def prod.case
  proof
    assume "castles b (s, t, k, ty)"
    then show ?thesis by (auto simp: castles_def double_step_ok_def Let_def)
  next
    assume "pseudolegal b (side_to_move b) s t k ty"
    then show ?thesis
      by cases (auto simp: double_step_ok_def promotion_move_types_def on_on_board)
  qed
  show "\<exists>b1. move_pieces b (mv b (s, t, k, ty)) = Inr b1 \<and> pieces_moved b (s, t, k, ty) b1"
    using assms(2) wf castles_move_pieces pseudolegal_move_pieces
    unfolding candidate_def prod.case by metis
qed

lemma position_of_after:
  assumes "wf_board b" "pieces_moved b (s, t, k, ty) b1" "double_step_ok b (s, t, k, ty)"
    "b' = b1\<lparr>is_whites_move := \<not> is_whites_move b1,
       num_moves := num_moves b1 + (if \<not> is_whites_move b1 then 1 else 0)\<rparr>"
  shows "position_of b' = play (position_of b) (s, t, k, ty)"
proof -
  note m = assms(2) [unfolded pieces_moved_def prod.case]
  have "places b' (relocate (side_to_move b) s t k ty (piece_at b))" using m assms(4) by simp
  then have "piece_at b' = relocate (side_to_move b) s t k ty (piece_at b)"
    by (rule places_piece_at_eq)
  moreover have "kingside_right b' = (\<lambda>c. kingside_right b c \<and> s \<notin> {(4, home_rank c), (7, home_rank c)} \<and>
      t \<noteq> (7, home_rank c))"
    "queenside_right b' = (\<lambda>c. queenside_right b c \<and> s \<notin> {(4, home_rank c), (0, home_rank c)} \<and>
      t \<noteq> (0, home_rank c))"
    using m by (auto simp: assms(4) fun_eq_iff)
  moreover have "ty = two_step_pawn \<Longrightarrow> on_board (ahead (side_to_move b) s)"
    using assms(3) by (auto simp: double_step_ok_def on_board_def cadd_def forward_def start_rank_def
        split: if_splits)
  then have "map_option coord_of (en_passant_square b') =
      (if ty = two_step_pawn then Some (ahead (side_to_move b) s) else None)"
    using m by (auto simp: assms(4))
  moreover have "side_to_move b' = flip_color (side_to_move b)" using m by (simp add: assms(4))
  moreover have "num_moves b' = num_moves b + (if side_to_move b = black then 1 else 0)"
    using m by (simp add: assms(4))
  ultimately show ?thesis
    unfolding position_of_def play_def prod.case by (simp split del: if_split cong: if_cong)
qed

text \<open>The move counter, which a move of black increments, has room for one more move.\<close>

definition countable_move :: "Board \<Rightarrow> bool" where
  "countable_move b \<longleftrightarrow> is_whites_move b \<or> in_int (num_moves b + 1)"

lemma candidate_step:
  assumes "legal_position b" "candidate b m" "countable_move b"
  obtains b' where "do_move b (mv b m) = Inr b'" "wf_board b'"
    "position_of b' = play (position_of b) m" "fifty_move_clock b' = fifty_move_clock b"
proof -
  obtain s t k ty where m: "m = (s, t, k, ty)" using prod_cases4 by blast
  note facts = candidate_facts [OF assms(1) assms(2) [unfolded m]]
  from facts(5) obtain b1 where b1: "move_pieces b (mv b m) = Inr b1" "pieces_moved b (s, t, k, ty) b1"
    unfolding m by blast
  have wf: "wf_board b" using assms(1) by (simp add: legal_position_def)
  let ?n = "num_moves b1 + (if \<not> is_whites_move b1 then 1 else 0)"
  let ?b = "b1\<lparr>is_whites_move := \<not> is_whites_move b1, num_moves := ?n\<rparr>"
  have same: "num_moves b1 = num_moves b" "is_whites_move b1 = is_whites_move b"
    "fifty_move_clock b1 = fifty_move_clock b"
    using b1(2) by (simp_all add: pieces_moved_def)
  have n: "in_int ?n"
    using assms(3) wf_boardD(8) [OF wf] by (auto simp: countable_move_def same)
  show ?thesis
  proof (rule that)
    show "do_move b (mv b m) = Inr ?b"
      using b1(1) n facts(3,4) unfolding m by (simp add: do_move_eq add_int_def)
    show "wf_board ?b" by (rule wf_after [OF wf b1(2) facts(1,2) n refl])
    show "position_of ?b = play (position_of b) m"
      unfolding m by (rule position_of_after [OF wf b1(2) facts(2) refl])
    show "fifty_move_clock ?b = fifty_move_clock b" by (simp add: same)
  qed
qed

section \<open>Castling is safe\<close>

text \<open>
  A ray that reaches the king after castling does not run through the squares that king and
  rook have left: along the home rank the rook now stands in the way.
\<close>

lemma castled_ray:
  assumes "slide_reach b' v s' (kf, h)" "v \<in> range vec" "on_board s'"
    and "kf = 6 \<and> rf = 7 \<and> rt = 5 \<or> kf = 2 \<and> rf = 0 \<and> rt = 3" "occupied b' (rt, h)"
    and occ: "\<And>e. e \<notin> {(4, h), (rf, h)} \<Longrightarrow> occupied b e \<Longrightarrow> occupied b' e"
  shows "slide_reach b v s' (kf, h)"
proof -
  from assms(1) obtain k where k: "k \<ge> 1" "(kf, h) = cadd s' k v" "on_board (kf, h)"
    and free: "\<And>j. 1 \<le> j \<Longrightarrow> j < k \<Longrightarrow> \<not> occupied b' (cadd s' j v)"
    unfolding slide_reach_def by blast
  obtain x y where s': "s' = (x, y)" by (cases s')
  from assms(2) obtain d where v: "v = vec d" by blast
  have "cadd s' j v \<notin> {(4, h), (rf, h)}" if j: "1 \<le> j" "j < k" for j
  proof
    assume a: "cadd s' j v \<in> {(4, h), (rf, h)}"
    have "\<not> occupied b' (fst (cadd s' j v) + fst v, snd (cadd s' j v) + snd v)" if "j + 1 < k"
      using free [of "j + 1"] j that by (simp add: cadd_def algebra_simps)
    moreover obtain f where f: "cadd s' j v = (f, h)" "f = 4 \<or> f = rf" using a by auto
    ultimately have "j + 1 < k \<longrightarrow> \<not> occupied b' (f + fst v, h + snd v)" by simp
    with f k(2) assms(3,4,5) j show False
      by (cases d) (auto simp: cadd_def v s' on_board_def)
  qed
  then show ?thesis
    unfolding slide_reach_def using k free occ by blast
qed

lemma castles_shape:
  assumes "wf_board b" "castles b (s, t, k, ty)"
  obtains kf rf rt where "s = (4, home_rank (side_to_move b))" "t = (kf, home_rank (side_to_move b))"
    "k = king" "kf = 6 \<and> rf = 7 \<and> rt = 5 \<or> kf = 2 \<and> rf = 0 \<and> rt = 3"
    "relocate (side_to_move b) s t k ty (piece_at b) = (piece_at b)(s := None,
       t := Some (side_to_move b, king), (rf, home_rank (side_to_move b)) := None,
       (rt, home_rank (side_to_move b)) := Some (side_to_move b, rook))"
    "\<not> attacked b (flip_color (side_to_move b)) t"
  using assms(2) unfolding castles_def Let_def
  by (auto simp: relocate_simps may_castle_kingside_def may_castle_queenside_def)

lemma castled_not_in_check:
  assumes "legal_position b" "castles b (s, t, k, ty)"
    and b': "wf_board b'" "position_of b' = play (position_of b) (s, t, k, ty)"
  shows "\<not> in_check b' (side_to_move b)"
proof
  let ?side = "side_to_move b" let ?h = "home_rank ?side"
  have wf: "wf_board b" using assms(1) by (simp add: legal_position_def)
  obtain kf rf rt where m: "s = (4, ?h)" "t = (kf, ?h)" "k = king"
    and fs: "kf = 6 \<and> rf = 7 \<and> rt = 5 \<or> kf = 2 \<and> rf = 0 \<and> rt = 3"
    and g: "relocate ?side s t k ty (piece_at b) = (piece_at b)(s := None, t := Some (?side, king),
      (rf, ?h) := None, (rt, ?h) := Some (?side, rook))"
    and safe: "\<not> attacked b (flip_color ?side) t"
    by (rule castles_shape [OF wf assms(2)])
  have "piece_at b' = relocate ?side s t k ty (piece_at b)"
    using b'(2) by (simp add: position_of_def play_def)
  then have at: "piece_at b' = (piece_at b)(s := None, t := Some (?side, king),
      (rf, ?h) := None, (rt, ?h) := Some (?side, rook))" by (simp add: g)
  have king: "king_coord b' ?side = t"
    using fs wf_piece_at(3) [OF b'(1), of t ?side] by (auto simp: at m)
  have occ: "occupied b e \<Longrightarrow> occupied b' e" if "e \<notin> {(4, ?h), (rf, ?h)}" for e
    using that unfolding wf_piece_at(2) [OF wf] wf_piece_at(2) [OF b'(1)] by (auto simp: at m)
  have rook: "occupied b' (rt, ?h)" unfolding wf_piece_at(2) [OF b'(1)] by (simp add: at)
  assume "in_check b' ?side"
  then obtain l s' where s': "on b' (flip_color ?side, l) s'" "piece_attacks b' (flip_color ?side) l s' t"
    unfolding in_check_iff [OF wf_boardD(4) [OF b'(1)]] king attacked_def by blast
  have "piece_at b' s' = Some (flip_color ?side, l)" using s'(1) wf_piece_at(1) [OF b'(1)] by blast
  then have "piece_at b s' = Some (flip_color ?side, l)" by (auto simp: at split: if_splits)
  then have on: "on b (flip_color ?side, l) s'" using wf_piece_at(1) [OF wf] by blast
  have "slide_reach b v s' t" if "v \<in> slide_vectors l" "slide_reach b' v s' t" for v
    using castled_ray [OF that(2) [unfolded m(2)] slide_vectors_range [OF that(1)]
        on_on_board [OF s'(1)] fs rook occ] unfolding m(2) .
  then have "piece_attacks b (flip_color ?side) l s' t"
    using s'(2) unfolding piece_attacks_def by (auto split: if_splits)
  with on safe show False unfolding attacked_def by blast
qed

section \<open>The legal moves\<close>

text \<open>
  A move is legal when it can be tried and does not leave the mover's king in check, where
  the position after the move is that of the abstract game.
\<close>

definition legal_move :: "Board \<Rightarrow> cmove \<Rightarrow> bool" where
  "legal_move b m \<longleftrightarrow> candidate b m \<and>
     (\<exists>b'. disjoint_pieces b' \<and> position_of b' = play (position_of b) m \<and>
        \<not> in_check b' (side_to_move b))"

lemma in_check_cong:
  assumes "disjoint_pieces b" "disjoint_pieces b'" "piece_at b = piece_at b'"
  shows "in_check b side \<longleftrightarrow> in_check b' side"
proof -
  have "on b p c \<longleftrightarrow> on b' p c" for p c
    using assms places_piece_at placesD by metis
  then show ?thesis
    unfolding in_check_def attacked_def piece_attacks_def slide_reach_def occupied_def by simp
qed

lemma legal_move_iff:
  assumes "candidate b m" "wf_board b'" "position_of b' = play (position_of b) m"
  shows "legal_move b m \<longleftrightarrow> \<not> in_check b' (side_to_move b)"
proof -
  have "in_check b'' side \<longleftrightarrow> in_check b' side"
    if "disjoint_pieces b''" "position_of b'' = play (position_of b) m" for b'' side
  proof (rule in_check_cong [OF that(1) wf_boardD(3) [OF assms(2)]])
    have "placement (position_of b'') = placement (position_of b')" by (simp only: that(2) assms(3))
    then show "piece_at b'' = piece_at b'" by (simp add: position_of_def)
  qed
  then show ?thesis
    unfolding legal_move_def using assms wf_boardD(3) [OF assms(2)] by metis
qed

lemma castles_legal:
  assumes "legal_position b" "castles b m" "countable_move b"
  shows "legal_move b m"
proof -
  obtain s t k ty where m: "m = (s, t, k, ty)" using prod_cases4 by blast
  have c: "candidate b m" using assms(2) by (simp add: candidate_def)
  obtain b' where b': "do_move b (mv b m) = Inr b'" "wf_board b'"
    "position_of b' = play (position_of b) m" "fifty_move_clock b' = fifty_move_clock b"
    by (rule candidate_step [OF assms(1) c assms(3)])
  with castled_not_in_check [OF assms(1), of s t k ty b'] assms(2) m
  show ?thesis using legal_move_iff [OF c b'(2,3)] by blast
qed

lemma is_pseudolegal_move_legal_eq:
  assumes "legal_position b" "pseudolegal b (side_to_move b) s t k ty" "countable_move b"
  shows "is_pseudolegal_move_legal b (mv b (s, t, k, ty)) = Inr (legal_move b (s, t, k, ty))"
proof -
  have c: "candidate b (s, t, k, ty)" using assms(2) by (simp add: candidate_def)
  obtain b' where b': "do_move b (mv b (s, t, k, ty)) = Inr b'" "wf_board b'"
    "position_of b' = play (position_of b) (s, t, k, ty)" "fifty_move_clock b' = fifty_move_clock b"
    by (rule candidate_step [OF assms(1) c assms(3)])
  show ?thesis
    unfolding is_pseudolegal_move_legal_def Let_def legal_move_iff [OF c b'(2,3)]
    using b'(1) by (simp add: is_king_attacked_eq [OF wf_boardD(2,3) [OF b'(2)]] del: mv.simps)
qed

lemma erase_if_not_filter:
  assumes "\<And>x. x \<in> set xs \<Longrightarrow> keep x = Inr (P x)"
  shows "erase_if_not keep xs = Inr (filter P xs)"
  using assms by (induction xs) simp_all

lemma castle_moves_mv:
  "castle_kingside_move side b = mv b ((4, home_rank side), (6, home_rank side), king, castle_kingside)"
  "castle_queenside_move side b = mv b ((4, home_rank side), (2, home_rank side), king, castle_queenside)"
  by (cases side; simp add: castle_kingside_move_def castle_queenside_move_def home_rank_def)+

lemma if_append: "(if c then xs @ [x] else xs) = xs @ if_list c x"
  by (simp add: if_list_def)

lemma legal_moves_eq:
  assumes "legal_position b" "countable_move b" "pseudolegal_moves b (side_to_move b) = Inr ps"
    and legal: "\<And>x. x \<in> set ps \<Longrightarrow> is_pseudolegal_move_legal b x = Inr (P x)"
  shows "legal_moves b = Inr (filter P ps @
      if_list (may_castle_kingside b (side_to_move b)) (castle_kingside_move (side_to_move b) b) @
      if_list (may_castle_queenside b (side_to_move b)) (castle_queenside_move (side_to_move b) b))"
proof -
  have "wf_board b" using assms(1) by (simp add: legal_position_def)
  note ok = wf_boardD [OF this]
  have "erase_if_not (is_pseudolegal_move_legal b) ps = Inr (filter P ps)"
    by (rule erase_if_not_filter) (rule legal)
  then show ?thesis
    unfolding legal_moves_def append_castling_moves_def Let_def
    by (simp only: assms(3) castling_legality [OF ok(2,3,7)] bindr_Inr if_append)
      (simp only: append_assoc)
qed

lemma legal_moves_spec:
  assumes "legal_position b" "countable_move b"
  obtains ms where "legal_moves b = Inr ms" "distinct ms" "set ms = mv b ` {m. legal_move b m}"
proof -
  let ?side = "side_to_move b" let ?h = "home_rank ?side"
  have wf: "wf_board b" using assms(1) by (simp add: legal_position_def)
  note ok = wf_boardD [OF wf]
  obtain ps where ps: "pseudolegal_moves b ?side = Inr ps" "distinct ps"
    and set_ps: "set ps = {Move_init (csq s) (csq t) k ty b | s t k ty. pseudolegal b ?side s t k ty}"
    by (rule pseudolegal_moves_spec [OF ok(2,3)])
  define P where "P x \<longleftrightarrow> (\<exists>m. x = mv b m \<and> legal_move b m)" for x
  have inj: "m = n" if "candidate b m" "candidate b n" "mv b m = mv b n" for m n
  proof -
    have "cmove_ok x" if "candidate b x" for x
      using candidate_facts(3,4) [OF assms(1)] that by (cases x) (auto simp: cmove_ok_def)
    then show ?thesis using that mv_inj by blast
  qed
  have legal: "is_pseudolegal_move_legal b x = Inr (P x)" if x: "x \<in> set ps" for x
  proof -
    from x obtain s t k ty where x': "x = mv b (s, t, k, ty)" "pseudolegal b ?side s t k ty"
      unfolding set_ps by auto
    then have "candidate b (s, t, k, ty)" by (simp add: candidate_def)
    then have "P x \<longleftrightarrow> legal_move b (s, t, k, ty)"
      unfolding P_def x'(1) using inj legal_move_def by metis
    with is_pseudolegal_move_legal_eq [OF assms(1) x'(2) assms(2)] show ?thesis by (simp add: x'(1))
  qed
  let ?kc = "((4, ?h), (6, ?h), king, castle_kingside)"
  let ?qc = "((4, ?h), (2, ?h), king, castle_queenside)"
  let ?ms = "filter P ps @ if_list (may_castle_kingside b ?side) (mv b ?kc) @
    if_list (may_castle_queenside b ?side) (mv b ?qc)"
  have eq: "legal_moves b = Inr ?ms"
    using legal_moves_eq [OF assms ps(1) legal] unfolding castle_moves_mv by blast
  have types: "move_type x \<notin> {castle_kingside, castle_queenside}" if "x \<in> set ps" for x
  proof -
    from that obtain s t k ty where "x = mv b (s, t, k, ty)" "pseudolegal b ?side s t k ty"
      unfolding set_ps by auto
    then show ?thesis by (auto elim!: pseudolegal.cases simp: promotion_move_types_def)
  qed
  have "distinct ?ms"
    using ps(2) types [of "mv b ?kc"] types [of "mv b ?qc"]
    by (auto simp: Move_init_def)
  moreover have "set ?ms = mv b ` {m. legal_move b m}"
  proof (rule set_eqI)
    fix x
    have castle: "x \<in> set (if_list (may_castle_kingside b ?side) (mv b ?kc) @
        if_list (may_castle_queenside b ?side) (mv b ?qc)) \<longleftrightarrow> (\<exists>m. x = mv b m \<and> castles b m)"
      unfolding castles_def Let_def set_append Un_iff set_if_list by blast
    have mem: "x \<in> set ps \<longleftrightarrow> (\<exists>s t k ty. x = mv b (s, t, k, ty) \<and> pseudolegal b ?side s t k ty)"
      unfolding set_ps by simp
    have "x \<in> set ?ms \<longleftrightarrow> x \<in> set ps \<and> P x \<or> (\<exists>m. x = mv b m \<and> castles b m)"
      unfolding set_append [of "filter P ps"] Un_iff castle by simp
    also have "\<dots> \<longleftrightarrow> P x"
    proof
      assume "x \<in> set ps \<and> P x \<or> (\<exists>m. x = mv b m \<and> castles b m)"
      then show "P x" unfolding P_def using castles_legal [OF assms(1) _ assms(2)] by blast
    next
      assume "P x"
      then obtain s t k ty where "x = mv b (s, t, k, ty)" "legal_move b (s, t, k, ty)"
        unfolding P_def by (metis prod_cases4)
      then show "x \<in> set ps \<and> P x \<or> (\<exists>m. x = mv b m \<and> castles b m)"
        using \<open>P x\<close> unfolding mem legal_move_def candidate_def prod.case by blast
    qed
    finally show "x \<in> set ?ms \<longleftrightarrow> x \<in> mv b ` {m. legal_move b m}" unfolding P_def by blast
  qed
  ultimately show ?thesis by (rule that [OF eq])
qed

lemma legal_step:
  assumes "legal_position b" "countable_move b" "legal_move b m"
  obtains b' where "do_move b (mv b m) = Inr b'" "legal_position b'"
    "position_of b' = play (position_of b) m" "fifty_move_clock b' = fifty_move_clock b"
proof -
  have c: "candidate b m" using assms(3) by (simp add: legal_move_def)
  obtain b' where b': "do_move b (mv b m) = Inr b'" "wf_board b'"
    "position_of b' = play (position_of b) m" "fifty_move_clock b' = fifty_move_clock b"
    by (rule candidate_step [OF assms(1) c assms(2)])
  have turn: "turn (position_of x) = side_to_move x" for x by (simp add: position_of_def)
  have "turn (play p m) = flip_color (turn p)" for p by (simp add: play_def split: prod.split)
  from this [of "position_of b"] have "side_to_move b' = flip_color (side_to_move b)"
    by (simp only: b'(3) [symmetric] turn)
  then have "flip_color (side_to_move b') = side_to_move b" by (simp only: flip_flip)
  moreover have "\<not> in_check b' (side_to_move b)" using assms(3) legal_move_iff [OF c b'(2,3)] by blast
  ultimately have "legal_position b'" unfolding legal_position_iff using b'(2) by simp
  with b' show ?thesis by (intro that) 
qed

section \<open>Reachable positions\<close>

definition start_board :: Board where
  "start_board = \<lparr>
     white_pawns = 0xFF00, white_rooks = 0x81, white_knights = 0x42, white_bishops = 0x24,
     white_queens = 0x10, white_king = 0x08,
     black_pawns = 0xFF000000000000, black_rooks = 0x8100000000000000,
     black_knights = 0x4200000000000000, black_bishops = 0x2400000000000000,
     black_queens = 0x1000000000000000, black_king = 0x0800000000000000,
     is_whites_move = True, en_passant_square = None,
     white_has_right_to_castle_kingside = True, white_has_right_to_castle_queenside = True,
     black_has_right_to_castle_kingside = True, black_has_right_to_castle_queenside = True,
     fifty_move_clock = 0, num_moves = 1 \<rparr>"

lemma start_board_legal: "legal_position start_board"
  by code_simp

text \<open>The positions a game reaches: from any board, by any move the generator returns.\<close>

inductive reachable :: "Board \<Rightarrow> Board \<Rightarrow> bool" for b0 where
  start: "reachable b0 b0"
| move: "reachable b0 b \<Longrightarrow> legal_moves b = Inr ms \<Longrightarrow> m \<in> set ms \<Longrightarrow> do_move b m = Inr b' \<Longrightarrow>
    reachable b0 b'"

lemma move_pieces_turn:
  assumes "do_move b m = Inr b'" "legal_position b" "candidate b c" "m = mv b c"
  shows "countable_move b"
proof -
  obtain s t k ty where c: "c = (s, t, k, ty)" using prod_cases4 by blast
  from candidate_facts(5) [OF assms(2) assms(3) [unfolded c]] obtain b1 where
    "move_pieces b m = Inr b1" "pieces_moved b (s, t, k, ty) b1"
    unfolding assms(4) c by blast
  with assms(1) show ?thesis
    by (auto simp: do_move_eq countable_move_def pieces_moved_def add_int_def split: if_splits)
qed

lemma legal_moves_candidate:
  assumes "legal_position b" "legal_moves b = Inr ms" "m \<in> set ms"
  obtains c where "m = mv b c" "candidate b c"
proof -
  have "wf_board b" using assms(1) by (simp add: legal_position_def)
  note ok = wf_boardD [OF this]
  from assms(2,3) show ?thesis
  proof (cases rule: legal_moves_cases)
    case (pseudolegal ps)
    obtain ps' where ps': "pseudolegal_moves b (side_to_move b) = Inr ps'" "distinct ps'"
      "set ps' = {Move_init (csq s) (csq t) k ty b | s t k ty. pseudolegal b (side_to_move b) s t k ty}"
      by (rule pseudolegal_moves_spec [OF ok(2,3)])
    with pseudolegal have "m \<in> set ps'" by simp
    then obtain s t k ty where "m = mv b (s, t, k, ty)" "pseudolegal b (side_to_move b) s t k ty"
      unfolding ps'(3) by auto
    then show ?thesis by (intro that [of "(s, t, k, ty)"]) (simp_all add: candidate_def)
  next
    case kingside
    then have "castles b ((4, home_rank (side_to_move b)), (6, home_rank (side_to_move b)), king, castle_kingside)"
      unfolding castling_legality [OF ok(2,3,7)] by (simp add: castles_def Let_def)
    then show ?thesis using kingside(2) that unfolding castle_moves_mv candidate_def by blast
  next
    case queenside
    then have "castles b ((4, home_rank (side_to_move b)), (2, home_rank (side_to_move b)), king, castle_queenside)"
      unfolding castling_legality [OF ok(2,3,7)] by (simp add: castles_def Let_def)
    then show ?thesis using queenside(2) that unfolding castle_moves_mv candidate_def by blast
  qed
qed

lemma legal_moves_step:
  assumes "legal_position b" "legal_moves b = Inr ms" "m \<in> set ms" "do_move b m = Inr b'"
  shows "legal_position b'"
proof -
  obtain c where c: "m = mv b c" "candidate b c" by (rule legal_moves_candidate [OF assms(1-3)])
  have count: "countable_move b" by (rule move_pieces_turn [OF assms(4,1) c(2,1)])
  obtain ms' where ms': "legal_moves b = Inr ms'" "distinct ms'" "set ms' = mv b ` {m. legal_move b m}"
    by (rule legal_moves_spec [OF assms(1) count])
  with assms(2,3) obtain c' where c': "m = mv b c'" "legal_move b c'" by auto
  obtain b'' where "do_move b (mv b c') = Inr b''" "legal_position b''"
    "position_of b'' = play (position_of b) c'" "fifty_move_clock b'' = fifty_move_clock b"
    by (rule legal_step [OF assms(1) count c'(2)])
  with assms(4) c'(1) show ?thesis by simp
qed

lemma reachable_legal_position: "reachable b0 b \<Longrightarrow> legal_position b0 \<Longrightarrow> legal_position b"
  by (induction rule: reachable.induct) (auto intro: legal_moves_step)

end
