(* ===== verification/Fen_Correct.thy ===== *)
theory Fen_Correct
  imports Fen Absl_Print Positions
begin

text \<open>
  The FEN constructor as the inverse of a printer. The printer writes a board as a FEN record
  the way the notation is defined; the constructor reads every record that it writes back to
  the same board, whatever the storage held before. The last section says which texts the
  constructor accepts at all, and that each member is then the value of its field.
\<close>

section \<open>Printing a board\<close>

fun piece_letter :: "bb_ptr \<Rightarrow> char" where
  "piece_letter (white, pawn) = CHR ''P''"
| "piece_letter (white, rook) = CHR ''R''"
| "piece_letter (white, knight) = CHR ''N''"
| "piece_letter (white, bishop) = CHR ''B''"
| "piece_letter (white, queen) = CHR ''Q''"
| "piece_letter (white, king) = CHR ''K''"
| "piece_letter (black, pawn) = CHR ''p''"
| "piece_letter (black, rook) = CHR ''r''"
| "piece_letter (black, knight) = CHR ''n''"
| "piece_letter (black, bishop) = CHR ''b''"
| "piece_letter (black, queen) = CHR ''q''"
| "piece_letter (black, king) = CHR ''k''"

text \<open>A rank from the a-file on; \<open>k\<close> empty squares have not been written yet.\<close>

definition run :: "nat \<Rightarrow> string" where
  "run k = (if k = 0 then [] else [digit_char k])"

fun rank_str :: "nat \<Rightarrow> bb_ptr option list \<Rightarrow> string" where
  "rank_str k [] = run k"
| "rank_str k (None # cs) = rank_str (Suc k) cs"
| "rank_str k (Some p # cs) = run k @ piece_letter p # rank_str 0 cs"

definition rank_cells :: "placing \<Rightarrow> int \<Rightarrow> bb_ptr option list" where
  "rank_cells f r = map (\<lambda>i. f (i, r)) [0..7]"

definition pieces_str :: "placing \<Rightarrow> string" where
  "pieces_str f = join_with CHR ''/'' (map (\<lambda>r. rank_str 0 (rank_cells f r)) [7, 6, 5, 4, 3, 2, 1, 0])"

definition castling_str :: "Board \<Rightarrow> string" where
  "castling_str b =
     (let s = (if white_has_right_to_castle_kingside b then ''K'' else []) @
            (if white_has_right_to_castle_queenside b then ''Q'' else []) @
            (if black_has_right_to_castle_kingside b then ''k'' else []) @
            (if black_has_right_to_castle_queenside b then ''q'' else [])
      in if s = [] then ''-'' else s)"

definition fen_fields :: "Board \<Rightarrow> string list" where
  "fen_fields b =
     [pieces_str (piece_at b), if is_whites_move b then ''w'' else ''b'', castling_str b,
      case en_passant_square b of None \<Rightarrow> ''-'' | Some w \<Rightarrow> alg (coord_of w),
      show_int (fifty_move_clock b), show_int (num_moves b)]"

definition fen_of :: "Board \<Rightarrow> string" where
  "fen_of b = join_with CHR '' '' (fen_fields b)"

section \<open>One rank\<close>

lemma shl_square:
  assumes "on_board (i, r)"
  shows "shl_lsb (r * board_size + board_size - i - 1) = Inr (csq (i, r))"
  using assms coordinates_to_square_csq [of i r]
  by (simp add: coordinates_to_square_def board_size_def algebra_simps)

lemma shl_any:
  assumes "0 \<le> n" "n < 64"
  shows "\<exists>w. shl_lsb n = Inr w"
  using assms by (simp add: shl_lsb_def)

lemma char_piece:
  assumes "on_board (i, r)"
  shows "init_bitboards_char (piece_letter p) (b, r, i) =
    Inr (assign b p (deref b p OR csq (i, r)), r, i + 1)"
proof -
  obtain c k where "p = (c, k)" by (cases p)
  then show ?thesis
    using shl_square [OF assms] by (cases c; cases k) (simp_all add: init_bitboards_char_def)
qed

lemma char_run:
  assumes "0 < k" "k \<le> 8" "on_board (i, r)"
  shows "init_bitboards_char (digit_char k) (b, r, i) = Inr (b, r, i + int k)"
proof -
  have "k \<in> set [1..<9]" using assms by simp
  moreover have "\<forall>k\<in>set [1..<9]. digit_char k \<in> set ''12345678'' \<and>
      of_char (digit_char k) - of_char (CHR ''0'') = int k" by code_simp
  ultimately have k: "digit_char k \<in> set ''12345678''"
    "of_char (digit_char k) - of_char (CHR ''0'') = int k" by blast+
  show ?thesis using shl_square [OF assms(3)] k unfolding init_bitboards_char_def by simp
qed

text \<open>The squares of a rank put on the board, starting at file \<open>i\<close>.\<close>

fun put_cells :: "Board \<Rightarrow> int \<Rightarrow> int \<Rightarrow> bb_ptr option list \<Rightarrow> Board" where
  "put_cells b r i [] = b"
| "put_cells b r i (None # cs) = put_cells b r (i + 1) cs"
| "put_cells b r i (Some p # cs) =
     put_cells (assign b p (deref b p OR csq (i, r))) r (i + 1) cs"

lemma for_each_run:
  assumes "int k \<le> i" "i \<le> 8" "0 \<le> r" "r \<le> 7"
  shows "for_each (run k @ s) init_bitboards_char (b, r, i - int k) =
    for_each s init_bitboards_char (b, r, i)"
  using assms char_run [of k "i - int k" r b] by (auto simp: run_def on_board_def)

lemma for_each_rank:
  assumes "int k \<le> i" "i + int (length cs) = 8" "0 \<le> r" "r \<le> 7"
  shows "for_each (rank_str k cs @ s) init_bitboards_char (b, r, i - int k) =
    for_each s init_bitboards_char (put_cells b r i cs, r, 8)"
  using assms
proof (induction k cs arbitrary: b i rule: rank_str.induct)
  case (1 k)
  then show ?case using for_each_run [of k 8 r s b] by simp
next
  case (2 k cs)
  then show ?case using "2.IH" [of "i + 1" b] by simp
next
  case (3 k p cs)
  have on: "on_board (i, r)" using "3.prems" by (simp add: on_board_def)
  have "for_each (rank_str k (Some p # cs) @ s) init_bitboards_char (b, r, i - int k) =
      for_each (piece_letter p # rank_str 0 cs @ s) init_bitboards_char (b, r, i)"
    using for_each_run [of k i r "piece_letter p # rank_str 0 cs @ s" b] "3.prems" by simp
  also have "\<dots> = for_each (rank_str 0 cs @ s) init_bitboards_char
      (assign b p (deref b p OR csq (i, r)), r, i + 1)"
    by (simp add: char_piece [OF on])
  finally show ?case using "3.IH" [of "i + 1"] "3.prems" by simp
qed

lemma put_cells_places:
  assumes "places b g" "0 \<le> i" "i + int (length cs) \<le> 8" "0 \<le> r" "r \<le> 7"
    and "\<forall>j. i \<le> j \<longrightarrow> g (j, r) = None"
  shows "places (put_cells b r i cs)
    (\<lambda>c. if snd c = r \<and> i \<le> fst c \<and> fst c < i + int (length cs) then cs ! nat (fst c - i) else g c)"
    (is "places _ (?h r i cs g)")
  using assms
proof (induction b r i cs arbitrary: g rule: put_cells.induct)
  case (1 b r i)
  have "?h r i [] g = g" by (auto simp: fun_eq_iff)
  then show ?case unfolding put_cells.simps by (rule ssubst) (rule "1.prems"(1))
next
  case (2 b r i cs)
  have "?h r i (None # cs) g = ?h r (i + 1) cs g"
  proof
    fix c :: coord
    have "nat (fst c - i) = Suc (nat (fst c - (i + 1)))" if "i < fst c" using that by linarith
    then show "?h r i (None # cs) g c = ?h r (i + 1) cs g c"
      using "2.prems"(6) by (cases c) (auto simp: not_le)
  qed
  then show ?case using "2.IH" [of g] "2.prems" by simp
next
  case (3 b r i p cs)
  let ?g = "g((i, r) := Some p)"
  have eq: "?h r i (Some p # cs) g = ?h r (i + 1) cs ?g"
  proof
    fix c :: coord
    have "nat (fst c - i) = Suc (nat (fst c - (i + 1)))" if "i < fst c" using that by linarith
    then show "?h r i (Some p # cs) g c = ?h r (i + 1) cs ?g c"
      by (cases c) (auto simp: not_le)
  qed
  have "places (assign b p (deref b p OR csq (i, r))) ?g"
    by (rule places_put) (use "3.prems" in \<open>auto simp: on_board_def\<close>)
  then show ?case
    unfolding put_cells.simps eq by (rule "3.IH") (use "3.prems" in auto)
qed

lemma put_cells_same_state: "same_state b (put_cells b r i cs)"
  by (induction b r i cs rule: put_cells.induct)
    (auto intro: same_state_trans same_state_assign)

section \<open>The board\<close>

fun ranks_str :: "placing \<Rightarrow> nat \<Rightarrow> string" where
  "ranks_str f 0 = rank_str 0 (rank_cells f 0)"
| "ranks_str f (Suc n) = rank_str 0 (rank_cells f (int (Suc n))) @ CHR ''/'' # ranks_str f n"

lemma pieces_str_ranks: "pieces_str f = ranks_str f 7"
  by (simp add: pieces_str_def eval_nat_numeral)

lemma length_rank_cells [simp]: "length (rank_cells f r) = 8"
  by (simp add: rank_cells_def)

lemma nth_rank_cells: "0 \<le> j \<Longrightarrow> j < 8 \<Longrightarrow> rank_cells f r ! nat j = f (j, r)"
  unfolding rank_cells_def by (subst nth_map) (simp_all only: length_upto nth_upto, simp_all)

lemma put_rank:
  assumes "places b g" "\<forall>c. snd c \<le> r \<longrightarrow> g c = None" "0 \<le> r" "r \<le> 7"
  shows "places (put_cells b r 0 (rank_cells f r)) (\<lambda>c. if snd c = r \<and> on_board c then f c else g c)"
proof -
  have "(\<lambda>c. if snd c = r \<and> 0 \<le> fst c \<and> fst c < 0 + int (length (rank_cells f r))
      then rank_cells f r ! nat (fst c - 0) else g c) = (\<lambda>c. if snd c = r \<and> on_board c then f c else g c)"
    using assms(3,4) by (auto simp: fun_eq_iff on_board_def nth_rank_cells)
  then show ?thesis
    using put_cells_places [OF assms(1), of 0 "rank_cells f r" r] assms by simp
qed

lemma slash:
  assumes "1 \<le> r" "r \<le> 7"
  shows "init_bitboards_char CHR ''/'' (b, r, 8) = Inr (b, r - 1, 0)"
proof -
  obtain w where "shl_lsb (r * board_size + board_size - 8 - 1) = Inr w"
    using shl_any [of "r * board_size + board_size - 8 - 1"] assms by (auto simp: board_size_def)
  then show ?thesis by (simp add: init_bitboards_char_def)
qed

lemma for_each_ranks:
  assumes "places b g" "\<forall>c. snd c \<le> int n \<longrightarrow> g c = None" "n \<le> 7"
  shows "\<exists>b'. for_each (ranks_str f n) init_bitboards_char (b, int n, 0) = Inr (b', 0, 8) \<and>
    same_state b b' \<and> places b' (\<lambda>c. if snd c \<le> int n \<and> on_board c then f c else g c)"
  using assms
proof (induction n arbitrary: b g)
  case 0
  let ?b = "put_cells b 0 0 (rank_cells f 0)"
  have "for_each (ranks_str f 0) init_bitboards_char (b, 0, 0) = Inr (?b, 0, 8)"
    using for_each_rank [of 0 0 "rank_cells f 0" 0 "[]" b] by simp
  moreover have "(\<lambda>c. if snd c = 0 \<and> on_board c then f c else g c) =
      (\<lambda>c. if snd c \<le> 0 \<and> on_board c then f c else g c)"
    by (auto simp: fun_eq_iff on_board_def)
  ultimately show ?case
    using put_rank [OF "0.prems"(1), of 0 f] "0.prems"(2) put_cells_same_state by auto
next
  case (Suc n)
  let ?r = "int (Suc n)"
  let ?b = "put_cells b ?r 0 (rank_cells f ?r)"
  let ?g = "\<lambda>c. if snd c = ?r \<and> on_board c then f c else g c"
  have "places ?b ?g" using put_rank [OF Suc.prems(1), of ?r f] Suc.prems by simp
  then obtain b' where b': "for_each (ranks_str f n) init_bitboards_char (?b, int n, 0) = Inr (b', 0, 8)"
    "same_state ?b b'" "places b' (\<lambda>c. if snd c \<le> int n \<and> on_board c then f c else ?g c)"
    using Suc.IH [of ?b ?g] Suc.prems by auto
  have "for_each (ranks_str f (Suc n)) init_bitboards_char (b, ?r, 0) =
      for_each (CHR ''/'' # ranks_str f n) init_bitboards_char (?b, ?r, 8)"
    using for_each_rank [of 0 0 "rank_cells f ?r" ?r "CHR ''/'' # ranks_str f n" b] Suc.prems(3) by simp
  also have "\<dots> = Inr (b', 0, 8)" using slash [of ?r ?b] Suc.prems(3) b'(1) by simp
  moreover have "(\<lambda>c. if snd c \<le> int n \<and> on_board c then f c else ?g c) =
      (\<lambda>c. if snd c \<le> ?r \<and> on_board c then f c else g c)"
    by (auto simp: fun_eq_iff)
  moreover have "same_state b b'"
    using same_state_trans [OF put_cells_same_state b'(2)] .
  ultimately show ?case using b'(3) by simp
qed

lemma init_bitboards_pieces:
  assumes "\<forall>c. \<not> on_board c \<longrightarrow> f c = None"
  shows "\<exists>b'. init_bitboards b (pieces_str f) = Inr b' \<and> same_state b b' \<and> places b' f"
proof -
  let ?z = "zero_all_bitboards b"
  have "deref ?z (c, k) = 0" for c k
    by (cases c; cases k) (simp_all add: zero_all_bitboards_def)
  then have "places ?z (\<lambda>c. None)" by (auto simp: places_def on_def)
  then obtain b' where b': "for_each (ranks_str f 7) init_bitboards_char (?z, int 7, 0) = Inr (b', 0, 8)"
    "same_state ?z b'" "places b' (\<lambda>c. if snd c \<le> int 7 \<and> on_board c then f c else None)"
    using for_each_ranks [of ?z "\<lambda>c. None" 7 f] by auto
  have "(\<lambda>c. if snd c \<le> int 7 \<and> on_board c then f c else None) = f"
    using assms by (auto simp: fun_eq_iff on_board_def)
  moreover have "same_state b ?z" by (simp add: same_state_def zero_all_bitboards_def)
  ultimately show ?thesis
    using b' same_state_trans by (auto simp: init_bitboards_def pieces_str_ranks board_size_def)
qed

section \<open>The other fields\<close>

lemma castling_str_mem:
  "CHR ''K'' \<in> set (castling_str b) \<longleftrightarrow> white_has_right_to_castle_kingside b"
  "CHR ''Q'' \<in> set (castling_str b) \<longleftrightarrow> white_has_right_to_castle_queenside b"
  "CHR ''k'' \<in> set (castling_str b) \<longleftrightarrow> black_has_right_to_castle_kingside b"
  "CHR ''q'' \<in> set (castling_str b) \<longleftrightarrow> black_has_right_to_castle_queenside b"
  by (auto simp: castling_str_def Let_def split: if_splits)

lemma find_0_mem: "string_view_find s c 0 \<noteq> None \<longleftrightarrow> c \<in> set s"
  using memchr_None [of s c] by (auto simp: string_view_find_def simp flip: not_None_eq)

text \<open>No field contains the space that separates them.\<close>

lemma digit_char_neq: "d < 10 \<Longrightarrow> digit_char d \<noteq> CHR '' ''"
  using digit_char [of d] by (auto simp: ascii_ranges)

lemma show_int_space: "CHR '' '' \<notin> set (show_int n)"
proof -
  have "CHR '' '' \<notin> set (show_nat m)" for m
    using show_nat_numeral [of m] by (auto simp: list_all_iff ascii_ranges)
  then show ?thesis by (simp add: show_int_def)
qed

lemma rank_str_space: "k + length cs < 10 \<Longrightarrow> CHR '' '' \<notin> set (rank_str k cs)"
proof (induction k cs rule: rank_str.induct)
  case (1 k)
  then show ?case using digit_char_neq [of k] by (auto simp: run_def)
next
  case (3 k p cs)
  have "piece_letter p \<noteq> CHR '' ''" by (cases p rule: piece_letter.cases) simp_all
  with 3 digit_char_neq [of k] show ?case by (auto simp: run_def)
qed simp

lemma ranks_str_space: "CHR '' '' \<notin> set (ranks_str f n)"
  using rank_str_space [of 0] by (induction n) simp_all

lemma alg_space: "on_board c \<Longrightarrow> CHR '' '' \<notin> set (alg c)"
proof -
  assume c: "on_board c"
  have "char_of n \<noteq> CHR '' ''" if "33 \<le> n" "n < 256" for n :: int
  proof
    assume "char_of n = CHR '' ''"
    then have "of_char (char_of n) = (of_char (CHR '' '') :: int)" by (rule arg_cong)
    with of_char_char_of_int [of n] that show False by simp
  qed
  from this [of "97 + fst c"] this [of "49 + snd c"] c show ?thesis
    by (cases c) (simp add: alg_def on_board_def)
qed

section \<open>The round trip\<close>

text \<open>The boards that a FEN record can denote.\<close>

definition printable :: "Board \<Rightarrow> bool" where
  "printable b \<longleftrightarrow> disjoint_pieces b \<and> in_int (fifty_move_clock b) \<and> in_int (num_moves b) \<and>
     (case en_passant_square b of None \<Rightarrow> True | Some w \<Rightarrow> is_square w)"

lemma board_eqI:
  assumes "\<And>p. deref a p = deref b p" "same_state a b"
  shows "a = b"
  using assms(1) [of "(white, pawn)"] assms(1) [of "(white, rook)"] assms(1) [of "(white, knight)"]
    assms(1) [of "(white, bishop)"] assms(1) [of "(white, queen)"] assms(1) [of "(white, king)"]
    assms(1) [of "(black, pawn)"] assms(1) [of "(black, rook)"] assms(1) [of "(black, knight)"]
    assms(1) [of "(black, bishop)"] assms(1) [of "(black, queen)"] assms(1) [of "(black, king)"]
    assms(2)
  by (simp add: same_state_def)

lemma places_deref: "places a f \<Longrightarrow> places b f \<Longrightarrow> deref a p = deref b p"
  by (rule bb_eq_occI) (metis places_def on_def)

lemma split_fen_of:
  assumes "case en_passant_square b of None \<Rightarrow> True | Some w \<Rightarrow> is_square w"
  shows "StrSplit (fen_of b) CHR '' '' = fen_fields b"
proof -
  have "CHR '' '' \<notin> set (castling_str b)" by (simp add: castling_str_def)
  moreover have "CHR '' '' \<notin> set (case en_passant_square b of None \<Rightarrow> ''-'' | Some w \<Rightarrow> alg (coord_of w))"
  proof (cases "en_passant_square b")
    case (Some w)
    with assms have "is_square w" by simp
    then obtain e where "on_board e" "w = csq e" by (rule is_square_coord)
    with Some show ?thesis using alg_space [of e] by simp
  qed simp
  ultimately have "\<forall>p\<in>set (fen_fields b). CHR '' '' \<notin> set p"
    using ranks_str_space show_int_space by (simp add: fen_fields_def pieces_str_ranks)
  then show ?thesis
    unfolding fen_of_def StrSplit_eq by (intro split_on_join) (auto simp: fen_fields_def)
qed

theorem Board_fen_fen_of:
  assumes "printable b"
  shows "Board_fen storage (fen_of b) = Inr b"
proof -
  have ep: "case en_passant_square b of None \<Rightarrow> True | Some w \<Rightarrow> is_square w"
    and num: "SimpleAtoi int32_t (show_int (fifty_move_clock b)) = Inr (True, fifty_move_clock b)"
      "SimpleAtoi int32_t (show_int (num_moves b)) = Inr (True, num_moves b)"
    using assms by (auto simp: printable_def in_int_def intro: SimpleAtoi_show_int)
  have places: "places b (piece_at b)" using assms by (simp add: printable_def places_piece_at)
  have "\<forall>c. \<not> on_board c \<longrightarrow> piece_at b c = None"
    using placesD [OF places] on_on_board by (metis not_None_eq)
  then obtain b1 where b1: "init_bitboards storage (pieces_str (piece_at b)) = Inr b1"
    "places b1 (piece_at b)"
    using init_bitboards_pieces by blast
  define b2 where "b2 = b1\<lparr>is_whites_move := is_whites_move b\<rparr>"
  have b2: "init_is_whites_move b1 (if is_whites_move b then ''w'' else ''b'') = Inr b2"
    by (simp add: init_is_whites_move_def b2_def)
  define b3 where "b3 = init_castling_rights b2 (castling_str b)"
  have b3: "white_has_right_to_castle_kingside b3 = white_has_right_to_castle_kingside b"
    "white_has_right_to_castle_queenside b3 = white_has_right_to_castle_queenside b"
    "black_has_right_to_castle_kingside b3 = black_has_right_to_castle_kingside b"
    "black_has_right_to_castle_queenside b3 = black_has_right_to_castle_queenside b"
    "is_whites_move b3 = is_whites_move b"
    by (simp_all add: b3_def init_castling_rights_def find_0_mem castling_str_mem b2_def
        del: not_None_eq)
  define b4 where "b4 = b3\<lparr>en_passant_square := en_passant_square b\<rparr>"
  have b4: "init_en_passant b3 (case en_passant_square b of None \<Rightarrow> ''-'' | Some w \<Rightarrow> alg (coord_of w)) =
      Inr b4"
  proof (cases "en_passant_square b")
    case (Some w)
    with ep have "is_square w" by simp
    then obtain e where e: "on_board e" "w = csq e" by (rule is_square_coord)
    have "alg e \<noteq> ''-''" by (simp add: alg_def)
    with Some e str_to_square_alg [OF e(1), of "[]"] show ?thesis
      by (simp add: init_en_passant_def b4_def)
  qed (simp add: init_en_passant_def b4_def)
  let ?b5 = "b4\<lparr>fifty_move_clock := fifty_move_clock b, num_moves := num_moves b\<rparr>"
  have "Board_fen storage (fen_of b) = Inr ?b5"
    unfolding Board_fen_def split_fen_of [OF ep] fen_fields_def
    using b1 b2 b4 num by (simp add: vector_get_def b3_def)
  moreover have "deref ?b5 p = deref b1 p" for p
    by (cases p; cases "fst p"; cases "snd p")
      (simp_all add: b4_def b3_def b2_def init_castling_rights_def)
  then have "?b5 = b"
    using places_deref [OF b1(2) places] b3
    by (intro board_eqI) (simp_all add: same_state_def b4_def)
  ultimately show ?thesis by simp
qed

lemma start_fen: "fen_of start_board = get_start_fen"
  by code_simp

lemma printable_start: "printable start_board"
  using wf_boardD(3) [of start_board] start_board_legal
  by (simp add: printable_def legal_position_def) (simp add: start_board_def int_bounds)

section \<open>The storage does not matter\<close>

text \<open>The members that \<open>init_bitboards\<close> leaves alone, taken from \<open>s\<close>.\<close>

definition with_state :: "Board \<Rightarrow> Board \<Rightarrow> Board" where
  "with_state s b =
     b\<lparr>is_whites_move := is_whites_move s,
       white_has_right_to_castle_kingside := white_has_right_to_castle_kingside s,
       white_has_right_to_castle_queenside := white_has_right_to_castle_queenside s,
       black_has_right_to_castle_kingside := black_has_right_to_castle_kingside s,
       black_has_right_to_castle_queenside := black_has_right_to_castle_queenside s,
       en_passant_square := en_passant_square s,
       fifty_move_clock := fifty_move_clock s, num_moves := num_moves s\<rparr>"

lemma init_char_with_state:
  "init_bitboards_char c (with_state s b, r, i) =
     bindr (init_bitboards_char c (b, r, i)) (\<lambda>(b, r, i). Inr (with_state s b, r, i))"
  by (simp add: init_bitboards_char_def bindr_assoc)
    (rule arg_cong [where f = "bindr _"], simp add: fun_eq_iff with_state_def)

lemma for_each_with_state:
  "for_each cs init_bitboards_char (with_state s b, r, i) =
     bindr (for_each cs init_bitboards_char (b, r, i)) (\<lambda>(b, r, i). Inr (with_state s b, r, i))"
  by (induction cs arbitrary: b r i)
    (auto simp: init_char_with_state bindr_assoc intro!: arg_cong [where f = "bindr _"])

lemma init_bitboards_storage:
  "init_bitboards s p = bindr (init_bitboards start_board p) (\<lambda>b. Inr (with_state s b))"
proof -
  have "zero_all_bitboards s = with_state s (zero_all_bitboards start_board)"
    by (simp add: zero_all_bitboards_def with_state_def)
  then show ?thesis
    by (simp add: init_bitboards_def for_each_with_state bindr_assoc split_def)
qed

text \<open>The values that the fields denote, without the board they are stored in.\<close>

definition side_field :: "string \<Rightarrow> bool result" where
  "side_field f = raw_check (f = ''w'' \<or> f = ''b'')
     ''Invalid FEN. Side to move must be either w or b'' (Inr (f = ''w''))"

definition ep_field :: "string \<Rightarrow> Bitboard option result" where
  "ep_field f = (if f = ''-'' then Inr None else bindr (str_to_square f) (\<lambda>w. Inr (Some w)))"

lemma init_is_whites_move_field:
  "init_is_whites_move b f = bindr (side_field f) (\<lambda>w. Inr (b\<lparr>is_whites_move := w\<rparr>))"
  by (simp add: init_is_whites_move_def side_field_def raw_check_def)

lemma init_en_passant_field:
  "init_en_passant b f = bindr (ep_field f) (\<lambda>e. Inr (b\<lparr>en_passant_square := e\<rparr>))"
  by (simp add: init_en_passant_def ep_field_def bindr_assoc)

text \<open>Every member is written before the constructor returns.\<close>

lemma Board_fen_storage: "Board_fen s fen = Board_fen s' fen"
  unfolding Board_fen_def Let_def init_bitboards_storage [of s] init_bitboards_storage [of s']
    init_is_whites_move_field init_en_passant_field bindr_assoc bindr_Inr split_def
  by (intro bindr_cong refl raw_check_cong)
    (simp add: with_state_def init_castling_rights_def)

section \<open>What the constructor accepts\<close>

text \<open>
  The placement field read position by position. The text before a character fixes the square
  the character stands for: the rank is counted down from 7 by the slashes, the file is the
  number of squares since the last slash, a digit standing for that many squares and a piece for
  one.
\<close>

definition squares_of :: "char \<Rightarrow> int" where
  "squares_of c = (if c \<in> set ''12345678'' then of_char c - 48 else 1)"

definition reached :: "string \<Rightarrow> coord" where
  "reached before =
     (sum_list (map squares_of (takeWhile (\<lambda>c. c \<noteq> CHR ''/'') (rev before))),
      7 - int (count_list before CHR ''/''))"

definition square_index :: "coord \<Rightarrow> int" where
  "square_index c = 8 * snd c + 7 - fst c"

definition stands_at :: "string \<Rightarrow> char \<Rightarrow> int \<Rightarrow> bool" where
  "stands_at p l n \<longleftrightarrow> (\<exists>j<length p. p ! j = l \<and> square_index (reached (take j p)) = n)"

definition placement_ok :: "string \<Rightarrow> bool" where
  "placement_ok p \<longleftrightarrow> set p \<subseteq> set ''12345678/PRNBQKprnbqk'' \<and>
     (\<forall>j<length p. 0 \<le> square_index (reached (take j p)) \<and> square_index (reached (take j p)) < 64)"

lemma all_less_snoc: "(\<forall>j<length (xs @ [x]). P j) \<longleftrightarrow> (\<forall>j<length xs. P j) \<and> P (length xs)"
  by (auto simp: less_Suc_eq)

lemma stands_at_snoc:
  "stands_at (p @ [c]) l n \<longleftrightarrow> stands_at p l n \<or> c = l \<and> square_index (reached p) = n"
proof -
  have "stands_at (p @ [c]) l n \<longleftrightarrow> c = l \<and> square_index (reached p) = n \<or>
      (\<exists>j<length p. (p @ [c]) ! j = l \<and> square_index (reached (take j (p @ [c]))) = n)"
    by (simp add: stands_at_def Ex_less_Suc)
  then show ?thesis by (simp add: stands_at_def nth_append disj_commute cong: conj_cong)
qed

lemma placement_ok_snoc:
  "placement_ok (p @ [c]) \<longleftrightarrow> placement_ok p \<and> c \<in> set ''12345678/PRNBQKprnbqk'' \<and>
     0 \<le> square_index (reached p) \<and> square_index (reached p) < 64"
proof -
  have "take j (p @ [c]) = take j p" if "j \<le> length p" for j using that by simp
  then have "(\<forall>j<length p. Q (take j (p @ [c]))) \<longleftrightarrow> (\<forall>j<length p. Q (take j p))" for Q by simp
  then show ?thesis unfolding placement_ok_def all_less_snoc by auto
qed

lemma piece_letter_inj: "piece_letter p = piece_letter q \<longleftrightarrow> p = q"
  by (cases p rule: piece_letter.cases; cases q rule: piece_letter.cases) simp_all

lemma piece_letter_class: "piece_letter q \<notin> set ''12345678/''"
  by (cases q rule: piece_letter.cases) simp_all

lemma letter_cases:
  assumes "c \<in> set ''12345678/PRNBQKprnbqk''"
  obtains "c \<in> set ''12345678''" | "c = CHR ''/''" | p where "c = piece_letter p"
  using assms piece_letter.simps that by (simp only: list.set insert_iff empty_iff) metis

lemma init_char_piece:
  "init_bitboards_char (piece_letter p) (b, r, i) =
     bindr (shl_lsb (r * board_size + board_size - i - 1))
       (\<lambda>w. Inr (assign b p (deref b p OR w), r, i + 1))"
proof -
  obtain c k where "p = (c, k)" by (cases p)
  then show ?thesis by (cases c; cases k) (simp_all add: init_bitboards_char_def)
qed

text \<open>One character: when it is accepted, and what it changes.\<close>

lemma init_char_unknown:
  assumes "c \<notin> set ''12345678/PRNBQKprnbqk''"
  shows "init_bitboards_char c st \<noteq> Inr x"
proof (cases st)
  case (fields b r i)
  show ?thesis
    using assms by (cases "shl_lsb (r * board_size + board_size - i - 1)")
      (simp_all add: init_bitboards_char_def fields)
qed

lemma shl_index:
  "shl_lsb (r * board_size + board_size - i - 1) =
     (if 0 \<le> square_index (i, r) \<and> square_index (i, r) < 64 then Inr (sqw (nat (square_index (i, r))))
      else Inl (Undefined_behaviour ''shift amount''))"
  by (simp add: shl_lsb_def sqw_def square_index_def board_size_def algebra_simps)

lemma init_char_reads:
  assumes "c \<in> set ''12345678/PRNBQKprnbqk''" "0 \<le> square_index (i, r)" "square_index (i, r) < 64"
    and "(i, r) = reached p"
  shows "\<exists>b'. init_bitboards_char c (b, r, i) = Inr (b', snd (reached (p @ [c])), fst (reached (p @ [c]))) \<and>
    (\<forall>q n. bit (deref b' q) n \<longleftrightarrow> bit (deref b q) n \<or> c = piece_letter q \<and> square_index (i, r) = int n)"
proof (cases rule: letter_cases [OF assms(1)])
  case 1
  then have c: "c \<noteq> CHR ''/''" "c \<noteq> piece_letter q" for q using piece_letter_class [of q] by auto
  then have "reached (p @ [c]) = (i + squares_of c, r)" using assms(4) by (simp add: reached_def)
  moreover have "init_bitboards_char c (b, r, i) = Inr (b, r, i + squares_of c)"
    using 1 assms(2,3) unfolding init_bitboards_char_def squares_of_def by (simp add: shl_index)
  ultimately show ?thesis using c(2) by (simp only: fst_conv snd_conv) blast
next
  case 2
  then have c: "c \<noteq> piece_letter q" for q using piece_letter_class [of q] by auto
  have "reached (p @ [c]) = (0, r - 1)" using 2 assms(4) by (simp add: reached_def)
  moreover have "init_bitboards_char c (b, r, i) = Inr (b, r - 1, 0)"
    using 2 assms(2,3) unfolding init_bitboards_char_def by (simp add: shl_index)
  ultimately show ?thesis using c by (simp only: fst_conv snd_conv) blast
next
  case (3 q)
  let ?b = "assign b q (deref b q OR sqw (nat (square_index (i, r))))"
  have "c \<noteq> CHR ''/''" "c \<notin> set ''12345678''" using 3 piece_letter_class [of q] by auto
  then have "reached (p @ [c]) = (i + 1, r)" using assms(4) by (simp add: reached_def squares_of_def)
  then have "init_bitboards_char c (b, r, i) =
      Inr (?b, snd (reached (p @ [c])), fst (reached (p @ [c])))"
    using assms(2,3) unfolding 3 init_char_piece by (simp add: shl_index)
  moreover have "bit (deref ?b q') n \<longleftrightarrow>
      bit (deref b q') n \<or> c = piece_letter q' \<and> square_index (i, r) = int n" for q' n
    using assms(2,3) unfolding 3 piece_letter_inj
    by (auto simp: deref_assign bit_or_iff bit_sqw)
  ultimately show ?thesis by blast
qed

lemma for_each_snoc: "for_each (xs @ [x]) body s = bindr (for_each xs body s) (body x)"
proof (induction xs arbitrary: s)
  case Nil
  then show ?case by (cases "body x s") simp_all
next
  case (Cons y xs)
  then show ?case by (cases "body y s") simp_all
qed

text \<open>The whole field: it is read exactly when it is well formed, into the pieces it shows.\<close>

lemma for_each_reads:
  assumes "\<And>q. deref b q = 0"
  shows "if placement_ok p then
      \<exists>b'. for_each p init_bitboards_char (b, 7, 0) = Inr (b', snd (reached p), fst (reached p)) \<and>
        (\<forall>q n. bit (deref b' q) n \<longleftrightarrow> stands_at p (piece_letter q) (int n))
    else \<forall>x. for_each p init_bitboards_char (b, 7, 0) \<noteq> Inr x"
proof (induction p rule: rev_induct)
  case Nil
  then show ?case using assms by (simp add: placement_ok_def reached_def stands_at_def)
next
  case (snoc c p)
  show ?case
  proof (cases "placement_ok p")
    case False
    with snoc show ?thesis by (auto simp: placement_ok_snoc for_each_snoc)
  next
    case True
    with snoc obtain b' where
      b': "for_each p init_bitboards_char (b, 7, 0) = Inr (b', snd (reached p), fst (reached p))"
        "\<forall>q n. bit (deref b' q) n \<longleftrightarrow> stands_at p (piece_letter q) (int n)" by auto
    let ?ok = "c \<in> set ''12345678/PRNBQKprnbqk'' \<and>
      0 \<le> square_index (reached p) \<and> square_index (reached p) < 64"
    show ?thesis
    proof (cases ?ok)
      case ok: True
      with init_char_reads [of c "fst (reached p)" "snd (reached p)" p b'] obtain b'' where
        b'': "init_bitboards_char c (b', snd (reached p), fst (reached p)) =
            Inr (b'', snd (reached (p @ [c])), fst (reached (p @ [c])))"
          "\<forall>q n. bit (deref b'' q) n \<longleftrightarrow>
            bit (deref b' q) n \<or> c = piece_letter q \<and> square_index (reached p) = int n" by auto
      have "placement_ok (p @ [c])" using True ok by (simp only: placement_ok_snoc simp_thms)
      moreover have "for_each (p @ [c]) init_bitboards_char (b, 7, 0) =
          Inr (b'', snd (reached (p @ [c])), fst (reached (p @ [c])))"
        by (simp only: for_each_snoc b'(1) bindr_Inr b''(1))
      moreover have "\<forall>q n. bit (deref b'' q) n \<longleftrightarrow> stands_at (p @ [c]) (piece_letter q) (int n)"
        using b'(2) b''(2) by (simp add: stands_at_snoc)
      ultimately show ?thesis by auto
    next
      case bad: False
      have "init_bitboards_char c (b', snd (reached p), fst (reached p)) \<noteq> Inr x" for x
      proof (cases "c \<in> set ''12345678/PRNBQKprnbqk''")
        case True
        with bad show ?thesis
          unfolding init_bitboards_char_def by (auto simp: shl_index simp del: set_simps)
      qed (rule init_char_unknown)
      with bad b'(1) show ?thesis by (auto simp: placement_ok_snoc for_each_snoc)
    qed
  qed
qed

lemma init_bitboards_iff:
  "(\<exists>x. init_bitboards b p = Inr x) \<longleftrightarrow> placement_ok p"
  "init_bitboards b p = Inr x \<Longrightarrow> bit (deref x q) n \<longleftrightarrow> stands_at p (piece_letter q) (int n)"
proof -
  let ?z = "zero_all_bitboards b"
  have "deref ?z q = 0" for q
    by (cases q; cases "fst q"; cases "snd q") (auto simp: zero_all_bitboards_def)
  note reads = for_each_reads [of ?z p, OF this]
  show "(\<exists>x. init_bitboards b p = Inr x) \<longleftrightarrow> placement_ok p"
    using reads by (auto simp: init_bitboards_def board_size_def bindr_eq_Inr_iff split: if_splits)
  assume x: "init_bitboards b p = Inr x"
  then have "placement_ok p" using \<open>_ \<longleftrightarrow> placement_ok p\<close> by blast
  with reads obtain b' where "for_each p init_bitboards_char (?z, 7, 0) = Inr (b', snd (reached p), fst (reached p))"
    "\<forall>q n. bit (deref b' q) n \<longleftrightarrow> stands_at p (piece_letter q) (int n)" by (simp only: if_True) blast
  moreover from this(1) x have "b' = x" by (simp add: init_bitboards_def board_size_def)
  ultimately show "bit (deref x q) n \<longleftrightarrow> stands_at p (piece_letter q) (int n)" by blast
qed

lemma vector_get_Inr: "vector_get xs i = Inr x \<longleftrightarrow> i < length xs \<and> x = xs ! i"
  by (auto simp: vector_get_def)

text \<open>The en passant field.\<close>

definition shows_square :: "string \<Rightarrow> Bitboard option \<Rightarrow> bool" where
  "shows_square e s \<longleftrightarrow> (if e = ''-'' then s = None
     else \<exists>c tail. on_board c \<and> e = alg c @ tail \<and> s = Some (csq c))"

lemma ep_field_iff: "ep_field e = Inr s \<longleftrightarrow> shows_square e s"
proof (cases "e = ''-''")
  case False
  have "ep_field e = Inr s \<longleftrightarrow> (\<exists>w. str_to_square e = Inr w \<and> s = Some w)"
    using False by (auto simp: ep_field_def)
  also have "\<dots> \<longleftrightarrow> (\<exists>c tail. on_board c \<and> e = alg c @ tail \<and> s = Some (csq c))"
    using str_to_square_cases [of e] str_to_square_alg by metis
  finally show ?thesis using False by (simp add: shows_square_def)
qed (auto simp: ep_field_def shows_square_def)

text \<open>
  The constructor accepts exactly the texts with six fields of the right form, and the board is
  determined by them.
\<close>

definition fen_reads :: "string \<Rightarrow> Board \<Rightarrow> bool" where
  "fen_reads fen b \<longleftrightarrow> (\<exists>p side cs e fifty n rest.
    split_on CHR '' '' fen = p # side # cs # e # fifty # n # rest \<and>
    placement_ok p \<and> (\<forall>q i. bit (deref b q) i \<longleftrightarrow> stands_at p (piece_letter q) (int i)) \<and>
    side \<in> {''w'', ''b''} \<and> is_whites_move b = (side = ''w'') \<and>
    white_has_right_to_castle_kingside b = (CHR ''K'' \<in> set cs) \<and>
    white_has_right_to_castle_queenside b = (CHR ''Q'' \<in> set cs) \<and>
    black_has_right_to_castle_kingside b = (CHR ''k'' \<in> set cs) \<and>
    black_has_right_to_castle_queenside b = (CHR ''q'' \<in> set cs) \<and>
    shows_square e (en_passant_square b) \<and>
    SimpleAtoi int32_t fifty = Inr (True, fifty_move_clock b) \<and>
    SimpleAtoi int32_t n = Inr (True, num_moves b))"

lemma fen_reads_unique:
  assumes "fen_reads fen a" "fen_reads fen b"
  shows "a = b"
proof (rule board_eqI)
  from assms(1) obtain p side cs e fifty n xs where
    xs: "split_on CHR '' '' fen = p # side # cs # e # fifty # n # xs"
    and a: "\<forall>q i. bit (deref a q) i \<longleftrightarrow> stands_at p (piece_letter q) (int i)"
      "is_whites_move a = (side = ''w'')"
      "white_has_right_to_castle_kingside a = (CHR ''K'' \<in> set cs)"
      "white_has_right_to_castle_queenside a = (CHR ''Q'' \<in> set cs)"
      "black_has_right_to_castle_kingside a = (CHR ''k'' \<in> set cs)"
      "black_has_right_to_castle_queenside a = (CHR ''q'' \<in> set cs)"
      "shows_square e (en_passant_square a)"
      "SimpleAtoi int32_t fifty = Inr (True, fifty_move_clock a)"
      "SimpleAtoi int32_t n = Inr (True, num_moves a)"
    unfolding fen_reads_def by blast
  from assms(2) have b: "\<forall>q i. bit (deref b q) i \<longleftrightarrow> stands_at p (piece_letter q) (int i)"
      "is_whites_move b = (side = ''w'')"
      "white_has_right_to_castle_kingside b = (CHR ''K'' \<in> set cs)"
      "white_has_right_to_castle_queenside b = (CHR ''Q'' \<in> set cs)"
      "black_has_right_to_castle_kingside b = (CHR ''k'' \<in> set cs)"
      "black_has_right_to_castle_queenside b = (CHR ''q'' \<in> set cs)"
      "shows_square e (en_passant_square b)"
      "SimpleAtoi int32_t fifty = Inr (True, fifty_move_clock b)"
      "SimpleAtoi int32_t n = Inr (True, num_moves b)"
    unfolding fen_reads_def xs list.inject by blast+
  show "deref a q = deref b q" for q using a(1) b(1) by (intro bb_eqI) blast
  show "same_state a b"
    unfolding same_state_def using a(2-) b(2-) by (simp add: ep_field_iff [symmetric])
qed

lemma Board_fen_reads:
  assumes "Board_fen storage fen = Inr b"
  shows "fen_reads fen b"
proof -
  define xs where "xs = split_on CHR '' '' fen"
  have "6 \<le> length xs"
    using assms by (auto simp: Board_fen_def StrSplit_eq xs_def [symmetric] vector_get_Inr Let_def split_def)
  then obtain p side cs e fifty n rest where xs: "xs = p # side # cs # e # fifty # n # rest"
    by (auto simp: Suc_le_length_iff eval_nat_numeral)
  from assms obtain b1 side' e' where b1: "init_bitboards storage p = Inr b1"
    and side: "side_field side = Inr side'" and e: "ep_field e = Inr e'"
    and fifty: "SimpleAtoi int32_t fifty = Inr (True, fifty_move_clock b)"
    and n: "SimpleAtoi int32_t n = Inr (True, num_moves b)"
    and b: "b = (init_castling_rights (b1\<lparr>is_whites_move := side'\<rparr>) cs)\<lparr>en_passant_square := e',
      fifty_move_clock := fifty_move_clock b, num_moves := num_moves b\<rparr>"
    by (auto simp: Board_fen_def StrSplit_eq xs_def [symmetric] xs vector_get_def Let_def split_def
        init_is_whites_move_field init_en_passant_field prod_eq_iff)
  have "deref b q = deref b1 q" for q
    by (subst b) (cases q; cases "fst q"; cases "snd q"; auto simp: init_castling_rights_def)
  then have "placement_ok p \<and> (\<forall>q i. bit (deref b q) i \<longleftrightarrow> stands_at p (piece_letter q) (int i))"
    using init_bitboards_iff [of storage p] b1 by auto
  moreover have "shows_square e (en_passant_square b)"
    using e by (subst b) (simp add: ep_field_iff)
  moreover have "side \<in> {''w'', ''b''} \<and> is_whites_move b = (side = ''w'')"
    using side by (subst b) (auto simp: side_field_def init_castling_rights_def)
  moreover have "white_has_right_to_castle_kingside b = (CHR ''K'' \<in> set cs)"
      "white_has_right_to_castle_queenside b = (CHR ''Q'' \<in> set cs)"
      "black_has_right_to_castle_kingside b = (CHR ''k'' \<in> set cs)"
      "black_has_right_to_castle_queenside b = (CHR ''q'' \<in> set cs)"
    by (subst b, simp add: init_castling_rights_def find_0_mem del: not_None_eq)+
  ultimately show ?thesis
    using fifty n xs unfolding fen_reads_def xs_def by blast
qed

lemma Board_fen_iff: "Board_fen storage fen = Inr b \<longleftrightarrow> fen_reads fen b"
proof
  assume reads: "fen_reads fen b"
  then obtain p side cs e fifty n rest where
    xs: "split_on CHR '' '' fen = p # side # cs # e # fifty # n # rest"
    and p: "placement_ok p" and side: "side \<in> {''w'', ''b''}"
    and e: "shows_square e (en_passant_square b)"
    and num: "SimpleAtoi int32_t fifty = Inr (True, fifty_move_clock b)"
      "SimpleAtoi int32_t n = Inr (True, num_moves b)"
    unfolding fen_reads_def by blast
  obtain b1 where b1: "init_bitboards storage p = Inr b1" using init_bitboards_iff(1) p by blast
  have "side_field side = Inr (side = ''w'')" "ep_field e = Inr (en_passant_square b)"
    using side e by (auto simp: side_field_def ep_field_iff)
  then have "\<exists>b'. Board_fen storage fen = Inr b'"
    using b1 num by (simp add: Board_fen_def StrSplit_eq xs vector_get_def Let_def
        init_is_whites_move_field init_en_passant_field)
  then obtain b' where b': "Board_fen storage fen = Inr b'" by blast
  with fen_reads_unique [OF Board_fen_reads [OF b'] reads] show "Board_fen storage fen = Inr b" by simp
qed (rule Board_fen_reads)

end
