(* ===== verification/Game.thy ===== *)
theory Game
  imports Positions
begin

text \<open>
  The interface between the position component and the two tree walks, perft and search:
  from a sound position with room for one more move the generator succeeds, every generated
  move can be made, leads to a sound position with the room that is left, and is undone by
  \<open>undo_move\<close>. The walks rely on these laws only; the interpretation discharges them for
  the engine.
\<close>

section \<open>The contract\<close>

locale game_engine =
  fixes moves :: "'b \<Rightarrow> 'm list result" and make :: "'b \<Rightarrow> 'm \<Rightarrow> 'b result"
    and undo :: "'b \<Rightarrow> 'm \<Rightarrow> 'b" and good :: "nat \<Rightarrow> 'b \<Rightarrow> bool"
  assumes moves_ok: "good (Suc n) b \<Longrightarrow> \<exists>ms. moves b = Inr ms \<and> distinct ms"
    and make_ok: "good (Suc n) b \<Longrightarrow> moves b = Inr ms \<Longrightarrow> m \<in> set ms \<Longrightarrow>
      \<exists>b'. make b m = Inr b' \<and> good n b' \<and> undo b' m = b"
    and good_less: "good (Suc n) b \<Longrightarrow> good n b"
begin

lemma good_mono: "good n b \<Longrightarrow> k \<le> n \<Longrightarrow> good k b"
proof (induction n)
  case 0
  then show ?case by simp
next
  case (Suc n)
  then show ?case by (cases "k = Suc n") (auto dest: good_less)
qed

lemma movesE:
  assumes "good n b" "0 < n"
  obtains ms where "moves b = Inr ms" "distinct ms"
  using assms moves_ok by (cases n) auto

lemma makeE:
  assumes "good n b" "0 < n" "moves b = Inr ms" "m \<in> set ms"
  obtains b' where "make b m = Inr b'" "good (n - 1) b'" "undo b' m = b"
proof -
  from assms(2) obtain k where "n = Suc k" by (cases n) auto
  with make_ok [of k b ms m] assms(1,3,4) that show ?thesis by auto
qed

text \<open>A line of moves, played one after the other.\<close>

primrec play_line :: "'b \<Rightarrow> 'm list \<Rightarrow> 'b result" where
  "play_line b [] = Inr b"
| "play_line b (m # ms) = bindr (make b m) (\<lambda>b'. play_line b' ms)"

primrec line :: "'b \<Rightarrow> 'm list \<Rightarrow> bool" where
  "line b [] = True"
| "line b (m # ms) = ((\<exists>ls. moves b = Inr ls \<and> m \<in> set ls) \<and>
     (\<exists>b'. make b m = Inr b' \<and> line b' ms))"

lemma play_line_ok:
  "good n b \<Longrightarrow> line b ms \<Longrightarrow> length ms \<le> n \<Longrightarrow>
     \<exists>b'. play_line b ms = Inr b' \<and> good (n - length ms) b'"
proof (induction ms arbitrary: b n)
  case Nil
  then show ?case by simp
next
  case (Cons m ms)
  then obtain ls b1 where ls: "moves b = Inr ls" "m \<in> set ls" and b1: "make b m = Inr b1" "line b1 ms"
    by auto
  have n: "0 < n" using Cons.prems(3) by simp
  obtain b2 where "make b m = Inr b2" "good (n - 1) b2" "undo b2 m = b"
    by (rule makeE [OF Cons.prems(1) n ls])
  with b1 have "good (n - 1) b1" by simp
  from Cons.IH [OF this b1(2)] Cons.prems(3) b1(1) n show ?case by simp
qed

end

section \<open>The engine meets it\<close>

definition good_position :: "nat \<Rightarrow> Board \<Rightarrow> bool" where
  "good_position n b \<longleftrightarrow> legal_position b \<and> num_moves b + int n \<le> int_max"

lemma mv_board_state [simp]: "board_state (mv b m) = b"
  by (cases m) simp

lemma good_position_countable: "good_position (Suc n) b \<Longrightarrow> countable_move b"
  by (auto simp: good_position_def countable_move_def legal_position_def int_bounds
      dest: wf_boardD(8))

lemma good_position_make:
  assumes "good_position (Suc n) b" "legal_move b c"
  shows "\<exists>b'. do_move b (mv b c) = Inr b' \<and> good_position n b' \<and> undo_move b' (mv b c) = b"
proof -
  have l: "legal_position b" using assms(1) by (simp add: good_position_def)
  obtain b' where b': "do_move b (mv b c) = Inr b'" "legal_position b'"
    "position_of b' = play (position_of b) c" "fifty_move_clock b' = fifty_move_clock b"
    by (rule legal_step [OF l good_position_countable [OF assms(1)] assms(2)])
  have "move_number (position_of b') \<le> move_number (position_of b) + 1"
    unfolding b'(3) by (simp add: play_def split: prod.split)
  then have "num_moves b' \<le> num_moves b + 1" by (simp add: position_of_def)
  with assms(1) b' show ?thesis by (simp add: good_position_def undo_move_def)
qed

interpretation chess: game_engine legal_moves do_move undo_move good_position
proof
  fix n b assume g: "good_position (Suc n) b"
  have l: "legal_position b" using g by (simp add: good_position_def)
  obtain ms where ms: "legal_moves b = Inr ms" "distinct ms" "set ms = mv b ` {m. legal_move b m}"
    by (rule legal_moves_spec [OF l good_position_countable [OF g]])
  then show "\<exists>ms. legal_moves b = Inr ms \<and> distinct ms" by blast
  fix ms' m assume "legal_moves b = Inr ms'" "m \<in> set ms'"
  with ms obtain c where "m = mv b c" "legal_move b c" by auto
  with good_position_make [OF g] show "\<exists>b'. do_move b m = Inr b' \<and> good_position n b' \<and> undo_move b' m = b"
    by simp
next
  fix n b assume "good_position (Suc n) b"
  then show "good_position n b" by (simp add: good_position_def)
qed

text \<open>The children of a node, in the order the code visits them.\<close>

definition successors :: "Board \<Rightarrow> Move list \<Rightarrow> (Move \<times> Board) list" where
  "successors b ms = concat (map (\<lambda>m. case do_move b m of Inr b' \<Rightarrow> [(m, b')] | Inl _ \<Rightarrow> []) ms)"

definition children :: "Board \<Rightarrow> (Move \<times> Board) list" where
  "children b = (case legal_moves b of Inr ms \<Rightarrow> successors b ms | Inl _ \<Rightarrow> [])"

lemma successors_simps [simp]:
  "successors b [] = []"
  "do_move b m = Inr b' \<Longrightarrow> successors b (m # ms) = (m, b') # successors b ms"
  by (simp_all add: successors_def)

lemma set_successors: "(m, b') \<in> set (successors b ms) \<longleftrightarrow> m \<in> set ms \<and> do_move b m = Inr b'"
  by (auto simp: successors_def split: sum.splits)

text \<open>Games by the rules: sequences of legal moves, each made by \<open>do_move\<close>.\<close>

inductive legal_game :: "Board \<Rightarrow> Move list \<Rightarrow> Board \<Rightarrow> bool" where
  finished: "legal_game b [] b"
| next_move: "legal_move b c \<Longrightarrow> do_move b (mv b c) = Inr b1 \<Longrightarrow> legal_game b1 ms b' \<Longrightarrow>
    legal_game b (mv b c # ms) b'"

inductive_simps legal_game_simps: "legal_game b [] b'" "legal_game b (m # ms) b'"

lemma children_legal:
  assumes "good_position (Suc n) b"
  shows "(m, b') \<in> set (children b) \<longleftrightarrow> (\<exists>c. m = mv b c \<and> legal_move b c) \<and> do_move b m = Inr b'"
proof -
  have l: "legal_position b" using assms by (simp add: good_position_def)
  obtain ms where "legal_moves b = Inr ms" "distinct ms" "set ms = mv b ` {m. legal_move b m}"
    by (rule legal_moves_spec [OF l good_position_countable [OF assms]])
  then show ?thesis by (auto simp: children_def set_successors)
qed

lemma good_children:
  assumes "good_position (Suc n) b"
  shows "(m, b') \<in> set (children b) \<Longrightarrow> good_position n b'"
    and "distinct (map fst (children b))"
proof -
  obtain ms where ms: "legal_moves b = Inr ms" "distinct ms"
    by (rule chess.movesE [OF assms]) simp
  have ok: "\<exists>b'. do_move b m = Inr b' \<and> good_position n b' \<and> undo_move b' m = b" if "m \<in> set ms" for m
    by (rule chess.make_ok [OF assms ms(1) that])
  show "good_position n b'" if "(m, b') \<in> set (children b)"
    using that ok [of m] by (auto simp: children_def ms set_successors)
  have "map fst (successors b xs) = xs" if "set xs \<subseteq> set ms" for xs
    using that
  proof (induction xs)
    case (Cons x xs)
    then obtain b' where "do_move b x = Inr b'" using ok [of x] by auto
    with Cons show ?case by simp
  qed simp
  from this [of ms] show "distinct (map fst (children b))" by (simp add: children_def ms)
qed

end
