(* ===== verification/Perft.thy ===== *)
theory Perft
  imports Game
begin

text \<open>
  \<open>number_of_moves\<close> of \<open>src/src/board.cc\<close>, the node count that \<open>src/src/perft.cc\<close> checks
  against known values.
\<close>

section \<open>The code\<close>

text \<open>
  The depth is an \<open>int\<close> and is not checked to be non-negative: from a negative depth the
  recursion counts down until \<open>half_move_depth - 1\<close> overflows. The board is restored by
  \<open>undo_move\<close> after every child.
\<close>

fun perft_loop ::
    "(Board \<Rightarrow> int result) \<Rightarrow> Move list \<Rightarrow> Board \<times> int \<Rightarrow> (Board \<times> int) result" where
  "perft_loop child [] s = Inr s"
| "perft_loop child (move # moves) (board, res) =
     bindr (do_move board move) (\<lambda>board.
     bindr (child board) (\<lambda>n.
     bindr (add_int64 res n) (\<lambda>res.
     perft_loop child moves (undo_move board move, res))))"

lemma perft_loop_cong [fundef_cong]:
  assumes "moves = moves'" "s = s'" "\<And>b. child b = child' b"
  shows "perft_loop child moves s = perft_loop child' moves' s'"
proof -
  have "child = child'" using assms(3) by blast
  with assms(1,2) show ?thesis by simp
qed

function number_of_moves :: "Board \<Rightarrow> int \<Rightarrow> int result" where
  "number_of_moves board half_move_depth =
     (if half_move_depth = 0 then Inr 1
      else
        bindr (legal_moves board) (\<lambda>moves.
        bindr (perft_loop (\<lambda>board.
            if half_move_depth \<le> int_min then Inl (Undefined_behaviour ''signed overflow'')
            else number_of_moves board (half_move_depth - 1)) moves (board, 0))
          (\<lambda>(board, res). Inr res)))"
  by pat_completeness auto
termination
  by (relation "measure (\<lambda>(b, d). nat (d - int_min))") simp_all

declare number_of_moves.simps [simp del]

section \<open>Counting the lines\<close>

fun lines :: "nat \<Rightarrow> Board \<Rightarrow> Move list list" where
  "lines 0 b = [[]]"
| "lines (Suc n) b = concat (map (\<lambda>(m, b'). map ((#) m) (lines n b')) (children b))"

lemma perft_loop_ok:
  assumes "\<And>m. m \<in> set ms \<Longrightarrow> \<exists>b'. do_move b m = Inr b' \<and> undo_move b' m = b \<and> child b' = Inr (int (f b'))"
    and "0 \<le> res" "res + int (\<Sum>(m, b')\<leftarrow>successors b ms. f b') \<le> int64_max"
  shows "perft_loop child ms (b, res) = Inr (b, res + int (\<Sum>(m, b')\<leftarrow>successors b ms. f b'))"
  using assms
proof (induction ms arbitrary: res)
  case Nil
  then show ?case by simp
next
  case (Cons m ms)
  from Cons.prems(1) [of m] obtain b' where b': "do_move b m = Inr b'" "undo_move b' m = b"
    "child b' = Inr (int (f b'))" by auto
  have "add_int64 res (int (f b')) = Inr (res + int (f b'))"
    using Cons.prems(2,3) b'(1) by (simp add: add_int64_def int_bounds)
  moreover have "perft_loop child ms (b, res + int (f b')) =
      Inr (b, res + int (f b') + int (\<Sum>(m, b')\<leftarrow>successors b ms. f b'))"
    using Cons.prems b'(1) by (intro Cons.IH) auto
  ultimately show ?case using b' by simp
qed

lemma length_lines_Suc:
  "length (lines (Suc n) b) = (\<Sum>(m, b')\<leftarrow>children b. length (lines n b'))"
  by (simp add: length_concat comp_def case_prod_unfold)

lemma length_lines_child:
  assumes "(m, b') \<in> set (children b)"
  shows "length (lines n b') \<le> length (lines (Suc n) b)"
proof -
  have "length (lines n b') \<in> set (map (\<lambda>(m, b'). length (lines n b')) (children b))"
    using assms by force
  then show ?thesis unfolding length_lines_Suc by (rule member_le_sum_list) simp
qed

lemma number_of_moves_lines:
  assumes "good_position n b" "int (length (lines n b)) \<le> int64_max"
  shows "number_of_moves b (int n) = Inr (int (length (lines n b)))"
  using assms
proof (induction n arbitrary: b)
  case 0
  then show ?case by (simp add: number_of_moves.simps)
next
  case (Suc n)
  obtain ms where ms: "legal_moves b = Inr ms" "distinct ms"
    by (rule chess.movesE [OF Suc.prems(1)]) simp
  have children: "children b = successors b ms" by (simp add: children_def ms)
  have "\<exists>b'. do_move b m = Inr b' \<and> undo_move b' m = b \<and>
      number_of_moves b' (int n) = Inr (int (length (lines n b')))" if m: "m \<in> set ms" for m
  proof -
    obtain b' where b': "do_move b m = Inr b'" "good_position n b'" "undo_move b' m = b"
      using chess.make_ok [OF Suc.prems(1) ms(1) m] by blast
    then have "(m, b') \<in> set (children b)" using m by (simp add: children set_successors)
    from length_lines_child [OF this, of n] Suc.prems(2)
    have "int (length (lines n b')) \<le> int64_max" by linarith
    with Suc.IH [OF b'(2)] b' show ?thesis by blast
  qed
  then have "perft_loop (\<lambda>b. number_of_moves b (int n)) ms (b, 0) =
      Inr (b, 0 + int (\<Sum>(m, b')\<leftarrow>successors b ms. length (lines n b')))"
    by (rule perft_loop_ok) (use Suc.prems(2) in \<open>simp_all add: length_lines_Suc children del: lines.simps\<close>)
  then show ?case
    by (subst number_of_moves.simps)
      (simp add: ms length_lines_Suc int_bounds children del: lines.simps)
qed

lemma set_lines:
  assumes "good_position n b"
  shows "ms \<in> set (lines n b) \<longleftrightarrow> length ms = n \<and> (\<exists>b'. legal_game b ms b')"
  using assms
proof (induction n arbitrary: b ms)
  case 0
  then show ?case by (auto simp: legal_game_simps)
next
  case (Suc n)
  show ?case
  proof (cases ms)
    case Nil
    then show ?thesis by auto
  next
    case (Cons m ls)
    have "ms \<in> set (lines (Suc n) b) \<longleftrightarrow> (\<exists>b'. (m, b') \<in> set (children b) \<and> ls \<in> set (lines n b'))"
      by (auto simp: Cons)
    also have "\<dots> \<longleftrightarrow> (\<exists>b1. (m, b1) \<in> set (children b) \<and> length ls = n \<and> (\<exists>b'. legal_game b1 ls b'))"
      using Suc.IH good_children(1) [OF Suc.prems] by blast
    also have "\<dots> \<longleftrightarrow> length ms = Suc n \<and> (\<exists>b'. legal_game b ms b')"
      unfolding children_legal [OF Suc.prems] Cons legal_game_simps by auto
    finally show ?thesis .
  qed
qed

lemma distinct_lines: "good_position n b \<Longrightarrow> distinct (lines n b)"
proof (induction n arbitrary: b)
  case 0
  then show ?case by simp
next
  case (Suc n)
  have "distinct (children b)"
    using good_children(2) [OF Suc.prems] by (simp add: distinct_map)
  moreover have "distinct (map ((#) m) (lines n b'))" if "(m, b') \<in> set (children b)" for m b'
    using Suc.IH [OF good_children(1) [OF Suc.prems that]] by (simp add: distinct_map)
  moreover have key: "b1 = b2" if "(m, b1) \<in> set (children b)" "(m, b2) \<in> set (children b)" for m b1 b2
    using good_children(2) [OF Suc.prems] that by (rule eq_key_imp_eq_value)
  ultimately show ?case
    unfolding lines.simps by (intro distinct_concat_map) (auto dest: key)
qed

theorem number_of_moves_card:
  assumes "good_position n b" "card {ms. length ms = n \<and> (\<exists>b'. legal_game b ms b')} < 2 ^ 63"
  shows "number_of_moves b (int n) = Inr (int (card {ms. length ms = n \<and> (\<exists>b'. legal_game b ms b')}))"
proof -
  have "{ms. length ms = n \<and> (\<exists>b'. legal_game b ms b')} = set (lines n b)"
    using set_lines [OF assms(1)] by blast
  then have card: "card {ms. length ms = n \<and> (\<exists>b'. legal_game b ms b')} = length (lines n b)"
    by (simp add: distinct_card [OF distinct_lines [OF assms(1)]])
  with number_of_moves_lines [OF assms(1)] assms(2) show ?thesis by (simp add: int_bounds)
qed

text \<open>
  A crude bound on the number of lines: a move is a pair of squares, a piece and a type.
\<close>

lemma legal_moves_number:
  assumes "good_position (Suc n) b" "legal_moves b = Inr ms"
  shows "length ms \<le> 245760"
proof -
  have l: "legal_position b" using assms(1) by (simp add: good_position_def)
  obtain ms' where ms': "legal_moves b = Inr ms'" "distinct ms'" "set ms' = mv b ` {m. legal_move b m}"
    by (rule legal_moves_spec [OF l good_position_countable [OF assms(1)]])
  let ?B = "{0..7} \<times> {0..7} :: coord set"
  let ?T = "{simple, two_step_pawn, capture, en_passant, castle_kingside, castle_queenside,
    promotion_to_rook, promotion_to_bishop, promotion_to_knight, promotion_to_queen}"
  let ?C = "?B \<times> ?B \<times> {pawn, rook, knight, bishop, queen, king} \<times> ?T"
  have ty: "ty \<in> ?T" and k: "k \<in> {pawn, rook, knight, bishop, queen, king}" for ty k
    by (cases ty; simp) (cases k; simp)
  have board: "c \<in> ?B" if "on_board c" for c using that by (cases c) (auto simp: on_board_def)
  have sub: "{m. legal_move b m} \<subseteq> ?C"
  proof
    fix m assume m: "m \<in> {m. legal_move b m}"
    obtain s t k ty where c: "m = (s, t, k, ty)" using prod_cases4 by blast
    then have "candidate b (s, t, k, ty)" using m by (simp add: legal_move_def)
    from candidate_facts(3,4) [OF l this] show "m \<in> ?C"
      unfolding c by (intro SigmaI board ty k)
  qed
  have fin: "finite ?C" by (intro finite_cartesian_product) simp_all
  have "card (mv b ` {m. legal_move b m}) \<le> card {m. legal_move b m}"
    by (rule card_image_le [OF finite_subset [OF sub fin]])
  also have "\<dots> \<le> card ?C" by (rule card_mono [OF fin sub])
  also have "card ?C = 245760" by (simp only: card_cartesian_product) simp
  finally have "card (mv b ` {m. legal_move b m}) \<le> 245760" .
  moreover have "length ms = card (set ms)" using ms'(1,2) assms(2) by (simp add: distinct_card)
  ultimately show ?thesis using ms'(1,3) assms(2) by simp
qed

lemma length_lines_le: "good_position n b \<Longrightarrow> length (lines n b) \<le> 245760 ^ n"
proof (induction n arbitrary: b)
  case 0
  then show ?case by simp
next
  case (Suc n)
  obtain ms where ms: "legal_moves b = Inr ms" "distinct ms"
    by (rule chess.movesE [OF Suc.prems]) simp
  have "length (successors b xs) \<le> length xs" for xs
    by (induction xs) (auto simp: successors_def split: sum.splits)
  from this [of ms] have len: "length (children b) \<le> 245760"
    using legal_moves_number [OF Suc.prems ms(1)] by (simp add: children_def ms)
  have "length (lines n b') \<le> 245760 ^ n" if "(m, b') \<in> set (children b)" for m b'
    by (rule Suc.IH [OF good_children(1) [OF Suc.prems that]])
  then have "(\<Sum>(m, b')\<leftarrow>children b. length (lines n b')) \<le> (\<Sum>_\<leftarrow>children b. 245760 ^ n)"
    by (intro sum_list_mono) auto
  also have "\<dots> = length (children b) * 245760 ^ n" by (simp add: sum_list_triv)
  also have "\<dots> \<le> 245760 * 245760 ^ n" by (rule mult_right_mono [OF len]) simp
  finally show ?case unfolding length_lines_Suc by simp
qed

end
