(* ===== verification/Search.thy ===== *)
theory Search
  imports Material
begin

text \<open>
  Evaluation and search of \<open>src/src/board.cc\<close>: \<open>static_evaluation\<close>, the quiescence
  search and the alpha-beta search. The vector \<open>pv\<close> that the code passes by pointer is an
  argument and a component of the result.
\<close>

section \<open>The code\<close>

definition static_evaluation :: "Board \<Rightarrow> int result" where
  "static_evaluation b =
     bindr (legal_moves b) (\<lambda>moves.
       if length moves = 0 then Inr (if is_whites_move b then - 1000 else 1000)
       else
         let pawn_value = 1;
             rook_value = 5;
             knight_value = 3;
             bishop_value = 3;
             queen_value = 9;
             res =
               pawn_value * (pop_count (white_pawns b) - pop_count (black_pawns b)) +
               rook_value * (pop_count (white_rooks b) - pop_count (black_rooks b)) +
               knight_value * (pop_count (white_knights b) - pop_count (black_knights b)) +
               bishop_value * (pop_count (white_bishops b) - pop_count (black_bishops b)) +
               queen_value * (pop_count (white_queens b) - pop_count (black_queens b))
         in Inr res)"

text \<open>
  The loop over the moves, which the two searches share word for word: \<open>child\<close> is the
  recursive search, called with the negated and exchanged bounds and an empty line.
\<close>

fun search_loop ::
    "Board \<Rightarrow> (Board \<Rightarrow> int \<Rightarrow> int \<Rightarrow> Move list \<Rightarrow> (int \<times> Move list) result) \<Rightarrow> Move list \<Rightarrow>
     int \<Rightarrow> int \<Rightarrow> Move list \<Rightarrow> (int \<times> Move list) result" where
  "search_loop board child [] alpha beta pv = Inr (alpha, pv)"
| "search_loop board child (move # moves) alpha beta pv =
     bindr (do_move board move) (\<lambda>child_board.
     bindr (neg_int beta) (\<lambda>neg_beta.
     bindr (neg_int alpha) (\<lambda>neg_alpha.
     bindr (child child_board neg_beta neg_alpha []) (\<lambda>(v, line).
     bindr (neg_int v) (\<lambda>score.
       if score \<ge> beta then Inr (beta, pv)
       else if score > alpha then search_loop board child moves score beta (move # line)
       else search_loop board child moves alpha beta pv)))))"

lemma search_loop_cong [fundef_cong]:
  assumes "board = board'" "moves = moves'" "alpha = alpha'" "beta = beta'" "pv = pv'"
    and "\<And>m c x y l. m \<in> set moves' \<Longrightarrow> do_move board' m = Inr c \<Longrightarrow> child c x y l = child' c x y l"
  shows "search_loop board child moves alpha beta pv =
    search_loop board' child' moves' alpha' beta' pv'"
  unfolding assms(1-5) using assms(6)
proof (induction moves' arbitrary: alpha' pv')
  case Nil
  show ?case by simp
next
  case (Cons m ms)
  have IH: "search_loop board' child ms x beta' l = search_loop board' child' ms x beta' l" for x l
    by (rule Cons.IH) (metis Cons.prems list.set_intros(2))
  have "child c x y l = child' c x y l" if "do_move board' m = Inr c" for c x y l
    by (rule Cons.prems [of m c x y l]) (use that in auto)
  then show ?case
    by (cases "do_move board' m") (simp_all add: IH cong: if_cong)
qed

function quiescence_search ::
    "Board \<Rightarrow> int \<Rightarrow> int \<Rightarrow> Move list \<Rightarrow> (int \<times> Move list) result" where
  "quiescence_search board alpha beta pv =
     bindr (static_evaluation board) (\<lambda>evaluation.
       let score = evaluation * (if is_whites_move board then 1 else - 1)
       in if score \<ge> beta then Inr (beta, pv)
          else
            let alpha = (if score > alpha then score else alpha)
            in bindr (legal_capture_moves board) (\<lambda>moves.
                 search_loop board (\<lambda>child_board a b line. quiescence_search child_board a b line)
                   moves alpha beta pv))"
  by pat_completeness auto
termination
  by (relation "measure (\<lambda>(board, alpha, beta, pv). capture_rank board)")
    (auto intro: legal_capture_shrinks)

function alpha_beta ::
    "Board \<Rightarrow> int \<Rightarrow> int \<Rightarrow> int \<Rightarrow> Move list \<Rightarrow> (int \<times> Move list) result" where
  "alpha_beta board depth alpha beta pv =
     raw_check (pv = []) ''pv not empty''
       (bindr (legal_moves board) (\<lambda>moves.
          if depth = 0 \<or> length moves = 0 then quiescence_search board alpha beta pv
          else
            search_loop board (\<lambda>child_board a b line.
                if depth \<le> int_min then Inl (Undefined_behaviour ''signed overflow'')
                else alpha_beta child_board (depth - 1) a b line)
              moves alpha beta pv))"
  by pat_completeness auto
termination
  by (relation "measure (\<lambda>(board, depth, alpha, beta, pv). nat (depth - int_min))") simp_all

definition evaluation :: "Board \<Rightarrow> int \<Rightarrow> Move list \<Rightarrow> (int \<times> Move list) result" where
  "evaluation board depth pv = alpha_beta board depth (- 1000000) 1000000 pv"

declare quiescence_search.simps [simp del] alpha_beta.simps [simp del]

end
