(* ===== verification/Search_Correct.thy ===== *)
theory Search_Correct
  imports Search Game
begin

text \<open>
  The searches against their specifications: the quiescence value and the negamax value of a
  position, defined by plain recursion over the game tree. Alpha-beta with any window returns
  that value clamped to the window, the full-width search returns it exactly, and the
  principal variation is a legal line that leads to a position of that value. The static
  evaluation at the leaves is the balance of the pieces, counted square by square.
\<close>

section \<open>Specifications\<close>

definition stand_pat :: "Board \<Rightarrow> int" where
  "stand_pat b = (case static_evaluation b of
     Inr v \<Rightarrow> v * (if is_whites_move b then 1 else - 1) | Inl _ \<Rightarrow> 0)"

definition captures :: "Board \<Rightarrow> (Move \<times> Board) list" where
  "captures b = (case legal_capture_moves b of Inr ms \<Rightarrow> successors b ms | Inl _ \<Rightarrow> [])"

lemma captures_shrink: "(m, b') \<in> set (captures b) \<Longrightarrow> capture_rank b' < capture_rank b"
  by (cases "legal_capture_moves b") (auto simp: captures_def set_successors intro: legal_capture_shrinks)

function quiesce :: "Board \<Rightarrow> int" where
  "quiesce b = fold max (map (\<lambda>(m, b'). - quiesce b') (captures b)) (stand_pat b)"
  by pat_completeness auto
termination by (relation "measure capture_rank") (auto intro: captures_shrink)

declare quiesce.simps [simp del]

fun negamax :: "nat \<Rightarrow> Board \<Rightarrow> int" where
  "negamax 0 b = quiesce b"
| "negamax (Suc n) b =
     (if children b = [] then quiesce b
      else Max (set (map (\<lambda>(m, b'). - negamax n b') (children b))))"

primrec realizes :: "Board \<Rightarrow> Move list \<Rightarrow> int \<Rightarrow> bool" where
  "realizes b [] v = (stand_pat b = v)"
| "realizes b (m # ms) v = ((\<exists>ls. legal_moves b = Inr ls \<and> m \<in> set ls) \<and>
     (\<exists>b'. do_move b m = Inr b' \<and> realizes b' ms (- v)))"

text \<open>What a search of \<open>b\<close> with value \<open>v\<close> owes its caller, for every window.\<close>

definition search_ok :: "(int \<Rightarrow> int \<Rightarrow> (int \<times> Move list) result) \<Rightarrow> Board \<Rightarrow> int \<Rightarrow> bool" where
  "search_ok child b v \<longleftrightarrow> (\<forall>x y. int_min < x \<longrightarrow> x < y \<longrightarrow> y \<le> int_max \<longrightarrow>
     (\<exists>l. child x y = Inr (max x (min y v), l) \<and> (x < v \<and> v < y \<longrightarrow> realizes b l v)))"

lemma search_okE:
  assumes "search_ok child b v" "int_min < x" "x < y" "y \<le> int_max"
  obtains l where "child x y = Inr (max x (min y v), l)" "x < v \<and> v < y \<longrightarrow> realizes b l v"
  using assms unfolding search_ok_def by blast

section \<open>The loop over the moves\<close>

lemma neg_int_ok: "int_min < x \<Longrightarrow> x \<le> int_max \<Longrightarrow> neg_int x = Inr (- x)"
  by (simp add: neg_int_def int_bounds)

lemma fold_max_ge: "(a :: int) \<le> fold max xs a"
  by (induction xs arbitrary: a) (auto intro: order_trans [OF max.cobounded2])

lemma fold_max_max: "fold max xs (max a c) = max (c :: int) (fold max xs a)"
proof (induction xs arbitrary: a)
  case (Cons x xs)
  have "max x (max a c) = max (max x a) c" by (simp add: max.assoc)
  then show ?case using Cons.IH [of "max x a"] by simp
qed (simp add: max.commute)

lemma fold_max_Max: "xs \<noteq> [] \<Longrightarrow> fold max xs a = max a (Max (set xs) :: int)"
  by (metis Max.set_eq_fold Max_insert List.finite_set list.set(2) set_empty)

lemma search_loop_ok:
  assumes "int_min < \<alpha>" "\<alpha> < \<beta>" "\<beta> \<le> int_max"
    and "\<And>m. m \<in> set ms \<Longrightarrow> \<exists>b'. do_move b m = Inr b' \<and> search_ok (\<lambda>x y. child b' x y []) b' (val b')"
    and "\<exists>ls. legal_moves b = Inr ls \<and> set ms \<subseteq> set ls"
  shows "\<exists>l. search_loop b child ms \<alpha> \<beta> pv =
      Inr (min \<beta> (fold max (map (\<lambda>(m, b'). - val b') (successors b ms)) \<alpha>), l) \<and>
    (fold max (map (\<lambda>(m, b'). - val b') (successors b ms)) \<alpha> < \<beta> \<longrightarrow>
      fold max (map (\<lambda>(m, b'). - val b') (successors b ms)) \<alpha> = \<alpha> \<and> l = pv \<or>
      realizes b l (fold max (map (\<lambda>(m, b'). - val b') (successors b ms)) \<alpha>))"
  using assms
proof (induction ms arbitrary: \<alpha> pv)
  case Nil
  then show ?case by simp
next
  case (Cons m ms)
  let ?F = "fold max (map (\<lambda>(m, b'). - val b') (successors b ms))"
  obtain b' where b': "do_move b m = Inr b'" "search_ok (\<lambda>x y. child b' x y []) b' (val b')"
    using Cons.prems(4) [of m] by auto
  define w where "w = - val b'"
  have win: "int_min < - \<beta>" "- \<beta> < - \<alpha>" "- \<alpha> \<le> int_max"
    using Cons.prems(1-3) by (simp_all add: int_bounds)
  obtain line where line: "child b' (- \<beta>) (- \<alpha>) [] = Inr (max (- \<beta>) (min (- \<alpha>) (val b')), line)"
    "- \<beta> < val b' \<and> val b' < - \<alpha> \<longrightarrow> realizes b' line (val b')"
    by (rule search_okE [OF b'(2) win])
  have score: "neg_int (max (- \<beta>) (min (- \<alpha>) (val b'))) = Inr (max \<alpha> (min \<beta> w))"
    using Cons.prems(1-3) by (auto simp: neg_int_def int_bounds w_def)
  have step: "search_loop b child (m # ms) \<alpha> \<beta> pv =
      (if w \<ge> \<beta> then Inr (\<beta>, pv) else if w > \<alpha> then search_loop b child ms w \<beta> (m # line)
       else search_loop b child ms \<alpha> \<beta> pv)"
    using Cons.prems(1-3) by (auto simp: b'(1) neg_int_ok line(1) score)
  have F: "fold max (map (\<lambda>(m, b'). - val b') (successors b (m # ms))) \<alpha> = ?F (max w \<alpha>)"
    by (simp add: b'(1) w_def)
  have IH: "\<exists>l. search_loop b child ms a \<beta> p = Inr (min \<beta> (?F a), l) \<and>
      (?F a < \<beta> \<longrightarrow> ?F a = a \<and> l = p \<or> realizes b l (?F a))" if "\<alpha> \<le> a" "a < \<beta>" for a p
    by (rule Cons.IH) (use that Cons.prems in auto)
  consider "w \<ge> \<beta>" | "\<alpha> < w" "w < \<beta>" | "w \<le> \<alpha>" by linarith
  then show ?case
  proof cases
    case 1
    then have "\<beta> \<le> ?F (max w \<alpha>)" using fold_max_ge [of "max w \<alpha>"] by (meson le_max_iff_disj order_trans)
    with 1 show ?thesis unfolding step F by simp
  next
    case 2
    then have "realizes b (m # line) w"
      using line(2) b'(1) Cons.prems(5) by (auto simp: w_def)
    with IH [of w "m # line"] 2 show ?thesis unfolding step F by auto
  next
    case 3
    with IH [of \<alpha> pv] Cons.prems(2) show ?thesis unfolding step F by (auto simp: max_def)
  qed
qed

section \<open>Material on a legal position\<close>

lemma material_le_64:
  assumes "disjoint_pieces b"
  shows "material b \<le> 64"
proof -
  have disj: "bits (deref b p) \<inter> bits (deref b q) = {}" if "p \<noteq> q" for p q
  proof -
    have "i \<notin> bits (deref b q)" if i: "i \<in> bits (deref b p)" for i
    proof
      assume "i \<in> bits (deref b q)"
      with i have "on b p (idxc i)" "on b q (idxc i)"
        using bit_word_bound by (auto simp: bits_def on_def occ_def)
      with assms \<open>p \<noteq> q\<close> show False using disjoint_piecesD by blast
    qed
    then show ?thesis by blast
  qed
  have fin: "finite (bits w)" "bits w \<subseteq> {..<64}" for w
    using bit_word_bound by (auto simp: bits_def intro: finite_subset [of _ "{..<64}"])
  have "material b = int (\<Sum>p\<in>set all_bitboards. card (bits (deref b p)))"
    by (simp add: material_def pop_count_eq sum_list_distinct_conv_sum_set [OF store.ptrs_distinct])
  also have "(\<Sum>p\<in>set all_bitboards. card (bits (deref b p))) =
      card (\<Union>p\<in>set all_bitboards. bits (deref b p))"
    by (rule card_UN_disjoint [symmetric]) (use fin disj in auto)
  also have "\<dots> \<le> card {..<64::nat}"
    by (rule card_mono) (use fin(2) in blast)+
  finally show ?thesis by simp
qed

lemma capture_rank_le:
  assumes "legal_position b"
  shows "capture_rank b \<le> 129"
proof -
  have "disjoint_pieces b" using assms wf_boardD(3) by (simp add: legal_position_def)
  from material_le_64 [OF this] show ?thesis by (simp add: capture_rank_def nat_le_iff)
qed

section \<open>The static evaluation\<close>

fun piece_value :: "Piece \<Rightarrow> int" where
  "piece_value pawn = 1"
| "piece_value rook = 5"
| "piece_value knight = 3"
| "piece_value bishop = 3"
| "piece_value queen = 9"
| "piece_value king = 0"

text \<open>
  The balance of a position, square by square: what stands on a square counts for White with its
  value and against White when it is black.
\<close>

fun worth :: "bb_ptr \<Rightarrow> int" where
  "worth (white, k) = piece_value k"
| "worth (black, k) = - piece_value k"

definition board_coords :: "coord list" where
  "board_coords = List.product [0..7] [0..7]"

definition square_worth :: "Board \<Rightarrow> coord \<Rightarrow> int" where
  "square_worth b c = (\<Sum>p\<leftarrow>all_bitboards. if on b p c then worth p else 0)"

definition balance :: "Board \<Rightarrow> int" where
  "balance b = (\<Sum>c\<leftarrow>board_coords. square_worth b c)"

lemma set_board_coords: "c \<in> set board_coords \<longleftrightarrow> on_board c"
  by (cases c) (auto simp: board_coords_def on_board_def)

lemma distinct_board_coords: "distinct board_coords"
  unfolding board_coords_def by (intro distinct_product) simp_all

lemma length_board_coords: "length board_coords = 64"
  by (simp add: board_coords_def)

lemma pop_count_squares: "pop_count (deref b p) = (\<Sum>c\<leftarrow>board_coords. if on b p c then 1 else 0)"
proof -
  have inv: "cidx (idxc i) = i \<and> on_board (idxc i)" if "i \<in> bits (deref b p)" for i
    using that bit_word_bound [of "deref b p" i] by (simp add: bits_def)
  have "bij_betw cidx {c \<in> set board_coords. on b p c} (bits (deref b p))"
  proof (rule bij_betw_byWitness [where f' = idxc])
    show "idxc ` bits (deref b p) \<subseteq> {c \<in> set board_coords. on b p c}"
    proof
      fix c assume "c \<in> idxc ` bits (deref b p)"
      then obtain i where "c = idxc i" "i \<in> bits (deref b p)" by blast
      with inv [of i] show "c \<in> {c \<in> set board_coords. on b p c}"
        by (simp add: set_board_coords on_def occ_def bits_def)
    qed
  qed (use inv in \<open>auto simp: on_def occ_def bits_def\<close>)
  then have "card {c \<in> set board_coords. on b p c} = card (bits (deref b p))" by (rule bij_betw_same_card)
  then show ?thesis
    by (simp add: pop_count_eq sum_list_distinct_conv_sum_set distinct_board_coords sum.If_cases Int_def)
qed

lemma balance_counts: "balance b = (\<Sum>p\<leftarrow>all_bitboards. worth p * pop_count (deref b p))"
proof -
  have "balance b = (\<Sum>c\<in>set board_coords. \<Sum>p\<in>set all_bitboards. if on b p c then worth p else 0)"
    by (simp add: balance_def square_worth_def sum_list_distinct_conv_sum_set distinct_board_coords
        store.ptrs_distinct)
  also have "\<dots> = (\<Sum>p\<in>set all_bitboards. \<Sum>c\<in>set board_coords. worth p * (if on b p c then 1 else 0))"
    by (subst sum.swap) (simp add: if_distrib cong: if_cong)
  also have "\<dots> = (\<Sum>p\<leftarrow>all_bitboards. worth p * pop_count (deref b p))"
    by (simp only: pop_count_squares sum_list_distinct_conv_sum_set distinct_board_coords
        store.ptrs_distinct sum_distrib_left)
  finally show ?thesis .
qed

lemma static_evaluation_eq:
  "legal_moves b = Inr ms \<Longrightarrow> static_evaluation b =
     Inr (if ms = [] then if is_whites_move b then - 1000 else 1000 else balance b)"
  by (simp add: static_evaluation_def balance_counts all_bitboards_def Let_def algebra_simps cong: if_cong)

lemma pop_count_le: "pop_count w \<le> 64"
proof -
  have "bits w \<subseteq> {..<64}" using bit_word_bound by (auto simp: bits_def)
  from card_mono [OF _ this] show ?thesis by (simp add: pop_count_eq)
qed

lemma balance_bound: "\<bar>balance b\<bar> \<le> 1344"
  using pop_count_le [of "deref b (white, pawn)"] pop_count_le [of "deref b (black, pawn)"]
    pop_count_le [of "deref b (white, rook)"] pop_count_le [of "deref b (black, rook)"]
    pop_count_le [of "deref b (white, knight)"] pop_count_le [of "deref b (black, knight)"]
    pop_count_le [of "deref b (white, bishop)"] pop_count_le [of "deref b (black, bishop)"]
    pop_count_le [of "deref b (white, queen)"] pop_count_le [of "deref b (black, queen)"]
    pop_count_nonneg [of "deref b (white, pawn)"] pop_count_nonneg [of "deref b (black, pawn)"]
    pop_count_nonneg [of "deref b (white, rook)"] pop_count_nonneg [of "deref b (black, rook)"]
    pop_count_nonneg [of "deref b (white, knight)"] pop_count_nonneg [of "deref b (black, knight)"]
    pop_count_nonneg [of "deref b (white, bishop)"] pop_count_nonneg [of "deref b (black, bishop)"]
    pop_count_nonneg [of "deref b (white, queen)"] pop_count_nonneg [of "deref b (black, queen)"]
  by (simp add: balance_counts all_bitboards_def)

text \<open>
  In a legal position a square carries at most one piece, and two squares carry the kings, which
  count nothing.
\<close>

lemma worth_bound: "\<bar>worth p\<bar> \<le> 9"
  by (cases p; cases "fst p"; cases "snd p") auto

lemma square_worth_piece:
  assumes "disjoint_pieces b" "on b p c"
  shows "square_worth b c = worth p"
proof -
  have "(if on b q c then worth q else 0) = (if q = p then worth p else 0)" for q
    using assms disjoint_piecesD [OF assms(1)] by auto
  then have "square_worth b c = (\<Sum>q\<in>set all_bitboards. if q = p then worth p else 0)"
    by (simp add: square_worth_def sum_list_distinct_conv_sum_set store.ptrs_distinct)
  then show ?thesis using all_bitboards_all [of p] by simp
qed

lemma square_worth_bound:
  assumes "disjoint_pieces b"
  shows "\<bar>square_worth b c\<bar> \<le> 9"
proof (cases "\<exists>p. on b p c")
  case True
  with square_worth_piece [OF assms] worth_bound show ?thesis by metis
qed (simp add: square_worth_def)

lemma legal_balance_bound:
  assumes "legal_position b"
  shows "\<bar>balance b\<bar> \<le> 558"
proof -
  have d: "disjoint_pieces b" and k: "kings_ok b"
    using assms wf_boardD by (simp_all add: legal_position_def)
  define K where "K = {king_coord b white, king_coord b black}"
  have on: "on b (side, king) (king_coord b side)" for side using king_coord(3) [OF k] by simp
  have "king_coord b white \<noteq> king_coord b black"
    using on [of white] on [of black] disjoint_piecesD [OF d] by fastforce
  moreover have "K \<subseteq> set board_coords" using king_coord(1) [OF k] by (simp add: K_def set_board_coords)
  moreover have "card (set board_coords) = 64"
    using distinct_card [OF distinct_board_coords] by (simp add: length_board_coords)
  ultimately have card: "card (set board_coords - K) = 62"
    by (subst card_Diff_subset) (auto simp: K_def)
  have zero: "square_worth b c = 0" if "c \<in> K" for c
    using that square_worth_piece [OF d on] by (auto simp: K_def)
  have "balance b = sum (square_worth b) (set board_coords)"
    by (simp add: balance_def sum_list_distinct_conv_sum_set distinct_board_coords)
  also have "\<dots> = sum (square_worth b) (set board_coords - K)"
    using zero by (intro sum.mono_neutral_right) auto
  finally have "\<bar>balance b\<bar> \<le> (\<Sum>c\<in>set board_coords - K. \<bar>square_worth b c\<bar>)" by simp
  also have "\<dots> \<le> (\<Sum>c\<in>set board_coords - K. 9)" by (rule sum_mono) (rule square_worth_bound [OF d])
  finally show ?thesis using card by simp
qed

text \<open>The static evaluation in terms of the rules.\<close>

lemma static_evaluation_rules:
  assumes "legal_position b" "countable_move b"
  shows "static_evaluation b = Inr (if \<exists>m. legal_move b m then balance b
    else if is_whites_move b then - 1000 else 1000)"
proof -
  obtain ms where ms: "legal_moves b = Inr ms" "set ms = mv b ` {m. legal_move b m}"
    using legal_moves_spec [OF assms] by metis
  then have "ms = [] \<longleftrightarrow> \<not> (\<exists>m. legal_move b m)" by (auto simp flip: set_empty)
  with static_evaluation_eq [OF ms(1)] show ?thesis
    by (cases "\<exists>m. legal_move b m") (simp_all only: if_True if_False simp_thms)
qed

lemma stand_pat_bound: "\<bar>stand_pat b\<bar> \<le> 1344"
proof (cases "legal_moves b")
  case (Inl e)
  then show ?thesis by (simp add: stand_pat_def static_evaluation_def)
next
  case (Inr ms)
  then show ?thesis
    using balance_bound [of b] by (simp add: stand_pat_def static_evaluation_eq)
qed

section \<open>Quiescence search\<close>

lemma quiescence_ok:
  assumes "good_position n b" "capture_rank b < n"
  shows "search_ok (\<lambda>x y. quiescence_search b x y []) b (quiesce b)"
  using assms
proof (induction "capture_rank b" arbitrary: b n rule: less_induct)
  case less
  have n: "0 < n" using less.prems(2) by simp
  obtain ms where ms: "legal_moves b = Inr ms" "distinct ms" by (rule chess.movesE [OF less.prems(1) n])
  obtain e where e: "static_evaluation b = Inr e"
    by (simp add: static_evaluation_eq [OF ms(1)])
  let ?cs = "filter (is_capture_move b) ms"
  have cs: "legal_capture_moves b = Inr ?cs" by (simp add: legal_capture_moves_def ms)
  have succ: "captures b = successors b ?cs" by (simp add: captures_def cs)
  have child: "\<exists>b'. do_move b m = Inr b' \<and>
      search_ok (\<lambda>x y. quiescence_search b' x y []) b' (quiesce b')" if m: "m \<in> set ?cs" for m
  proof -
    from m have m': "m \<in> set ms" by simp
    obtain b' where b': "do_move b m = Inr b'" "good_position (n - 1) b'" "undo_move b' m = b"
      by (rule chess.makeE [OF less.prems(1) n ms(1) m'])
    have "capture_rank b' < capture_rank b" by (rule legal_capture_shrinks [OF cs m b'(1)])
    with less.hyps [OF this b'(2)] less.prems(2) b'(1) show ?thesis by auto
  qed
  show ?case
    unfolding search_ok_def
  proof (intro allI impI)
    fix x y assume w: "int_min < x" "x < y" "y \<le> int_max"
    let ?s = "stand_pat b" let ?F = "fold max (map (\<lambda>(m, b'). - quiesce b') (successors b ?cs))"
    have s: "e * (if is_whites_move b then 1 else - 1) = ?s" by (simp add: stand_pat_def e)
    have q: "quiesce b = ?F ?s" by (subst quiesce.simps) (simp add: succ)
    have step: "quiescence_search b x y [] = (if ?s \<ge> y then Inr (y, [])
        else search_loop b quiescence_search ?cs (max ?s x) y [])"
      by (subst quiescence_search.simps) (simp add: e s cs Let_def max_def)
    show "\<exists>l. quiescence_search b x y [] = Inr (max x (min y (quiesce b)), l) \<and>
      (x < quiesce b \<and> quiesce b < y \<longrightarrow> realizes b l (quiesce b))"
    proof (cases "?s \<ge> y")
      case True
      then have "y \<le> quiesce b" unfolding q using fold_max_ge order_trans by blast
      with True w show ?thesis by (simp add: step)
    next
      case False
      have ls: "\<exists>ls. legal_moves b = Inr ls \<and> set ?cs \<subseteq> set ls" by (auto simp: ms)
      have "int_min < max ?s x" "max ?s x < y" using w False by auto
      from search_loop_ok [where child = quiescence_search and val = quiesce and pv = "[]",
          OF this w(3) child ls] obtain l where
        l: "search_loop b quiescence_search ?cs (max ?s x) y [] = Inr (min y (?F (max ?s x)), l)"
        "?F (max ?s x) < y \<longrightarrow> ?F (max ?s x) = max ?s x \<and> l = [] \<or> realizes b l (?F (max ?s x))"
        by blast
      have "?F (max ?s x) = max x (quiesce b)" by (simp add: fold_max_max q)
      with l False w show ?thesis by (auto simp: step min_def max_def split: if_splits)
    qed
  qed
qed

lemma quiesce_bound: "good_position n b \<Longrightarrow> capture_rank b < n \<Longrightarrow> \<bar>quiesce b\<bar> \<le> 1344"
proof (induction "capture_rank b" arbitrary: b n rule: less_induct)
  case less
  have n: "0 < n" using less.prems(2) by simp
  obtain ms where ms: "legal_moves b = Inr ms" "distinct ms" by (rule chess.movesE [OF less.prems(1) n])
  have child: "\<bar>quiesce b'\<bar> \<le> 1344" if "(m, b') \<in> set (captures b)" for m b'
  proof -
    have m: "m \<in> set ms" "do_move b m = Inr b'"
      using that by (auto simp: captures_def legal_capture_moves_def ms set_successors)
    obtain b'' where "do_move b m = Inr b''" "good_position (n - 1) b''" "undo_move b'' m = b"
      by (rule chess.makeE [OF less.prems(1) n ms(1) m(1)])
    with m(2) have "good_position (n - 1) b'" by simp
    with less.hyps [OF captures_shrink [OF that]] captures_shrink [OF that] less.prems(2)
    show ?thesis by simp
  qed
  have bound: "\<bar>fold max (map (\<lambda>(m, b'). - quiesce b') xs) a\<bar> \<le> 1344"
    if "\<bar>a\<bar> \<le> 1344" "set xs \<subseteq> set (captures b)" for xs a
    using that
  proof (induction xs arbitrary: a)
    case (Cons x xs)
    obtain m b' where x: "x = (m, b')" by (cases x)
    then have "\<bar>max (- quiesce b') a\<bar> \<le> 1344" using child [of m b'] Cons.prems by auto
    from Cons.IH [OF this] Cons.prems(2) show ?case by (simp add: x)
  qed simp
  show ?case by (subst quiesce.simps) (rule bound [OF stand_pat_bound subset_refl])
qed

section \<open>Alpha-beta\<close>

lemma alpha_beta_ok:
  assumes "good_position (d + 130) b"
  shows "search_ok (\<lambda>x y. alpha_beta b (int d) x y []) b (negamax d b)"
  using assms
proof (induction d arbitrary: b)
  case 0
  have l: "legal_position b" using 0 by (simp add: good_position_def)
  obtain ms where ms: "legal_moves b = Inr ms" "distinct ms" by (rule chess.movesE [OF 0]) simp
  have "search_ok (\<lambda>x y. quiescence_search b x y []) b (quiesce b)"
    by (rule quiescence_ok [OF 0]) (use capture_rank_le [OF l] in simp)
  then show ?case by (simp add: alpha_beta.simps ms)
next
  case (Suc d)
  have l: "legal_position b" using Suc.prems by (simp add: good_position_def)
  have g: "good_position (Suc (d + 130)) b" using Suc.prems by simp
  obtain ms where ms: "legal_moves b = Inr ms" "distinct ms" by (rule chess.movesE [OF g]) simp
  have ch: "children b = successors b ms" by (simp add: children_def ms)
  have child: "\<exists>b'. do_move b m = Inr b' \<and>
      search_ok (\<lambda>x y. alpha_beta b' (int d) x y []) b' (negamax d b')" if m: "m \<in> set ms" for m
    using chess.make_ok [OF g ms(1) m] Suc.IH by blast
  show ?case
  proof (cases "ms = []")
    case True
    have "search_ok (\<lambda>x y. quiescence_search b x y []) b (quiesce b)"
      by (rule quiescence_ok [OF g]) (use capture_rank_le [OF l] in simp)
    then show ?thesis by (simp add: alpha_beta.simps ms ch True)
  next
    case False
    have "children b \<noteq> []"
    proof -
      obtain m where "m \<in> set ms" using False by (cases ms) auto
      with child obtain b' where "(m, b') \<in> set (children b)" by (auto simp: ch set_successors)
      then show ?thesis by auto
    qed
    let ?vs = "map (\<lambda>(m, b'). - negamax d b') (successors b ms)"
    let ?v = "Max (set ?vs)"
    have nm: "negamax (Suc d) b = ?v" using \<open>children b \<noteq> []\<close> by (simp add: ch)
    have vs: "fold max ?vs x = max x ?v" for x
      using \<open>children b \<noteq> []\<close> by (intro fold_max_Max) (simp add: ch)
    have step: "alpha_beta b (int (Suc d)) x y [] =
        search_loop b (\<lambda>b' x y l. alpha_beta b' (int d) x y l) ms x y []" for x y
      by (subst alpha_beta.simps) (simp add: ms False int_bounds)
    show ?thesis
      unfolding search_ok_def nm step
    proof (intro allI impI)
      fix x y assume w: "int_min < x" "x < y" "y \<le> int_max"
      have ls: "\<exists>ls. legal_moves b = Inr ls \<and> set ms \<subseteq> set ls" by (simp add: ms)
      from search_loop_ok [where child = "\<lambda>b' x y l. alpha_beta b' (int d) x y l" and
          val = "negamax d" and pv = "[]", OF w child ls]
      obtain l where l: "search_loop b (\<lambda>b' x y l. alpha_beta b' (int d) x y l) ms x y [] =
          Inr (min y (max x ?v), l)"
        "max x ?v < y \<longrightarrow> max x ?v = x \<and> l = [] \<or> realizes b l (max x ?v)"
        unfolding vs by blast
      have "min y (max x ?v) = max x (min y ?v)" using w(2) by (simp add: min_def max_def)
      moreover have "x < ?v \<and> ?v < y \<longrightarrow> realizes b l ?v" using l(2) by (auto simp: max_def split: if_splits)
      ultimately show "\<exists>l. search_loop b (\<lambda>b' x y l. alpha_beta b' (int d) x y l) ms x y [] =
          Inr (max x (min y ?v), l) \<and> (x < ?v \<and> ?v < y \<longrightarrow> realizes b l ?v)"
        using l(1) by auto
    qed
  qed
qed

lemma negamax_bound:
  assumes "good_position (d + 130) b"
  shows "\<bar>negamax d b\<bar> \<le> 1344"
  using assms
proof (induction d arbitrary: b)
  case 0
  have "legal_position b" using 0 by (simp add: good_position_def)
  from capture_rank_le [OF this] show ?case using quiesce_bound [OF 0] by simp
next
  case (Suc d)
  have g: "good_position (Suc (d + 130)) b" using Suc.prems by simp
  show ?case
  proof (cases "children b = []")
    case True
    have "legal_position b" using Suc.prems by (simp add: good_position_def)
    from capture_rank_le [OF this] True show ?thesis using quiesce_bound [OF g] by simp
  next
    case False
    let ?S = "set (map (\<lambda>(m, b'). - negamax d b') (children b))"
    have "?S \<noteq> {}" "finite ?S" using False by auto
    then have "Max ?S \<in> ?S" by (rule Max_in [rotated])
    then obtain m b' where "(m, b') \<in> set (children b)" "Max ?S = - negamax d b'" by auto
    with Suc.IH [OF good_children(1) [OF g]] False show ?thesis by simp
  qed
qed

section \<open>The evaluation of a position\<close>

lemma evaluation_ok:
  assumes "good_position (d + 130) b"
  obtains pv where "evaluation b (int d) [] = Inr (negamax d b, pv)" "realizes b pv (negamax d b)"
    "\<bar>negamax d b\<bar> \<le> 1344"
proof -
  have v: "\<bar>negamax d b\<bar> \<le> 1344" by (rule negamax_bound [OF assms])
  have w: "int_min < - 1000000" "- 1000000 < (1000000 :: int)" "1000000 \<le> int_max"
    by (simp_all add: int_bounds)
  have "search_ok (\<lambda>x y. alpha_beta b (int d) x y []) b (negamax d b)" by (rule alpha_beta_ok [OF assms])
  then obtain pv where "alpha_beta b (int d) (- 1000000) 1000000 [] =
      Inr (max (- 1000000) (min 1000000 (negamax d b)), pv)"
    "- 1000000 < negamax d b \<and> negamax d b < 1000000 \<longrightarrow> realizes b pv (negamax d b)"
    by (rule search_okE [OF _ w])
  moreover have "- 1000000 < negamax d b" "negamax d b < 1000000" using v by arith+
  ultimately show ?thesis using v by (intro that) (simp_all add: evaluation_def)
qed

end
