(* ===== verification/Programs.thy ===== *)
theory Programs
  imports Pretty Fen_Correct Perft Search_Correct
begin

text \<open>
  The two command-line programs, \<open>src/src/eval.cc\<close> and \<open>src/src/perft.cc\<close>: what they print
  for their arguments. Reading the clock is input, so the texts that the times and the
  durations print as are arguments of the definitions. A stream is the text written to it.
\<close>

section \<open>The evaluator\<close>

text \<open>
  \<open>std::atoi\<close>: the longest decimal prefix behind white space and a sign, \<open>0\<close> when there is
  none; a value that does not fit an \<open>int\<close> is undefined behaviour.
\<close>

definition atoi :: "string \<Rightarrow> int result" where
  "atoi s =
     (let t = dropWhile ascii_isspace s;
          negative = (t \<noteq> [] \<and> hd t = CHR ''-'');
          t = (if t \<noteq> [] \<and> (hd t = CHR ''-'' \<or> hd t = CHR ''+'') then tl t else t);
          n = numeral_value 10 (takeWhile ascii_isdigit t);
          n = (if negative then - n else n)
      in if in_int n then Inr n else Inl (Undefined_behaviour ''atoi''))"

definition tab :: string where "tab = [CHR 0x09]"

text \<open>The loop that prints the principal variation.\<close>

definition print_moves :: "Move list \<Rightarrow> string \<Rightarrow> string result" where
  "print_moves pv out =
     for_each pv (\<lambda>move out.
       bindr (Move_to_pretty_str move) (\<lambda>s. Inr (out @ tab @ s @ newline))) out"

definition eval_main :: "Board \<Rightarrow> string list \<Rightarrow> string \<Rightarrow> string \<Rightarrow> string result" where
  "eval_main storage argv start elapsed =
     bindr (vector_get argv 1) (\<lambda>arg1.
     bindr (Board_fen storage arg1) (\<lambda>board.
     bindr (vector_get argv 2) (\<lambda>arg2.
     bindr (atoi arg2) (\<lambda>depth.
     let out = ''Depth: '' @ show_int depth @ newline;
         out = out @ ''Starting evaluation at time: '' @ start @ newline
     in bindr (evaluation board depth []) (\<lambda>(eval, pv).
        let out = out @ ''Evaluation: '' @ show_int eval @ newline;
            out = out @ ''Principal variation: '' @ newline
        in bindr (print_moves pv out) (\<lambda>out.
           Inr (out @ ''Time taken: '' @ elapsed @ newline)))))))"

section \<open>The move counter\<close>

definition perft_fens :: "string list" where
  "perft_fens =
    [get_start_fen,
     ''r3k2r/p1ppqpb1/bn2pnp1/3PN3/1p2P3/2N2Q1p/PPPBBPPP/R3K2R w KQkq - 0 1'',
     ''8/2p5/3p4/KP5r/1R3p1k/8/4P1P1/8 w - - 0 1'',
     ''r3k2r/Pppp1ppp/1b3nbN/nP6/BBP1P3/q4N2/Pp1P2PP/R2Q1RK1 w kq - 0 1'',
     ''rnbq1k1r/pp1Pbppp/2p5/8/2B5/8/PPP1NnPP/RNBQK2R w KQ - 1 8'',
     ''r4rk1/1pp1qppp/p1np1n2/2b1p1B1/2B1P1b1/P1NP1N2/1PP1QPPP/R4RK1 w - - 0 10'',
     ''n1n5/PPPk4/8/8/8/8/4Kppp/5N1N b - - 0 1'']"

definition num_nodes :: "int list list" where
  "num_nodes =
    [[1, 20, 400, 8902, 197281, 4865609, 119060324, 3195901860],
     [1, 48, 2039, 97862, 4085603, 193690690, 8031647685, - 1],
     [1, 14, 191, 2812, 43238, 674624, 11030083, 178633661],
     [1, 6, 264, 9467, 422333, 15833292, 706045033, - 1],
     [1, 44, 1486, 62379, 2103487, 89941194, - 1, - 1],
     [1, 46, 2079, 89890, 3894594, 164075551, 6923051137, 287188994746],
     [1, 24, 496, 9483, 182838, 3605103, 71179139, - 1]]"

text \<open>The conversion of an \<open>int64_t\<close> to an \<open>int\<close>, modulo \<open>2 ^ 32\<close>.\<close>

definition narrow :: "int \<Rightarrow> int" where
  "narrow n = sint (word_of_int n :: 32 word)"

text \<open>The body of the inner loop; the flag says that the program has returned.\<close>

definition perft_position ::
    "Board \<Rightarrow> int \<Rightarrow> nat \<Rightarrow> int \<Rightarrow> string \<Rightarrow> string \<Rightarrow> (string \<times> bool) result" where
  "perft_position board depth board_idx entry elapsed out =
     (let correct_res = narrow entry;
          header = tab @ ''Pos '' @ show_int (int board_idx) @ '':'' @ newline
      in if correct_res = - 1 then Inr (out @ header @ tab @ tab @ ''No info.'' @ newline, False)
         else
           bindr (number_of_moves board depth) (\<lambda>n.
           let computed_res = narrow n;
               out = out @ header @
                 tab @ tab @ ''Computed result: '' @ show_int computed_res @ ''.'' @ newline @
                 tab @ tab @ ''Correct result:  '' @ show_int correct_res @ ''.'' @ newline @
                 tab @ tab @ ''Time taken: '' @ elapsed @ ''.'' @ newline
           in if computed_res \<noteq> correct_res
              then Inr (out @ [CHR 0x1B] @ ''[0;31mIncorrect results!'' @ newline, True)
              else Inr (out, False)))"

definition perft_depth ::
    "Board list \<Rightarrow> (nat \<Rightarrow> nat \<Rightarrow> string) \<Rightarrow> nat \<Rightarrow> string \<times> bool \<Rightarrow> (string \<times> bool) result" where
  "perft_depth boards elapsed depth st = (case st of (out, returned) \<Rightarrow>
     if returned then Inr st
     else
       for_each [0..<length boards] (\<lambda>board_idx (out, returned).
         if returned then Inr (out, returned)
         else perft_position (boards ! board_idx) (int depth) board_idx
           (num_nodes ! board_idx ! depth) (elapsed depth board_idx) out)
         (out @ ''Depth '' @ show_int (int depth) @ ''.'' @ newline, False))"

definition perft_boards :: "Board \<Rightarrow> Board list result" where
  "perft_boards storage =
     for_each perft_fens (\<lambda>fen boards.
       bindr (Board_fen storage fen) (\<lambda>b. Inr (boards @ [b]))) []"

definition perft_main :: "Board \<Rightarrow> (nat \<Rightarrow> nat \<Rightarrow> string) \<Rightarrow> (string \<times> bool) result" where
  "perft_main storage elapsed =
     bindr (perft_boards storage) (\<lambda>boards.
       for_each [0..<8] (perft_depth boards elapsed) ([], False))"

section \<open>What the evaluator prints\<close>

definition coords :: "Move \<Rightarrow> string" where
  "coords m = alg (coord_of (src_square m)) @ alg (coord_of (dst_square m))"

lemma Move_to_pretty_str_mv:
  assumes "on_board s" "on_board t"
  shows "Move_to_pretty_str (mv b (s, t, k, ty)) = Inr (coords (mv b (s, t, k, ty)))"
  using assms by (simp add: Move_to_pretty_str_def coords_def square_to_str_csq StrCat_eq)

lemma print_moves_legal:
  assumes "realizes b pv v" "legal_position b"
  shows "print_moves pv out = Inr (out @ concat (map (\<lambda>m. tab @ coords m @ newline) pv))"
  using assms
proof (induction pv arbitrary: b v out)
  case Nil
  then show ?case by (simp add: print_moves_def)
next
  case (Cons m pv)
  from Cons.prems obtain ls b' where m: "legal_moves b = Inr ls" "m \<in> set ls" "do_move b m = Inr b'"
    "realizes b' pv (- v)" by auto
  obtain c where c: "m = mv b c" "candidate b c" by (rule legal_moves_candidate [OF Cons.prems(2) m(1,2)])
  obtain s t k ty where stk: "c = (s, t, k, ty)" using prod_cases4 by blast
  have "Move_to_pretty_str m = Inr (coords m)"
    unfolding c(1) stk
    using candidate_facts(3,4) [OF Cons.prems(2)] c(2) stk Move_to_pretty_str_mv by blast
  moreover have "legal_position b'" by (rule legal_moves_step [OF Cons.prems(2) m(1-3)])
  note Cons.IH [OF m(4) this]
  ultimately show ?case by (simp add: print_moves_def)
qed

lemma atoi_show_int:
  assumes "0 \<le> n" "n \<le> int_max"
  shows "atoi (show_int n) = Inr n"
proof -
  note d = show_nat_numeral [of "nat n"]
  have all: "takeWhile ascii_isdigit (show_nat (nat n)) = show_nat (nat n)"
    using d by (simp add: list_all_iff takeWhile_eq_all_conv)
  have "hd (show_nat (nat n)) \<in> set (show_nat (nat n))" using d by simp
  then have hd: "ascii_isdigit (hd (show_nat (nat n)))" using d by (auto simp: list_all_iff)
  have "dropWhile ascii_isspace (show_nat (nat n)) = show_nat (nat n)"
    using digit_not_space [OF hd] d by (cases "show_nat (nat n)") simp_all
  with all d hd assms show ?thesis
    using digit_not_sign [OF hd]
    by (simp add: atoi_def show_int_def int_bounds del: takeWhile_eq_all_conv)
qed

lemma legal_printable:
  assumes "legal_position b" "in_int (fifty_move_clock b)"
  shows "printable b"
proof -
  have "wf_board b" using assms(1) by (simp add: legal_position_def)
  note ok = wf_boardD [OF this]
  have "case en_passant_square b of None \<Rightarrow> True | Some w \<Rightarrow> is_square w"
    using ok(6) by (auto simp: ep_ok_def split: option.splits)
  with ok(3) assms(2) \<open>wf_board b\<close> show ?thesis by (simp add: printable_def wf_board_def)
qed

lemma eval_main_prints:
  assumes "good_position (d + 130) b" "in_int (fifty_move_clock b)" "int d \<le> int_max"
  shows "\<exists>pv. realizes b pv (negamax d b) \<and>
    eval_main storage [prog, fen_of b, show_int (int d)] start elapsed =
      Inr (''Depth: '' @ show_int (int d) @ newline @
        ''Starting evaluation at time: '' @ start @ newline @
        ''Evaluation: '' @ show_int (negamax d b) @ newline @
        ''Principal variation: '' @ newline @ concat (map (\<lambda>m. tab @ coords m @ newline) pv) @
        ''Time taken: '' @ elapsed @ newline)"
proof -
  have legal: "legal_position b" using assms(1) by (simp add: good_position_def)
  have fen: "Board_fen storage (fen_of b) = Inr b"
    by (rule Board_fen_fen_of [OF legal_printable [OF legal assms(2)]])
  obtain pv where pv: "evaluation b (int d) [] = Inr (negamax d b, pv)" "realizes b pv (negamax d b)"
    "\<bar>negamax d b\<bar> \<le> 1344" by (rule evaluation_ok [OF assms(1)])
  with fen atoi_show_int [of "int d"] assms(3) show ?thesis
    by (intro exI [of _ pv])
      (simp add: eval_main_def vector_get_def print_moves_legal [OF pv(2) legal] Let_def)
qed

section \<open>What the move counter finds\<close>

lemma narrow_eq_iff: "narrow m = narrow n \<longleftrightarrow> m mod 2 ^ 32 = n mod 2 ^ 32"
proof -
  have "narrow m = narrow n \<longleftrightarrow> (word_of_int m :: 32 word) = word_of_int n"
    unfolding narrow_def by (rule word_eq_iff_signed [symmetric])
  also have "\<dots> \<longleftrightarrow> m mod 2 ^ 32 = n mod 2 ^ 32"
    by (simp add: word_of_int_eq_iff take_bit_eq_mod)
  finally show ?thesis .
qed

lemma narrow_in_int: "in_int n \<Longrightarrow> narrow n = n"
  by (simp add: narrow_def int_word_sint int_bounds)

lemma perft_position_verdict:
  assumes "number_of_moves board depth = Inr n"
  shows "\<exists>text. perft_position board depth i entry elapsed out =
    Inr (out @ text, narrow entry \<noteq> - 1 \<and> n mod 2 ^ 32 \<noteq> entry mod 2 ^ 32)"
proof (cases "narrow entry = - 1")
  case True
  then show ?thesis by (simp add: perft_position_def)
next
  case False
  with assms show ?thesis
    by (cases "narrow n = narrow entry") (simp_all add: perft_position_def narrow_eq_iff Let_def)
qed

lemma for_each_stopped:
  "for_each is (\<lambda>i (out, returned). if returned then Inr (out, returned) else f i out) (out, True) =
     Inr (out, True)"
  by (induction "is") simp_all

lemma for_each_verdict:
  assumes "\<And>i out. i \<in> set is \<Longrightarrow> \<exists>text. f i out = Inr (out @ text, bad i)"
  shows "\<exists>text. for_each is (\<lambda>i (out, returned). if returned then Inr (out, returned) else f i out)
    (out, False) = Inr (out @ text, \<exists>i\<in>set is. bad i)"
  using assms
proof (induction "is" arbitrary: out)
  case (Cons i "is")
  obtain t where t: "f i out = Inr (out @ t, bad i)" using Cons.prems [of i out] by auto
  show ?case
  proof (cases "bad i")
    case True
    with t show ?thesis by (simp add: for_each_stopped)
  next
    case False
    obtain u where "for_each is (\<lambda>i (out, returned). if returned then Inr (out, returned) else f i out)
        (out @ t, False) = Inr ((out @ t) @ u, \<exists>i\<in>set is. bad i)"
      using Cons.IH [of "out @ t"] Cons.prems by auto
    with False t show ?thesis by simp
  qed
qed simp

lemma perft_depth_verdict:
  assumes "\<And>i. i < length boards \<Longrightarrow> number_of_moves (boards ! i) (int depth) = Inr (n i)"
  shows "\<exists>text. perft_depth boards elapsed depth (out, False) = Inr (out @ text,
    \<exists>i<length boards. narrow (num_nodes ! i ! depth) \<noteq> - 1 \<and>
      n i mod 2 ^ 32 \<noteq> num_nodes ! i ! depth mod 2 ^ 32)"
proof -
  have "\<exists>text. for_each [0..<length boards] (\<lambda>i (out, returned). if returned then Inr (out, returned)
      else perft_position (boards ! i) (int depth) i (num_nodes ! i ! depth) (elapsed depth i) out)
      (out @ s, False) = Inr ((out @ s) @ text, \<exists>i\<in>set [0..<length boards].
        narrow (num_nodes ! i ! depth) \<noteq> - 1 \<and> n i mod 2 ^ 32 \<noteq> num_nodes ! i ! depth mod 2 ^ 32)" for s
    by (rule for_each_verdict, rule perft_position_verdict, rule assms) simp
  from this [of "''Depth '' @ show_int (int depth) @ ''.'' @ newline"] show ?thesis
    unfolding perft_depth_def prod.case if_False append_assoc set_upt atLeast0LessThan Bex_def
      lessThan_iff by blast
qed

end
