(* ===== verification/Absl_Join.thy ===== *)
theory Absl_Join
  imports Absl_Split Absl_StrCat
begin

text \<open>
  \<open>absl::StrJoin\<close> of the vendored Abseil (\<open>str_join.h\<close>, \<open>internal/str_join_internal.h\<close>): the general
  algorithm over a formatter, the overload that sizes its buffer first, and the loop over a tuple.
  A formatter appends to the string that it is given; its contract is the locale \<open>formatter\<close>. The
  values of a tuple have one type here, a sum when they differ. An \<open>AlphaNum\<close> of a string is the
  string.
\<close>

section \<open>Formatters\<close>

type_synonym 'a formatter = "string \<Rightarrow> 'a \<Rightarrow> string result"

definition AlphaNumFormatterImpl :: "string formatter" where
  "AlphaNumFormatterImpl out t = StrAppend1 out t"

text \<open>The same formatter on 32-bit integers, whose \<open>AlphaNum\<close> is printed by \<open>FastIntToBuffer\<close>.\<close>

definition AlphaNumFormatterImpl_int32 :: "32 word formatter" where
  "AlphaNumFormatterImpl_int32 out t = bindr (FastIntToBuffer_i32 t) (StrAppend1 out)"

definition PairFormatterImpl :: "'a formatter \<Rightarrow> string \<Rightarrow> 'b formatter \<Rightarrow> ('a \<times> 'b) formatter" where
  "PairFormatterImpl f1 sep f2 out p =
     bindr (f1 out (fst p)) (\<lambda>out. f2 (out @ sep) (snd p))"

text \<open>A pointer is an address, and the store says what it points to.\<close>

definition DereferenceFormatterImpl :: "('p \<rightharpoonup> 'a) \<Rightarrow> 'a formatter \<Rightarrow> 'p formatter" where
  "DereferenceFormatterImpl store f out t =
     (case store t of None \<Rightarrow> Inl (Undefined_behaviour ''dereference'') | Some x \<Rightarrow> f out x)"

section \<open>Joining\<close>

fun JoinAlgorithm_loop :: "'a formatter \<Rightarrow> string \<Rightarrow> 'a list \<Rightarrow> string \<Rightarrow> string \<Rightarrow> string result" where
  "JoinAlgorithm_loop f s [] sep res = Inr res"
| "JoinAlgorithm_loop f s (x # xs) sep res =
     bindr (f (res @ sep) x) (JoinAlgorithm_loop f s xs s)"

definition JoinAlgorithm :: "'a list \<Rightarrow> string \<Rightarrow> 'a formatter \<Rightarrow> string result" where
  "JoinAlgorithm elems s f = JoinAlgorithm_loop f s elems '''' []"

fun join_copies :: "string \<Rightarrow> string list \<Rightarrow> string \<times> nat \<Rightarrow> (string \<times> nat) result" where
  "join_copies s [] st = Inr st"
| "join_copies s (p # ps) st = bindr (Append st s) (\<lambda>st. bindr (Append st p) (join_copies s ps))"

definition JoinAlgorithm_NoFormatter :: "string list \<Rightarrow> string \<Rightarrow> string result" where
  "JoinAlgorithm_NoFormatter elems s =
     (case elems of
        [] \<Rightarrow> Inr []
      | p # ps \<Rightarrow>
          let result_size = foldl (\<lambda>n it. n + length s + length it) (length p) ps
          in if result_size > 0 then
               bindr (Append (resize_uninitialized [] result_size, 0) p) (\<lambda>st.
               bindr (join_copies s ps st) (\<lambda>st. Inr (fst st)))
             else Inr [])"

function JoinTupleLoop :: "nat \<Rightarrow> nat \<Rightarrow> string \<Rightarrow> 'a list \<Rightarrow> string \<Rightarrow> 'a formatter \<Rightarrow> string result" where
  "JoinTupleLoop I N out tup sep fmt =
     (if I \<ge> N then Inr out
      else bindr (fmt (if I > 0 then out @ sep else out) (tup ! I)) (\<lambda>out. JoinTupleLoop (I + 1) N out tup sep fmt))"
  by pat_completeness auto
termination by (relation "measure (\<lambda>(I, N, _). N - I)") auto

declare JoinTupleLoop.simps [simp del]

definition JoinAlgorithm_tuple :: "'a list \<Rightarrow> string \<Rightarrow> 'a formatter \<Rightarrow> string result" where
  "JoinAlgorithm_tuple tup sep fmt = JoinTupleLoop 0 (length tup) [] tup sep fmt"

text \<open>The default formatter of strings is \<open>NoFormatter\<close>, that of integers \<open>AlphaNumFormatterImpl\<close>.\<close>

definition JoinRange_strings :: "string list \<Rightarrow> string \<Rightarrow> string result" where
  "JoinRange_strings elems separator = JoinAlgorithm_NoFormatter elems separator"

definition JoinRange_int32 :: "32 word list \<Rightarrow> string \<Rightarrow> string result" where
  "JoinRange_int32 elems separator = JoinAlgorithm elems separator AlphaNumFormatterImpl_int32"

definition StrJoin_fmt :: "'a list \<Rightarrow> string \<Rightarrow> 'a formatter \<Rightarrow> string result" where
  "StrJoin_fmt elems separator fmt = JoinAlgorithm elems separator fmt"

definition StrJoin :: "string list \<Rightarrow> string \<Rightarrow> string result" where
  "StrJoin elems separator = JoinRange_strings elems separator"

section \<open>What joining returns\<close>

locale formatter =
  fixes f :: "'a formatter" and shows_as :: "'a \<Rightarrow> string"
  assumes appends: "f out x = Inr (out @ shows_as x)"
begin

lemma JoinAlgorithm_loop_eq:
  "JoinAlgorithm_loop f s xs sep res =
     Inr (if xs = [] then res else res @ sep @ join_str s (map shows_as xs))"
  by (induction xs arbitrary: sep res) (auto simp: appends join_str_Cons)

lemma JoinAlgorithm_eq: "JoinAlgorithm xs s f = Inr (join_str s (map shows_as xs))"
  by (simp add: JoinAlgorithm_def JoinAlgorithm_loop_eq)

lemma JoinTupleLoop_eq:
  "I \<le> length tup \<Longrightarrow> JoinTupleLoop I (length tup) out tup sep f =
     Inr (if I = length tup then out
          else out @ (if I > 0 then sep else []) @ join_str sep (map shows_as (drop I tup)))"
proof (induction "length tup - I" arbitrary: I out)
  case 0
  then show ?case by (subst JoinTupleLoop.simps) simp
next
  case (Suc n)
  have "drop I tup = tup ! I # drop (Suc I) tup" using Suc.hyps(2) by (simp add: Cons_nth_drop_Suc)
  then show ?case
    using Suc.hyps(1) [of "Suc I"] Suc.hyps(2)
    by (subst JoinTupleLoop.simps) (auto simp: appends join_str_Cons)
qed

lemma JoinAlgorithm_tuple_eq: "JoinAlgorithm_tuple xs s f = Inr (join_str s (map shows_as xs))"
  using JoinTupleLoop_eq [of 0 xs "[]" s] by (auto simp: JoinAlgorithm_tuple_def)

end

locale pair_formatter =
  first: formatter f1 shows1 + second: formatter f2 shows2
  for f1 :: "'a formatter" and shows1 and f2 :: "'b formatter" and shows2 +
  fixes sep :: string
begin

lemma pair_appends: "PairFormatterImpl f1 sep f2 out p = Inr (out @ shows1 (fst p) @ sep @ shows2 (snd p))"
  by (simp add: PairFormatterImpl_def first.appends second.appends)

end

sublocale pair_formatter \<subseteq> pair: formatter "PairFormatterImpl f1 sep f2" "\<lambda>p. shows1 (fst p) @ sep @ shows2 (snd p)"
  by unfold_locales (rule pair_appends)

interpretation alphanum: formatter AlphaNumFormatterImpl "\<lambda>t. t"
  by unfold_locales (simp add: AlphaNumFormatterImpl_def StrAppend1_def)

interpretation alphanum_int32: formatter AlphaNumFormatterImpl_int32 "\<lambda>t. show_int (sint t)"
  by unfold_locales (simp add: AlphaNumFormatterImpl_int32_def StrAppend1_def FastIntToBuffer_signed_eq)

interpretation key_value: pair_formatter AlphaNumFormatterImpl "\<lambda>t. t" AlphaNumFormatterImpl_int32
    "\<lambda>t. show_int (sint t)" sep for sep
  by unfold_locales

text \<open>The overload for strings fills its buffer exactly, and joins like the general algorithm.\<close>

lemma join_size: "foldl (\<lambda>n it. n + length s + length it) k ps = k + length (concat (map (\<lambda>p. s @ p) ps))"
  by (induction ps arbitrary: k) simp_all

lemma join_str_concat: "join_str s (p # ps) = p @ concat (map (\<lambda>p. s @ p) ps)"
  by (induction ps arbitrary: p) (auto simp: join_str_Cons)

lemma join_copies_eq:
  "length buf = length (concat (map (\<lambda>p. s @ p) ps)) \<Longrightarrow>
     join_copies s ps (ok @ buf, length ok) =
       Inr (ok @ concat (map (\<lambda>p. s @ p) ps), length (ok @ concat (map (\<lambda>p. s @ p) ps)))"
proof (induction ps arbitrary: ok buf)
  case (Cons p ps)
  have "bindr (Append (ok @ buf, length ok) s) (\<lambda>st. Append st p) =
      Inr ((ok @ s @ p) @ drop (length s + length p) buf, length (ok @ s @ p))"
    using Cons.prems Append_eq [of ok buf s] Append_eq [of "ok @ s" "drop (length s) buf" p]
    by (simp add: add.commute)
  then have "join_copies s (p # ps) (ok @ buf, length ok) =
      join_copies s ps ((ok @ s @ p) @ drop (length s + length p) buf, length (ok @ s @ p))"
    by (auto simp: bindr_def split: sum.splits)
  also have "\<dots> = Inr ((ok @ s @ p) @ concat (map (\<lambda>p. s @ p) ps),
      length ((ok @ s @ p) @ concat (map (\<lambda>p. s @ p) ps)))"
    using Cons.prems by (intro Cons.IH) simp
  finally show ?case by simp
qed simp

lemma JoinAlgorithm_NoFormatter_eq: "JoinAlgorithm_NoFormatter ps s = Inr (join_str s ps)"
proof (cases ps)
  case (Cons p qs)
  let ?n = "foldl (\<lambda>n it. n + length s + length it) (length p) qs"
  have n: "?n = length p + length (concat (map (\<lambda>p. s @ p) qs))" by (rule join_size)
  have "bindr (Append (resize_uninitialized [] ?n, 0) p) (\<lambda>st. join_copies s qs st) =
      Inr (p @ concat (map (\<lambda>p. s @ p) qs), length (p @ concat (map (\<lambda>p. s @ p) qs)))"
    using Append_eq [of "[]" "replicate ?n CHR 0x00" p]
      join_copies_eq [of "drop (length p) (replicate ?n CHR 0x00)" s qs p] n
    by (simp add: resize_uninitialized_def)
  then have "bindr (Append (resize_uninitialized [] ?n, 0) p) (\<lambda>st. bindr (join_copies s qs st) (\<lambda>st. Inr (fst st))) =
      Inr (join_str s ps)"
    by (auto simp: bindr_def Cons join_str_concat split: sum.splits)
  moreover have "?n = 0 \<Longrightarrow> join_str s ps = []" using n by (simp add: Cons join_str_concat)
  ultimately show ?thesis by (simp add: JoinAlgorithm_NoFormatter_def Cons Let_def)
qed (simp add: JoinAlgorithm_NoFormatter_def)

lemma StrJoin_eq: "StrJoin ps s = Inr (join_str s ps)"
  by (simp add: StrJoin_def JoinRange_strings_def JoinAlgorithm_NoFormatter_eq)

end
