(* ===== verification/Absl_Replace.thy ===== *)
theory Absl_Replace
  imports Absl_Split Absl_StrCat "HOL-Library.Multiset"
begin

text \<open>
  \<open>absl::StrReplaceAll\<close> of the vendored Abseil (\<open>str_replace.h\<close>, \<open>str_replace.cc\<close>). The vector of
  substitutions is a list whose last element is \<open>back()\<close>. The loop of \<open>ApplySubstitutions\<close> ends
  only when no pattern is empty, so it is partial, \<open>None\<close> for a loop that does not end. The
  substitutions are counted in an \<open>int\<close>.
\<close>

section \<open>Substitutions\<close>

record ViableSubstitution =
  vs_old :: string
  vs_replacement :: string
  vs_offset :: nat

definition OccursBefore :: "ViableSubstitution \<Rightarrow> ViableSubstitution \<Rightarrow> bool" where
  "OccursBefore x y =
     (if vs_offset x \<noteq> vs_offset y then vs_offset x < vs_offset y
      else length (vs_old x) > length (vs_old y))"

definition swap_at :: "'a list \<Rightarrow> nat \<Rightarrow> nat \<Rightarrow> 'a list" where
  "swap_at xs i j = xs[i := xs ! j, j := xs ! i]"

text \<open>The insertion sort \<open>while (--index && ...) swap\<close>, which both functions end with.\<close>

fun sift :: "ViableSubstitution list \<Rightarrow> nat \<Rightarrow> ViableSubstitution list" where
  "sift subs 0 = subs"
| "sift subs (Suc index) =
     (if index \<noteq> 0 \<and> OccursBefore (subs ! (index - 1)) (subs ! index)
      then sift (swap_at subs index (index - 1)) index else subs)"

fun FindSubstitutions_loop ::
    "string \<Rightarrow> (string \<times> string) list \<Rightarrow> ViableSubstitution list \<Rightarrow> ViableSubstitution list" where
  "FindSubstitutions_loop s [] subs = subs"
| "FindSubstitutions_loop s (rep # reps) subs =
     (case find_str s (fst rep) 0 of
        None \<Rightarrow> FindSubstitutions_loop s reps subs
      | Some pos \<Rightarrow>
          if fst rep = [] then FindSubstitutions_loop s reps subs
          else
            let subs = subs @ [\<lparr>vs_old = fst rep, vs_replacement = snd rep, vs_offset = pos\<rparr>]
            in FindSubstitutions_loop s reps (sift subs (length subs)))"

definition FindSubstitutions :: "string \<Rightarrow> (string \<times> string) list \<Rightarrow> ViableSubstitution list" where
  "FindSubstitutions s replacements = FindSubstitutions_loop s replacements []"

text \<open>One pass of the loop: the text before the substitution and its replacement are appended.\<close>

definition substitute_back ::
    "string \<Rightarrow> ViableSubstitution \<Rightarrow> nat \<Rightarrow> string \<Rightarrow> int \<Rightarrow> (nat \<times> string \<times> int) result" where
  "substitute_back s sub pos res substitutions =
     (if vs_offset sub \<ge> pos then
        bindr (if pos \<le> length s then
                 bindr (substr s pos (vs_offset sub - pos)) (\<lambda>t. StrAppend2 res t (vs_replacement sub))
               else Inr res) (\<lambda>res.
        bindr (add_int substitutions 1) (\<lambda>substitutions.
        Inr (vs_offset sub + length (vs_old sub), res, substitutions)))
      else Inr (pos, res, substitutions))"

text \<open>The last substitution gets its next place and is put in order, or is dropped.\<close>

definition advance_back :: "string \<Rightarrow> ViableSubstitution list \<Rightarrow> nat \<Rightarrow> ViableSubstitution list" where
  "advance_back s subs pos =
     (case find_str s (vs_old (last subs)) pos of
        None \<Rightarrow> butlast subs
      | Some offset \<Rightarrow>
          let subs = butlast subs @ [(last subs)\<lparr>vs_offset := offset\<rparr>] in sift subs (length subs))"

partial_function (option) ApplySubstitutions_loop ::
    "string \<Rightarrow> ViableSubstitution list \<Rightarrow> nat \<Rightarrow> string \<Rightarrow> int \<Rightarrow> (nat \<times> string \<times> int) result option" where
  "ApplySubstitutions_loop s subs pos res substitutions =
     (if subs = [] then Some (Inr (pos, res, substitutions))
      else case substitute_back s (last subs) pos res substitutions of
             Inl e \<Rightarrow> Some (Inl e)
           | Inr (pos, res, substitutions) \<Rightarrow>
               ApplySubstitutions_loop s (advance_back s subs pos) pos res substitutions)"

declare ApplySubstitutions_loop.simps [code]

definition ApplySubstitutions ::
    "string \<Rightarrow> ViableSubstitution list \<Rightarrow> string \<Rightarrow> (int \<times> string) result option" where
  "ApplySubstitutions s subs res =
     Option.bind (ApplySubstitutions_loop s subs 0 res 0) (\<lambda>r.
       Some (bindr r (\<lambda>(pos, res, substitutions).
         if pos \<le> length s then Inr (substitutions, res @ drop pos s)
         else Inl (Undefined_behaviour ''append past the end''))))"

text \<open>\<open>StrReplaceAll\<close> to a new string, and in place with the number of substitutions.\<close>

definition StrReplaceAll :: "string \<Rightarrow> (string \<times> string) list \<Rightarrow> string result option" where
  "StrReplaceAll s replacements =
     Option.bind (ApplySubstitutions s (FindSubstitutions s replacements) []) (\<lambda>r.
       Some (bindr r (\<lambda>x. Inr (snd x))))"

definition StrReplaceAll_in_place :: "(string \<times> string) list \<Rightarrow> string \<Rightarrow> (int \<times> string) result option" where
  "StrReplaceAll_in_place replacements target =
     (let subs = FindSubstitutions target replacements
      in if subs = [] then Some (Inr (0, target)) else ApplySubstitutions target subs [])"

section \<open>The insertion sort\<close>

text \<open>The order that both functions keep: no substitution occurs before one that is behind it.\<close>

definition in_order :: "ViableSubstitution list \<Rightarrow> bool" where
  "in_order subs = sorted_wrt (\<lambda>x y. \<not> OccursBefore x y) subs"

fun place :: "ViableSubstitution \<Rightarrow> ViableSubstitution list \<Rightarrow> ViableSubstitution list" where
  "place y [] = [y]"
| "place y (x # rev_subs) = (if OccursBefore x y then x # place y rev_subs else y # x # rev_subs)"

lemma swap_at_end: "swap_at (xs @ x # y # zs) (Suc (length xs)) (length xs) = xs @ y # x # zs"
  by (simp add: swap_at_def list_update_append nth_append)

lemma sift_place: "sift (rev rs @ y # zs) (Suc (length rs)) = rev (place y rs) @ zs"
proof (induction rs arbitrary: zs)
  case (Cons x rs)
  have "(rev rs @ x # y # zs) ! length rs = x" "(rev rs @ x # y # zs) ! Suc (length rs) = y"
    by (simp_all add: nth_append)
  then show ?case
    using Cons.IH [of "x # zs"] swap_at_end [of "rev rs" x y zs] by simp
qed simp

lemma sift_snoc: "sift (subs @ [y]) (length (subs @ [y])) = rev (place y (rev subs))"
  using sift_place [of "rev subs" y "[]"] by simp

lemma OccursBefore_trans: "\<not> OccursBefore x y \<Longrightarrow> \<not> OccursBefore y z \<Longrightarrow> \<not> OccursBefore x z"
  by (auto simp: OccursBefore_def split: if_splits)

lemma OccursBefore_asym: "OccursBefore x y \<Longrightarrow> \<not> OccursBefore y x"
  by (auto simp: OccursBefore_def split: if_splits)

lemma set_place: "set (place y rs) = insert y (set rs)"
  by (induction rs) auto

lemma mset_place: "mset (place y rs) = add_mset y (mset rs)"
  by (induction rs) auto

lemma place_sorted:
  "sorted_wrt (\<lambda>x y. \<not> OccursBefore y x) rs \<Longrightarrow> sorted_wrt (\<lambda>x y. \<not> OccursBefore y x) (place y rs)"
  by (induction rs) (auto simp: set_place dest: OccursBefore_asym OccursBefore_trans)

lemma sift_in_order:
  assumes "in_order subs"
  shows "in_order (sift (subs @ [y]) (length (subs @ [y])))"
    "set (sift (subs @ [y]) (length (subs @ [y]))) = insert y (set subs)"
    "mset (sift (subs @ [y]) (length (subs @ [y]))) = add_mset y (mset subs)"
proof -
  have "sorted_wrt (\<lambda>x y. \<not> OccursBefore y x) (place y (rev subs))"
    using assms by (intro place_sorted) (simp add: in_order_def sorted_wrt_rev)
  then show "in_order (sift (subs @ [y]) (length (subs @ [y])))"
    unfolding sift_snoc in_order_def sorted_wrt_rev .
  show "set (sift (subs @ [y]) (length (subs @ [y]))) = insert y (set subs)"
    unfolding sift_snoc by (simp add: set_place)
  show "mset (sift (subs @ [y]) (length (subs @ [y]))) = add_mset y (mset subs)"
    unfolding sift_snoc by (simp add: mset_place)
qed

section \<open>What replacing returns\<close>

text \<open>
  The specification: the text is read from left to right, and where patterns occur the longest of
  them is replaced. The number counts the replacements.
\<close>

definition matches :: "string \<times> string \<Rightarrow> string \<Rightarrow> bool" where
  "matches rep t \<longleftrightarrow> fst rep \<noteq> [] \<and> prefix (fst rep) t"

fun longest_match :: "(string \<times> string) list \<Rightarrow> string \<Rightarrow> (string \<times> string) option" where
  "longest_match [] t = None"
| "longest_match (rep # reps) t =
     (case longest_match reps t of
        None \<Rightarrow> if matches rep t then Some rep else None
      | Some q \<Rightarrow> if matches rep t \<and> length (fst rep) > length (fst q) then Some rep else Some q)"

lemma longest_match_None: "longest_match reps t = None \<longleftrightarrow> (\<forall>rep\<in>set reps. \<not> matches rep t)"
  by (induction reps) (auto split: option.splits)

lemma longest_match_Some:
  "longest_match reps t = Some q \<Longrightarrow>
     q \<in> set reps \<and> matches q t \<and> (\<forall>rep\<in>set reps. matches rep t \<longrightarrow> length (fst rep) \<le> length (fst q))"
proof (induction reps arbitrary: q)
  case (Cons rep reps)
  show ?case
  proof (cases "longest_match reps t")
    case None
    then show ?thesis using Cons.prems longest_match_None [of reps t] by (auto split: if_splits)
  next
    case (Some p)
    then show ?thesis using Cons.prems Cons.IH [OF Some] by (auto split: if_splits)
  qed
qed simp

function replace_scan :: "(string \<times> string) list \<Rightarrow> string \<Rightarrow> int \<times> string" where
  "replace_scan reps [] = (0, [])"
| "replace_scan reps (c # t) =
     (case longest_match reps (c # t) of
        None \<Rightarrow> let (k, u) = replace_scan reps t in (k, c # u)
      | Some q \<Rightarrow> let (k, u) = replace_scan reps (drop (length (fst q)) (c # t)) in (k + 1, snd q @ u))"
  by pat_completeness auto
termination
  by (relation "measure (\<lambda>(reps, t). length t)")
    (auto dest!: longest_match_Some simp: matches_def)

declare replace_scan.simps(2) [simp del]

lemma longest_match_unique:
  assumes "distinct (map fst reps)" "rep \<in> set reps" "matches rep t"
    "\<And>r. r \<in> set reps \<Longrightarrow> matches r t \<Longrightarrow> length (fst r) \<le> length (fst rep)"
  shows "longest_match reps t = Some rep"
proof (cases "longest_match reps t")
  case None
  then show ?thesis using assms(2,3) by (auto simp: longest_match_None)
next
  case (Some q)
  note q = longest_match_Some [OF Some]
  have "length (fst q) = length (fst rep)" using q assms by (meson le_antisym)
  moreover have "prefix (fst q) t" "prefix (fst rep) t" using q assms(3) by (auto simp: matches_def)
  ultimately have "fst q = fst rep" by (auto simp: prefix_def)
  then have "q = rep" using q assms(1,2) by (metis (no_types, lifting) distinct_map inj_on_def)
  then show ?thesis using Some by simp
qed

lemma matches_occurs: "matches rep (drop j s) \<longleftrightarrow> fst rep \<noteq> [] \<and> occurs_at s (fst rep) j"
  by (simp add: matches_def occurs_at_def)

lemma replace_scan_skip:
  "a \<le> b \<Longrightarrow> b \<le> length s \<Longrightarrow> (\<And>j rep. a \<le> j \<Longrightarrow> j < b \<Longrightarrow> rep \<in> set reps \<Longrightarrow> \<not> matches rep (drop j s)) \<Longrightarrow>
     replace_scan reps (drop a s) =
       (fst (replace_scan reps (drop b s)), take (b - a) (drop a s) @ snd (replace_scan reps (drop b s)))"
proof (induction "b - a" arbitrary: a)
  case 0
  then show ?case by simp
next
  case (Suc n)
  have t: "drop a s = s ! a # drop (Suc a) s" using Suc.hyps(2) Suc.prems by (simp add: Cons_nth_drop_Suc)
  have "longest_match reps (drop a s) = None"
    using Suc.prems(3) [of a] Suc.hyps(2) by (auto simp: longest_match_None)
  then have "replace_scan reps (drop a s) =
      (let (k, u) = replace_scan reps (drop (Suc a) s) in (k, s ! a # u))"
    unfolding t by (simp add: replace_scan.simps(2))
  moreover have "replace_scan reps (drop (Suc a) s) =
      (fst (replace_scan reps (drop b s)), take (b - Suc a) (drop (Suc a) s) @ snd (replace_scan reps (drop b s)))"
    using Suc.hyps(2) Suc.prems by (intro Suc.hyps(1)) auto
  moreover have "take (b - a) (drop a s) = s ! a # take (b - Suc a) (drop (Suc a) s)"
    unfolding t using Suc.hyps(2) by (cases "b - a") (auto simp: diff_Suc split: nat.splits)
  ultimately show ?case by simp
qed

lemma replace_scan_match:
  assumes "longest_match reps t = Some rep"
  shows "replace_scan reps t =
    (fst (replace_scan reps (drop (length (fst rep)) t)) + 1,
     snd rep @ snd (replace_scan reps (drop (length (fst rep)) t)))"
proof -
  have "t \<noteq> []" using longest_match_Some [OF assms] by (auto simp: matches_def)
  then show ?thesis using assms by (cases t) (simp_all add: replace_scan.simps(2) split_def Let_def)
qed

section \<open>The invariant of the loop\<close>

text \<open>
  Between the passes every pattern that still occurs has a substitution in the vector, which is in
  order; a substitution stands where its pattern occurs, and from the position on not earlier.
\<close>

definition tracked :: "string \<Rightarrow> (string \<times> string) list \<Rightarrow> nat \<Rightarrow> ViableSubstitution \<Rightarrow> bool" where
  "tracked s reps pos sub \<longleftrightarrow>
     (vs_old sub, vs_replacement sub) \<in> set reps \<and> vs_old sub \<noteq> [] \<and>
     occurs_at s (vs_old sub) (vs_offset sub) \<and>
     (\<forall>j. pos \<le> j \<and> j < vs_offset sub \<longrightarrow> \<not> occurs_at s (vs_old sub) j)"

definition tracks :: "string \<Rightarrow> (string \<times> string) list \<Rightarrow> ViableSubstitution list \<Rightarrow> nat \<Rightarrow> bool" where
  "tracks s reps subs pos \<longleftrightarrow> in_order subs \<and> (\<forall>sub\<in>set subs. tracked s reps pos sub) \<and>
     (\<forall>rep\<in>set reps. fst rep \<noteq> [] \<longrightarrow>
        (\<exists>sub\<in>set subs. (vs_old sub, vs_replacement sub) = rep) \<or> (\<forall>j\<ge>pos. \<not> occurs_at s (fst rep) j))"

lemma occurs_at_fits: "occurs_at s n j \<Longrightarrow> n \<noteq> [] \<Longrightarrow> j + length n \<le> length s"
  using occurs_at_length [of s n j] by (cases "j < length s") (auto simp: occurs_at_def)

lemma first_from_occurs:
  "first_from s n pos = Some i \<Longrightarrow> occurs_at s n i"
  by (auto simp: first_from_def find_Some_iff simp del: upt_Suc)

lemma first_from_None_nonempty: "first_from s n pos = None \<Longrightarrow> n \<noteq> [] \<Longrightarrow> pos \<le> j \<Longrightarrow> \<not> occurs_at s n j"
  using first_from_None [of s n pos j] occurs_at_fits [of s n j] by fastforce

lemma FindSubstitutions_loop_tracks:
  "tracks s ok subs 0 \<Longrightarrow> tracks s (ok @ reps) (FindSubstitutions_loop s reps subs) 0"
proof (induction reps arbitrary: ok subs)
  case (Cons rep reps)
  have weaken: "tracked s (ok @ [rep]) 0 sub" if "sub \<in> set subs" for sub
    using Cons.prems that by (auto simp: tracks_def tracked_def)
  show ?case
  proof (cases "fst rep = [] \<or> find_str s (fst rep) 0 = None")
    case True
    have "tracks s (ok @ [rep]) subs 0"
      using Cons.prems weaken True first_from_None_nonempty [of s "fst rep" 0]
      by (auto simp: tracks_def find_str_eq)
    from Cons.IH [OF this] True show ?thesis by (auto split: option.split)
  next
    case False
    then obtain pos where pos: "first_from s (fst rep) 0 = Some pos" by (auto simp: find_str_eq)
    let ?y = "\<lparr>vs_old = fst rep, vs_replacement = snd rep, vs_offset = pos\<rparr>"
    have y: "tracked s (ok @ [rep]) 0 ?y"
      using False first_from_occurs [OF pos] first_from_Some(4) [OF pos] by (simp add: tracked_def)
    have order: "in_order subs" using Cons.prems by (simp add: tracks_def)
    have "tracks s (ok @ [rep]) (sift (subs @ [?y]) (length (subs @ [?y]))) 0"
      using sift_in_order [OF order, of ?y] y weaken Cons.prems
      unfolding tracks_def by (auto simp del: length_append)
    from Cons.IH [OF this] False pos show ?thesis by (simp add: find_str_eq Let_def)
  qed
qed simp

lemma FindSubstitutions_tracks: "tracks s reps (FindSubstitutions s reps) 0"
  using FindSubstitutions_loop_tracks [of s "[]" "[]" reps]
  by (simp add: FindSubstitutions_def tracks_def in_order_def)

text \<open>How much of the text is left to the substitutions.\<close>

definition work :: "string \<Rightarrow> ViableSubstitution list \<Rightarrow> nat" where
  "work s subs = sum_list (map (\<lambda>sub. Suc (length s) - vs_offset sub) subs)"

lemma work_mset: "mset xs = mset ys \<Longrightarrow> work s xs = work s ys"
  unfolding work_def by (metis mset_map sum_mset_sum_list)

lemma advance_back_tracks:
  assumes tr: "tracks s reps subs pos" and "subs \<noteq> []" "pos \<le> pos'" "vs_offset (last subs) < pos'"
  shows "tracks s reps (advance_back s subs pos') pos' \<and> work s (advance_back s subs pos') < work s subs"
proof -
  obtain xs x where subs: "subs = xs @ [x]" using \<open>subs \<noteq> []\<close> by (metis append_butlast_last_id)
  have order: "in_order xs" using tr by (simp add: tracks_def in_order_def subs sorted_wrt_append)
  have x: "vs_old x \<noteq> []" "(vs_old x, vs_replacement x) \<in> set reps" "vs_offset x \<le> length s"
    using tr occurs_at_fits [of s "vs_old x" "vs_offset x"] by (auto simp: tracks_def tracked_def subs)
  have xs: "tracked s reps pos' sub" if "sub \<in> set xs" for sub
    using tr that \<open>pos \<le> pos'\<close> by (auto simp: tracks_def tracked_def subs)
  have reps: "(\<exists>sub\<in>set xs. (vs_old sub, vs_replacement sub) = rep) \<or> (vs_old x, vs_replacement x) = rep \<or>
      (\<forall>j\<ge>pos'. \<not> occurs_at s (fst rep) j)" if "rep \<in> set reps" "fst rep \<noteq> []" for rep
    using tr that \<open>pos \<le> pos'\<close> by (auto simp: tracks_def subs)
  show ?thesis
  proof (cases "first_from s (vs_old x) pos'")
    case None
    have "tracks s reps xs pos'"
      using order xs reps first_from_None_nonempty [OF None x(1)] unfolding tracks_def by fastforce
    then show ?thesis using None x(3) by (simp add: advance_back_def subs find_str_eq work_def)
  next
    case (Some i)
    let ?y = "x\<lparr>vs_offset := i\<rparr>"
    let ?new = "sift (xs @ [?y]) (length (xs @ [?y]))"
    note i = first_from_Some [OF Some]
    have y: "tracked s reps pos' ?y" using x first_from_occurs [OF Some] i(4) by (simp add: tracked_def)
    have new: "advance_back s subs pos' = ?new"
      using Some by (simp add: advance_back_def subs find_str_eq Let_def)
    have set_new: "set ?new = insert ?y (set xs)" by (rule sift_in_order(2) [OF order])
    have "(\<exists>sub\<in>set ?new. (vs_old sub, vs_replacement sub) = rep) \<or> (\<forall>j\<ge>pos'. \<not> occurs_at s (fst rep) j)"
      if "rep \<in> set reps" "fst rep \<noteq> []" for rep
      using reps [OF that] unfolding set_new by auto
    then have "tracks s reps ?new pos'"
      using sift_in_order(1) [OF order, of ?y] y xs unfolding tracks_def set_new by blast
    moreover have "work s ?new = work s (xs @ [?y])"
      using sift_in_order(3) [OF order, of ?y] by (intro work_mset) simp
    moreover have "work s (xs @ [?y]) < work s subs"
      using i(1) x(3) \<open>vs_offset (last subs) < pos'\<close> by (simp add: work_def subs)
    ultimately show ?thesis by (simp add: new)
  qed
qed

text \<open>The last substitution is the one that the specification makes next.\<close>

lemma back_is_next:
  assumes tr: "tracks s reps subs pos" and "subs \<noteq> []" "vs_offset (last subs) \<ge> pos"
    and dist: "distinct (map fst reps)"
  shows "longest_match reps (drop (vs_offset (last subs)) s) = Some (vs_old (last subs), vs_replacement (last subs))"
    "\<And>j rep. pos \<le> j \<Longrightarrow> j < vs_offset (last subs) \<Longrightarrow> rep \<in> set reps \<Longrightarrow> \<not> matches rep (drop j s)"
proof -
  let ?x = "last subs"
  have x: "tracked s reps pos ?x" using tr \<open>subs \<noteq> []\<close> by (simp add: tracks_def)
  have first: "\<not> OccursBefore sub ?x" if "sub \<in> set subs" for sub
  proof (cases "sub = ?x")
    case False
    then have "sub \<in> set (butlast subs)" using that by (cases subs rule: rev_cases) auto
    moreover have "in_order (butlast subs @ [?x])"
      using tr append_butlast_last_id [OF \<open>subs \<noteq> []\<close>] by (simp add: tracks_def)
    ultimately show ?thesis unfolding in_order_def sorted_wrt_append by auto
  qed (simp add: OccursBefore_def)
  have later: "vs_offset ?x \<le> j \<and> (j = vs_offset ?x \<longrightarrow> length (fst rep) \<le> length (vs_old ?x))"
    if "pos \<le> j" "rep \<in> set reps" "matches rep (drop j s)" for j rep
  proof -
    note at = that
    have occ: "fst rep \<noteq> []" "occurs_at s (fst rep) j" using at(3) by (simp_all add: matches_occurs)
    then obtain sub where sub: "sub \<in> set subs" "vs_old sub = fst rep"
      using tr at(1,2) unfolding tracks_def by (metis fst_conv)
    then have "tracked s reps pos sub" using tr by (simp add: tracks_def)
    then have "vs_offset sub \<le> j"
      using sub(2) occ(2) at(1) unfolding tracked_def by (metis not_le)
    have "vs_offset ?x \<le> vs_offset sub" "vs_offset sub = vs_offset ?x \<longrightarrow> length (vs_old sub) \<le> length (vs_old ?x)"
      using first [OF sub(1)] by (auto simp: OccursBefore_def split: if_splits)
    then show ?thesis using sub(2) \<open>vs_offset sub \<le> j\<close> by auto
  qed
  show "longest_match reps (drop (vs_offset ?x) s) = Some (vs_old ?x, vs_replacement ?x)"
    using x later [of "vs_offset ?x"] assms(3)
    by (intro longest_match_unique dist) (auto simp: tracked_def matches_occurs)
  show "\<not> matches rep (drop j s)" if "pos \<le> j" "j < vs_offset ?x" "rep \<in> set reps" for j rep
    using later [OF that(1,3)] that(2) by auto
qed

section \<open>The loop makes the replacements of the specification\<close>

lemma substitute_back_eq:
  assumes "pos \<le> length s" "pos \<le> vs_offset sub"
  shows "substitute_back s sub pos res k =
    bindr (add_int k 1) (\<lambda>k.
      Inr (vs_offset sub + length (vs_old sub), res @ take (vs_offset sub - pos) (drop pos s) @ vs_replacement sub, k))"
proof -
  have "take (min (vs_offset sub - pos) (length s - pos)) (drop pos s) = take (vs_offset sub - pos) (drop pos s)"
    by (simp add: min_def)
  then show ?thesis
    using assms by (simp add: substitute_back_def substr_def StrAppend_pieces AppendPieces_eq Let_def)
qed

lemma replace_scan_none:
  assumes "tracks s reps [] pos" "pos \<le> length s"
  shows "replace_scan reps (drop pos s) = (0, drop pos s)"
  using replace_scan_skip [of pos "length s" s reps] assms by (auto simp: tracks_def matches_occurs)

lemma replace_scan_count: "0 \<le> fst (replace_scan reps t)"
  by (induction reps t rule: replace_scan.induct)
    (auto simp: replace_scan.simps(2) split_def Let_def split: option.split)

text \<open>
  The number of replacements is an \<open>int\<close>: when there are more than it can count, the loop
  overflows.
\<close>

lemma ApplySubstitutions_loop_eq:
  assumes "tracks s reps subs pos" "pos \<le> length s" "distinct (map fst reps)" "0 \<le> k" "k \<le> int_max"
  shows "if k + fst (replace_scan reps (drop pos s)) \<le> int_max then
      \<exists>pos' res'. pos' \<le> length s \<and> res' @ drop pos' s = res @ snd (replace_scan reps (drop pos s)) \<and>
        ApplySubstitutions_loop s subs pos res k = Some (Inr (pos', res', k + fst (replace_scan reps (drop pos s))))
    else ApplySubstitutions_loop s subs pos res k = Some (Inl (Undefined_behaviour ''signed overflow''))"
  using assms(1,2,4,5)
proof (induction "work s subs" arbitrary: subs pos res k rule: less_induct)
  case less
  show ?case
  proof (cases "subs = []")
    case True
    have "ApplySubstitutions_loop s [] pos res k = Some (Inr (pos, res, k))"
      by (subst ApplySubstitutions_loop.simps) simp
    then show ?thesis using True less.prems replace_scan_none [of s reps pos] by auto
  next
    case False
    let ?x = "last subs"
    have x: "vs_old ?x \<noteq> []" "vs_offset ?x + length (vs_old ?x) \<le> length s"
      using less.prems(1) False occurs_at_fits by (auto simp: tracks_def tracked_def)
    show ?thesis
    proof (cases "pos \<le> vs_offset ?x")
      case True
      let ?p = "vs_offset ?x + length (vs_old ?x)"
      let ?res = "res @ take (vs_offset ?x - pos) (drop pos s) @ vs_replacement ?x"
      note pass = substitute_back_eq [OF less.prems(2) True, of res k]
      note nxt = back_is_next [OF less.prems(1) False True assms(3)]
      have scan: "replace_scan reps (drop pos s) =
          (fst (replace_scan reps (drop ?p s)) + 1,
           take (vs_offset ?x - pos) (drop pos s) @ vs_replacement ?x @ snd (replace_scan reps (drop ?p s)))"
        using replace_scan_skip [of pos "vs_offset ?x" s reps] nxt(2) True x(2)
          replace_scan_match [OF nxt(1)] by (simp add: add.commute)
      have adv: "tracks s reps (advance_back s subs ?p) ?p" "work s (advance_back s subs ?p) < work s subs"
        using advance_back_tracks [OF less.prems(1) False, of ?p] True x(1) by auto
      show ?thesis
      proof (cases "k + 1 \<le> int_max")
        case room: True
        then have "add_int k 1 = Inr (k + 1)" using less.prems(3) by (simp add: add_int_def int_bounds)
        then have step: "ApplySubstitutions_loop s subs pos res k =
            ApplySubstitutions_loop s (advance_back s subs ?p) ?p ?res (k + 1)"
          using False pass by (subst ApplySubstitutions_loop.simps) simp
        have "0 \<le> k + 1" using less.prems(3) by simp
        from less.hyps [OF adv(2,1) x(2) this room, of ?res] show ?thesis
          unfolding step scan fst_conv snd_conv append_assoc by (simp only: add.assoc add.commute [of 1])
      next
        case full: False
        then have "add_int k 1 = Inl (Undefined_behaviour ''signed overflow'')" by (simp add: add_int_def in_int_def)
        then have "ApplySubstitutions_loop s subs pos res k = Some (Inl (Undefined_behaviour ''signed overflow''))"
          using False pass by (subst ApplySubstitutions_loop.simps) simp
        moreover have "\<not> k + fst (replace_scan reps (drop pos s)) \<le> int_max"
          using full replace_scan_count [of reps "drop ?p s"] unfolding scan by simp
        ultimately show ?thesis by simp
      qed
    next
      case stale: False
      have step: "ApplySubstitutions_loop s subs pos res k =
          ApplySubstitutions_loop s (advance_back s subs pos) pos res k"
        using False stale by (subst ApplySubstitutions_loop.simps) (simp add: substitute_back_def)
      have "tracks s reps (advance_back s subs pos) pos" "work s (advance_back s subs pos) < work s subs"
        using advance_back_tracks [OF less.prems(1) False, of pos] stale by auto
      then show ?thesis
        using less.hyps [of "advance_back s subs pos" pos k res] less.prems(2-) unfolding step by blast
    qed
  qed
qed

lemma ApplySubstitutions_eq:
  assumes "distinct (map fst reps)"
  shows "ApplySubstitutions s (FindSubstitutions s reps) res =
    Some (if fst (replace_scan reps s) \<le> int_max
      then Inr (fst (replace_scan reps s), res @ snd (replace_scan reps s))
      else Inl (Undefined_behaviour ''signed overflow''))"
  using ApplySubstitutions_loop_eq [OF FindSubstitutions_tracks _ assms, of s 0 res]
  by (auto simp: ApplySubstitutions_def int_max_def split: if_splits)

lemma StrReplaceAll_eq:
  assumes "distinct (map fst reps)"
  shows "StrReplaceAll s reps = Some (if fst (replace_scan reps s) \<le> int_max
      then Inr (snd (replace_scan reps s)) else Inl (Undefined_behaviour ''signed overflow''))"
    "StrReplaceAll_in_place reps s = Some (if fst (replace_scan reps s) \<le> int_max
      then Inr (replace_scan reps s) else Inl (Undefined_behaviour ''signed overflow''))"
proof -
  show "StrReplaceAll s reps = Some (if fst (replace_scan reps s) \<le> int_max
      then Inr (snd (replace_scan reps s)) else Inl (Undefined_behaviour ''signed overflow''))"
    by (simp add: StrReplaceAll_def ApplySubstitutions_eq [OF assms])
  have "replace_scan reps s = (0, s)" if "FindSubstitutions s reps = []"
    using FindSubstitutions_tracks [of s reps] replace_scan_none [of s reps 0] that by simp
  then show "StrReplaceAll_in_place reps s = Some (if fst (replace_scan reps s) \<le> int_max
      then Inr (replace_scan reps s) else Inl (Undefined_behaviour ''signed overflow''))"
    by (auto simp: StrReplaceAll_in_place_def ApplySubstitutions_eq [OF assms] Let_def int_max_def)
qed

text \<open>With a pattern given twice the two replacements take turns.\<close>

lemma duplicate_patterns_alternate:
  "StrReplaceAll ''aaa'' [(''a'', ''1''), (''a'', ''2'')] = Some (Inr ''212'')"
  by code_simp

end
