(* ===== verification/Absl_CEscape.thy ===== *)
theory Absl_CEscape
  imports Absl_StrCat
begin

text \<open>
  C-style escape sequences, the first half of \<open>escaping.cc\<close> of the vendored Abseil, with the
  UTF-8 encoder of \<open>internal/utf8.cc\<close> that the decoder of escape sequences calls. A decoder
  returns the error message that the code stores, or the decoded string. The decoder writes
  behind its read position, so that source and destination may be the same buffer.
\<close>

section \<open>UTF-8\<close>

definition byte :: "32 word \<Rightarrow> char" where
  "byte w = char_of (unat w)"

definition EncodeUTF8Char :: "32 word \<Rightarrow> string" where
  "EncodeUTF8Char utf8_char =
     (if utf8_char \<le> 0x7F then [byte utf8_char]
      else if utf8_char \<le> 0x7FF then
        let b1 = byte (0x80 OR (utf8_char AND 0x3F));
            utf8_char = drop_bit 6 utf8_char;
            b0 = byte (0xC0 OR utf8_char)
        in [b0, b1]
      else if utf8_char \<le> 0xFFFF then
        let b2 = byte (0x80 OR (utf8_char AND 0x3F));
            utf8_char = drop_bit 6 utf8_char;
            b1 = byte (0x80 OR (utf8_char AND 0x3F));
            utf8_char = drop_bit 6 utf8_char;
            b0 = byte (0xE0 OR utf8_char)
        in [b0, b1, b2]
      else
        let b3 = byte (0x80 OR (utf8_char AND 0x3F));
            utf8_char = drop_bit 6 utf8_char;
            b2 = byte (0x80 OR (utf8_char AND 0x3F));
            utf8_char = drop_bit 6 utf8_char;
            b1 = byte (0x80 OR (utf8_char AND 0x3F));
            utf8_char = drop_bit 6 utf8_char;
            b0 = byte (0xF0 OR utf8_char)
        in [b0, b1, b2, b3])"

section \<open>Decoding\<close>

definition is_octal_digit :: "char \<Rightarrow> bool" where
  "is_octal_digit c \<longleftrightarrow> (48 :: nat) \<le> of_char c \<and> (of_char c :: nat) \<le> 55"

definition hex_digit_to_int :: "char \<Rightarrow> 32 word" where
  "hex_digit_to_int c =
     (let x = word_of_nat (of_char c); x = (if x > 57 then x + 9 else x) in x AND 0xf)"

definition backslash :: char where
  "backslash = CHR 0x5C"

definition IsSurrogate :: "32 word \<Rightarrow> string \<Rightarrow> string option" where
  "IsSurrogate c src =
     (if c \<ge> 0xD800 \<and> c \<le> 0xDFFF
      then Some (''invalid surrogate character (0xD800-DFFF): '' @ [backslash] @ src) else None)"

text \<open>The text that has been read: the part of \<open>s\<close> before \<open>rest\<close>.\<close>

definition consumed :: "string \<Rightarrow> string \<Rightarrow> string" where
  "consumed s rest = take (length s - length rest) s"

text \<open>
  A step returns an error message, or what it wrote and the rest of the source. An octal escape
  has one to three digits.
\<close>

fun octal_more :: "nat \<Rightarrow> 32 word \<Rightarrow> string \<Rightarrow> 32 word \<times> string" where
  "octal_more (Suc n) ch (c # p) =
     (if is_octal_digit c then octal_more n (ch * 8 + word_of_nat (of_char c) - 48) p
      else (ch, c # p))"
| "octal_more n ch p = (ch, p)"

definition octal_escape :: "bool \<Rightarrow> string \<Rightarrow> string + string \<times> string" where
  "octal_escape leave_nulls_escaped p =
     (let (ch, rest) = octal_more 2 (word_of_nat (of_char (hd p)) - 48) (tl p)
      in if ch > 0xff then
           Inl (''Value of '' @ [backslash] @ consumed p rest @ '' exceeds 0xff'')
         else if ch = 0 \<and> leave_nulls_escaped then Inr (backslash # consumed p rest, rest)
         else Inr ([byte ch], rest))"

text \<open>Arbitrarily many hexadecimal digits; the value is kept modulo \<open>2 ^ 32\<close>.\<close>

fun hex_more :: "32 word \<Rightarrow> string \<Rightarrow> 32 word \<times> string" where
  "hex_more ch [] = (ch, [])"
| "hex_more ch (c # p) =
     (if ascii_isxdigit c then hex_more (push_bit 4 ch + hex_digit_to_int c) p else (ch, c # p))"

definition hex_escape :: "bool \<Rightarrow> string \<Rightarrow> string + string \<times> string" where
  "hex_escape leave_nulls_escaped p =
     (if tl p = [] then Inl (''String cannot end with '' @ [backslash] @ ''x'')
      else if \<not> ascii_isxdigit (hd (tl p)) then
        Inl ([backslash] @ ''x cannot be followed by a non-hex digit'')
      else
        let (ch, rest) = hex_more 0 (tl p)
        in if ch > 0xFF then
             Inl (''Value of '' @ [backslash] @ consumed p rest @ '' exceeds 0xff'')
           else if ch = 0 \<and> leave_nulls_escaped then Inr (backslash # consumed p rest, rest)
           else Inr ([byte ch], rest))"

text \<open>Exactly \<open>n\<close> digits, with the message for the character that is not one.\<close>

fun rune4 :: "nat \<Rightarrow> string \<Rightarrow> 32 word \<Rightarrow> string \<Rightarrow> string + 32 word \<times> string" where
  "rune4 (Suc n) hex_start rune (c # p) =
     (if ascii_isxdigit c then rune4 n hex_start (push_bit 4 rune + hex_digit_to_int c) p
      else Inl ([backslash] @ ''u must be followed by 4 hex digits: '' @ [backslash] @
        consumed hex_start (c # p)))"
| "rune4 n hex_start rune p = Inr (rune, p)"

definition u_escape :: "bool \<Rightarrow> string \<Rightarrow> string + string \<times> string" where
  "u_escape leave_nulls_escaped p =
     (if length p \<le> 4 then
        Inl ([backslash] @ ''u must be followed by 4 hex digits: '' @ [backslash] @ take 1 p)
      else
        case rune4 4 p 0 (tl p) of
          Inl e \<Rightarrow> Inl e
        | Inr (rune, rest) \<Rightarrow>
            if rune = 0 \<and> leave_nulls_escaped then Inr (backslash # take 5 p, rest)
            else case IsSurrogate rune (take 5 p) of
                Some e \<Rightarrow> Inl e
              | None \<Rightarrow> Inr (EncodeUTF8Char rune, rest))"

fun rune8 :: "nat \<Rightarrow> string \<Rightarrow> 32 word \<Rightarrow> string \<Rightarrow> string + 32 word \<times> string" where
  "rune8 (Suc n) hex_start rune (c # p) =
     (if ascii_isxdigit c then
        let newrune = push_bit 4 rune + hex_digit_to_int c
        in if newrune > 0x10FFFF then
             Inl (''Value of '' @ [backslash] @ consumed hex_start p @
               '' exceeds Unicode limit (0x10FFFF)'')
           else rune8 n hex_start newrune p
      else Inl ([backslash] @ ''U must be followed by 8 hex digits: '' @ [backslash] @
        consumed hex_start (c # p)))"
| "rune8 n hex_start rune p = Inr (rune, p)"

definition U_escape :: "bool \<Rightarrow> string \<Rightarrow> string + string \<times> string" where
  "U_escape leave_nulls_escaped p =
     (if length p \<le> 8 then
        Inl ([backslash] @ ''U must be followed by 8 hex digits: '' @ [backslash] @ take 1 p)
      else
        case rune8 8 p 0 (tl p) of
          Inl e \<Rightarrow> Inl e
        | Inr (rune, rest) \<Rightarrow>
            if rune = 0 \<and> leave_nulls_escaped then Inr (backslash # take 9 p, rest)
            else case IsSurrogate rune (take 9 p) of
                Some e \<Rightarrow> Inl e
              | None \<Rightarrow> Inr (EncodeUTF8Char rune, rest))"

text \<open>The \<open>switch\<close> on the character \<open>hd p\<close> behind the backslash.\<close>

definition escape_sequence :: "bool \<Rightarrow> string \<Rightarrow> string + string \<times> string" where
  "escape_sequence leave_nulls_escaped p =
     (let c = hd p in
      if c = CHR ''a'' then Inr ([CHR 0x07], tl p)
      else if c = CHR ''b'' then Inr ([CHR 0x08], tl p)
      else if c = CHR ''f'' then Inr ([CHR 0x0C], tl p)
      else if c = CHR ''n'' then Inr ([CHR 0x0A], tl p)
      else if c = CHR ''r'' then Inr ([CHR 0x0D], tl p)
      else if c = CHR ''t'' then Inr ([CHR 0x09], tl p)
      else if c = CHR ''v'' then Inr ([CHR 0x0B], tl p)
      else if c = backslash then Inr ([backslash], tl p)
      else if c = CHR ''?'' then Inr (''?'', tl p)
      else if c = CHR 0x27 then Inr ([CHR 0x27], tl p)
      else if c = CHR 0x22 then Inr ([CHR 0x22], tl p)
      else if c \<in> set ''01234567'' then octal_escape leave_nulls_escaped p
      else if c = CHR ''x'' \<or> c = CHR ''X'' then hex_escape leave_nulls_escaped p
      else if c = CHR ''u'' then u_escape leave_nulls_escaped p
      else if c = CHR ''U'' then U_escape leave_nulls_escaped p
      else Inl (''Unknown escape sequence: '' @ [backslash] @ [c]))"

section \<open>Every escape sequence consumes its letter\<close>

lemma octal_more_length: "length (snd (octal_more n ch p)) \<le> length p"
  by (induction n ch p rule: octal_more.induct) auto

lemma hex_more_length: "length (snd (hex_more ch p)) \<le> length p"
  by (induction ch p rule: hex_more.induct) auto

lemma rune4_length: "rune4 n s r p = Inr (r', p') \<Longrightarrow> length p' + n \<ge> length p \<and> length p' \<le> length p"
  by (induction n s r p rule: rune4.induct) (auto split: if_splits)

lemma rune8_length: "rune8 n s r p = Inr (r', p') \<Longrightarrow> length p' + n \<ge> length p \<and> length p' \<le> length p"
  by (induction n s r p rule: rune8.induct) (auto simp: Let_def split: if_splits)

lemma escape_sequence_length:
  assumes "escape_sequence leave p = Inr (out, rest)" "p \<noteq> []"
  shows "length rest < length p"
proof -
  obtain c q where p: "p = c # q" using assms(2) by (cases p) auto
  have "length rest \<le> length q" if "octal_escape leave p = Inr (out, rest)"
    using that octal_more_length [of 2 "word_of_nat (of_char c) - 48" q]
    by (auto simp: octal_escape_def p split: prod.splits if_splits)
  moreover have "length rest \<le> length q" if "hex_escape leave p = Inr (out, rest)"
    using that hex_more_length [of 0 q]
    by (auto simp: hex_escape_def p split: prod.splits if_splits)
  moreover have "length rest \<le> length q" if "u_escape leave p = Inr (out, rest)"
    using that by (auto simp: u_escape_def p dest: rune4_length
        split: prod.splits if_splits sum.splits option.splits)
  moreover have "length rest \<le> length q" if "U_escape leave p = Inr (out, rest)"
    using that by (auto simp: U_escape_def p dest: rune8_length
        split: prod.splits if_splits sum.splits option.splits)
  ultimately have "length rest \<le> length q"
    using assms(1) unfolding escape_sequence_def Let_def p
    by (simp only: split: if_splits) (auto simp: p)
  then show ?thesis by (simp add: p)
qed

section \<open>The loops\<close>

function CUnescape_loop :: "bool \<Rightarrow> string \<Rightarrow> string \<Rightarrow> string + string" where
  "CUnescape_loop leave_nulls_escaped d [] = Inr d"
| "CUnescape_loop leave_nulls_escaped d (c # p) =
     (if c \<noteq> backslash then CUnescape_loop leave_nulls_escaped (d @ [c]) p
      else if p = [] then Inl (''String cannot end with '' @ [backslash])
      else case escape_sequence leave_nulls_escaped p of
          Inl e \<Rightarrow> Inl e
        | Inr (out, p) \<Rightarrow> CUnescape_loop leave_nulls_escaped (d @ out) p)"
  by pat_completeness auto

termination CUnescape_loop
  by (relation "measure (\<lambda>(l, d, p). length p)")
    (auto dest: escape_sequence_length [THEN less_SucI])

definition CUnescapeInternal :: "string \<Rightarrow> bool \<Rightarrow> string + string" where
  "CUnescapeInternal source leave_nulls_escaped = CUnescape_loop leave_nulls_escaped [] source"

definition CUnescape :: "string \<Rightarrow> string + string" where
  "CUnescape source = CUnescapeInternal source False"

section \<open>Encoding\<close>

definition kHexChar :: string where
  "kHexChar = ''0123456789abcdef''"

text \<open>The body of the loop over the source: the output for \<open>c\<close>, and whether it is \<open>\xNN\<close>.\<close>

definition escape_char :: "bool \<Rightarrow> bool \<Rightarrow> bool \<Rightarrow> char \<Rightarrow> string \<times> bool" where
  "escape_char use_hex utf8_safe last_hex_escape c =
     (if c = CHR 0x0A then ([backslash, CHR ''n''], False)
      else if c = CHR 0x0D then ([backslash, CHR ''r''], False)
      else if c = CHR 0x09 then ([backslash, CHR ''t''], False)
      else if c = CHR 0x22 then ([backslash, CHR 0x22], False)
      else if c = CHR 0x27 then ([backslash, CHR 0x27], False)
      else if c = backslash then ([backslash, backslash], False)
      else if (\<not> utf8_safe \<or> (of_char c :: nat) < 0x80) \<and>
              (\<not> ascii_isprint c \<or> last_hex_escape \<and> ascii_isxdigit c) then
        if use_hex then
          ([backslash, CHR ''x'', kHexChar ! (of_char c div 16), kHexChar ! (of_char c mod 16)], True)
        else
          ([backslash, kHexChar ! (of_char c div 64), kHexChar ! (of_char c mod 64 div 8),
            kHexChar ! (of_char c mod 8)], False)
      else ([c], False))"

fun CEscape_loop :: "bool \<Rightarrow> bool \<Rightarrow> bool \<Rightarrow> string \<Rightarrow> string" where
  "CEscape_loop use_hex utf8_safe last_hex_escape [] = []"
| "CEscape_loop use_hex utf8_safe last_hex_escape (c # src) =
     (let (out, is_hex_escape) = escape_char use_hex utf8_safe last_hex_escape c
      in out @ CEscape_loop use_hex utf8_safe is_hex_escape src)"

definition CEscapeInternal :: "string \<Rightarrow> bool \<Rightarrow> bool \<Rightarrow> string" where
  "CEscapeInternal src use_hex utf8_safe = CEscape_loop use_hex utf8_safe False src"

definition c_escaped_len :: "nat list" where
  "c_escaped_len =
    [4, 4, 4, 4, 4, 4, 4, 4, 4, 2, 2, 4, 4, 2, 4, 4,
     4, 4, 4, 4, 4, 4, 4, 4, 4, 4, 4, 4, 4, 4, 4, 4,
     1, 1, 2, 1, 1, 1, 1, 2, 1, 1, 1, 1, 1, 1, 1, 1,
     1, 1, 1, 1, 1, 1, 1, 1, 1, 1, 1, 1, 1, 1, 1, 1,
     1, 1, 1, 1, 1, 1, 1, 1, 1, 1, 1, 1, 1, 1, 1, 1,
     1, 1, 1, 1, 1, 1, 1, 1, 1, 1, 1, 1, 2, 1, 1, 1,
     1, 1, 1, 1, 1, 1, 1, 1, 1, 1, 1, 1, 1, 1, 1, 1,
     1, 1, 1, 1, 1, 1, 1, 1, 1, 1, 1, 1, 1, 1, 1, 4,
     4, 4, 4, 4, 4, 4, 4, 4, 4, 4, 4, 4, 4, 4, 4, 4,
     4, 4, 4, 4, 4, 4, 4, 4, 4, 4, 4, 4, 4, 4, 4, 4,
     4, 4, 4, 4, 4, 4, 4, 4, 4, 4, 4, 4, 4, 4, 4, 4,
     4, 4, 4, 4, 4, 4, 4, 4, 4, 4, 4, 4, 4, 4, 4, 4,
     4, 4, 4, 4, 4, 4, 4, 4, 4, 4, 4, 4, 4, 4, 4, 4,
     4, 4, 4, 4, 4, 4, 4, 4, 4, 4, 4, 4, 4, 4, 4, 4,
     4, 4, 4, 4, 4, 4, 4, 4, 4, 4, 4, 4, 4, 4, 4, 4,
     4, 4, 4, 4, 4, 4, 4, 4, 4, 4, 4, 4, 4, 4, 4, 4]"

definition CEscapedLength :: "string \<Rightarrow> nat" where
  "CEscapedLength src = foldl (\<lambda>escaped_len c. escaped_len + c_escaped_len ! of_char c) 0 src"

text \<open>The body of the second loop of \<open>CEscapeAndAppendInternal\<close>: what is written for \<open>c\<close>.\<close>

definition append_escaped :: "char \<Rightarrow> string" where
  "append_escaped c =
     (let char_len = c_escaped_len ! of_char c
      in if char_len = 1 then [c]
         else if char_len = 2 then
           if c = CHR 0x0A then [backslash, CHR ''n'']
           else if c = CHR 0x0D then [backslash, CHR ''r'']
           else if c = CHR 0x09 then [backslash, CHR ''t'']
           else if c = CHR 0x22 then [backslash, CHR 0x22]
           else if c = CHR 0x27 then [backslash, CHR 0x27]
           else if c = backslash then [backslash, backslash]
           else []
         else
           [backslash, char_of (48 + of_char c div 64 :: nat),
            char_of (48 + of_char c mod 64 div 8 :: nat), char_of (48 + of_char c mod 8 :: nat)])"

text \<open>
  The buffer is resized once, to the length that the table predicts; the writes must fill it
  exactly.
\<close>

definition CEscapeAndAppendInternal :: "string \<Rightarrow> string \<Rightarrow> string result" where
  "CEscapeAndAppendInternal src dest =
     (let escaped_len = CEscapedLength src
      in if escaped_len = length src then Inr (dest @ src)
         else
           let cur_dest_len = length dest
           in bindr (copy_pieces (map append_escaped src)
                (resize_uninitialized dest (cur_dest_len + escaped_len), cur_dest_len)) (\<lambda>(buf, out).
              Inr buf))"

definition CEscape :: "string \<Rightarrow> string result" where
  "CEscape src = CEscapeAndAppendInternal src []"

definition CHexEscape :: "string \<Rightarrow> string" where
  "CHexEscape src = CEscapeInternal src True False"

definition Utf8SafeCEscape :: "string \<Rightarrow> string" where
  "Utf8SafeCEscape src = CEscapeInternal src False True"

definition Utf8SafeCHexEscape :: "string \<Rightarrow> string" where
  "Utf8SafeCHexEscape src = CEscapeInternal src True True"

section \<open>The table-driven encoder\<close>

lemma length_c_escaped_len: "length c_escaped_len = 256"
  by (simp add: c_escaped_len_def)

lemma c_escaped_len_table:
  "map (\<lambda>n. n) c_escaped_len =
     map (\<lambda>n. if n = 9 \<or> n = 10 \<or> n = 13 \<or> n = 34 \<or> n = 39 \<or> n = 92 then 2
       else if 32 \<le> n \<and> n < 127 then 1 else 4) [0..<256]"
  by code_simp

lemma c_escaped_len_eq:
  "c_escaped_len ! of_char c =
     (if c \<in> {CHR 0x09, CHR 0x0A, CHR 0x0D, CHR 0x22, CHR 0x27, backslash} then 2
      else if ascii_isprint c then 1 else 4)"
proof -
  have char: "c = d \<longleftrightarrow> of_char c = (of_char d :: nat)" for d by simp
  show ?thesis
    using nth_of_map_eq [OF c_escaped_len_table length_c_escaped_len, of c]
    unfolding ascii_ranges insert_iff empty_iff char backslash_def by simp
qed

lemma kHexChar_octal: "n < 8 \<Longrightarrow> kHexChar ! n = char_of (48 + n)"
proof -
  assume n: "n < 8"
  have "take 8 kHexChar = map (\<lambda>n. char_of (48 + n)) [0..<8]" by code_simp
  with n show ?thesis by (metis nth_map_from_0 nth_take)
qed

text \<open>It writes what the general encoder writes without hexadecimal escapes, and as many bytes
  as predicted.\<close>

lemma octal_parts:
  "(of_char (c :: char) :: nat) div 64 < 8" "(of_char c :: nat) mod 64 div 8 < 8"
proof -
  have "(of_char c :: nat) < 8 * 64" by (rule less_trans [OF of_char_less]) simp
  then show "(of_char c :: nat) div 64 < 8" by (rule less_mult_imp_div_less)
  show "(of_char c :: nat) mod 64 div 8 < 8" by (simp add: less_mult_imp_div_less)
qed

lemma append_escaped_eq: "append_escaped c = fst (escape_char False False False c)"
proof -
  show ?thesis
    using octal_parts [of c]
    unfolding append_escaped_def escape_char_def c_escaped_len_eq Let_def
    by (simp add: kHexChar_octal)
qed

lemma length_append_escaped: "length (append_escaped c) = c_escaped_len ! of_char c"
  unfolding append_escaped_def c_escaped_len_eq Let_def by (auto simp: backslash_def)

lemma CEscape_octal_loop: "CEscape_loop False utf8_safe False src = concat (map (fst \<circ> escape_char False utf8_safe False) src)"
proof (induction src)
  case (Cons c src)
  have "snd (escape_char False utf8_safe False c) = False" by (simp add: escape_char_def)
  with Cons show ?case by (cases "escape_char False utf8_safe False c") simp
qed simp

lemma CEscapedLength_eq: "CEscapedLength src = length (concat (map append_escaped src))"
proof -
  have "foldl (\<lambda>n c. n + c_escaped_len ! of_char c) k src = k + length (concat (map append_escaped src))" for k
    by (induction src arbitrary: k) (simp_all add: length_append_escaped)
  then show ?thesis by (simp add: CEscapedLength_def)
qed

lemma CEscape_eq: "CEscape src = Inr (CEscapeInternal src False False)"
proof -
  let ?out = "concat (map append_escaped src)"
  have out: "CEscapeInternal src False False = ?out"
    by (simp add: CEscapeInternal_def CEscape_octal_loop append_escaped_eq [abs_def] comp_def)
  have one: "1 \<le> length (append_escaped c)" for c
    unfolding length_append_escaped c_escaped_len_eq by auto
  have same: "append_escaped c = [c]" if "length (append_escaped c) = 1" for c
    using that unfolding length_append_escaped by (simp add: append_escaped_def)
  have "?out = src" if "length ?out = length src"
    using that
  proof (induction src)
    case (Cons c src)
    have "length src \<le> length (concat (map append_escaped src))"
    proof (induction src)
      case (Cons x xs)
      then show ?case using one [of x] by simp
    qed simp
    with Cons.prems one [of c] have "length (append_escaped c) = 1"
      "length (concat (map append_escaped src)) = length src" by simp_all
    with Cons.IH same [of c] show ?case by simp
  qed simp
  then show ?thesis
    using copy_pieces_eq [of "map append_escaped src" "replicate (length ?out) CHR 0x00" "[]"]
    by (auto simp: CEscape_def CEscapeAndAppendInternal_def CEscapedLength_eq out
        resize_uninitialized_def Let_def)
qed

section \<open>Round trips\<close>

text \<open>Reading back one escape sequence.\<close>

lemma unat_of_char: "unat (word_of_nat (of_char c) :: 32 word) = of_char c"
proof -
  have "take_bit 32 (of_char c :: nat) = of_char c"
    by (rule take_bit_nat_eq_self [OF less_trans [OF of_char_less]]) simp
  then show ?thesis by (simp only: unsigned_of_nat) simp
qed

lemma byte_of_char: "byte (word_of_nat (of_char c)) = c"
  by (simp add: byte_def unat_of_char)

lemma octal_digits_value:
  assumes "a < 8" "b < 8" "d < 8"
  shows "octal_more 2 (word_of_nat (of_char (char_of (48 + a :: nat))) - 48)
      (char_of (48 + b :: nat) # char_of (48 + d :: nat) # t) = (word_of_nat (64 * a + 8 * b + d), t)"
proof -
  have v: "word_of_nat (of_char (char_of (48 + n :: nat))) = (48 + word_of_nat n :: 32 word)" if "n < 8" for n
    using that by simp
  have o: "is_octal_digit (char_of (48 + n :: nat))" if "n < 8" for n
    using that by (simp add: is_octal_digit_def)
  have two: "(2 :: nat) = Suc (Suc 0)" by simp
  show ?thesis
    unfolding two octal_more.simps v [OF assms(1)] v [OF assms(2)] v [OF assms(3)]
    using o [OF assms(2)] o [OF assms(3)] by (simp add: algebra_simps)
qed

lemma octal_escape_round_trip:
  assumes "\<not> leave \<or> of_char c \<noteq> (0 :: nat)"
  shows "octal_escape leave ([kHexChar ! (of_char c div 64), kHexChar ! (of_char c mod 64 div 8),
      kHexChar ! (of_char c mod 8)] @ t) = Inr ([c], t)"
proof -
  let ?n = "of_char c :: nat"
  have n: "64 * (?n div 64) + 8 * (?n mod 64 div 8) + ?n mod 8 = ?n"
  proof -
    have "?n mod 8 = ?n mod 64 mod 8" by (simp add: mod_mod_cancel)
    then show ?thesis by simp
  qed
  have w: "unat (word_of_nat ?n :: 32 word) = ?n"
    by (rule unat_of_char)
  have "\<not> 255 < ?n" using of_char_less [of c] by linarith
  then have "\<not> (word_of_nat ?n :: 32 word) > 0xff" using w by (simp add: word_less_nat_alt)
  moreover have "(word_of_nat ?n :: 32 word) = 0 \<longleftrightarrow> ?n = 0" using w by (metis unat_eq_zero)
  ultimately show ?thesis
    using octal_digits_value [OF octal_parts(1) [of c] octal_parts(2) [of c], of "?n mod 8" t] n assms
    by (auto simp: octal_escape_def kHexChar_octal octal_parts byte_of_char)
qed

lemma kHexChar_digit:
  "n < 16 \<Longrightarrow> ascii_isxdigit (kHexChar ! n) \<and> hex_digit_to_int (kHexChar ! n) = word_of_nat n"
proof -
  assume n: "n < 16"
  have "\<forall>n\<in>set [0..<16]. ascii_isxdigit (kHexChar ! n) \<and> hex_digit_to_int (kHexChar ! n) = word_of_nat n"
    by code_simp
  moreover have "n \<in> set [0..<16]" unfolding set_upt using n by simp
  ultimately show ?thesis by blast
qed

lemma hex_escape_round_trip:
  assumes "\<not> leave \<or> of_char c \<noteq> (0 :: nat)" "t = [] \<or> \<not> ascii_isxdigit (hd t)"
  shows "hex_escape leave (x # [kHexChar ! (of_char c div 16), kHexChar ! (of_char c mod 16)] @ t) =
    Inr ([c], t)"
proof -
  let ?n = "of_char c :: nat"
  have parts: "?n div 16 < 16" "?n mod 16 < 16"
  proof -
    have "?n < 16 * 16" using of_char_less [of c] by simp
    then show "?n div 16 < 16" by (rule less_mult_imp_div_less)
  qed simp
  have "push_bit 4 (word_of_nat a) + word_of_nat b = (word_of_nat (16 * a + b) :: 32 word)" for a b
    by (simp add: push_bit_eq_mult)
  from this [of "?n div 16" "?n mod 16"]
  have "push_bit 4 (word_of_nat (?n div 16)) + word_of_nat (?n mod 16) = (word_of_nat ?n :: 32 word)"
    by (simp only: mult_div_mod_eq)
  moreover have "hex_more v t = (v, t)" for v using assms(2) by (cases t) auto
  ultimately have more: "hex_more 0 ([kHexChar ! (?n div 16), kHexChar ! (?n mod 16)] @ t) = (word_of_nat ?n, t)"
    using kHexChar_digit [OF parts(1)] kHexChar_digit [OF parts(2)] by simp
  have "\<not> 255 < ?n" using of_char_less [of c] by linarith
  then have "\<not> (word_of_nat ?n :: 32 word) > 0xff" using unat_of_char [of c] by (simp add: word_less_nat_alt)
  moreover have "(word_of_nat ?n :: 32 word) = 0 \<longleftrightarrow> ?n = 0" using unat_of_char [of c] by (metis unat_eq_zero)
  ultimately show ?thesis
    using more assms(1) kHexChar_digit [OF parts(1)]
    by (auto simp: hex_escape_def byte_of_char)
qed

text \<open>What follows a hexadecimal escape is never a hexadecimal digit.\<close>

lemma CEscape_loop_after_hex:
  "CEscape_loop use_hex utf8_safe True src = [] \<or>
     \<not> ascii_isxdigit (hd (CEscape_loop use_hex utf8_safe True src))"
proof (cases src)
  case (Cons c s)
  have "\<not> ascii_isxdigit backslash" by (simp add: backslash_def ascii_property(7) ascii_ranges)
  moreover have "\<not> ascii_isxdigit c" if "\<not> (of_char c :: nat) < 0x80"
    using that by (auto simp: ascii_property(7) ascii_ranges)
  ultimately show ?thesis by (auto simp: Cons escape_char_def)
qed simp

lemma escape_char_round_trip:
  assumes "escape_char use_hex utf8_safe prev c = (out, is_hex)"
    "is_hex \<Longrightarrow> t = [] \<or> \<not> ascii_isxdigit (hd t)"
  shows "CUnescape_loop False d (out @ t) = CUnescape_loop False (d @ [c]) t"
proof -
  have octal: "kHexChar ! (of_char c div 64) \<in> set ''01234567''"
  proof -
    have "\<forall>n\<in>set [0..<8]. kHexChar ! n \<in> set ''01234567''" by code_simp
    moreover have "of_char c div 64 \<in> set [0..<8]" unfolding set_upt using octal_parts(1) [of c] by simp
    ultimately show ?thesis by blast
  qed
  have o: "escape_sequence False ([kHexChar ! (of_char c div 64), kHexChar ! (of_char c mod 64 div 8),
      kHexChar ! (of_char c mod 8)] @ t) = Inr ([c], t)"
    using octal octal_escape_round_trip [of False c t]
    by (auto simp: escape_sequence_def Let_def backslash_def)
  have x: "escape_sequence False (CHR ''x'' # [kHexChar ! (of_char c div 16), kHexChar ! (of_char c mod 16)] @ t) =
      Inr ([c], t)" if "is_hex"
    using hex_escape_round_trip [of False c t "CHR ''x''"] assms(2) [OF that]
    by (simp add: escape_sequence_def backslash_def)
  show ?thesis
    using assms(1) o x
    by (auto simp: escape_char_def escape_sequence_def backslash_def split: if_splits)
qed

lemma CUnescape_CEscape_loop:
  "CUnescape_loop False d (CEscape_loop use_hex utf8_safe prev src) = Inr (d @ src)"
proof (induction src arbitrary: d prev)
  case (Cons c src)
  obtain out is_hex where out: "escape_char use_hex utf8_safe prev c = (out, is_hex)"
    by (cases "escape_char use_hex utf8_safe prev c")
  have "CUnescape_loop False d (out @ CEscape_loop use_hex utf8_safe is_hex src) =
      CUnescape_loop False (d @ [c]) (CEscape_loop use_hex utf8_safe is_hex src)"
    using escape_char_round_trip [OF out] CEscape_loop_after_hex by (metis (full_types))
  with Cons.IH [of "d @ [c]" is_hex] out show ?case by simp
qed simp

lemma CUnescape_CEscapeInternal: "CUnescape (CEscapeInternal src use_hex utf8_safe) = Inr src"
  by (simp add: CUnescape_def CUnescapeInternal_def CEscapeInternal_def CUnescape_CEscape_loop)

section \<open>The decoded text fits the buffer of the source\<close>

lemma length_consumed: "length (consumed s rest) \<le> length s - length rest"
  by (simp add: consumed_def)

lemma length_EncodeUTF8Char:
  "length (EncodeUTF8Char r) = (if r \<le> 0x7F then 1 else if r \<le> 0x7FF then 2 else if r \<le> 0xFFFF then 3 else 4)"
  by (simp add: EncodeUTF8Char_def Let_def)

lemma rune4_bound: "rune4 n s r p = Inr (r', p') \<Longrightarrow> n \<le> length p \<Longrightarrow> length p' + n = length p"
  by (induction n s r p rule: rune4.induct) (auto split: if_splits)

lemma rune8_bound: "rune8 n s r p = Inr (r', p') \<Longrightarrow> n \<le> length p \<Longrightarrow> length p' + n = length p"
  by (induction n s r p rule: rune8.induct) (auto simp: Let_def split: if_splits)

lemma escape_sequence_fits:
  assumes "escape_sequence leave p = Inr (out, rest)" "p \<noteq> []"
  shows "length out + length rest \<le> Suc (length p)"
proof -
  obtain c q where p: "p = c # q" using assms(2) by (cases p) auto
  have len: "length rest < length p" by (rule escape_sequence_length [OF assms])
  have one: "length out = 1 \<or> length out \<le> Suc (length p - length rest)" if "octal_escape leave p = Inr (out, rest)"
    using that length_consumed [of p rest] by (auto simp: octal_escape_def split: prod.splits if_splits)
  have two: "length out = 1 \<or> length out \<le> Suc (length p - length rest)" if "hex_escape leave p = Inr (out, rest)"
    using that length_consumed [of p rest] by (auto simp: hex_escape_def split: prod.splits if_splits)
  have three: "length out + length rest \<le> Suc (length p)" if "u_escape leave p = Inr (out, rest)"
    using that by (auto simp: u_escape_def p length_EncodeUTF8Char dest!: rune4_bound
        split: prod.splits if_splits sum.splits option.splits)
  have four: "length out + length rest \<le> Suc (length p)" if "U_escape leave p = Inr (out, rest)"
    using that by (auto simp: U_escape_def p length_EncodeUTF8Char dest!: rune8_bound
        split: prod.splits if_splits sum.splits option.splits)
  from assms(1) consider "length out = 1" | "octal_escape leave p = Inr (out, rest)"
    | "hex_escape leave p = Inr (out, rest)" | "u_escape leave p = Inr (out, rest)"
    | "U_escape leave p = Inr (out, rest)"
    unfolding escape_sequence_def Let_def by (simp only: split: if_splits) auto
  then show ?thesis
    using one two three four len by cases auto
qed

lemma CUnescape_loop_fits:
  "CUnescape_loop leave d p = Inr t \<Longrightarrow> length t \<le> length d + length p"
proof (induction leave d p rule: CUnescape_loop.induct)
  case (2 leave d c p)
  show ?case
  proof (cases "c = backslash")
    case True
    with 2 obtain out rest where e: "p \<noteq> []" "escape_sequence leave p = Inr (out, rest)"
      "CUnescape_loop leave (d @ out) rest = Inr t"
      by (auto split: if_splits sum.splits)
    have "length t \<le> length (d @ out) + length rest"
      using "2.IH"(2) [of "(out, rest)" out rest] True e by simp
    with escape_sequence_fits [OF e(2,1)] show ?thesis by simp
  next
    case False
    with 2 show ?thesis by simp
  qed
qed simp

text \<open>
  The value of a hexadecimal escape is reduced modulo \<open>2 ^ 32\<close> before it is compared with
  \<open>0xff\<close>, so some sequences with a much larger value are accepted.
\<close>

lemma hex_wrap: "CUnescape (backslash # ''x100000041'') = Inr ''A''"
  by code_simp

end
