(* ===== verification/Absl_Base64.thy ===== *)
theory Absl_Base64
  imports Absl_StrCat
begin

text \<open>
  Base64, the second half of \<open>escaping.cc\<close> of the vendored Abseil: both alphabets, with and
  without padding. The encoder works in 32-bit words, three bytes at a time; the decoder has a
  fast path for four good characters, a slow path that skips white space, a loop for the last
  characters and the check of the padding. The decoder is only called with a destination, so
  the branch for a null destination is left out. A read past the end of the source is undefined
  behaviour.
\<close>

section \<open>Tables\<close>

definition kBase64Chars :: string where
  "kBase64Chars = ''ABCDEFGHIJKLMNOPQRSTUVWXYZabcdefghijklmnopqrstuvwxyz0123456789+/''"

definition kWebSafeBase64Chars :: string where
  "kWebSafeBase64Chars = ''ABCDEFGHIJKLMNOPQRSTUVWXYZabcdefghijklmnopqrstuvwxyz0123456789-_''"

definition kUnBase64 :: "int list" where
  "kUnBase64 =
    [- 1, - 1, - 1, - 1, - 1, - 1, - 1, - 1, - 1, - 1, - 1, - 1, - 1, - 1, - 1, - 1,
     - 1, - 1, - 1, - 1, - 1, - 1, - 1, - 1, - 1, - 1, - 1, - 1, - 1, - 1, - 1, - 1,
     - 1, - 1, - 1, - 1, - 1, - 1, - 1, - 1, - 1, - 1, - 1, 62, - 1, - 1, - 1, 63,
     52, 53, 54, 55, 56, 57, 58, 59, 60, 61, - 1, - 1, - 1, - 1, - 1, - 1,
     - 1, 0, 1, 2, 3, 4, 5, 6, 7, 8, 9, 10, 11, 12, 13, 14,
     15, 16, 17, 18, 19, 20, 21, 22, 23, 24, 25, - 1, - 1, - 1, - 1, - 1,
     - 1, 26, 27, 28, 29, 30, 31, 32, 33, 34, 35, 36, 37, 38, 39, 40,
     41, 42, 43, 44, 45, 46, 47, 48, 49, 50, 51, - 1, - 1, - 1, - 1, - 1,
     - 1, - 1, - 1, - 1, - 1, - 1, - 1, - 1, - 1, - 1, - 1, - 1, - 1, - 1, - 1, - 1,
     - 1, - 1, - 1, - 1, - 1, - 1, - 1, - 1, - 1, - 1, - 1, - 1, - 1, - 1, - 1, - 1,
     - 1, - 1, - 1, - 1, - 1, - 1, - 1, - 1, - 1, - 1, - 1, - 1, - 1, - 1, - 1, - 1,
     - 1, - 1, - 1, - 1, - 1, - 1, - 1, - 1, - 1, - 1, - 1, - 1, - 1, - 1, - 1, - 1,
     - 1, - 1, - 1, - 1, - 1, - 1, - 1, - 1, - 1, - 1, - 1, - 1, - 1, - 1, - 1, - 1,
     - 1, - 1, - 1, - 1, - 1, - 1, - 1, - 1, - 1, - 1, - 1, - 1, - 1, - 1, - 1, - 1,
     - 1, - 1, - 1, - 1, - 1, - 1, - 1, - 1, - 1, - 1, - 1, - 1, - 1, - 1, - 1, - 1,
     - 1, - 1, - 1, - 1, - 1, - 1, - 1, - 1, - 1, - 1, - 1, - 1, - 1, - 1, - 1, - 1]"

definition kUnWebSafeBase64 :: "int list" where
  "kUnWebSafeBase64 =
    [- 1, - 1, - 1, - 1, - 1, - 1, - 1, - 1, - 1, - 1, - 1, - 1, - 1, - 1, - 1, - 1,
     - 1, - 1, - 1, - 1, - 1, - 1, - 1, - 1, - 1, - 1, - 1, - 1, - 1, - 1, - 1, - 1,
     - 1, - 1, - 1, - 1, - 1, - 1, - 1, - 1, - 1, - 1, - 1, - 1, - 1, 62, - 1, - 1,
     52, 53, 54, 55, 56, 57, 58, 59, 60, 61, - 1, - 1, - 1, - 1, - 1, - 1,
     - 1, 0, 1, 2, 3, 4, 5, 6, 7, 8, 9, 10, 11, 12, 13, 14,
     15, 16, 17, 18, 19, 20, 21, 22, 23, 24, 25, - 1, - 1, - 1, - 1, 63,
     - 1, 26, 27, 28, 29, 30, 31, 32, 33, 34, 35, 36, 37, 38, 39, 40,
     41, 42, 43, 44, 45, 46, 47, 48, 49, 50, 51, - 1, - 1, - 1, - 1, - 1,
     - 1, - 1, - 1, - 1, - 1, - 1, - 1, - 1, - 1, - 1, - 1, - 1, - 1, - 1, - 1, - 1,
     - 1, - 1, - 1, - 1, - 1, - 1, - 1, - 1, - 1, - 1, - 1, - 1, - 1, - 1, - 1, - 1,
     - 1, - 1, - 1, - 1, - 1, - 1, - 1, - 1, - 1, - 1, - 1, - 1, - 1, - 1, - 1, - 1,
     - 1, - 1, - 1, - 1, - 1, - 1, - 1, - 1, - 1, - 1, - 1, - 1, - 1, - 1, - 1, - 1,
     - 1, - 1, - 1, - 1, - 1, - 1, - 1, - 1, - 1, - 1, - 1, - 1, - 1, - 1, - 1, - 1,
     - 1, - 1, - 1, - 1, - 1, - 1, - 1, - 1, - 1, - 1, - 1, - 1, - 1, - 1, - 1, - 1,
     - 1, - 1, - 1, - 1, - 1, - 1, - 1, - 1, - 1, - 1, - 1, - 1, - 1, - 1, - 1, - 1,
     - 1, - 1, - 1, - 1, - 1, - 1, - 1, - 1, - 1, - 1, - 1, - 1, - 1, - 1, - 1, - 1]"

section \<open>Encoding\<close>

definition byte32 :: "char \<Rightarrow> 32 word" where
  "byte32 c = word_of_nat (of_char c)"

text \<open>\<open>absl::big_endian::Load16\<close> and \<open>Load32\<close>.\<close>

definition Load16 :: "char \<Rightarrow> char \<Rightarrow> 32 word" where
  "Load16 a b = byte32 a * 256 + byte32 b"

definition Load32 :: "char \<Rightarrow> char \<Rightarrow> char \<Rightarrow> char \<Rightarrow> 32 word" where
  "Load32 a b c d = byte32 a * 16777216 + byte32 b * 65536 + byte32 c * 256 + byte32 d"

definition CalculateBase64EscapedLenInternal :: "nat \<Rightarrow> bool \<Rightarrow> nat result" where
  "CalculateBase64EscapedLenInternal input_len do_padding =
     (let len = input_len div 3 * 4;
          len = (if input_len mod 3 = 0 then len
                 else if input_len mod 3 = 1 then len + 2 + (if do_padding then 2 else 0)
                 else len + 3 + (if do_padding then 1 else 0))
      in if len \<ge> input_len then Inr len else Inl Assertion_failed)"

text \<open>Four characters of output for 24 bits of input.\<close>

definition quad :: "string \<Rightarrow> 32 word \<Rightarrow> string" where
  "quad base64 in24 =
     (let c0 = base64 ! unat (drop_bit 18 in24);
          in24 = in24 AND 0x3FFFF;
          c1 = base64 ! unat (drop_bit 12 in24);
          in24 = in24 AND 0xFFF;
          c2 = base64 ! unat (drop_bit 6 in24);
          in24 = in24 AND 0x3F;
          c3 = base64 ! unat in24
      in [c0, c1, c2, c3])"

text \<open>The loop runs while more than three bytes are left.\<close>

fun Base64Escape_loop :: "string \<Rightarrow> string \<Rightarrow> string \<Rightarrow> string \<times> string" where
  "Base64Escape_loop base64 (a # b # c # d # src) dest =
     Base64Escape_loop base64 (d # src) (dest @ quad base64 (drop_bit 8 (Load32 a b c d)))"
| "Base64Escape_loop base64 src dest = (src, dest)"

text \<open>
  What is written to \<open>dest\<close>, \<open>None\<close> for a return of \<open>0\<close> because the destination of \<open>szdest\<close>
  bytes is too small.
\<close>

definition Base64EscapeInternal :: "string \<Rightarrow> nat \<Rightarrow> string \<Rightarrow> bool \<Rightarrow> string option result" where
  "Base64EscapeInternal src szdest base64 do_padding =
     (if length src * 4 > szdest * 3 then Inr None
      else
        let (src, dest) = Base64Escape_loop base64 src [];
            szdest = szdest - length dest
        in case src of
             [] \<Rightarrow> Inr (Some dest)
           | [a] \<Rightarrow>
               if szdest < 2 then Inr None
               else
                 let in8 = byte32 a;
                     c0 = base64 ! unat (drop_bit 2 in8);
                     in8 = in8 AND 0x3;
                     c1 = base64 ! unat (push_bit 4 in8);
                     szdest = szdest - 2
                 in if do_padding then
                      if szdest < 2 then Inr None else Inr (Some (dest @ [c0, c1] @ ''==''))
                    else Inr (Some (dest @ [c0, c1]))
           | [a, b] \<Rightarrow>
               if szdest < 3 then Inr None
               else
                 let in16 = Load16 a b;
                     c0 = base64 ! unat (drop_bit 10 in16);
                     in16 = in16 AND 0x3FF;
                     c1 = base64 ! unat (drop_bit 4 in16);
                     in16 = in16 AND 0x00F;
                     c2 = base64 ! unat (push_bit 2 in16);
                     szdest = szdest - 3
                 in if do_padding then
                      if szdest < 1 then Inr None else Inr (Some (dest @ [c0, c1, c2] @ ''=''))
                    else Inr (Some (dest @ [c0, c1, c2]))
           | [a, b, c] \<Rightarrow>
               if szdest < 4 then Inr None
               else Inr (Some (dest @ quad base64 (push_bit 16 (byte32 a) + Load16 b c)))
           | _ \<Rightarrow> Inl (Raw_check_failed ''Logic problem?''))"

definition Base64Escape_String :: "string \<Rightarrow> bool \<Rightarrow> string \<Rightarrow> string result" where
  "Base64Escape_String src do_padding base64_chars =
     bindr (CalculateBase64EscapedLenInternal (length src) do_padding) (\<lambda>calc_escaped_size.
     bindr (Base64EscapeInternal src calc_escaped_size base64_chars do_padding) (\<lambda>dest.
     case dest of
       None \<Rightarrow> if calc_escaped_size = 0 then Inr [] else Inl Assertion_failed
     | Some dest \<Rightarrow> if calc_escaped_size = length dest then Inr dest else Inl Assertion_failed))"

definition Base64Escape :: "string \<Rightarrow> string result" where
  "Base64Escape src = Base64Escape_String src True kBase64Chars"

definition WebSafeBase64Escape :: "string \<Rightarrow> string result" where
  "WebSafeBase64Escape src = Base64Escape_String src False kWebSafeBase64Chars"

section \<open>Decoding\<close>

definition is_pad :: "char \<Rightarrow> bool" where
  "is_pad c \<longleftrightarrow> c = CHR ''='' \<or> c = CHR ''.''"

text \<open>
  The state of the decoder: what is left of the source, the bytes written, and the variables
  \<open>temp\<close>, \<open>ch\<close>, \<open>decode\<close> and \<open>state\<close>.
\<close>

record decoder =
  src_left :: string
  dest_out :: string
  temp_bits :: "32 word"
  cur_ch :: char
  cur_decode :: int
  dec_state :: nat

text \<open>
  The macro \<open>GET_INPUT\<close>: the flag is \<open>False\<close> when it breaks out of the loop, with \<open>state\<close> set
  to the number of characters that \<open>temp\<close> holds.
\<close>

function GET_INPUT :: "int list \<Rightarrow> nat \<Rightarrow> decoder \<Rightarrow> (bool \<times> decoder) result" where
  "GET_INPUT unbase64 remain s =
     (case src_left s of
        [] \<Rightarrow> Inl (Undefined_behaviour ''read past the end'')
      | c # src \<Rightarrow>
          let s = s\<lparr>src_left := src, cur_ch := c, cur_decode := unbase64 ! of_char c\<rparr>
          in if cur_decode s < 0 then
               if ascii_isspace c \<and> length src \<ge> remain then GET_INPUT unbase64 remain s
               else Inr (False, s\<lparr>dec_state := 4 - remain\<rparr>)
             else Inr (True, s))"
  by pat_completeness auto

termination GET_INPUT
  by (relation "measure (\<lambda>(u, r, s). length (src_left s))") auto

definition word_of_digit :: "int \<Rightarrow> 32 word" where
  "word_of_digit d = word_of_int d"

text \<open>\<open>temp = (temp << 6) | decode\<close>.\<close>

definition shift_in :: "decoder \<Rightarrow> decoder" where
  "shift_in s = s\<lparr>temp_bits := push_bit 6 (temp_bits s) OR word_of_digit (cur_decode s)\<rparr>"

text \<open>The slow path: four characters, white space skipped.\<close>

definition slow_quad :: "int list \<Rightarrow> decoder \<Rightarrow> (bool \<times> decoder) result" where
  "slow_quad unbase64 s =
     bindr (GET_INPUT unbase64 4 s) (\<lambda>(ok, s). if \<not> ok then Inr (False, s) else
     let s = s\<lparr>temp_bits := word_of_digit (cur_decode s)\<rparr> in
     bindr (GET_INPUT unbase64 3 s) (\<lambda>(ok, s). if \<not> ok then Inr (False, s) else
     let s = shift_in s in
     bindr (GET_INPUT unbase64 2 s) (\<lambda>(ok, s). if \<not> ok then Inr (False, s) else
     let s = shift_in s in
     bindr (GET_INPUT unbase64 1 s) (\<lambda>(ok, s). if \<not> ok then Inr (False, s) else
     Inr (True, shift_in s)))))"

definition byte_of :: "32 word \<Rightarrow> char" where
  "byte_of w = char_of (unat w)"

text \<open>Three bytes written from \<open>temp\<close>, \<open>None\<close> when they do not fit.\<close>

definition write3 :: "nat \<Rightarrow> decoder \<Rightarrow> decoder option" where
  "write3 szdest s =
     (if length (dest_out s) + 3 > szdest then None
      else
        let b2 = byte_of (temp_bits s);
            t = drop_bit 8 (temp_bits s);
            b1 = byte_of t;
            t = drop_bit 8 t;
            b0 = byte_of t
        in Some (s\<lparr>dest_out := dest_out s @ [b0, b1, b2], temp_bits := t\<rparr>))"

text \<open>The condition of the fast path, and the value it puts into \<open>temp\<close>.\<close>

definition fast_temp :: "int list \<Rightarrow> string \<Rightarrow> 32 word" where
  "fast_temp unbase64 src =
     push_bit 18 (word_of_digit (unbase64 ! of_char (src ! 0))) OR
     push_bit 12 (word_of_digit (unbase64 ! of_char (src ! 1))) OR
     push_bit 6 (word_of_digit (unbase64 ! of_char (src ! 2))) OR
     word_of_digit (unbase64 ! of_char (src ! 3))"

definition has_null :: "string \<Rightarrow> bool" where
  "has_null src \<longleftrightarrow> src ! 0 = CHR 0x00 \<or> src ! 1 = CHR 0x00 \<or> src ! 2 = CHR 0x00"

lemma GET_INPUT_length:
  "GET_INPUT unbase64 remain s = Inr (b, s') \<Longrightarrow> length (src_left s') < length (src_left s)"
proof (induction unbase64 remain s rule: GET_INPUT.induct)
  case (1 unbase64 remain s)
  show ?case
  proof (cases "src_left s")
    case Nil
    with "1.prems" show ?thesis by simp
  next
    case (Cons c src)
    let ?s = "s\<lparr>src_left := src, cur_ch := c, cur_decode := unbase64 ! of_char c\<rparr>"
    show ?thesis
    proof (cases "cur_decode ?s < 0 \<and> ascii_isspace c \<and> length src \<ge> remain")
      case True
      then have "GET_INPUT unbase64 remain ?s = Inr (b, s')"
        using "1.prems" by (simp add: GET_INPUT.simps [of _ _ s] Cons)
      from "1.IH" [OF Cons refl _ _ this] True have "length (src_left s') < length (src_left ?s)" by simp
      then show ?thesis by (simp add: Cons)
    next
      case False
      with "1.prems" show ?thesis
        by (auto simp: GET_INPUT.simps [of _ _ s] Cons Let_def split: if_splits)
    qed
  qed
qed

declare GET_INPUT.simps [simp del]

lemma slow_quad_length:
  "slow_quad unbase64 s = Inr (b, s') \<Longrightarrow> length (src_left s') < length (src_left s)"
  unfolding slow_quad_def
  by (auto simp: shift_in_def Let_def split: if_splits dest!: GET_INPUT_length)

function decode_loop :: "int list \<Rightarrow> nat \<Rightarrow> decoder \<Rightarrow> decoder option result" where
  "decode_loop unbase64 szdest s =
     (if length (src_left s) \<ge> 4 then
        if has_null (src_left s) \<or> fast_temp unbase64 (src_left s) AND 0x80000000 \<noteq> 0 then
          let s = (if has_null (src_left s) then s
                   else s\<lparr>temp_bits := fast_temp unbase64 (src_left s)\<rparr>)
          in bindr (slow_quad unbase64 s) (\<lambda>(ok, s).
             if \<not> ok then Inr (Some s)
             else case write3 szdest s of
                 None \<Rightarrow> Inr None
               | Some s \<Rightarrow> decode_loop unbase64 szdest s)
        else
          let s = s\<lparr>src_left := drop 4 (src_left s), temp_bits := fast_temp unbase64 (src_left s)\<rparr>
          in case write3 szdest s of
               None \<Rightarrow> Inr None
             | Some s \<Rightarrow> decode_loop unbase64 szdest s
      else Inr (Some s))"
  by pat_completeness auto

lemma write3_left: "write3 szdest s = Some s' \<Longrightarrow> src_left s' = src_left s"
  by (auto simp: write3_def Let_def split: if_splits)

termination decode_loop
proof (relation "measure (\<lambda>(u, n, s). length (src_left s))")
  fix unbase64 szdest s t p b u v
  assume *: "t = (if has_null (src_left s) then s
      else s\<lparr>temp_bits := fast_temp unbase64 (src_left s)\<rparr>)" "slow_quad unbase64 t = Inr p"
    "(b, u) = p" "write3 szdest u = Some v"
  then have "length (src_left u) < length (src_left t)" using slow_quad_length [of unbase64 t b u] by simp
  with * show "((unbase64, szdest, v), unbase64, szdest, s) \<in> measure (\<lambda>(u, n, s). length (src_left s))"
    using write3_left [of szdest u v] by (auto split: if_splits)
qed (auto dest: write3_left)

declare decode_loop.simps [simp del]

text \<open>The loop over the characters that are left, one at a time.\<close>

fun tail_loop :: "int list \<Rightarrow> nat \<Rightarrow> string \<Rightarrow> decoder \<Rightarrow> decoder option" where
  "tail_loop unbase64 szdest [] s = Some (s\<lparr>src_left := []\<rparr>)"
| "tail_loop unbase64 szdest (c # src) s =
     (let s = s\<lparr>cur_ch := c, cur_decode := unbase64 ! of_char c\<rparr>
      in if cur_decode s < 0 then
           if ascii_isspace c then tail_loop unbase64 szdest src s
           else if is_pad c then Some (s\<lparr>src_left := c # src\<rparr>)
           else None
         else
           let s = shift_in s;
               s = s\<lparr>dec_state := dec_state s + 1\<rparr>
           in if dec_state s = 4 then
                case write3 szdest s of
                  None \<Rightarrow> None
                | Some s \<Rightarrow> tail_loop unbase64 szdest src (s\<lparr>dec_state := 0, temp_bits := 0\<rparr>)
              else tail_loop unbase64 szdest src s)"

text \<open>The leftover bits: the output and the number of pad characters that may follow.\<close>

definition leftover :: "nat \<Rightarrow> decoder \<Rightarrow> (string \<times> nat) option result" where
  "leftover szdest s =
     (if dec_state s = 0 then Inr (Some (dest_out s, 0))
      else if dec_state s = 1 then Inr None
      else if dec_state s = 2 then
        if length (dest_out s) + 1 > szdest then Inr None
        else Inr (Some (dest_out s @ [byte_of (drop_bit 4 (temp_bits s))], 2))
      else if dec_state s = 3 then
        if length (dest_out s) + 2 > szdest then Inr None
        else
          let t = drop_bit 2 (temp_bits s);
              b1 = byte_of t;
              b0 = byte_of (drop_bit 8 t)
          in Inr (Some (dest_out s @ [b0, b1], 1))
      else Inl (Raw_check_failed ''This can't happen''))"

fun count_equals :: "string \<Rightarrow> nat \<Rightarrow> nat option" where
  "count_equals [] equals = Some equals"
| "count_equals (c # src) equals =
     (if is_pad c then count_equals src (equals + 1)
      else if \<not> ascii_isspace c then None
      else count_equals src equals)"

text \<open>What follows the main loop.\<close>

definition decode_end :: "int list \<Rightarrow> nat \<Rightarrow> decoder \<Rightarrow> string option result" where
  "decode_end unbase64 szdest s =
     (if cur_decode s < 0 \<and> \<not> is_pad (cur_ch s) \<and> \<not> ascii_isspace (cur_ch s) then Inr None
      else
        case (if is_pad (cur_ch s) then Some (s\<lparr>src_left := cur_ch s # src_left s\<rparr>)
              else tail_loop unbase64 szdest (src_left s) s) of
          None \<Rightarrow> Inr None
        | Some s \<Rightarrow>
            bindr (leftover szdest s) (\<lambda>r. case r of
              None \<Rightarrow> Inr None
            | Some (dest, expected_equals) \<Rightarrow>
                Inr (case count_equals (src_left s) 0 of
                  None \<Rightarrow> None
                | Some equals \<Rightarrow>
                    if equals = 0 \<or> equals = expected_equals then Some dest else None)))"

definition decode_from :: "int list \<Rightarrow> nat \<Rightarrow> decoder \<Rightarrow> string option result" where
  "decode_from unbase64 szdest s =
     bindr (decode_loop unbase64 szdest s) (\<lambda>r. case r of
       None \<Rightarrow> Inr None
     | Some s \<Rightarrow> decode_end unbase64 szdest s)"

definition Base64UnescapeInternal :: "string \<Rightarrow> nat \<Rightarrow> int list \<Rightarrow> string option result" where
  "Base64UnescapeInternal src szdest unbase64 =
     decode_from unbase64 szdest
       \<lparr>src_left = src, dest_out = [], temp_bits = 0, cur_ch = CHR 0x00, cur_decode = 0, dec_state = 0\<rparr>"

definition Base64Unescape_String :: "string \<Rightarrow> int list \<Rightarrow> string option result" where
  "Base64Unescape_String src unbase64 =
     (let dest_len = 3 * (length src div 4) + length src mod 4
      in bindr (Base64UnescapeInternal src dest_len unbase64) (\<lambda>r. case r of
           None \<Rightarrow> Inr None
         | Some dest \<Rightarrow> if length dest \<le> dest_len then Inr (Some dest) else Inl Assertion_failed))"

definition Base64Unescape :: "string \<Rightarrow> string option result" where
  "Base64Unescape src = Base64Unescape_String src kUnBase64"

definition WebSafeBase64Unescape :: "string \<Rightarrow> string option result" where
  "WebSafeBase64Unescape src = Base64Unescape_String src kUnWebSafeBase64"

section \<open>What the encoder writes\<close>

text \<open>The encoding of the standard, by recursion over groups of three bytes.\<close>

definition sextet :: "string \<Rightarrow> nat \<Rightarrow> char" where
  "sextet base64 n = base64 ! (n mod 64)"

fun base64_spec :: "string \<Rightarrow> bool \<Rightarrow> string \<Rightarrow> string" where
  "base64_spec base64 pad [] = []"
| "base64_spec base64 pad [a] =
     (let n = of_char a in [sextet base64 (n div 4), sextet base64 (n * 16)] @ (if pad then ''=='' else []))"
| "base64_spec base64 pad [a, b] =
     (let n = of_char a * 256 + of_char b
      in [sextet base64 (n div 1024), sextet base64 (n div 16), sextet base64 (n * 4)] @ (if pad then ''='' else []))"
| "base64_spec base64 pad (a # b # c # src) =
     (let n = of_char a * 65536 + of_char b * 256 + of_char c
      in [sextet base64 (n div 262144), sextet base64 (n div 4096), sextet base64 (n div 64), sextet base64 n] @
         base64_spec base64 pad src)"

lemma byte_less: "(of_char (c :: char) :: nat) < 256"
  by (rule of_char_less)

lemma unat_byte32: "unat (byte32 c) = of_char c"
proof -
  have "take_bit 32 (of_char c :: nat) = of_char c"
    by (rule take_bit_nat_eq_self [OF less_trans [OF of_char_less]]) simp
  then show ?thesis by (simp only: byte32_def unsigned_of_nat) simp
qed

lemma unat_word_of_nat_less: "n < 4294967296 \<Longrightarrow> unat (word_of_nat n :: 32 word) = n"
  by (simp add: unsigned_of_nat take_bit_nat_eq_self)

lemma Load_eq:
  "Load16 a b = word_of_nat (of_char a * 256 + of_char b)"
  "push_bit 16 (byte32 a) + Load16 b c = word_of_nat (of_char a * 65536 + of_char b * 256 + of_char c)"
  "Load32 a b c d = word_of_nat (of_char a * 16777216 + of_char b * 65536 + of_char c * 256 + of_char d)"
  by (simp_all add: Load16_def Load32_def byte32_def push_bit_eq_mult)

lemma unat_drop: "unat (drop_bit n w :: 32 word) = unat w div 2 ^ n"
proof -
  have "take_bit LENGTH(32) (unat w) = unat w"
    using unsigned_less [of w, where ?'a = nat] by (simp add: take_bit_nat_eq_self)
  then show ?thesis by (simp only: unsigned_drop_bit_eq) (simp only: drop_bit_eq_div)
qed

lemma unat_and_mask: "unat (w AND mask n :: 32 word) = unat w mod 2 ^ n"
  by (simp only: take_bit_eq_mask [symmetric] unsigned_take_bit_eq) (simp only: take_bit_eq_mod)

lemma masks:
  "(0x3FFFF :: 32 word) = mask 18" "(0xFFF :: 32 word) = mask 12" "(0x3FF :: 32 word) = mask 10"
  "(0x3F :: 32 word) = mask 6" "(0xF :: 32 word) = mask 4" "(0x3 :: 32 word) = mask 2"
  by (simp_all add: mask_eq_exp_minus_1)

lemma mod_div_mod: "0 < a \<Longrightarrow> (n :: nat) mod (a * b) div a = n div a mod b"
  by (simp add: mod_mult2_eq)

lemma quad_eq:
  assumes "n < 16777216"
  shows "quad base64 (word_of_nat n) = [sextet base64 (n div 262144), sextet base64 (n div 4096),
    sextet base64 (n div 64), sextet base64 n]"
proof -
  have n: "unat (word_of_nat n :: 32 word) = n" using assms by (intro unat_word_of_nat_less) simp
  have "n div 262144 mod 64 = n div 262144"
    using assms by (simp add: less_mult_imp_div_less)
  moreover have "n mod 262144 div 4096 = n div 4096 mod 64" using mod_div_mod [of 4096 n 64] by simp
  moreover have "n mod 262144 mod 4096 div 64 = n div 64 mod 64"
    using mod_div_mod [of 64 n 64] by (simp add: mod_mod_cancel)
  moreover have "n mod 262144 mod 4096 mod 64 = n mod 64" by (simp add: mod_mod_cancel)
  ultimately show ?thesis
    unfolding quad_def Let_def masks unat_drop unat_and_mask n sextet_def by simp
qed

lemma nat_of_bytes:
  "x < 256 \<Longrightarrow> y < 256 \<Longrightarrow> x * 256 + y < (65536 :: nat)"
  "x < 65536 \<Longrightarrow> y < 256 \<Longrightarrow> x * 256 + y < (16777216 :: nat)"
  "x < 16777216 \<Longrightarrow> y < 256 \<Longrightarrow> 256 * x + y < (4294967296 :: nat)"
  by linarith+

lemma two_bytes: "(of_char (a :: char) :: nat) * 256 + of_char (b :: char) < 65536"
  by (rule nat_of_bytes(1) [OF of_char_less of_char_less])

lemma three_bytes: "(of_char (a :: char) :: nat) * 65536 + of_char (b :: char) * 256 + of_char (c :: char) < 16777216"
  using nat_of_bytes(2) [OF two_bytes of_char_less, of a b c] by (simp add: algebra_simps)

lemma load24: "drop_bit 8 (Load32 a b c d) = word_of_nat (of_char a * 65536 + of_char b * 256 + of_char c)"
proof (rule unsigned_word_eqI [where 'a = nat])
  let ?n = "of_char a * 65536 + of_char b * 256 + of_char c :: nat"
  have "Load32 a b c d = word_of_nat (256 * ?n + of_char d)" by (simp add: Load_eq algebra_simps)
  moreover have "unat (word_of_nat (256 * ?n + of_char d) :: 32 word) = 256 * ?n + of_char d"
    by (rule unat_word_of_nat_less) (rule nat_of_bytes(3) [OF three_bytes of_char_less])
  moreover have "(256 * n + y) div 256 = n" if "y < 256" for n y :: nat using that by simp
  note this [OF of_char_less, of ?n d]
  moreover have "unat (word_of_nat ?n :: 32 word) = ?n"
    using three_bytes [of a b c] by (intro unat_word_of_nat_less) linarith
  ultimately show "unat (drop_bit 8 (Load32 a b c d)) = unat (word_of_nat ?n :: 32 word)"
    by (simp only: unat_drop) simp
qed

lemma Base64Escape_loop_eq:
  "\<exists>t out. Base64Escape_loop base64 src dest = (t, dest @ out) \<and>
     base64_spec base64 pad src = out @ base64_spec base64 pad t \<and> length t \<le> 3"
proof (induction base64 src dest rule: Base64Escape_loop.induct)
  case (1 base64 a b c d src dest)
  let ?q = "quad base64 (drop_bit 8 (Load32 a b c d))"
  from 1 obtain t out where IH: "Base64Escape_loop base64 (d # src) (dest @ ?q) = (t, (dest @ ?q) @ out)"
    "base64_spec base64 pad (d # src) = out @ base64_spec base64 pad t" "length t \<le> 3" by blast
  have spec: "base64_spec base64 pad (a # b # c # d # src) = ?q @ base64_spec base64 pad (d # src)"
    using quad_eq [OF three_bytes [of a b c], of base64] by (simp add: load24 Let_def)
  show ?case
    by (rule exI [of _ t], rule exI [of _ "?q @ out"])
      (use IH spec in \<open>simp del: base64_spec.simps\<close>)
qed auto

lemma length_base64_spec:
  "length (base64_spec base64 pad src) =
     length src div 3 * 4 +
     (if length src mod 3 = 0 then 0 else if length src mod 3 = 1 then (if pad then 4 else 2)
      else if pad then 4 else 3)"
proof (induction base64 pad src rule: base64_spec.induct)
  case (4 base64 pad a b c src)
  have "length (a # b # c # src) div 3 = length src div 3 + 1" "length (a # b # c # src) mod 3 = length src mod 3"
    using div_add_self2 [of 3 "length src"] by simp_all
  with 4 show ?case by (simp add: Let_def)
qed (simp_all add: Let_def)

lemma tail_chars:
  "base64 ! unat (drop_bit 2 (byte32 a)) = sextet base64 (of_char a div 4)"
  "base64 ! unat (push_bit 4 (byte32 a AND 0x3)) = sextet base64 (of_char a * 16)"
  "base64 ! unat (drop_bit 10 (Load16 a b)) = sextet base64 ((of_char a * 256 + of_char b) div 1024)"
  "base64 ! unat (drop_bit 4 (Load16 a b AND 0x3FF)) = sextet base64 ((of_char a * 256 + of_char b) div 16)"
  "base64 ! unat (push_bit 2 ((Load16 a b AND 0x3FF) AND 0xF)) = sextet base64 ((of_char a * 256 + of_char b) * 4)"
proof -
  have push: "unat (push_bit k w :: 32 word) = m mod 64" if "unat w * 2 ^ k = m mod 64" for k w m
  proof -
    have "push_bit k w = word_of_nat (unat w * 2 ^ k)" by (simp add: push_bit_eq_mult)
    moreover have "m mod 64 < 4294967296" by (rule less_trans [of _ 64]) simp_all
    ultimately show ?thesis using that by (simp only: unat_word_of_nat_less)
  qed
  let ?n = "of_char a * 256 + of_char b :: nat"
  have n: "?n < 65536" by (rule two_bytes)
  have w: "unat (Load16 a b) = ?n"
    unfolding Load_eq by (rule unat_word_of_nat_less) (use n in linarith)
  have "of_char a < (64 * 4 :: nat)" using of_char_less [of a] by simp
  then have "of_char a div 4 < (64 :: nat)" by (rule less_mult_imp_div_less)
  then show "base64 ! unat (drop_bit 2 (byte32 a)) = sextet base64 (of_char a div 4)"
    by (simp add: unat_drop unat_byte32 sextet_def)
  have "unat (byte32 a AND 0x3) * 2 ^ 4 = of_char a * 16 mod 64"
    unfolding masks unat_and_mask unat_byte32 using mult_mod_left [of "of_char a" 4 16] by simp
  then show "base64 ! unat (push_bit 4 (byte32 a AND 0x3)) = sextet base64 (of_char a * 16)"
    by (simp only: push sextet_def)
  have "?n div 1024 < 64" using n by (simp add: less_mult_imp_div_less)
  then show "base64 ! unat (drop_bit 10 (Load16 a b)) = sextet base64 (?n div 1024)"
    by (simp add: unat_drop w sextet_def)
  have "?n mod 1024 div 16 = ?n div 16 mod 64" using mod_div_mod [of 16 ?n 64] by simp
  then show "base64 ! unat (drop_bit 4 (Load16 a b AND 0x3FF)) = sextet base64 (?n div 16)"
    unfolding masks unat_drop unat_and_mask w sextet_def by simp
  have "m mod 1024 mod 16 * 2 ^ 2 = m * 4 mod 64" for m :: nat
    using mult_mod_left [of m 16 4] by (simp add: mod_mod_cancel)
  then have "unat ((Load16 a b AND 0x3FF) AND 0xF) * 2 ^ 2 = ?n * 4 mod 64"
    unfolding masks unat_and_mask w power_one_right by (simp only: power2_eq_square) simp
  then show "base64 ! unat (push_bit 2 ((Load16 a b AND 0x3FF) AND 0xF)) = sextet base64 (?n * 4)"
    by (simp only: push sextet_def)
qed

lemma Base64Escape_String_eq: "Base64Escape_String src pad base64 = Inr (base64_spec base64 pad src)"
proof -
  let ?n = "length (base64_spec base64 pad src)"
  have calc: "CalculateBase64EscapedLenInternal (length src) pad = Inr ?n"
  proof -
    have "length src = length src div 3 * 3 + length src mod 3" by simp
    then have "length src \<le> ?n" unfolding length_base64_spec by (auto split: if_splits)
    then show ?thesis
      by (auto simp: CalculateBase64EscapedLenInternal_def length_base64_spec Let_def)
  qed
  have fits: "\<not> length src * 4 > ?n * 3"
  proof -
    define q r where "q = length src div 3" and "r = length src mod 3"
    have "length src = 3 * q + r" "r < 3" by (simp_all add: q_def r_def)
    then show ?thesis
      unfolding length_base64_spec q_def [symmetric] r_def [symmetric] by (auto split: if_splits)
  qed
  obtain t out where loop: "Base64Escape_loop base64 src [] = (t, out)"
    "base64_spec base64 pad src = out @ base64_spec base64 pad t" "length t \<le> 3"
    using Base64Escape_loop_eq [of base64 src "[]" pad] by auto
  consider "t = []" | a where "t = [a]" | a b where "t = [a, b]" | a b c where "t = [a, b, c]"
    using loop(3) by (cases t rule: base64_spec.cases [of "(x, y, t)" for x y]) (auto)
  then have "Base64EscapeInternal src ?n base64 pad = Inr (Some (base64_spec base64 pad src))"
  proof cases
    case 2
    have "Base64EscapeInternal src ?n base64 pad = Inr (Some (out @ base64_spec base64 pad [a]))"
      by (simp only: Base64EscapeInternal_def loop(1) 2 Let_def prod.case list.case tail_chars)
        (use fits loop(2) 2 in \<open>cases pad; simp add: Let_def\<close>)
    then show ?thesis using loop(2) 2 by simp
  next
    case 3
    have "Base64EscapeInternal src ?n base64 pad = Inr (Some (out @ base64_spec base64 pad [a, b]))"
      by (simp only: Base64EscapeInternal_def loop(1) 3 Let_def prod.case list.case tail_chars)
        (use fits loop(2) 3 in \<open>cases pad; simp add: Let_def\<close>)
    then show ?thesis using loop(2) 3 by simp
  next
    case 4
    then show ?thesis
      using fits loop quad_eq [OF three_bytes [of a b c], of base64]
      unfolding Load_eq(2) [symmetric] by (simp add: Base64EscapeInternal_def Let_def)
  qed (use fits loop in \<open>simp add: Base64EscapeInternal_def\<close>)
  then show ?thesis by (simp add: Base64Escape_String_def calc)
qed

section \<open>Reading back\<close>

text \<open>The bits of a digit go below the bits that are shifted up.\<close>

lemma push_and:
  assumes "m < 2 ^ k"
  shows "push_bit k (word_of_nat v) AND word_of_nat m = (0 :: 32 word)"
proof (rule bit_word_eqI)
  fix i
  have "\<not> bit m i" if "k \<le> i"
  proof -
    have "m = take_bit k m" using assms by (simp add: take_bit_nat_eq_self)
    then have "bit m i = bit (take_bit k m) i" by simp
    then show ?thesis using that by (simp add: bit_take_bit_iff)
  qed
  then show "bit (push_bit k (word_of_nat v) AND word_of_nat m :: 32 word) i = bit (0 :: 32 word) i"
    by (auto simp: bit_and_iff bit_push_bit_iff bit_of_nat_iff not_le)
qed

lemma push_or:
  assumes "m < 2 ^ k"
  shows "push_bit k (word_of_nat v) OR word_of_nat m = (word_of_nat (v * 2 ^ k + m) :: 32 word)"
proof -
  have "push_bit k (word_of_nat v) OR word_of_nat m = push_bit k (word_of_nat v) + (word_of_nat m :: 32 word)"
    using push_and [OF assms] by (simp add: disjunctive_add_eq_or)
  then show ?thesis by (simp add: push_bit_eq_mult)
qed

lemma byte_of_word: "n < 4294967296 \<Longrightarrow> byte_of (word_of_nat n) = char_of n"
  by (simp only: byte_of_def unat_word_of_nat_less)

lemma drop_word: "n < 4294967296 \<Longrightarrow> drop_bit k (word_of_nat n :: 32 word) = word_of_nat (n div 2 ^ k)"
proof (rule unsigned_word_eqI [where 'a = nat])
  assume n: "n < 4294967296"
  moreover have "n div 2 ^ k < 4294967296" using n by (rule le_less_trans [OF div_le_dividend])
  ultimately show "unat (drop_bit k (word_of_nat n :: 32 word)) = unat (word_of_nat (n div 2 ^ k) :: 32 word)"
    by (simp only: unat_drop unat_word_of_nat_less)
qed

lemma char_of_low: "char_of (256 * n + of_char c) = c" for n :: nat
proof -
  have "char_of ((256 * n + of_char c) mod 256) = (char_of (of_char c mod 256 :: nat) :: char)" by simp
  then show ?thesis by (simp only: char_of_mod_256 char_of_char)
qed

lemma digit_sums:
  "n < 16777216 \<Longrightarrow>
     n div 262144 mod 64 * 262144 + (n div 4096 mod 64 * 4096 + (n div 64 mod 64 * 64 + n mod 64)) = n"
  "m < 65536 \<Longrightarrow> (m div 1024 mod 64 * 64 + m div 16 mod 64) * 64 + m * 4 mod 64 = m * 4"
  "k < 256 \<Longrightarrow> k div 4 mod 64 * 64 + k * 16 mod 64 = k * 16"
  for n m k :: nat
proof -
  assume n: "n < 16777216"
  have "n div 262144 mod 64 = n div 262144" using n by (simp add: less_mult_imp_div_less)
  moreover have "n div 4096 = n div 262144 * 64 + n div 4096 mod 64"
    using div_mult_mod_eq [of "n div 4096" 64] by (simp add: div_mult2_eq [symmetric])
  moreover have "n div 64 = n div 4096 * 64 + n div 64 mod 64"
    using div_mult_mod_eq [of "n div 64" 64] by (simp add: div_mult2_eq [symmetric])
  moreover have "n = n div 64 * 64 + n mod 64" by simp
  ultimately show "n div 262144 mod 64 * 262144 +
      (n div 4096 mod 64 * 4096 + (n div 64 mod 64 * 64 + n mod 64)) = n" by linarith
next
  assume m: "m < 65536"
  have "m div 1024 mod 64 = m div 1024" using m by (simp add: less_mult_imp_div_less)
  moreover have "m div 16 = m div 1024 * 64 + m div 16 mod 64"
    using div_mult_mod_eq [of "m div 16" 64] by (simp add: div_mult2_eq [symmetric])
  ultimately have "m div 1024 mod 64 * 64 + m div 16 mod 64 = m div 16" by simp
  moreover have "m * 4 mod 64 = m mod 16 * 4" using mult_mod_left [of m 16 4] by simp
  moreover have "m div 16 * 64 + m mod 16 * 4 = m * 4" using div_mult_mod_eq [of m 16] by linarith
  ultimately show "(m div 1024 mod 64 * 64 + m div 16 mod 64) * 64 + m * 4 mod 64 = m * 4"
    by (simp only:)
next
  assume k: "k < 256"
  have "k div 4 mod 64 = k div 4" using k by (simp add: less_mult_imp_div_less)
  moreover have "k = k div 4 * 4 + k mod 4" by simp
  moreover have "k * 16 mod 64 = k mod 4 * 16" using mult_mod_left [of k 4 16] by simp
  ultimately show "k div 4 mod 64 * 64 + k * 16 mod 64 = k * 16" by linarith
qed

lemma shift_sum:
  "x * 64 + y = z \<Longrightarrow> (v * 64 + x) * 64 + y = v * 4096 + z"
  "(x * 64 + y) * 64 + w = z \<Longrightarrow> ((v * 64 + x) * 64 + y) * 64 + w = v * 262144 + z" for v :: nat
  by (simp_all add: algebra_simps)

lemma top_bit_clear: "n < 16777216 \<Longrightarrow> (word_of_nat n :: 32 word) AND 0x80000000 = 0"
proof -
  assume n: "n < 16777216"
  have "(0x80000000 :: 32 word) = push_bit 31 (word_of_nat 1)" by simp
  moreover have "push_bit 31 (word_of_nat 1) AND word_of_nat n = (0 :: 32 word)"
    by (rule push_and) (use n in simp)
  ultimately show ?thesis by (simp only: and.commute)
qed

lemma word_of_digit_int: "word_of_digit (int d) = word_of_nat d"
  by (simp add: word_of_digit_def)

lemma shift_in_digit:
  assumes "temp_bits s = word_of_nat v" "cur_decode s = int d" "d < 64"
  shows "shift_in s = s\<lparr>temp_bits := word_of_nat (v * 64 + d)\<rparr>"
  using assms push_or [of d 6 v] by (simp add: shift_in_def word_of_digit_int)

lemma write3_bytes:
  assumes "temp_bits s = word_of_nat (of_char a * 65536 + of_char b * 256 + of_char c)"
    "length (dest_out s) + 3 \<le> szdest"
  shows "write3 szdest s = Some (s\<lparr>dest_out := dest_out s @ [a, b, c], temp_bits := word_of_nat (of_char a)\<rparr>)"
proof -
  let ?n = "of_char a * 65536 + of_char b * 256 + of_char c :: nat"
  have n: "?n < 4294967296" using three_bytes [of a b c] by linarith
  have n1: "?n = 256 * (256 * of_char a + of_char b) + of_char c" by (simp add: algebra_simps)
  have divs: "(256 * x + y) div 256 = x" if "y < 256" for x y :: nat using that by simp
  have m: "256 * of_char a + of_char b < (4294967296 :: nat)" using n n1 by linarith
  have k: "of_char a < (4294967296 :: nat)" by (rule less_trans [OF of_char_less]) simp
  have eight: "(2 :: nat) ^ 8 = 256" by simp
  have d1: "drop_bit 8 (word_of_nat ?n :: 32 word) = word_of_nat (256 * of_char a + of_char b)"
    unfolding drop_word [OF n] eight unfolding n1 divs [OF of_char_less] ..
  have d2: "drop_bit 8 (word_of_nat (256 * of_char a + of_char b) :: 32 word) = word_of_nat (of_char a)"
    by (simp only: drop_word [OF m] eight divs [OF of_char_less])
  have bytes: "byte_of (word_of_nat ?n) = c" "byte_of (word_of_nat (256 * of_char a + of_char b)) = b"
    "byte_of (word_of_nat (of_char a)) = a"
    unfolding byte_of_word [OF n] byte_of_word [OF m] byte_of_word [OF k]
    unfolding n1 by (simp_all only: char_of_low char_of_char)
  show ?thesis
    unfolding write3_def Let_def assms(1) d1 d2 bytes using assms(2) by simp
qed

text \<open>Between two groups: nothing is pending but the bits of the last byte written.\<close>

definition clean :: "decoder \<Rightarrow> bool" where
  "clean s \<longleftrightarrow> dec_state s = 0 \<and> cur_decode s = 0 \<and> cur_ch s = CHR 0x00 \<and> unat (temp_bits s) < 256"

lemma clean_temp:
  assumes "clean s"
  obtains v where "temp_bits s = word_of_nat v" "v < 256"
  using assms that [of "unat (temp_bits s)"] by (auto simp: clean_def)

lemma no_pad: "\<not> is_pad (CHR 0x00)"
  by (simp add: is_pad_def)

lemma decode_two:
  "dec_state s = 2 \<Longrightarrow> temp_bits s = word_of_nat (v * 4096 + of_char a * 16) \<Longrightarrow> v < 256 \<Longrightarrow>
   length (dest_out s) < szdest \<Longrightarrow> leftover szdest s = Inr (Some (dest_out s @ [a], 2))"
proof -
  assume s: "dec_state s = 2" "temp_bits s = word_of_nat (v * 4096 + of_char a * 16)" "v < 256"
    "length (dest_out s) < szdest"
  have a: "of_char a < (256 :: nat)" by (rule of_char_less)
  have less: "v * 4096 + of_char a * 16 < 4294967296" using s(3) a by linarith
  have e: "(v * 4096 + x * 16) div 2 ^ 4 = 256 * v + x" for x :: nat by simp
  have "256 * v + of_char a < 4294967296" using s(3) a by linarith
  then have "byte_of (drop_bit 4 (temp_bits s)) = a"
    by (simp only: s(2) drop_word [OF less] e byte_of_word char_of_low)
  with s(1,4) show ?thesis by (simp add: leftover_def)
qed

lemma decode_three:
  "dec_state s = 3 \<Longrightarrow> temp_bits s = word_of_nat (v * 262144 + (of_char a * 256 + of_char b) * 4) \<Longrightarrow> v < 256 \<Longrightarrow>
   length (dest_out s) + 1 < szdest \<Longrightarrow> leftover szdest s = Inr (Some (dest_out s @ [a, b], 1))"
proof -
  assume s: "dec_state s = 3" "temp_bits s = word_of_nat (v * 262144 + (of_char a * 256 + of_char b) * 4)"
    "v < 256" "length (dest_out s) + 1 < szdest"
  have a: "of_char a < (256 :: nat)" and b: "of_char b < (256 :: nat)" by (rule of_char_less)+
  have "v * 262144 + x * 4 < 4294967296" if "x < 65536" for x using s(3) that by linarith
  note less = this [OF two_bytes [of a b]]
  have e: "(v * 262144 + (x * 256 + y) * 4) div 2 ^ 2 = 256 * (256 * v + x) + y" for x y :: nat by simp
  have "256 * v + of_char a < 16777216" using s(3) a by linarith
  note less2 = nat_of_bytes(3) [OF this b]
  have less3: "256 * v + of_char a < 4294967296" using s(3) a by linarith
  have e2: "(256 * x + y) div 2 ^ 8 = x" if "y < 256" for x y :: nat using that by simp
  have "byte_of (drop_bit 2 (temp_bits s)) = b" "byte_of (drop_bit 8 (drop_bit 2 (temp_bits s))) = a"
    unfolding s(2) drop_word [OF less] e byte_of_word [OF less2] char_of_low drop_word [OF less2] e2 [OF b]
      byte_of_word [OF less3] by (rule refl)+
  with s(1,4) show ?thesis by (simp add: leftover_def Let_def)
qed

text \<open>An alphabet and the table that inverts it.\<close>

locale base64_alphabet =
  fixes chars :: string and un :: "int list"
  assumes un_chars: "n < 64 \<Longrightarrow> un ! of_char (chars ! n) = int n"
    and un_null: "un ! 0 = - 1"
    and un_pad: "un ! of_char (CHR ''='') = - 1"
begin

lemma un_sextet: "un ! of_char (sextet chars n) = int (n mod 64)"
  by (simp only: sextet_def un_chars mod_less_divisor zero_less_numeral)

lemma sextet_nonnull: "sextet chars n \<noteq> CHR 0x00"
proof
  assume "sextet chars n = CHR 0x00"
  with un_sextet [of n] un_null show False by simp
qed

lemma fast_temp_quad:
  assumes "n < 16777216"
  shows "fast_temp un (sextet chars (n div 262144) # sextet chars (n div 4096) # sextet chars (n div 64) #
    sextet chars n # src) = word_of_nat n"
proof -
  have powers: "(2 :: nat) ^ 18 = 262144" "(2 :: nat) ^ 12 = 4096" "(2 :: nat) ^ 6 = 64" by simp_all
  let ?d1 = "n div 4096 mod 64" and ?d2 = "n div 64 mod 64" and ?d3 = "n mod 64"
  have less: "?d1 < 64" "?d2 < 64" "?d3 < 64" by simp_all
  have "?d2 * 2 ^ 6 + ?d3 < 2 ^ 12" "?d1 * 2 ^ 12 + (?d2 * 2 ^ 6 + ?d3) < 2 ^ 18" using less by simp_all
  moreover have "?d3 < 2 ^ 6" using less by simp
  ultimately have "fast_temp un (sextet chars (n div 262144) # sextet chars (n div 4096) # sextet chars (n div 64) #
    sextet chars n # src) = word_of_nat (n div 262144 mod 64 * 2 ^ 18 + (?d1 * 2 ^ 12 + (?d2 * 2 ^ 6 + ?d3)))"
    by (simp only: fast_temp_def nth_Cons_0 nth_Cons_numeral nth_Cons_Suc un_sextet word_of_digit_int push_or
        numeral_2_eq_2 numeral_3_eq_3 One_nat_def)
  moreover have "n div 262144 mod 64 * 2 ^ 18 + (?d1 * 2 ^ 12 + (?d2 * 2 ^ 6 + ?d3)) = n"
    unfolding powers by (rule digit_sums(1) [OF assms])
  ultimately show ?thesis by (simp only:)
qed

lemma GET_INPUT_digit:
  "src_left s = sextet chars n # src \<Longrightarrow>
   GET_INPUT un remain s = Inr (True, s\<lparr>src_left := src, cur_ch := sextet chars n, cur_decode := int (n mod 64)\<rparr>)"
  by (simp add: GET_INPUT.simps un_sextet Let_def del: of_nat_mod)

lemma GET_INPUT_pad:
  "src_left s = CHR ''='' # src \<Longrightarrow>
   GET_INPUT un remain s =
     Inr (False, s\<lparr>src_left := src, cur_ch := CHR ''='', cur_decode := - 1, dec_state := 4 - remain\<rparr>)"
proof -
  have "\<not> ascii_isspace (CHR ''='')" by code_simp
  then show "src_left s = CHR ''='' # src \<Longrightarrow> ?thesis"
    using un_pad by (simp add: GET_INPUT.simps Let_def)
qed

lemma fast_temp_pad: "src ! 3 = CHR ''='' \<Longrightarrow> fast_temp un src AND 0x80000000 \<noteq> 0"
  using un_pad by (simp add: fast_temp_def word_of_digit_def)

lemma slow_quad_pad:
  "src_left s = sextet chars n # sextet chars m # CHR ''='' # src \<Longrightarrow>
   slow_quad un s = Inr (False, s\<lparr>temp_bits := word_of_nat (n mod 64 * 64 + m mod 64), src_left := src,
     cur_ch := CHR ''='', cur_decode := - 1, dec_state := 2\<rparr>)"
  "src_left s = sextet chars n # sextet chars m # sextet chars k # CHR ''='' # src \<Longrightarrow>
   slow_quad un s = Inr (False, s\<lparr>temp_bits := word_of_nat ((n mod 64 * 64 + m mod 64) * 64 + k mod 64),
     src_left := src, cur_ch := CHR ''='', cur_decode := - 1, dec_state := 3\<rparr>)"
  by (simp_all add: slow_quad_def GET_INPUT_digit GET_INPUT_pad shift_in_digit word_of_digit_int
      del: of_nat_add of_nat_mult)

lemma tail_digit:
  assumes "temp_bits s = word_of_nat v" "dec_state s < 3"
  shows "tail_loop un szdest (sextet chars n # src) s = tail_loop un szdest src
    (s\<lparr>temp_bits := word_of_nat (v * 64 + n mod 64), cur_ch := sextet chars n, cur_decode := int (n mod 64),
       dec_state := Suc (dec_state s)\<rparr>)"
proof -
  have "shift_in (s\<lparr>cur_ch := sextet chars n, cur_decode := int (n mod 64)\<rparr>) =
      s\<lparr>cur_ch := sextet chars n, cur_decode := int (n mod 64), temp_bits := word_of_nat (v * 64 + n mod 64)\<rparr>"
    by (rule shift_in_digit) (use assms in simp_all)
  then show ?thesis using assms(2)
    by (cases s) (simp add: un_sextet Let_def del: of_nat_mod of_nat_add of_nat_mult)
qed

lemma tail_digits:
  assumes "temp_bits s = word_of_nat v" "dec_state s = 0"
  shows "tail_loop un szdest [sextet chars n, sextet chars m] s =
      Some (s\<lparr>temp_bits := word_of_nat ((v * 64 + n mod 64) * 64 + m mod 64), src_left := [],
        cur_ch := sextet chars m, cur_decode := int (m mod 64), dec_state := 2\<rparr>)"
    "tail_loop un szdest [sextet chars n, sextet chars m, sextet chars k] s =
      Some (s\<lparr>temp_bits := word_of_nat (((v * 64 + n mod 64) * 64 + m mod 64) * 64 + k mod 64), src_left := [],
        cur_ch := sextet chars k, cur_decode := int (k mod 64), dec_state := 3\<rparr>)"
  using assms
  by (cases s; simp add: tail_digit del: tail_loop.simps(2) of_nat_mod of_nat_add of_nat_mult)+

lemma decode_last1:
  assumes "clean s" "src_left s = base64_spec chars pad [a]" "length (dest_out s) < szdest"
  shows "decode_from un szdest s = Inr (Some (dest_out s @ [a]))"
proof (cases pad)
  case True
  let ?t = "s\<lparr>temp_bits := word_of_nat (of_char a * 16), src_left := ''='', cur_ch := CHR ''='',
    cur_decode := - 1, dec_state := 2\<rparr>"
  have src: "src_left s = [sextet chars (of_char a div 4), sextet chars (of_char a * 16), CHR ''='', CHR ''='']"
    using assms(2) True by (simp add: Let_def)
  have "slow_quad un (s\<lparr>temp_bits := w\<rparr>) = Inr (False, ?t)" for w
    by (subst slow_quad_pad(1) [OF trans [OF _ src]])
      (simp_all only: digit_sums(3) [OF of_char_less] decoder.simps, simp_all)
  then have "decode_loop un szdest s = Inr (Some ?t)"
    using fast_temp_pad [of "src_left s"]
    by (subst decode_loop.simps) (simp add: src has_null_def sextet_nonnull Let_def)
  moreover have "leftover szdest (?t\<lparr>src_left := ''==''\<rparr>) = Inr (Some (dest_out s @ [a], 2))"
    by (rule decode_two [where v = 0, THEN trans]) (use assms(3) in simp_all)
  ultimately show ?thesis by (simp add: decode_from_def decode_end_def is_pad_def)
next
  case False
  from assms(1) obtain v where v: "temp_bits s = word_of_nat v" "v < 256" by (rule clean_temp)
  have src: "src_left s = [sextet chars (of_char a div 4), sextet chars (of_char a * 16)]"
    using assms(2) False by (simp add: Let_def)
  have sum: "(v * 64 + of_char a div 4 mod 64) * 64 + of_char a * 16 mod 64 = v * 4096 + of_char a * 16"
    by (rule shift_sum(1) [OF digit_sums(3) [OF of_char_less]])
  have state: "dec_state s = 0" using assms(1) by (simp add: clean_def)
  have t: "tail_loop un szdest (src_left s) s =
      Some (s\<lparr>temp_bits := word_of_nat (v * 4096 + of_char a * 16), src_left := [],
        cur_ch := sextet chars (of_char a * 16), cur_decode := int (of_char a * 16 mod 64), dec_state := 2\<rparr>)"
    (is "_ = Some ?t")
    unfolding src tail_digits(1) [OF v(1) state] sum ..
  have "decode_loop un szdest s = Inr (Some s)"
    by (subst decode_loop.simps) (simp add: src)
  moreover have "leftover szdest ?t = Inr (Some (dest_out s @ [a], 2))"
    by (rule decode_two [where v = v, THEN trans]) (use assms(3) v in simp_all)
  ultimately show ?thesis
    using assms(1) t by (simp add: decode_from_def decode_end_def no_pad clean_def)
qed

lemma decode_last2:
  assumes "clean s" "src_left s = base64_spec chars pad [a, b]" "length (dest_out s) + 1 < szdest"
  shows "decode_from un szdest s = Inr (Some (dest_out s @ [a, b]))"
proof (cases pad)
  let ?n = "of_char a * 256 + of_char b :: nat"
  case True
  let ?t = "s\<lparr>temp_bits := word_of_nat (?n * 4), src_left := [], cur_ch := CHR ''='',
    cur_decode := - 1, dec_state := 3\<rparr>"
  have src: "src_left s = [sextet chars (?n div 1024), sextet chars (?n div 16), sextet chars (?n * 4), CHR ''='']"
    using assms(2) True by (simp only: base64_spec.simps Let_def) simp
  have "slow_quad un (s\<lparr>temp_bits := w\<rparr>) = Inr (False, ?t)" for w
    by (subst slow_quad_pad(2) [OF trans [OF _ src]])
      (simp_all only: digit_sums(2) [OF two_bytes] decoder.simps, simp_all)
  then have "decode_loop un szdest s = Inr (Some ?t)"
    using fast_temp_pad [of "src_left s"]
    by (subst decode_loop.simps) (simp add: src has_null_def sextet_nonnull Let_def)
  moreover have "leftover szdest (?t\<lparr>src_left := ''=''\<rparr>) = Inr (Some (dest_out s @ [a, b], 1))"
    by (rule decode_three [where v = 0, THEN trans]) (use assms(3) in simp_all)
  ultimately show ?thesis by (simp add: decode_from_def decode_end_def is_pad_def)
next
  let ?n = "of_char a * 256 + of_char b :: nat"
  case False
  from assms(1) obtain v where v: "temp_bits s = word_of_nat v" "v < 256" by (rule clean_temp)
  have src: "src_left s = [sextet chars (?n div 1024), sextet chars (?n div 16), sextet chars (?n * 4)]"
    using assms(2) False by (simp only: base64_spec.simps Let_def) simp
  have sum: "((v * 64 + ?n div 1024 mod 64) * 64 + ?n div 16 mod 64) * 64 + ?n * 4 mod 64 = v * 262144 + ?n * 4"
    by (rule shift_sum(2) [OF digit_sums(2) [OF two_bytes]])
  have state: "dec_state s = 0" using assms(1) by (simp add: clean_def)
  have t: "tail_loop un szdest (src_left s) s =
      Some (s\<lparr>temp_bits := word_of_nat (v * 262144 + ?n * 4), src_left := [],
        cur_ch := sextet chars (?n * 4), cur_decode := int (?n * 4 mod 64), dec_state := 3\<rparr>)"
    (is "_ = Some ?t")
    unfolding src tail_digits(2) [OF v(1) state] sum ..
  have "decode_loop un szdest s = Inr (Some s)"
    by (subst decode_loop.simps) (simp add: src)
  moreover have "leftover szdest ?t = Inr (Some (dest_out s @ [a, b], 1))"
    by (rule decode_three [where v = v, THEN trans]) (use assms(3) v in simp_all)
  ultimately show ?thesis
    using assms(1) t by (simp add: decode_from_def decode_end_def no_pad clean_def)
qed

lemma decode_group:
  assumes "clean s" "src_left s = base64_spec chars pad (a # b # c # src)" "length (dest_out s) + 3 \<le> szdest"
  shows "decode_from un szdest s = decode_from un szdest
    (s\<lparr>src_left := base64_spec chars pad src, dest_out := dest_out s @ [a, b, c], temp_bits := word_of_nat (of_char a)\<rparr>)"
proof -
  let ?n = "of_char a * 65536 + of_char b * 256 + of_char c :: nat"
  have src: "src_left s = sextet chars (?n div 262144) # sextet chars (?n div 4096) # sextet chars (?n div 64) #
      sextet chars ?n # base64_spec chars pad src"
    using assms(2) by (simp only: base64_spec.simps Let_def) simp
  have fast: "fast_temp un (src_left s) = word_of_nat ?n"
    unfolding src by (rule fast_temp_quad [OF three_bytes])
  let ?s = "s\<lparr>src_left := base64_spec chars pad src, temp_bits := word_of_nat ?n\<rparr>"
  have "write3 szdest ?s = Some (?s\<lparr>dest_out := dest_out ?s @ [a, b, c], temp_bits := word_of_nat (of_char a)\<rparr>)"
    by (rule write3_bytes) (use assms(3) in simp_all)
  moreover have "\<not> has_null (src_left s)" by (simp add: src has_null_def sextet_nonnull)
  moreover have "drop 4 (src_left s) = base64_spec chars pad src" "4 \<le> length (src_left s)" by (simp_all add: src)
  moreover have "s\<lparr>src_left := x, dest_out := y, temp_bits := z\<rparr> = s\<lparr>src_left := x, temp_bits := w, dest_out := y, temp_bits := z\<rparr>"
    for x y z w by simp
  ultimately have "decode_loop un szdest s = decode_loop un szdest
    (s\<lparr>src_left := base64_spec chars pad src, dest_out := dest_out s @ [a, b, c], temp_bits := word_of_nat (of_char a)\<rparr>)"
    by (subst decode_loop.simps) (simp add: fast top_bit_clear [OF three_bytes] Let_def del: of_nat_add of_nat_mult)
  then show ?thesis by (simp add: decode_from_def)
qed

lemma decode_spec:
  "clean s \<Longrightarrow> alphabet = chars \<Longrightarrow> src_left s = base64_spec alphabet pad src \<Longrightarrow>
   length (dest_out s) + length src \<le> szdest \<Longrightarrow> decode_from un szdest s = Inr (Some (dest_out s @ src))"
proof (induction alphabet pad src arbitrary: s rule: base64_spec.induct)
  case (1 alphabet pad)
  then have "decode_loop un szdest s = Inr (Some s)" by (subst decode_loop.simps) simp
  with 1 show ?case by (simp add: decode_from_def decode_end_def leftover_def no_pad clean_def)
next
  case (2 alphabet pad a)
  then show ?case using decode_last1 [of s pad a szdest] by simp
next
  case (3 alphabet pad a b)
  then show ?case using decode_last2 [of s pad a b szdest] by simp
next
  case (4 alphabet pad a b c src)
  let ?s = "s\<lparr>src_left := base64_spec chars pad src, dest_out := dest_out s @ [a, b, c],
    temp_bits := word_of_nat (of_char a)\<rparr>"
  have "unat (word_of_nat (of_char a) :: 32 word) < 256"
    using unat_byte32 [of a] of_char_less [of a] by (simp only: byte32_def)
  then have "clean ?s" using "4.prems"(1) by (simp add: clean_def)
  then have "decode_from un szdest ?s = Inr (Some (dest_out ?s @ src))"
    by (rule "4.IH" [OF refl]) (use "4.prems" in simp_all)
  moreover have "decode_from un szdest s = decode_from un szdest ?s"
    by (rule decode_group) (use "4.prems" in simp_all)
  ultimately show ?case by simp
qed

text \<open>The destination that the callers provide is long enough, so the text comes back.\<close>

lemma unescape_spec: "Base64Unescape_String (base64_spec chars pad src) un = Inr (Some src)"
proof -
  let ?e = "base64_spec chars pad src"
  let ?len = "3 * (length ?e div 4) + length ?e mod 4"
  define q r where "q = length src div 3" and "r = length src mod 3"
  have "length src = 3 * q + r" "r < 3" by (simp_all add: q_def r_def)
  moreover have "length ?e = 4 * q + (if r = 0 then 0 else if r = 1 then (if pad then 4 else 2) else if pad then 4 else 3)"
    unfolding length_base64_spec q_def [symmetric] r_def [symmetric] by simp
  ultimately have fits: "length src \<le> ?len" by (auto split: if_splits)
  have "Base64UnescapeInternal ?e ?len un = Inr (Some src)"
    unfolding Base64UnescapeInternal_def
    by (subst decode_spec [where pad = pad and alphabet = chars and src = src])
      (use fits in \<open>simp_all add: clean_def\<close>)
  with fits show ?thesis by (simp add: Base64Unescape_String_def Let_def)
qed

end

text \<open>A table inverts an alphabet when it sends each of its characters to its position.\<close>

lemma inverts_alphabet:
  assumes "map (\<lambda>n. un ! of_char (chars ! n)) [0..<64] = map int [0..<64]" "n < 64"
  shows "un ! of_char (chars ! n) = int n"
  using assms by (simp only: map_eq_conv set_upt) simp

interpretation standard: base64_alphabet kBase64Chars kUnBase64
proof
  show "kUnBase64 ! of_char (kBase64Chars ! n) = int n" if "n < 64" for n
    by (rule inverts_alphabet [OF _ that]) code_simp
  show "kUnBase64 ! 0 = - 1" "kUnBase64 ! of_char (CHR ''='') = - 1" by code_simp+
qed

interpretation web_safe: base64_alphabet kWebSafeBase64Chars kUnWebSafeBase64
proof
  show "kUnWebSafeBase64 ! of_char (kWebSafeBase64Chars ! n) = int n" if "n < 64" for n
    by (rule inverts_alphabet [OF _ that]) code_simp
  show "kUnWebSafeBase64 ! 0 = - 1" "kUnWebSafeBase64 ! of_char (CHR ''='') = - 1" by code_simp+
qed

lemma Base64_round_trip: "bindr (Base64Escape src) Base64Unescape = Inr (Some src)"
  by (simp add: Base64Escape_def Base64Unescape_def Base64Escape_String_eq standard.unescape_spec)

lemma WebSafeBase64_round_trip: "bindr (WebSafeBase64Escape src) WebSafeBase64Unescape = Inr (Some src)"
  by (simp add: WebSafeBase64Escape_def WebSafeBase64Unescape_def Base64Escape_String_eq web_safe.unescape_spec)

end
