(* ===== verification/Absl_Hex.thy ===== *)
theory Absl_Hex
  imports Absl_StrCat
begin

text \<open>
  Bytes as hexadecimal text and back, \<open>BytesToHexString\<close> and \<open>HexStringToBytes\<close> of
  \<open>escaping.cc\<close> of the vendored Abseil. The text is copied from a table, two characters for a
  byte, into a string of the size computed in advance.
\<close>

section \<open>The functions\<close>

definition kHexTable :: string where
  "kHexTable =
     ''000102030405060708090a0b0c0d0e0f'' @
     ''101112131415161718191a1b1c1d1e1f'' @
     ''202122232425262728292a2b2c2d2e2f'' @
     ''303132333435363738393a3b3c3d3e3f'' @
     ''404142434445464748494a4b4c4d4e4f'' @
     ''505152535455565758595a5b5c5d5e5f'' @
     ''606162636465666768696a6b6c6d6e6f'' @
     ''707172737475767778797a7b7c7d7e7f'' @
     ''808182838485868788898a8b8c8d8e8f'' @
     ''909192939495969798999a9b9c9d9e9f'' @
     ''a0a1a2a3a4a5a6a7a8a9aaabacadaeaf'' @
     ''b0b1b2b3b4b5b6b7b8b9babbbcbdbebf'' @
     ''c0c1c2c3c4c5c6c7c8c9cacbcccdcecf'' @
     ''d0d1d2d3d4d5d6d7d8d9dadbdcdddedf'' @
     ''e0e1e2e3e4e5e6e7e8e9eaebecedeeef'' @
     ''f0f1f2f3f4f5f6f7f8f9fafbfcfdfeff''"

definition kHexValue :: "nat list" where
  "kHexValue =
    [0, 0, 0, 0, 0, 0, 0, 0, 0, 0, 0, 0, 0, 0, 0, 0,
     0, 0, 0, 0, 0, 0, 0, 0, 0, 0, 0, 0, 0, 0, 0, 0,
     0, 0, 0, 0, 0, 0, 0, 0, 0, 0, 0, 0, 0, 0, 0, 0,
     0, 1, 2, 3, 4, 5, 6, 7, 8, 9, 0, 0, 0, 0, 0, 0,
     0, 10, 11, 12, 13, 14, 15, 0, 0, 0, 0, 0, 0, 0, 0, 0,
     0, 0, 0, 0, 0, 0, 0, 0, 0, 0, 0, 0, 0, 0, 0, 0,
     0, 10, 11, 12, 13, 14, 15, 0, 0, 0, 0, 0, 0, 0, 0, 0,
     0, 0, 0, 0, 0, 0, 0, 0, 0, 0, 0, 0, 0, 0, 0, 0,
     0, 0, 0, 0, 0, 0, 0, 0, 0, 0, 0, 0, 0, 0, 0, 0,
     0, 0, 0, 0, 0, 0, 0, 0, 0, 0, 0, 0, 0, 0, 0, 0,
     0, 0, 0, 0, 0, 0, 0, 0, 0, 0, 0, 0, 0, 0, 0, 0,
     0, 0, 0, 0, 0, 0, 0, 0, 0, 0, 0, 0, 0, 0, 0, 0,
     0, 0, 0, 0, 0, 0, 0, 0, 0, 0, 0, 0, 0, 0, 0, 0,
     0, 0, 0, 0, 0, 0, 0, 0, 0, 0, 0, 0, 0, 0, 0, 0,
     0, 0, 0, 0, 0, 0, 0, 0, 0, 0, 0, 0, 0, 0, 0, 0,
     0, 0, 0, 0, 0, 0, 0, 0, 0, 0, 0, 0, 0, 0, 0, 0]"

definition BytesToHexStringInternal :: "string \<Rightarrow> string \<Rightarrow> string result" where
  "BytesToHexStringInternal src dest =
     bindr (copy_pieces (map (\<lambda>c. take 2 (drop (of_char c * 2) kHexTable)) src) (dest, 0)) (\<lambda>(dest, dest_ptr). Inr dest)"

definition BytesToHexString :: "string \<Rightarrow> string result" where
  "BytesToHexString from = BytesToHexStringInternal from (resize_uninitialized [] (2 * length from))"

text \<open>
  The loop counts in \<open>int\<close> and computes its two indices there; an index outside the text or the
  output is undefined.
\<close>

definition mul_int :: "int \<Rightarrow> int \<Rightarrow> int result" where
  "mul_int x y = (if in_int (x * y) then Inr (x * y) else Inl (Undefined_behaviour ''signed overflow''))"

definition char_at :: "string \<Rightarrow> int \<Rightarrow> char result" where
  "char_at s i = (if 0 \<le> i \<and> i < int (length s) then Inr (s ! nat i)
     else Inl (Undefined_behaviour ''read past the end''))"

function HexStringToBytesInternal :: "string \<Rightarrow> string \<Rightarrow> int \<Rightarrow> int \<Rightarrow> string result" where
  "HexStringToBytesInternal from to num i =
     (if i < num then
        bindr (mul_int i 2) (\<lambda>j. bindr (char_at from j) (\<lambda>a.
        bindr (mul_int i 2) (\<lambda>j. bindr (add_int j 1) (\<lambda>k. bindr (char_at from k) (\<lambda>b.
          if 0 \<le> i \<and> i < int (length to) then
            let to = to[nat i := char_of (kHexValue ! of_char a * 16 + kHexValue ! of_char b)]
            in bindr (add_int i 1) (HexStringToBytesInternal from to num)
          else Inl (Undefined_behaviour ''write past the end''))))))
      else Inr to)"
  by pat_completeness auto
termination
  by (relation "measure (\<lambda>(from, to, num, i). nat (num - i))") (auto simp: add_int_def split: if_splits)

declare HexStringToBytesInternal.simps [simp del]

definition HexStringToBytes :: "string \<Rightarrow> string result" where
  "HexStringToBytes from =
     (let num = length from div 2
      in HexStringToBytesInternal from (resize_uninitialized [] num) (int num) 0)"

section \<open>The round trip\<close>

text \<open>The table holds the two digits of every byte.\<close>

definition hex2 :: "nat \<Rightarrow> string" where
  "hex2 n = [hexdigits ! (n div 16), hexdigits ! (n mod 16)]"

fun halves :: "string \<Rightarrow> string list" where
  "halves (a # b # s) = [a, b] # halves s"
| "halves s = []"

lemma halves_nth: "n < length (halves s) \<Longrightarrow> take 2 (drop (n * 2) s) = halves s ! n"
proof (induction s arbitrary: n rule: halves.induct)
  case (1 a b s)
  then show ?case by (cases n) simp_all
qed simp_all

lemma kHexTable_eq: "halves kHexTable = map hex2 [0..<256]"
  by code_simp

lemma kHexTable_byte: "take 2 (drop (of_char c * 2) kHexTable) = hex2 (of_char c)"
proof -
  have "take 2 (drop (n * 2) kHexTable) = hex2 n" if "n < 256" for n
    using that by (subst halves_nth) (simp_all only: kHexTable_eq length_map length_upt nth_map nth_upt, simp_all)
  from this [OF of_char_less] show ?thesis .
qed

lemma BytesToHexString_eq: "BytesToHexString s = Inr (concat (map (\<lambda>c. hex2 (of_char c)) s))"
proof -
  have "length (concat (map (\<lambda>c. hex2 (of_char c)) s)) = 2 * length s"
    by (induction s) (simp_all add: hex2_def)
  then show ?thesis
    using copy_pieces_eq [of "map (\<lambda>c. hex2 (of_char c)) s" "replicate (2 * length s) CHR 0x00" "[]"]
    by (simp add: BytesToHexString_def BytesToHexStringInternal_def kHexTable_byte resize_uninitialized_def)
qed

lemma kHexValue_digit: "n < 16 \<Longrightarrow> kHexValue ! of_char (hexdigits ! n) = n"
proof -
  have "map (\<lambda>n. kHexValue ! of_char (hexdigits ! n)) [0..<16] = [0..<16]" by code_simp
  then have "map (\<lambda>n. kHexValue ! of_char (hexdigits ! n)) [0..<16] ! n = [0..<16] ! n" by (rule arg_cong)
  then show "n < 16 \<Longrightarrow> ?thesis" by (simp only: nth_map length_upt nth_upt) simp
qed

text \<open>The byte that two digits of a text stand for; a step of the loop writes it.\<close>

definition byte_at :: "string \<Rightarrow> nat \<Rightarrow> char" where
  "byte_at s i = char_of (kHexValue ! of_char (s ! (i * 2)) * 16 + kHexValue ! of_char (s ! (i * 2 + 1)))"

lemma HexStringToBytes_step:
  assumes "i < num" "2 * num \<le> length s" "num \<le> length to" "i < 2 ^ 30"
  shows "HexStringToBytesInternal s to (int num) (int i) =
    HexStringToBytesInternal s (to[i := byte_at s i]) (int num) (int (Suc i))"
proof -
  have "mul_int (int i) 2 = Inr (int (i * 2))" "add_int (int (i * 2)) 1 = Inr (int (i * 2 + 1))"
    "add_int (int i) 1 = Inr (int (Suc i))"
    using assms(4) by (simp_all add: mul_int_def add_int_def int_bounds)
  moreover have "char_at s (int (i * 2)) = Inr (s ! (i * 2))" "char_at s (int (i * 2 + 1)) = Inr (s ! (i * 2 + 1))"
    using assms(1,2) by (simp_all add: char_at_def nat_add_distrib nat_mult_distrib)
  ultimately show ?thesis
    using assms(1,3) by (subst HexStringToBytesInternal.simps) (simp add: byte_at_def Let_def del: of_nat_Suc)
qed

lemma HexStringToBytesInternal_eq:
  assumes "i \<le> num" "2 * num \<le> length s" "num \<le> length to" "num \<le> 2 ^ 30"
  shows "HexStringToBytesInternal s to (int num) (int i) =
    Inr (take i to @ map (byte_at s) [i..<num] @ drop num to)"
  using assms
proof (induction "num - i" arbitrary: i to)
  case 0
  then show ?case by (subst HexStringToBytesInternal.simps) simp
next
  case (Suc n)
  then have i: "i < num" by simp
  let ?to = "to[i := byte_at s i]"
  have "HexStringToBytesInternal s to (int num) (int i) =
      Inr (take (Suc i) ?to @ map (byte_at s) [Suc i..<num] @ drop num ?to)"
    using HexStringToBytes_step [of i num s to] Suc.hyps(1) [of "Suc i" ?to] Suc.hyps(2) Suc.prems i by simp
  then show ?case using i Suc.prems(3) by (simp add: take_Suc_conv_app_nth upt_conv_Cons)
qed

text \<open>A longer text overflows the index.\<close>

lemma HexStringToBytesInternal_overflow:
  assumes "i \<le> 2 ^ 30" "2 ^ 30 < num" "2 * num \<le> length s" "num \<le> length to"
  shows "HexStringToBytesInternal s to (int num) (int i) = Inl (Undefined_behaviour ''signed overflow'')"
  using assms
proof (induction "2 ^ 30 - i" arbitrary: i to)
  case 0
  then have "i = 2 ^ 30" by simp
  with 0 show ?case by (subst HexStringToBytesInternal.simps) (simp add: mul_int_def int_bounds)
next
  case (Suc n)
  then have i: "i < 2 ^ 30" by simp
  then show ?case
    using HexStringToBytes_step [of i num s to] Suc.hyps(1) [of "Suc i" "to[i := byte_at s i]"] Suc.hyps(2) Suc.prems by simp
qed

lemma HexStringToBytes_eq:
  "HexStringToBytes s =
     (if length s div 2 \<le> 2 ^ 30 then Inr (map (byte_at s) [0..<length s div 2])
      else Inl (Undefined_behaviour ''signed overflow''))"
  using HexStringToBytesInternal_eq [of 0 "length s div 2" s] HexStringToBytesInternal_overflow [of 0 "length s div 2" s]
  by (simp add: HexStringToBytes_def Let_def resize_uninitialized_def)

lemma bytes_Cons: "map (byte_at (a # b # s)) [0..<Suc n] =
    char_of (kHexValue ! of_char a * 16 + kHexValue ! of_char b) # map (byte_at s) [0..<n]"
  by (simp add: byte_at_def upt_conv_Cons map_Suc_upt [symmetric] comp_def del: upt_Suc)

lemma hex2_value:
  "n < 256 \<Longrightarrow> kHexValue ! of_char (hexdigits ! (n div 16)) * 16 + kHexValue ! of_char (hexdigits ! (n mod 16)) = n"
  by (simp add: kHexValue_digit less_mult_imp_div_less)

lemma hex_round_trip:
  "bindr (BytesToHexString s) HexStringToBytes =
     (if length s \<le> 2 ^ 30 then Inr s else Inl (Undefined_behaviour ''signed overflow''))"
proof -
  define t where "t s = concat (map (\<lambda>c. hex2 (of_char c)) s)" for s
  have length: "length (t s) = 2 * length s" for s
    unfolding t_def by (induction s) (simp_all add: hex2_def)
  have "map (byte_at (t s)) [0..<length s] = s" for s
  proof (induction s)
    case (Cons c s)
    have "t (c # s) = hexdigits ! (of_char c div 16) # hexdigits ! (of_char c mod 16) # t s"
      by (simp add: t_def hex2_def)
    then show ?case
      using hex2_value [OF of_char_less [of c]] Cons by (simp only: list.size(4) add_0_right add_Suc_right bytes_Cons) simp
  qed simp
  then show ?thesis
    by (simp add: BytesToHexString_eq [folded t_def] HexStringToBytes_eq length)
qed

end
