(* ===== verification/Absl_Substitute.thy ===== *)
theory Absl_Substitute
  imports Absl_StrCat
begin

text \<open>
  \<open>absl::Substitute\<close> of the vendored Abseil, \<open>substitute.h\<close> and \<open>substitute.cc\<close>: the pass over
  the format that computes the size and refuses a bad format, the pass that copies into a buffer
  of that size, the overloads for the number of arguments (a list here), and the conversions of
  \<open>Hex\<close>, \<open>Dec\<close> and pointer arguments. The build is the one without \<open>NDEBUG\<close>, in which a bad
  format is a fatal error.
\<close>

section \<open>The two passes\<close>

definition invalid_format :: "'a result" where
  "invalid_format = Inl (Raw_check_failed ''Invalid strings::Substitute() format'')"

fun substitute_size :: "string list \<Rightarrow> string \<Rightarrow> nat \<Rightarrow> nat result" where
  "substitute_size args [] sz = Inr sz"
| "substitute_size args (c # format) sz =
     (if c = CHR ''$'' then
        case format of
          [] \<Rightarrow> invalid_format
        | d # format \<Rightarrow>
            if ascii_isdigit d then
              let index = of_char d - 48
              in if index \<ge> length args then invalid_format
                 else substitute_size args format (sz + length (args ! index))
            else if d = CHR ''$'' then substitute_size args format (sz + 1)
            else invalid_format
      else substitute_size args format (sz + 1))"

text \<open>A read of the format or of the arguments out of range is undefined behaviour.\<close>

fun substitute_build :: "string list \<Rightarrow> string \<Rightarrow> string \<times> nat \<Rightarrow> (string \<times> nat) result" where
  "substitute_build args [] st = Inr st"
| "substitute_build args (c # format) st =
     (if c = CHR ''$'' then
        case format of
          [] \<Rightarrow> Inl (Undefined_behaviour ''read past the end'')
        | d # rest_format \<Rightarrow>
            if ascii_isdigit d then
              if of_char d - 48 < length args then
                bindr (Append st (args ! (of_char d - 48))) (substitute_build args rest_format)
              else Inl (Undefined_behaviour ''no such argument'')
            else if d = CHR ''$'' then bindr (Append st ''$'') (substitute_build args rest_format)
            else substitute_build args format st
      else bindr (Append st [c]) (substitute_build args format))"

definition SubstituteAndAppendArray :: "string \<Rightarrow> string \<Rightarrow> string list \<Rightarrow> string result" where
  "SubstituteAndAppendArray output format args =
     bindr (substitute_size args format 0) (\<lambda>sz.
     if sz = 0 then Inr output
     else
       let original_size = length output
       in bindr (substitute_build args format (resize_uninitialized output (original_size + sz), original_size))
            filled)"

definition SubstituteAndAppend :: "string \<Rightarrow> string \<Rightarrow> string list \<Rightarrow> string result" where
  "SubstituteAndAppend output format args = SubstituteAndAppendArray output format args"

definition Substitute :: "string \<Rightarrow> string list \<Rightarrow> string result" where
  "Substitute format args = SubstituteAndAppend [] format args"

section \<open>Arguments\<close>

definition kHexDigits :: string where
  "kHexDigits = ''0123456789abcdef''"

function arg_hex_loop :: "64 word \<Rightarrow> string \<Rightarrow> string" where
  "arg_hex_loop num ptr =
     (let ptr = kHexDigits ! unat (num AND 0xf) # ptr;
          num = drop_bit 4 num
      in if num \<noteq> 0 then arg_hex_loop num ptr else ptr)"
  by pat_completeness auto
termination arg_hex_loop
  by (relation "measure (\<lambda>(v, w). unat v)") (auto simp: unat_drop_bit_4_less)

declare arg_hex_loop.simps [simp del]

text \<open>A pointer, the null pointer being \<open>0\<close>.\<close>

definition Arg_pointer :: "64 word \<Rightarrow> string" where
  "Arg_pointer value =
     (if value = 0 then ''NULL''
      else let ptr = arg_hex_loop value []; ptr = CHR ''x'' # ptr; ptr = CHR ''0'' # ptr in ptr)"

definition Arg_Hex :: "Hex \<Rightarrow> string" where
  "Arg_Hex hex =
     (let writer = arg_hex_loop (hex_value hex) []
      in if length writer < hex_width hex
         then replicate (hex_width hex - length writer) (hex_fill hex) @ writer
         else writer)"

function arg_dec_loop :: "64 word \<Rightarrow> string \<Rightarrow> 64 word \<times> string" where
  "arg_dec_loop value writer =
     (if value > 9 then arg_dec_loop (value div 10) (char_of (48 + unat (value mod 10)) # writer)
      else (value, writer))"
  by pat_completeness auto
termination arg_dec_loop
  by (relation "measure (\<lambda>(v, w). unat v)") (auto simp: unat_div word_less_nat_alt)

declare arg_dec_loop.simps [simp del]

definition Arg_Dec :: "Dec \<Rightarrow> string result" where
  "Arg_Dec dec =
     (if dec_width dec \<le> 32 then
        let (value, writer) = arg_dec_loop (dec_value dec) [];
            writer = char_of (48 + unat value) # writer;
            writer = (if dec_neg dec then CHR ''-'' # writer else writer);
            fillers = int (dec_width dec) - int (length writer)
        in if fillers > 0 then
             let add_sign_again = (dec_neg dec \<and> dec_fill dec = CHR ''0'');
                 writer = (if add_sign_again then tl writer else writer);
                 writer = replicate (nat fillers) (dec_fill dec) @ writer
             in Inr (if add_sign_again then CHR ''-'' # writer else writer)
           else Inr writer
      else Inl Assertion_failed)"

section \<open>What is substituted\<close>

text \<open>The text that a format stands for, \<open>None\<close> for a bad format.\<close>

fun expand :: "string list \<Rightarrow> string \<Rightarrow> string list option" where
  "expand args [] = Some []"
| "expand args (c # format) =
     (if c = CHR ''$'' then
        case format of
          [] \<Rightarrow> None
        | d # format \<Rightarrow>
            if ascii_isdigit d \<and> of_char d - 48 < length args then
              map_option (Cons (args ! (of_char d - 48))) (expand args format)
            else if d = CHR ''$'' then map_option (Cons ''$'') (expand args format)
            else None
      else map_option (Cons [c]) (expand args format))"

lemma dollar_no_digit: "\<not> ascii_isdigit (CHR ''$'')"
  by (simp add: ascii_ranges)

text \<open>The cases of a format, as the two passes and \<open>expand\<close> tell them apart.\<close>

lemma format_cases:
  obtains "format = []"
  | c r where "format = c # r" "c \<noteq> CHR ''$''"
  | "format = ''$''"
  | d r where "format = CHR ''$'' # d # r" "ascii_isdigit d"
  | r where "format = CHR ''$'' # CHR ''$'' # r"
  | d r where "format = CHR ''$'' # d # r" "\<not> ascii_isdigit d" "d \<noteq> CHR ''$''"
proof (cases format)
  case (Cons c r)
  then show thesis using that by (cases r) (cases "c = CHR ''$''"; metis)+
qed (rule that(1))

lemma substitute_size_eq:
  "substitute_size args format sz =
     (case expand args format of None \<Rightarrow> invalid_format | Some ps \<Rightarrow> Inr (sz + length (concat ps)))"
proof (induction "length format" arbitrary: format sz rule: less_induct)
  case less
  note IH = less
  show ?case
  proof (cases format rule: format_cases)
    case (2 c r)
    then show ?thesis using IH [of r "sz + 1"] by (simp split: option.splits)
  next
    case (4 d r)
    then show ?thesis
      using IH [of r "sz + length (args ! (of_char d - 48))"] dollar_no_digit
      by (auto simp: Let_def split: option.splits)
  next
    case (5 r)
    then show ?thesis using IH [of r "sz + 1"] dollar_no_digit by (simp split: option.splits)
  qed simp_all
qed

lemma substitute_build_eq:
  "expand args format = Some ps \<Longrightarrow> substitute_build args format st = copy_pieces ps st"
proof (induction "length format" arbitrary: format ps st rule: less_induct)
  case less
  note IH = less.hyps
  show ?case
  proof (cases format rule: format_cases)
    case (2 c r)
    then obtain qs where qs: "expand args r = Some qs" "ps = [c] # qs" using less.prems by auto
    then have "substitute_build args r = copy_pieces qs" using 2 IH [of r] by (intro ext) simp
    with 2 qs show ?thesis by simp
  next
    case (4 d r)
    then obtain qs where qs: "expand args r = Some qs" "ps = args ! (of_char d - 48) # qs"
      "of_char d - 48 < length args"
      using less.prems dollar_no_digit by (auto split: if_splits)
    then have "substitute_build args r = copy_pieces qs" using 4 IH [of r] by (intro ext) simp
    with 4 qs show ?thesis by simp
  next
    case (5 r)
    then obtain qs where qs: "expand args r = Some qs" "ps = ''$'' # qs"
      using less.prems dollar_no_digit by auto
    then have "substitute_build args r = copy_pieces qs" using 5 IH [of r] by (intro ext) simp
    with 5 qs dollar_no_digit show ?thesis by simp
  qed (use less.prems in simp_all)
qed

lemma SubstituteAndAppendArray_eq:
  "SubstituteAndAppendArray output format args =
     (case expand args format of None \<Rightarrow> invalid_format | Some ps \<Rightarrow> Inr (output @ concat ps))"
proof (cases "expand args format")
  case (Some ps)
  then show ?thesis
    using AppendPieces_eq [of "output" ps]
    by (simp add: SubstituteAndAppendArray_def substitute_size_eq substitute_build_eq AppendPieces_def sum_sizes)
qed (simp add: SubstituteAndAppendArray_def substitute_size_eq invalid_format_def)

text \<open>The conversions repeat those of \<open>str_cat.cc\<close>.\<close>

lemma arg_hex_loop_eq: "arg_hex_loop v w = hex_loop v w"
proof (induction v w rule: arg_hex_loop.induct)
  case (1 v w)
  then show ?case
    by (subst arg_hex_loop.simps, subst hex_loop.simps) (simp add: Let_def kHexDigits_def hexdigits_def)
qed

lemma arg_dec_loop_eq: "arg_dec_loop v w = dec_loop v w"
proof (induction v w rule: arg_dec_loop.induct)
  case (1 v w)
  then show ?case by (subst arg_dec_loop.simps, subst dec_loop.simps) simp
qed

lemma Arg_AlphaNum: "Arg_Hex hex = AlphaNum_Hex hex" "Arg_Dec dec = AlphaNum_Dec dec"
  by (simp_all add: Arg_Hex_def AlphaNum_Hex_def Arg_Dec_def AlphaNum_Dec_def arg_hex_loop_eq arg_dec_loop_eq)

end
