(* ===== verification/Absl_Laws.thy ===== *)
theory Absl_Laws
  imports Absl_Join Absl_Replace Absl_CEscape Absl_Base64 Absl_Hex Absl_Substitute
begin

text \<open>
  The properties of the vendored string library that the development claims: splitting and
  joining, replacing, integers to text and back, concatenation into buffers, escaping, Base64 and
  hexadecimal text, searching, comparison, and substitution.
\<close>

section \<open>Splitting and joining\<close>

abbreviation split_vector :: "string \<Rightarrow> Delimiter \<Rightarrow> string list result option" where
  "split_vector text d \<equiv> ConvertToVector Delimiter_Find (StrSplit_by (Some text) d)"

text \<open>C20: splitting by a string and joining with it are inverse. \<open>StrSplit\<close> to a vector, with
  its array of sixteen views, returns the pieces \<open>ps\<close> exactly when they are cut at the first
  occurrences of the delimiter and \<open>StrJoin\<close>, with its precomputed buffer, joins them to the text.\<close>

theorem StrSplit_StrJoin:
  assumes "s \<noteq> []"
  shows "split_vector text (ByString s) = Some (Inr ps) \<longleftrightarrow> pieces_by s ps \<and> StrJoin ps s = Inr text"
  using StrSplit_ByString [OF assms] by (simp add: StrJoin_eq)

theorem StrSplit_StrJoin_witness:
  "''--'' \<noteq> [] \<and> pieces_by ''--'' [''a'', ''b'', ''-c''] \<and>
   StrJoin [''a'', ''b'', ''-c''] ''--'' = Inr ''a--b---c''"
proof -
  have "split_vector ''a--b---c'' (ByString ''--'') = Some (Inr [''a'', ''b'', ''-c''])" by code_simp
  with StrSplit_StrJoin [of "''--''" "''a--b---c''" "[''a'', ''b'', ''-c'']"] show ?thesis by simp
qed

text \<open>C21: splitting returns the pieces of the delimiter. For every delimiter of the library that
  may be called on the text (\<open>Delimiter_ready\<close>: the length of \<open>ByLength\<close> is positive, and the \<open>int\<close>
  counter of \<open>MaxSplits\<close> has room for the text or a limit that stops it) \<open>Find\<close> stays inside the
  text and the iterator reaches its end. There is exactly one list of pieces and delimiters of the
  form that the delimiter prescribes that makes up the text: \<open>ByString\<close> and \<open>ByChar\<close> cut at the
  first occurrences, \<open>ByAnyChar\<close> at every character of its set, an empty string between all
  characters, \<open>ByLength\<close> equal lengths, and \<open>MaxSplits\<close> makes the first cuts of its delimiter and
  leaves the rest in one piece. Every conversion is made of these pieces; a predicate drops pieces
  and changes nothing else.\<close>

theorem splitting_returns_pieces:
  assumes "Delimiter_ready d text 0"
  shows "\<exists>cs. exact_cuts d text cs \<and> concat (map (\<lambda>(p, s). p @ s) cs) = text \<and>
    (\<forall>ds. exact_cuts d text ds \<and> concat (map (\<lambda>(p, s). p @ s) ds) = text \<longrightarrow> ds = cs) \<and>
    (\<forall>P. let sp = StrSplit_if (Some text) d P; ps = filter P (map fst cs) in
       ConvertToVector Delimiter_Find sp = Some (Inr ps) \<and>
       ConvertToContainer Delimiter_Find sp = Some (Inr ps) \<and>
       ConvertToPair Delimiter_Find sp = Some (Inr (first_two ps)) \<and>
       ConvertToMap Delimiter_Find sp = Some (Inr (map_items Map.empty [] True ps)))"
proof -
  obtain cs where cs: "cuts Delimiter_Find text d 0 cs" "exact_cuts d text cs"
    using exact_cuts_exist [OF assms] by blast
  have sp: "cuts Delimiter_Find text (splitter_delimiter (StrSplit_if (Some text) d P)) 0 cs"
      "splitter_text (StrSplit_if (Some text) d P) = Some text"
      "splitter_predicate (StrSplit_if (Some text) d P) = P" for P
    using cs(1) by (simp_all add: StrSplit_if_def)
  have cat: "concat (map (\<lambda>(p, s). p @ s) cs) = text" using cuts_concat [OF cs(1)] by simp
  then have unique: "ds = cs" if "exact_cuts d text ds" "concat (map (\<lambda>(p, s). p @ s) ds) = text" for ds
    using exact_cuts_unique [OF assms that cs(2)] by simp
  have "let sp = StrSplit_if (Some text) d P; ps = filter P (map fst cs) in
       ConvertToVector Delimiter_Find sp = Some (Inr ps) \<and>
       ConvertToContainer Delimiter_Find sp = Some (Inr ps) \<and>
       ConvertToPair Delimiter_Find sp = Some (Inr (first_two ps)) \<and>
       ConvertToMap Delimiter_Find sp = Some (Inr (map_items Map.empty [] True ps))" for P
    using ConvertToVector_cuts [OF sp(1,2)] ConvertToContainer_cuts [OF sp(1,2)] ConvertToPair_cuts [OF sp(1,2)]
    by (simp add: Let_def sp(3) ConvertToMap_def)
  with cs(2) cat unique show ?thesis by blast
qed

theorem splitting_returns_pieces_witness:
  "Delimiter_ready (MaxSplits (ByAnyChar '',;'') 1) ''a,b;;c'' 0 \<and>
   exact_cuts (MaxSplits (ByAnyChar '',;'') 1) ''a,b;;c'' [(''a'', '',''), (''b;;c'', [])] \<and>
   ConvertToVector Delimiter_Find (StrSplit_if (Some ''a,b;;c'') (MaxSplits (ByAnyChar '',;'') 1) SkipEmpty) =
     Some (Inr [''a'', ''b;;c''])"
proof -
  let ?d = "MaxSplits (ByAnyChar '',;'') 1" let ?cs = "[(''a'', '',''), (''b;;c'', [])]"
  have ready: "Delimiter_ready ?d ''a,b;;c'' 0" by (simp add: MaxSplits_def int_max_def)
  have exact: "exact_cuts ?d ''a,b;;c'' ?cs"
    by (simp add: MaxSplits_def)
      (rule exI [of _ "[(''a'', '',''), (''b'', '';''), ([], '';''), (''c'', [])]"], simp add: limit_cuts_def)
  moreover have "concat (map (\<lambda>(p, s). p @ s) ?cs) = ''a,b;;c''" by simp
  ultimately have "ConvertToVector Delimiter_Find (StrSplit_if (Some ''a,b;;c'') ?d SkipEmpty) =
      Some (Inr (filter SkipEmpty (map fst ?cs)))"
    using splitting_returns_pieces [OF ready] unfolding Let_def by metis
  with ready exact show ?thesis by (simp add: SkipEmpty_def)
qed

text \<open>The three algorithms of \<open>StrJoin\<close> agree. The one that sizes and fills a buffer, the one
  that appends, and the loop over a tuple put the separator between the texts of the elements,
  which are for integers their decimal texts and for pairs both texts around a second separator.\<close>

lemma StrJoin_algorithms:
  "StrJoin ps s = Inr (join_str s ps) \<and> JoinAlgorithm ps s AlphaNumFormatterImpl = Inr (join_str s ps) \<and>
   JoinAlgorithm_tuple ps s AlphaNumFormatterImpl = Inr (join_str s ps) \<and>
   JoinRange_int32 ns s = Inr (join_str s (map (\<lambda>n. show_int (sint n)) ns)) \<and>
   StrJoin_fmt kvs s (PairFormatterImpl AlphaNumFormatterImpl sep AlphaNumFormatterImpl_int32) =
     Inr (join_str s (map (\<lambda>kv. fst kv @ sep @ show_int (sint (snd kv))) kvs))"
  using alphanum.JoinAlgorithm_eq [of ps s] alphanum.JoinAlgorithm_tuple_eq [of ps s]
  by (simp add: StrJoin_eq JoinRange_int32_def alphanum_int32.JoinAlgorithm_eq StrJoin_fmt_def
      key_value.pair.JoinAlgorithm_eq)

text \<open>C22: \<open>StrReplaceAll\<close> refines the scan from left to right that replaces, wherever patterns
  occur, the longest of them, and never looks at replaced text again; the variant in place also
  returns the number of replacements. The loop ends, although it revisits its candidates. A
  pattern must not be given twice: the replacements would take turns. Both variants count the
  replacements in an \<open>int\<close>, and overflow it when there are more than \<open>2 ^ 31 - 1\<close>.\<close>

theorem StrReplaceAll_refines_scan:
  assumes "distinct (map fst reps)"
  shows "StrReplaceAll s reps = Some (if fst (replace_scan reps s) \<le> int_max
      then Inr (snd (replace_scan reps s)) else Inl (Undefined_behaviour ''signed overflow'')) \<and>
    StrReplaceAll_in_place reps s = Some (if fst (replace_scan reps s) \<le> int_max
      then Inr (replace_scan reps s) else Inl (Undefined_behaviour ''signed overflow''))"
  using StrReplaceAll_eq [OF assms] by blast

theorem StrReplaceAll_refines_scan_witness:
  "distinct (map fst [(''&'', ''&amp;''), (''<'', ''&lt;''), (''<='', ''&le;'')]) \<and>
   StrReplaceAll_in_place [(''&'', ''&amp;''), (''<'', ''&lt;''), (''<='', ''&le;'')] ''a <= &b < c'' =
     Some (Inr (3, ''a &le; &amp;b &lt; c''))"
proof -
  have d: "distinct (map fst [(''&'', ''&amp;''), (''<'', ''&lt;''), (''<='', ''&le;'')])" by simp
  have "replace_scan [(''&'', ''&amp;''), (''<'', ''&lt;''), (''<='', ''&le;'')] ''a <= &b < c'' =
      (3, ''a &le; &amp;b &lt; c'')" by code_simp
  with StrReplaceAll_refines_scan [OF d, of "''a <= &b < c''"] d show ?thesis by (simp add: int_max_def)
qed

section \<open>Integers\<close>

text \<open>C23: \<open>SimpleAtoi\<close> accepts exactly an optional sign and decimal digits between white space,
  a minus sign for the signed types only, when the value fits the type; and then it returns the
  value. On every text it returns: no assertion fails and no operation overflows.\<close>

theorem SimpleAtoi_accepts:
  "(\<exists>ok v. SimpleAtoi ty s = Inr (ok, v) \<and> numeric_min ty \<le> v \<and> v \<le> numeric_max ty) \<and>
   (SimpleAtoi ty s = Inr (True, n) \<longleftrightarrow>
     (\<exists>ds. ds \<noteq> [] \<and> list_all ascii_isdigit ds \<and> numeric_min ty \<le> n \<and> n \<le> numeric_max ty \<and>
        (StripAsciiWhitespace s \<in> {ds, CHR ''+'' # ds} \<and> n = numeral_value 10 ds \<or>
         signed_type ty \<and> StripAsciiWhitespace s = CHR ''-'' # ds \<and> n = - numeral_value 10 ds)))"
  by (intro conjI SimpleAtoi_returns SimpleAtoi_True)

text \<open>C24: the digit loops in every base from 2 to 36. The loop for positive numbers, at each of
  the four types, and the loop for negative numbers, at the two signed types, return without a
  failed assertion and without overflow: they succeed exactly on a text of digits whose number
  fits the type, and store the number of the leading digits, cut off at the end of the range. At
  an unsigned type the loop for negative numbers stops at its assertion.\<close>

theorem digit_loops_bounded:
  assumes "2 \<le> base" "base \<le> 36"
  shows "safe_parse_positive_int ty s base =
      Inr (list_all (\<lambda>c. digit_value c < base) s \<and> numeral_value base s \<le> numeric_max ty,
           min (numeric_max ty) (numeral_value base (takeWhile (\<lambda>c. digit_value c < base) s))) \<and>
    safe_parse_negative_int ty s base =
      (if signed_type ty then
         Inr (list_all (\<lambda>c. digit_value c < base) s \<and> numeric_min ty \<le> - numeral_value base s,
              max (numeric_min ty) (- numeral_value base (takeWhile (\<lambda>c. digit_value c < base) s)))
       else Inl Assertion_failed)"
  using safe_parse_positive_int_eq [OF assms] safe_parse_negative_int_eq [OF assms]
    safe_parse_negative_int_unsigned by simp

theorem digit_loops_bounded_witness:
  "(2 :: int) \<le> 16 \<and> (16 :: int) \<le> 36 \<and>
   safe_parse_positive_int int32_t ''1fg'' 16 = Inr (False, 31) \<and>
   safe_parse_positive_int int32_t ''80000000'' 16 = Inr (False, 2147483647) \<and>
   safe_parse_negative_int int32_t ''80000000'' 16 = Inr (True, - 2147483648) \<and>
   safe_parse_negative_int uint32_t ''1'' 16 = Inl Assertion_failed"
proof -
  have b: "(2 :: int) \<le> 16" "(16 :: int) \<le> 36" by simp_all
  have vals: "takeWhile (\<lambda>c. digit_value c < 16) ''1fg'' = ''1f''" "numeral_value 16 ''1f'' = 31"
    "list_all (\<lambda>c. digit_value c < 16) ''1fg'' = False"
    "takeWhile (\<lambda>c. digit_value c < 16) ''80000000'' = ''80000000''"
    "list_all (\<lambda>c. digit_value c < 16) ''80000000'' = True" "numeral_value 16 ''80000000'' = 2147483648"
    by code_simp+
  have ty: "numeric_max int32_t = 2147483647" "numeric_min int32_t = - 2147483648"
    "signed_type int32_t = True" "signed_type uint32_t = False"
    by (simp_all add: int_bounds signed_type_def)
  have "safe_parse_positive_int int32_t ''1fg'' 16 = Inr (False, 31)"
    using digit_loops_bounded [OF b, of int32_t "''1fg''"] unfolding vals ty by simp
  moreover have "safe_parse_positive_int int32_t ''80000000'' 16 = Inr (False, 2147483647)"
    "safe_parse_negative_int int32_t ''80000000'' 16 = Inr (True, - 2147483648)"
    using digit_loops_bounded [OF b, of int32_t "''80000000''"] unfolding vals ty by simp_all
  moreover have "safe_parse_negative_int uint32_t ''1'' 16 = Inl Assertion_failed"
    using digit_loops_bounded [OF b, of uint32_t "''1''"] unfolding ty by simp
  ultimately show ?thesis using b by blast
qed

text \<open>C25: the four overloads of \<open>FastIntToBuffer\<close>, with their jumps into blocks of two
  digits, write the decimal text of their argument, also for the most negative numbers, and
  \<open>SimpleAtoi\<close> of the same type reads it back.\<close>

theorem integers_read_back:
  "FastIntToBuffer_u32 i = Inr (show_nat (unat i)) \<and> FastIntToBuffer_i32 i = Inr (show_int (sint i)) \<and>
   FastIntToBuffer_u64 j = Inr (show_nat (unat j)) \<and> FastIntToBuffer_i64 j = Inr (show_int (sint j)) \<and>
   SimpleAtoi int32_t (show_int (sint i)) = Inr (True, sint i) \<and> SimpleAtoi uint32_t (show_nat (unat i)) = Inr (True, uint i) \<and>
   SimpleAtoi int64_t (show_int (sint j)) = Inr (True, sint j) \<and> SimpleAtoi uint64_t (show_nat (unat j)) = Inr (True, uint j)"
proof -
  have show_nat: "show_nat (unat w) = show_int (uint w)" for w :: "'a::len word"
    by (simp add: show_int_def)
  have "numeric_min int32_t \<le> sint i" "sint i \<le> numeric_max int32_t"
    using sint_greater_eq [of i] sint_less [of i] by (simp_all add: int_bounds)
  moreover have "numeric_min int64_t \<le> sint j" "sint j \<le> numeric_max int64_t"
    using sint_greater_eq [of j] sint_less [of j] by (simp_all add: int64_min_def int64_max_def)
  moreover have "numeric_min uint32_t \<le> uint i" "uint i \<le> numeric_max uint32_t"
    using unsigned_less [of i, where ?'a = int] by simp_all
  moreover have "numeric_min uint64_t \<le> uint j" "uint j \<le> numeric_max uint64_t"
    using unsigned_less [of j, where ?'a = int] by simp_all
  ultimately show ?thesis
    by (simp only: FastIntToBuffer_u32_eq FastIntToBuffer_u64_eq FastIntToBuffer_signed_eq show_nat
        SimpleAtoi_show_int simp_thms)
qed

section \<open>Concatenation\<close>

text \<open>C26: no concatenation writes outside its buffer or leaves a part of it unwritten: the
  loops over pieces return the concatenation, and the unrolled variants for two to four
  arguments agree with them.\<close>

theorem concatenation_safe:
  "CatPieces ps = Inr (concat ps) \<and> AppendPieces dest ps = Inr (dest @ concat ps) \<and>
   StrCat2 a b = CatPieces [a, b] \<and> StrCat3 a b c = CatPieces [a, b, c] \<and>
   StrCat4 a b c d = CatPieces [a, b, c, d] \<and>
   StrAppend1 dest a = AppendPieces dest [a] \<and> StrAppend2 dest a b = AppendPieces dest [a, b] \<and>
   StrAppend3 dest a b c = AppendPieces dest [a, b, c] \<and>
   StrAppend4 dest a b c d = AppendPieces dest [a, b, c, d]"
  by (simp only: CatPieces_eq AppendPieces_eq StrCat_pieces StrAppend_pieces simp_thms)

text \<open>A padded number is read back. For every padding of the enumeration \<open>PadSpec\<close> the
  decimal text of a signed number, with its sign before zeros and behind spaces, is accepted by
  \<open>SimpleAtoi\<close>, and the hexadecimal text by the parser in base 16.\<close>

lemma padded_read_back:
  assumes "spec \<in> {kNoPad..20} \<union> {kSpacePad2..84}"
  shows "bindr (AlphaNum_Dec (Dec_init v spec)) (SimpleAtoi int64_t) = Inr (True, sint v) \<and>
    safe_strtou64_base (AlphaNum_Hex (Hex_init spec v)) 16 = Inr (True, int (unat v))"
proof -
  have "pad_width spec \<le> 32"
    using assms by (auto simp: pad_width_def kNoPad_def kZeroPad2_def kSpacePad2_def)
  moreover have "numeric_min int64_t \<le> sint v" "sint v \<le> numeric_max int64_t"
    using sint_greater_eq [of v] sint_less [of v] by (simp_all add: int64_min_def int64_max_def)
  then have "SimpleAtoi int64_t (padded (pad_width spec) (pad_fill spec) (sint v)) = Inr (True, sint v)"
    by (rule SimpleAtoi_padded) (rule pad_fill_cases)
  ultimately show ?thesis
    by (simp only: AlphaNum_Dec_eq bindr_Inr AlphaNum_Hex_round_trip simp_thms)
qed

section \<open>Escaping\<close>

text \<open>C27: the table-driven \<open>CEscape\<close>, which computes the length of the output first and
  writes into a buffer of that length, produces what the general escaper produces, and
  \<open>CUnescape\<close> reads back what any of the four escapers writes, for every text: a digit
  behind a hexadecimal escape is escaped too, so it is not taken for a part of it.\<close>

theorem escapes_read_back:
  "CEscape src = Inr (CEscapeInternal src False False) \<and> CUnescape (CEscapeInternal src False False) = Inr src \<and>
   CUnescape (CHexEscape src) = Inr src \<and>
   CUnescape (Utf8SafeCEscape src) = Inr src \<and> CUnescape (Utf8SafeCHexEscape src) = Inr src"
  by (simp add: CEscape_eq CHexEscape_def Utf8SafeCEscape_def Utf8SafeCHexEscape_def CUnescape_CEscapeInternal)

text \<open>The decoded text is never longer than the source, so the buffer of the size of the
  source that \<open>CUnescapeInternal\<close> writes to is large enough.\<close>

lemma CUnescape_fits:
  assumes "CUnescapeInternal src leave_nulls_escaped = Inr t"
  shows "length t \<le> length src"
  using CUnescape_loop_fits [of leave_nulls_escaped "[]" src t] assms by (simp add: CUnescapeInternal_def)

section \<open>Binary data as text\<close>

text \<open>C28: the encoders, which load 32-bit words and take the last bytes apart separately,
  write the Base64 encoding of the standard in their alphabet, the one with padding and the
  other without, and the decoders read it back. The hexadecimal decoder reads back what the
  encoder writes for up to \<open>2 ^ 30\<close> bytes; for more its \<open>int\<close> index overflows.\<close>

theorem codecs_read_back:
  "Base64Escape src = Inr (base64_spec kBase64Chars True src) \<and>
   WebSafeBase64Escape src = Inr (base64_spec kWebSafeBase64Chars False src) \<and>
   bindr (Base64Escape src) Base64Unescape = Inr (Some src) \<and>
   bindr (WebSafeBase64Escape src) WebSafeBase64Unescape = Inr (Some src) \<and>
   bindr (BytesToHexString src) HexStringToBytes =
     (if length src \<le> 2 ^ 30 then Inr src else Inl (Undefined_behaviour ''signed overflow''))"
proof (intro conjI Base64_round_trip WebSafeBase64_round_trip hex_round_trip)
qed (simp_all add: Base64Escape_def WebSafeBase64Escape_def Base64Escape_String_eq)

section \<open>Characters and searching\<close>

text \<open>The classification by the table of property bits and the case conversions by their
  tables are those of ASCII, given by ranges of codes; bytes above 127 belong to no class and
  are not converted.\<close>

lemma ascii_tables:
  "ascii_isalpha c = (ascii_isupper c \<or> ascii_islower c) \<and>
   ascii_isalnum c = (ascii_isdigit c \<or> ascii_isalpha c) \<and>
   ascii_isspace c = (c = CHR '' '' \<or> (of_char c :: nat) \<in> {9..13}) \<and>
   ascii_ispunct c = (ascii_isgraph c \<and> \<not> ascii_isalnum c) \<and>
   ascii_isblank c = (c = CHR '' '' \<or> c = CHR 0x09) \<and>
   ascii_iscntrl c = (ascii_isascii c \<and> \<not> ascii_isprint c) \<and>
   ascii_isxdigit c = (ascii_isdigit c \<or> (of_char c :: nat) \<in> {65..70} \<union> {97..102}) \<and>
   of_char (ascii_tolower c) = (if ascii_isupper c then of_char c + 32 else of_char c :: nat) \<and>
   of_char (ascii_toupper c) = (if ascii_islower c then of_char c - 32 else of_char c :: nat)"
  by (intro conjI ascii_property of_char_tolower of_char_toupper)

text \<open>C29: the searches find the first or last position of the kind sought. The two substring
  algorithms, one that jumps with \<open>memchr\<close> and one that backs up after a partial match, and
  \<open>string_view::find\<close> return the first occurrence; the searches for characters in or out of a
  set, through a table of 256 flags, return the first such position from \<open>pos\<close> on or the last
  one up to \<open>pos\<close>.\<close>

theorem searches_exact:
  "memmatch h n = first_from h n 0 \<and> memmem h n = first_from h n 0 \<and>
   memcasemem h n = first_from (map ascii_tolower h) (map ascii_tolower n) 0 \<and>
   find_str text s pos = first_from text s pos \<and> (StrContains text s \<longleftrightarrow> sublist s text) \<and>
   find_first_of text s pos = find (\<lambda>k. text ! k \<in> set s) [pos..<length text] \<and>
   find_first_not_of text s pos = find (\<lambda>k. text ! k \<notin> set s) [pos..<length text] \<and>
   find_last_of text s pos = find (\<lambda>k. text ! k \<in> set s) (rev [0..<min (Suc pos) (length text)]) \<and>
   find_last_not_of text s pos = find (\<lambda>k. text ! k \<notin> set s) (rev [0..<min (Suc pos) (length text)])"
proof (intro conjI)
  show "memcasemem h n = first_from (map ascii_tolower h) (map ascii_tolower n) 0"
    by (simp add: memcasemem_def int_memmatch_eq fold_case_def cong: map_cong)
qed (rule memmatch.first memmem.first find_str_eq StrContains_iff find_first_of_eq find_first_not_of_eq
    find_last_of_eq find_last_not_of_eq)+

text \<open>\<open>compare\<close> is the lexicographic order of unsigned bytes: it is zero exactly for equal
  texts, negative exactly for a smaller one, and changes its sign with the order of its
  arguments.\<close>

lemma compare_lexicographic:
  "(compare s x = 0 \<longleftrightarrow> s = x) \<and> (compare s x < 0 \<longleftrightarrow> (s, x) \<in> lexord char_less) \<and>
   compare x s = - compare s x"
  by (intro conjI compare_0 compare_less compare_swap)

section \<open>Substitution\<close>

text \<open>C30: \<open>SubstituteAndAppend\<close> appends the format with its placeholders replaced, or stops with
  the fatal error when the format ends in a dollar sign, has another character behind one, or
  asks for an argument that is not there. The size computed by the first pass is the size that
  the second writes: no write leaves the buffer and the final assertion holds.\<close>

theorem Substitute_exact:
  "SubstituteAndAppend output format args =
     (case expand args format of None \<Rightarrow> invalid_format | Some ps \<Rightarrow> Inr (output @ concat ps))"
  unfolding SubstituteAndAppend_def by (rule SubstituteAndAppendArray_eq)

end
