(* ===== verification/Civil_Time.thy ===== *)
theory Civil_Time
  imports Chess_Prelude
begin

text \<open>
  Civil times of the vendored Abseil
  (\<open>time/internal/cctz/include/cctz/civil_time_detail.h\<close>): the normalization of fields, steps and
  differences in every unit, alignment, comparison, weekdays and the day of the year. The fields
  are integers, and the sums, differences and products of the 64-bit types \<open>year_t\<close> and \<open>diff_t\<close> are
  checked: where one leaves their range, which is undefined in C++, the result is an error. Only
  those whose operands have just been reduced to a few hundred thousand are not. Division is the
  truncating division of C++.
\<close>

unbundle bit_operations_syntax

section \<open>Checked arithmetic\<close>

definition i64 :: "int \<Rightarrow> int result" where
  "i64 x = (if - (2 ^ 63) \<le> x \<and> x < 2 ^ 63 then Inr x else Inl (Undefined_behaviour ''int64 overflow''))"

text \<open>\<open>static_cast\<close> to the 8-bit types of the fields.\<close>

definition cast8 :: "int \<Rightarrow> int" where
  "cast8 x = (x + 128) mod 256 - 128"

record fields =
  fy :: int
  fm :: int
  fd :: int
  fhh :: int
  fmm :: int
  fss :: int

definition mk_fields :: "int \<Rightarrow> int \<Rightarrow> int \<Rightarrow> int \<Rightarrow> int \<Rightarrow> int \<Rightarrow> fields" where
  "mk_fields year month day hour minute second =
     \<lparr>fy = year, fm = month, fd = day, fhh = hour, fmm = minute, fss = second\<rparr>"

section \<open>Normalization\<close>

definition is_leap_year :: "int \<Rightarrow> bool" where
  "is_leap_year y \<longleftrightarrow> y smod 4 = 0 \<and> (y smod 100 \<noteq> 0 \<or> y smod 400 = 0)"

definition year_index :: "int \<Rightarrow> int \<Rightarrow> int result" where
  "year_index y m = bindr (i64 (y + of_bool (m > 2))) (\<lambda>z. Inr ((z smod 400 + 400) smod 400))"

definition days_per_century :: "int \<Rightarrow> int \<Rightarrow> int result" where
  "days_per_century y m = bindr (year_index y m) (\<lambda>yi. Inr (36524 + of_bool (yi = 0 \<or> yi > 300)))"

definition days_per_4years :: "int \<Rightarrow> int \<Rightarrow> int result" where
  "days_per_4years y m =
     bindr (year_index y m) (\<lambda>yi. Inr (1460 + of_bool (yi = 0 \<or> yi > 300 \<or> (yi - 1) smod 100 < 96)))"

definition days_per_year :: "int \<Rightarrow> int \<Rightarrow> int result" where
  "days_per_year y m = bindr (i64 (y + of_bool (m > 2))) (\<lambda>z. Inr (if is_leap_year z then 366 else 365))"

definition k_days_per_month :: "int list" where
  "k_days_per_month = [- 1, 31, 28, 31, 30, 31, 30, 31, 31, 30, 31, 30, 31]"

definition days_per_month :: "int \<Rightarrow> int \<Rightarrow> int" where
  "days_per_month y m = k_days_per_month ! nat m + of_bool (m = 2 \<and> is_leap_year y)"

text \<open>
  The loops that count up by centuries, by four years and by years: while the days do not fit the
  period, it is taken off. The bounds of the periods, which end the loops, are part of the
  termination argument.
\<close>

lemma bindr_eq_Inr: "bindr m f = Inr x \<longleftrightarrow> (\<exists>y. m = Inr y \<and> f y = Inr x)"
  by (auto simp: bindr_def split: sum.splits)

lemma period_pos:
  "days_per_century y m = Inr n \<Longrightarrow> 0 < n" "days_per_4years y m = Inr n \<Longrightarrow> 0 < n"
  "days_per_year y m = Inr n \<Longrightarrow> 0 < n"
  by (auto simp: days_per_century_def days_per_4years_def days_per_year_def bindr_eq_Inr)

text \<open>One loop for the three: how many years a period has, and how many days.\<close>

definition period_days :: "int \<Rightarrow> int \<Rightarrow> int \<Rightarrow> int result" where
  "period_days years y m =
     (if years = 100 then days_per_century y m else if years = 4 then days_per_4years y m else days_per_year y m)"

lemma period_days_pos: "period_days years y m = Inr n \<Longrightarrow> 0 < n"
  by (auto simp: period_days_def period_pos split: if_splits)

function years_loop :: "int \<Rightarrow> int \<Rightarrow> int \<Rightarrow> int \<Rightarrow> (int \<times> int) result" where
  "years_loop years y m d =
     (case period_days years y m of
        Inl e \<Rightarrow> Inl e
      | Inr n \<Rightarrow>
          if d > n then bindr (i64 (d - n)) (\<lambda>_. bindr (i64 (y + years)) (\<lambda>_. years_loop years (y + years) m (d - n)))
          else Inr (y, d))"
  by pat_completeness auto
termination
  by (relation "measure (\<lambda>(years, y, m, d). nat d)") (auto dest: period_days_pos)

declare years_loop.simps [simp del]

lemma month_cases:
  "1 \<le> m \<Longrightarrow> m \<le> 12 \<Longrightarrow>
     m = (1 :: int) \<or> m = 2 \<or> m = 3 \<or> m = 4 \<or> m = 5 \<or> m = 6 \<or> m = 7 \<or> m = 8 \<or> m = 9 \<or> m = 10 \<or> m = 11 \<or> m = 12"
  by arith

lemma days_per_month_pos: "1 \<le> m \<Longrightarrow> m \<le> 12 \<Longrightarrow> 28 \<le> days_per_month y m \<and> days_per_month y m \<le> 31"
  by (drule (1) month_cases) (auto simp: days_per_month_def k_days_per_month_def)

text \<open>
  The loop over the months; a month outside 1 to 12 does not reach it, see \<open>n_mon\<close>.
\<close>

function months_loop :: "int \<Rightarrow> int \<Rightarrow> int \<Rightarrow> (int \<times> int \<times> int) result" where
  "months_loop y m d =
     (if m < 1 \<or> m > 12 then Inl (Undefined_behaviour ''k_days_per_month out of bounds'')
      else
        let n = days_per_month y m
        in if d > n then
             let d = d - n; m = m + 1
             in if m > 12 then bindr (i64 (y + 1)) (\<lambda>_. months_loop (y + 1) 1 d) else months_loop y m d
           else Inr (y, m, d))"
  by pat_completeness auto
termination
proof (relation "measure (\<lambda>(y, m, d). nat d)", goal_cases)
  case (2 y m d n d' m' r)
  then show ?case using days_per_month_pos [of m y] by auto
next
  case (3 y m d n d' m')
  then show ?case using days_per_month_pos [of m y] by auto
qed simp

declare months_loop.simps [simp del]

text \<open>The parts of \<open>n_day\<close>: the carried days, the days within an era, the years, the months.\<close>

definition carry_days :: "int \<Rightarrow> int \<Rightarrow> (int \<times> int) result" where
  "carry_days y cd =
     bindr (i64 ((cd sdiv 146097) * 400)) (\<lambda>k.
     bindr (i64 (y + k)) (\<lambda>y.
     let cd = cd smod 146097 in
     if cd < 0 then bindr (i64 (y - 400)) (\<lambda>y. Inr (y, cd + 146097)) else Inr (y, cd)))"

definition era_days :: "int \<Rightarrow> int \<Rightarrow> int \<Rightarrow> int \<Rightarrow> (int \<times> int) result" where
  "era_days y m d cd =
     bindr (i64 ((d sdiv 146097) * 400)) (\<lambda>k.
     bindr (i64 (y + k)) (\<lambda>y.
     let d = d smod 146097 + cd in
     if d > 0 then
       if d > 146097 then bindr (i64 (y + 400)) (\<lambda>y. Inr (y, d - 146097)) else Inr (y, d)
     else if d > - 365 then
       bindr (i64 (y - 1)) (\<lambda>y. bindr (days_per_year y m) (\<lambda>n. Inr (y, d + n)))
     else bindr (i64 (y - 400)) (\<lambda>y. Inr (y, d + 146097))))"

definition count_years :: "int \<Rightarrow> int \<Rightarrow> int \<Rightarrow> (int \<times> int) result" where
  "count_years y m d =
     (if d > 365 then
        bindr (years_loop 100 y m d) (\<lambda>(y, d).
        bindr (years_loop 4 y m d) (\<lambda>(y, d). years_loop 1 y m d))
      else Inr (y, d))"

definition n_day :: "int \<Rightarrow> int \<Rightarrow> int \<Rightarrow> int \<Rightarrow> int \<Rightarrow> int \<Rightarrow> int \<Rightarrow> fields result" where
  "n_day y m d cd hh mm ss =
     bindr (carry_days y cd) (\<lambda>(y, cd).
     bindr (era_days y m d cd) (\<lambda>(y, d).
     bindr (count_years y m d) (\<lambda>(y, d).
     bindr (if d > 28 then months_loop y m d else Inr (y, m, d)) (\<lambda>(y, m, d).
     Inr (mk_fields y m (cast8 d) hh mm ss)))))"

definition n_mon :: "int \<Rightarrow> int \<Rightarrow> int \<Rightarrow> int \<Rightarrow> int \<Rightarrow> int \<Rightarrow> int \<Rightarrow> fields result" where
  "n_mon y m d cd hh mm ss =
     bindr (if m \<noteq> 12 then
              bindr (i64 (y + m sdiv 12)) (\<lambda>y.
              let m = m smod 12 in
              if m \<le> 0 then bindr (i64 (y - 1)) (\<lambda>y. Inr (y, m + 12)) else Inr (y, m))
            else Inr (y, m)) (\<lambda>(y, m).
     n_day y (cast8 m) d cd hh mm ss)"

definition n_hour :: "int \<Rightarrow> int \<Rightarrow> int \<Rightarrow> int \<Rightarrow> int \<Rightarrow> int \<Rightarrow> int \<Rightarrow> fields result" where
  "n_hour y m d cd hh mm ss =
     bindr (i64 (cd + hh sdiv 24)) (\<lambda>cd.
     let hh = hh smod 24 in
     bindr (if hh < 0 then bindr (i64 (cd - 1)) (\<lambda>cd. Inr (cd, hh + 24)) else Inr (cd, hh)) (\<lambda>(cd, hh).
     n_mon y m d cd (cast8 hh) mm ss))"

definition n_min :: "int \<Rightarrow> int \<Rightarrow> int \<Rightarrow> int \<Rightarrow> int \<Rightarrow> int \<Rightarrow> int \<Rightarrow> fields result" where
  "n_min y m d hh ch mm ss =
     bindr (i64 (ch + mm sdiv 60)) (\<lambda>ch.
     let mm = mm smod 60 in
     bindr (if mm < 0 then bindr (i64 (ch - 1)) (\<lambda>ch. Inr (ch, mm + 60)) else Inr (ch, mm)) (\<lambda>(ch, mm).
     bindr (i64 (hh sdiv 24 + ch sdiv 24)) (\<lambda>cd.
     bindr (i64 (hh smod 24 + ch smod 24)) (\<lambda>hh.
     n_hour y m d cd hh (cast8 mm) ss))))"

definition n_sec :: "int \<Rightarrow> int \<Rightarrow> int \<Rightarrow> int \<Rightarrow> int \<Rightarrow> int \<Rightarrow> fields result" where
  "n_sec y m d hh mm ss =
     (if 0 \<le> ss \<and> ss < 60 then
        let nss = cast8 ss in
        if 0 \<le> mm \<and> mm < 60 then
          let nmm = cast8 mm in
          if 0 \<le> hh \<and> hh < 24 then
            let nhh = cast8 hh in
            if 1 \<le> d \<and> d \<le> 28 \<and> 1 \<le> m \<and> m \<le> 12 then Inr (mk_fields y (cast8 m) (cast8 d) nhh nmm nss)
            else n_mon y m d 0 nhh nmm nss
          else n_hour y m d (hh sdiv 24) (hh smod 24) nmm nss
        else n_min y m d hh (mm sdiv 60) (mm smod 60) nss
      else
        let cm = ss sdiv 60; ss = ss smod 60 in
        bindr (if ss < 0 then bindr (i64 (cm - 1)) (\<lambda>cm. Inr (cm, ss + 60)) else Inr (cm, ss)) (\<lambda>(cm, ss).
        bindr (i64 (mm sdiv 60 + cm sdiv 60)) (\<lambda>ch.
        bindr (i64 (mm smod 60 + cm smod 60)) (\<lambda>mm.
        n_min y m d hh ch mm (cast8 ss)))))"

section \<open>Steps, differences and alignment\<close>

datatype tag = second_tag | minute_tag | hour_tag | day_tag | month_tag | year_tag

definition step :: "tag \<Rightarrow> fields \<Rightarrow> int \<Rightarrow> fields result" where
  "step tag f n =
     (case tag of
        second_tag \<Rightarrow>
          bindr (i64 (fmm f + n sdiv 60)) (\<lambda>mm.
          bindr (i64 (fss f + n smod 60)) (\<lambda>ss. n_sec (fy f) (fm f) (fd f) (fhh f) mm ss))
      | minute_tag \<Rightarrow>
          bindr (i64 (fhh f + n sdiv 60)) (\<lambda>hh.
          bindr (i64 (fmm f + n smod 60)) (\<lambda>mm. n_min (fy f) (fm f) (fd f) hh 0 mm (fss f)))
      | hour_tag \<Rightarrow>
          bindr (i64 (fd f + n sdiv 24)) (\<lambda>d.
          bindr (i64 (fhh f + n smod 24)) (\<lambda>hh. n_hour (fy f) (fm f) d 0 hh (fmm f) (fss f)))
      | day_tag \<Rightarrow> n_day (fy f) (fm f) (fd f) n (fhh f) (fmm f) (fss f)
      | month_tag \<Rightarrow>
          bindr (i64 (fy f + n sdiv 12)) (\<lambda>y.
          bindr (i64 (fm f + n smod 12)) (\<lambda>m. n_mon y m (fd f) 0 (fhh f) (fmm f) (fss f)))
      | year_tag \<Rightarrow>
          bindr (i64 (fy f + n)) (\<lambda>y. Inr (mk_fields y (fm f) (fd f) (fhh f) (fmm f) (fss f))))"

definition scale_add :: "int \<Rightarrow> int \<Rightarrow> int \<Rightarrow> int result" where
  "scale_add v f a =
     (if v < 0 then
        bindr (i64 (v + 1)) (\<lambda>v. bindr (i64 (v * f)) (\<lambda>p. bindr (i64 (p + a)) (\<lambda>s. i64 (s - f))))
      else
        bindr (i64 (v - 1)) (\<lambda>v. bindr (i64 (v * f)) (\<lambda>p. bindr (i64 (p + a)) (\<lambda>s. i64 (s + f)))))"

definition ymd_ord :: "int \<Rightarrow> int \<Rightarrow> int \<Rightarrow> int result" where
  "ymd_ord y m d =
     bindr (if m \<le> 2 then i64 (y - 1) else Inr y) (\<lambda>eyear.
     bindr (if eyear \<ge> 0 then Inr eyear else i64 (eyear - 399)) (\<lambda>e.
     let era = e sdiv 400 in
     bindr (i64 (era * 400)) (\<lambda>k.
     bindr (i64 (eyear - k)) (\<lambda>yoe.
     let doy = (153 * (m + (if m > 2 then - 3 else 9)) + 2) sdiv 5 + d - 1;
         doe = yoe * 365 + yoe sdiv 4 - yoe sdiv 100 + doy in
     bindr (i64 (era * 146097)) (\<lambda>k. bindr (i64 (k + doe)) (\<lambda>k. i64 (k - 719468)))))))"

definition day_difference :: "int \<Rightarrow> int \<Rightarrow> int \<Rightarrow> int \<Rightarrow> int \<Rightarrow> int \<Rightarrow> int result" where
  "day_difference y1 m1 d1 y2 m2 d2 =
     (let a_c4_off = y1 smod 400; b_c4_off = y2 smod 400 in
      bindr (i64 (y1 - a_c4_off)) (\<lambda>a.
      bindr (i64 (y2 - b_c4_off)) (\<lambda>b.
      bindr (i64 (a - b)) (\<lambda>c4_diff.
      bindr (ymd_ord a_c4_off m1 d1) (\<lambda>o1.
      bindr (ymd_ord b_c4_off m2 d2) (\<lambda>o2.
      bindr (i64 (o1 - o2)) (\<lambda>delta.
      let (delta, c4_diff) =
            (if c4_diff > 0 \<and> delta < 0 then (delta + 2 * 146097, c4_diff - 2 * 400)
             else if c4_diff < 0 \<and> delta > 0 then (delta - 2 * 146097, c4_diff + 2 * 400)
             else (delta, c4_diff)) in
      bindr (i64 (c4_diff sdiv 400 * 146097)) (\<lambda>k. i64 (k + delta)))))))))"

primrec difference :: "tag \<Rightarrow> fields \<Rightarrow> fields \<Rightarrow> int result" where
  "difference year_tag f1 f2 = i64 (fy f1 - fy f2)"
| "difference month_tag f1 f2 =
     bindr (i64 (fy f1 - fy f2)) (\<lambda>v. scale_add v 12 (fm f1 - fm f2))"
| "difference day_tag f1 f2 = day_difference (fy f1) (fm f1) (fd f1) (fy f2) (fm f2) (fd f2)"
| "difference hour_tag f1 f2 =
     bindr (day_difference (fy f1) (fm f1) (fd f1) (fy f2) (fm f2) (fd f2)) (\<lambda>v.
     scale_add v 24 (fhh f1 - fhh f2))"
| "difference minute_tag f1 f2 =
     bindr (day_difference (fy f1) (fm f1) (fd f1) (fy f2) (fm f2) (fd f2)) (\<lambda>v.
     bindr (scale_add v 24 (fhh f1 - fhh f2)) (\<lambda>v. scale_add v 60 (fmm f1 - fmm f2)))"
| "difference second_tag f1 f2 =
     bindr (day_difference (fy f1) (fm f1) (fd f1) (fy f2) (fm f2) (fd f2)) (\<lambda>v.
     bindr (scale_add v 24 (fhh f1 - fhh f2)) (\<lambda>v.
     bindr (scale_add v 60 (fmm f1 - fmm f2)) (\<lambda>v. scale_add v 60 (fss f1 - fss f2))))"

definition align :: "tag \<Rightarrow> fields \<Rightarrow> fields" where
  "align tag f =
     (case tag of
        second_tag \<Rightarrow> f
      | minute_tag \<Rightarrow> mk_fields (fy f) (fm f) (fd f) (fhh f) (fmm f) 0
      | hour_tag \<Rightarrow> mk_fields (fy f) (fm f) (fd f) (fhh f) 0 0
      | day_tag \<Rightarrow> mk_fields (fy f) (fm f) (fd f) 0 0 0
      | month_tag \<Rightarrow> mk_fields (fy f) (fm f) 1 0 0 0
      | year_tag \<Rightarrow> mk_fields (fy f) 1 1 0 0 0)"

section \<open>Civil times\<close>

text \<open>
  A \<open>civil_time<T>\<close> is its fields; the tag of its type is an argument of the operations. The
  private constructor aligns the fields.
\<close>

definition civil_time :: "tag \<Rightarrow> int \<Rightarrow> int \<Rightarrow> int \<Rightarrow> int \<Rightarrow> int \<Rightarrow> int \<Rightarrow> fields result" where
  "civil_time tag y m d hh mm ss = bindr (n_sec y m d hh mm ss) (\<lambda>f. Inr (align tag f))"

definition civil_time_default :: fields where
  "civil_time_default = mk_fields 1970 1 1 0 0 0"

definition civil_time_convert :: "tag \<Rightarrow> fields \<Rightarrow> fields" where
  "civil_time_convert tag f = align tag f"

definition civil_time_max :: "tag \<Rightarrow> fields result" where
  "civil_time_max tag = civil_time tag (2 ^ 63 - 1) 12 31 23 59 59"

definition civil_time_min :: "tag \<Rightarrow> fields result" where
  "civil_time_min tag = civil_time tag (- (2 ^ 63)) 1 1 0 0 0"

definition plus_assign :: "tag \<Rightarrow> fields \<Rightarrow> int \<Rightarrow> fields result" where
  "plus_assign tag f n = step tag f n"

definition minus_assign :: "tag \<Rightarrow> fields \<Rightarrow> int \<Rightarrow> fields result" where
  "minus_assign tag f n =
     (if n \<noteq> - (2 ^ 63) then step tag f (- n)
      else bindr (step tag f (- (n + 1))) (\<lambda>f. step tag f 1))"

definition increment :: "tag \<Rightarrow> fields \<Rightarrow> fields result" where
  "increment tag f = plus_assign tag f 1"

definition decrement :: "tag \<Rightarrow> fields \<Rightarrow> fields result" where
  "decrement tag f = minus_assign tag f 1"

definition civil_less :: "fields \<Rightarrow> fields \<Rightarrow> bool" where
  "civil_less lhs rhs \<longleftrightarrow>
     fy lhs < fy rhs \<or>
     (fy lhs = fy rhs \<and>
      (fm lhs < fm rhs \<or>
       (fm lhs = fm rhs \<and>
        (fd lhs < fd rhs \<or>
         (fd lhs = fd rhs \<and>
          (fhh lhs < fhh rhs \<or>
           (fhh lhs = fhh rhs \<and>
            (fmm lhs < fmm rhs \<or>
             (fmm lhs = fmm rhs \<and> fss lhs < fss rhs)))))))))"

definition civil_le :: "fields \<Rightarrow> fields \<Rightarrow> bool" where
  "civil_le lhs rhs \<longleftrightarrow> \<not> civil_less rhs lhs"

definition civil_eq :: "fields \<Rightarrow> fields \<Rightarrow> bool" where
  "civil_eq lhs rhs \<longleftrightarrow>
     fy lhs = fy rhs \<and> fm lhs = fm rhs \<and> fd lhs = fd rhs \<and>
     fhh lhs = fhh rhs \<and> fmm lhs = fmm rhs \<and> fss lhs = fss rhs"

section \<open>Weekdays\<close>

datatype weekday = monday | tuesday | wednesday | thursday | friday | saturday | sunday

definition k_weekday_by_mon_off :: "weekday list" where
  "k_weekday_by_mon_off =
     [monday, tuesday, wednesday, thursday, friday, saturday, sunday,
      monday, tuesday, wednesday, thursday, friday, saturday]"

definition k_weekday_offsets :: "int list" where
  "k_weekday_offsets = [- 1, 0, 3, 2, 5, 0, 3, 5, 1, 4, 6, 2, 4]"

definition get_weekday :: "fields \<Rightarrow> weekday" where
  "get_weekday cd =
     (let wd = 2400 + fy cd smod 400 - of_bool (fm cd < 3);
          wd = wd + (wd sdiv 4 - wd sdiv 100 + wd sdiv 400);
          wd = wd + (k_weekday_offsets ! nat (fm cd) + fd cd)
      in k_weekday_by_mon_off ! nat (wd smod 7 + 6))"

text \<open>The loops to the next and to the previous day with a weekday: step, and test.\<close>

partial_function (option) weekday_loop ::
    "(fields \<Rightarrow> fields result) \<Rightarrow> fields \<Rightarrow> weekday \<Rightarrow> fields result option" where
  "weekday_loop move cd wd =
     (case move cd of
        Inl e \<Rightarrow> Some (Inl e)
      | Inr cd \<Rightarrow> if get_weekday cd \<noteq> wd then weekday_loop move cd wd else Some (Inr cd))"

declare weekday_loop.simps [code]

definition next_weekday :: "fields \<Rightarrow> weekday \<Rightarrow> fields result option" where
  "next_weekday = weekday_loop (\<lambda>cd. plus_assign day_tag cd 1)"

definition prev_weekday :: "fields \<Rightarrow> weekday \<Rightarrow> fields result option" where
  "prev_weekday = weekday_loop (\<lambda>cd. minus_assign day_tag cd 1)"

definition k_month_offsets :: "int list" where
  "k_month_offsets = [- 1, 0, 31, 59, 90, 120, 151, 181, 212, 243, 273, 304, 334]"

definition get_yearday :: "fields \<Rightarrow> int" where
  "get_yearday cd =
     (let feb29 = of_bool (fm cd > 2 \<and> is_leap_year (fy cd)) in k_month_offsets ! nat (fm cd) + feb29 + fd cd)"

end
