(* ===== verification/Civil_Days.thy ===== *)
theory Civil_Days
  imports Civil_Time
begin

text \<open>
  The calendar that civil times are measured by: the number of a day, counted from 1970-01-01, over
  unbounded years, and what the helpers of \<open>civil_time_detail.h\<close> compute of it.
\<close>

section \<open>Truncating division\<close>

lemma sdiv_nonneg: "0 \<le> (x :: int) \<Longrightarrow> 0 < n \<Longrightarrow> x sdiv n = x div n \<and> x smod n = x mod n"
  by (auto simp: signed_divide_int_def signed_modulo_int_def sgn_if minus_mult_div_eq_mod)

lemma sdiv_neg: "(x :: int) < 0 \<Longrightarrow> 0 < n \<Longrightarrow> x sdiv n = - ((- x) div n) \<and> x smod n = - ((- x) mod n)"
proof -
  assume x: "x < 0" "0 < n"
  then have "x sdiv n = - ((- x) div n)" by (simp add: signed_divide_int_def)
  moreover have "x smod n = - ((- x) mod n)"
    using x by (simp add: signed_modulo_int_def)
  ultimately show ?thesis by simp
qed

lemma smod_bounds: "0 < n \<Longrightarrow> - n < (x :: int) smod n \<and> x smod n < n"
proof (cases "0 \<le> x")
  case True
  assume "0 < n"
  with True pos_mod_bound [of n x] pos_mod_sign [of n x] sdiv_nonneg [of x n] show ?thesis by linarith
next
  case False
  assume "0 < n"
  with False pos_mod_bound [of n "- x"] pos_mod_sign [of n "- x"] sdiv_neg [of x n] show ?thesis by linarith
qed

text \<open>The correction of a negative remainder makes the truncating division the one that rounds down.\<close>

lemma floor_correction:
  assumes "0 < n"
  shows "(x :: int) sdiv n - of_bool (x smod n < 0) = x div n"
    "x smod n + (if x smod n < 0 then n else 0) = x mod n"
proof -
  let ?q = "x sdiv n - of_bool (x smod n < 0)" and ?r = "x smod n + (if x smod n < 0 then n else 0)"
  have "x = ?q * n + ?r" using sdiv_mult_smod_eq [of x n] by (simp add: algebra_simps)
  moreover have "0 \<le> ?r" "?r < n" using smod_bounds [OF assms, of x] by auto
  ultimately show "?q = x div n" "?r = x mod n"
    using int_div_pos_eq [of x n ?q ?r] int_mod_pos_eq [of x n ?q ?r] by (simp_all add: mult.commute)
qed

lemma smod_0_iff: "0 < n \<Longrightarrow> (x :: int) smod n = 0 \<longleftrightarrow> x mod n = 0"
  using floor_correction(2) [of n x] smod_bounds [of n x] by (auto split: if_splits)

lemma is_leap_year_mod: "is_leap_year y \<longleftrightarrow> y mod 4 = 0 \<and> (y mod 100 \<noteq> 0 \<or> y mod 400 = 0)"
  by (simp add: is_leap_year_def smod_0_iff)

section \<open>Leap days\<close>

text \<open>The leap years up to a year, and how many of them a period has.\<close>

definition leap_count :: "int \<Rightarrow> int" where
  "leap_count z = z div 4 - z div 100 + z div 400"

lemma leap_count_era: "leap_count (400 * q + r) = 97 * q + leap_count r"
proof -
  have "(400 * q + r) div 4 = 100 * q + r div 4" using div_mult_self3 [of 4 "100 * q" r] by simp
  moreover have "(400 * q + r) div 100 = 4 * q + r div 100" using div_mult_self3 [of 100 "4 * q" r] by simp
  ultimately show ?thesis by (simp add: leap_count_def)
qed

lemma leap_count_400: "leap_count (z + 400) = leap_count z + 97"
  using leap_count_era [of 1 z] by (simp add: add.commute)

definition leap_facts :: "int \<Rightarrow> bool" where
  "leap_facts r \<longleftrightarrow>
     leap_count (r + 1) - leap_count r = of_bool ((r + 1) mod 4 = 0 \<and> ((r + 1) mod 100 \<noteq> 0 \<or> (r + 1) mod 400 = 0)) \<and>
     leap_count (r + 4) - leap_count r =
       of_bool ((r + 1) mod 400 = 0 \<or> (r + 1) mod 400 > 300 \<or> ((r + 1) mod 400 - 1) mod 100 < 96) \<and>
     leap_count (r + 100) - leap_count r = 24 + of_bool ((r + 1) mod 400 = 0 \<or> (r + 1) mod 400 > 300)"

lemma leap_facts_era: "list_all leap_facts [0..399]"
  by code_simp

lemma leap_facts_all: "leap_facts z"
proof -
  define q r where "q = z div 400" and "r = z mod 400"
  have z: "z = 400 * q + r" and r: "0 \<le> r" "r < 400" by (simp_all add: q_def r_def)
  have base: "leap_facts r" using leap_facts_era r by (simp add: list_all_iff)
  have shift: "leap_count (z + k) - leap_count z = leap_count (r + k) - leap_count r" for k
    using leap_count_era [of q "r + k"] leap_count_era [of q r] unfolding z add.assoc by simp
  have eq: "z + 1 = (r + 1) + 4 * (100 * q)" "z + 1 = (r + 1) + 100 * (4 * q)" "z + 1 = (r + 1) + 400 * q"
    unfolding z by simp_all
  have mods: "(z + 1) mod 4 = (r + 1) mod 4" "(z + 1) mod 100 = (r + 1) mod 100" "(z + 1) mod 400 = (r + 1) mod 400"
    by (simp only: eq(1) mod_mult_self2, simp only: eq(2) mod_mult_self2, simp only: eq(3) mod_mult_self2)
  show ?thesis using base unfolding leap_facts_def shift mods .
qed

lemma leap_count_1: "leap_count (z + 1) - leap_count z = of_bool (is_leap_year (z + 1))"
  unfolding is_leap_year_mod using leap_facts_all [of z] unfolding leap_facts_def by (rule conjunct1)

lemma leap_count_4:
  "leap_count (z + 4) - leap_count z =
     of_bool ((z + 1) mod 400 = 0 \<or> (z + 1) mod 400 > 300 \<or> ((z + 1) mod 400 - 1) mod 100 < 96)"
  using leap_facts_all [of z, unfolded leap_facts_def, THEN conjunct2, THEN conjunct1] .

lemma leap_count_100:
  "leap_count (z + 100) - leap_count z = 24 + of_bool ((z + 1) mod 400 = 0 \<or> (z + 1) mod 400 > 300)"
  using leap_facts_all [of z, unfolded leap_facts_def, THEN conjunct2, THEN conjunct2] .

section \<open>The number of a day\<close>

text \<open>
  The days from 1970-01-01 to a day of a month: those of the years before, one more for every leap
  day that has passed, and those of the months before.
\<close>

definition month_offset :: "int \<Rightarrow> int" where
  "month_offset m = [0, 31, 59, 90, 120, 151, 181, 212, 243, 273, 304, 334] ! nat (m - 1)"

definition day_number :: "int \<Rightarrow> int \<Rightarrow> int \<Rightarrow> int" where
  "day_number y m d = 365 * y + leap_count (if m > 2 then y else y - 1) + month_offset m + d - 719528"

definition valid_date :: "int \<Rightarrow> int \<Rightarrow> int \<Rightarrow> bool" where
  "valid_date y m d \<longleftrightarrow> 1 \<le> m \<and> m \<le> 12 \<and> 1 \<le> d \<and> d \<le> days_per_month y m"

lemma day_number_day: "day_number y m d = day_number y m 0 + d"
  by (simp add: day_number_def)

lemma day_number_epoch: "day_number 1970 1 1 = 0"
  by code_simp

text \<open>The year that decides on the leap day in the year behind a month.\<close>

lemma leap_shift: "(if m > 2 then y else y - 1) + 1 = y + of_bool ((m :: int) > 2)" for y :: int
  by simp

lemma day_number_years:
  "day_number (y + k) m d - day_number y m d =
     365 * k + (leap_count ((if m > 2 then y else y - 1) + k) - leap_count (if m > 2 then y else y - 1))"
proof -
  have "(if m > 2 then y + k else y + k - 1) = (if m > 2 then y else y - 1) + k" by simp
  then show ?thesis by (simp only: day_number_def) simp
qed

lemma day_number_1_year: "day_number (y + 1) m d - day_number y m d = (if is_leap_year (y + of_bool (m > 2)) then 366 else 365)"
  using day_number_years [of y 1 m d] leap_count_1 [of y] leap_count_1 [of "y - 1"] by (cases "m > 2") simp_all

lemma day_number_400_years: "day_number (y + 400) m d = day_number y m d + 146097"
  using day_number_years [of y 400 m d] leap_count_400 [of "if m > 2 then y else y - 1"] by simp

lemma day_number_eras: "day_number (y + 400 * k) m d = day_number y m d + 146097 * k"
proof -
  have "leap_count ((if m > 2 then y else y - 1) + 400 * k) = 97 * k + leap_count (if m > 2 then y else y - 1)"
    using leap_count_era [of k "if m > 2 then y else y - 1"] by (simp add: add.commute)
  then show ?thesis using day_number_years [of y "400 * k" m d] by linarith
qed

lemma day_number_month:
  assumes "1 \<le> m" "m < 12"
  shows "day_number y (m + 1) d = day_number y m d + days_per_month y m"
proof -
  have feb: "leap_count y - leap_count (y - 1) = of_bool (is_leap_year y)"
    using leap_count_1 [of "y - 1"] by simp
  have "m = 1 \<or> m = 2 \<or> m = 3 \<or> m = 4 \<or> m = 5 \<or> m = 6 \<or> m = 7 \<or> m = 8 \<or> m = 9 \<or> m = 10 \<or> m = 11"
    using month_cases [of m] assms by auto
  then show ?thesis
    using feb by (elim disjE) (simp_all add: day_number_def month_offset_def days_per_month_def k_days_per_month_def)
qed

lemma day_number_december: "day_number (y + 1) 1 d = day_number y 12 d + days_per_month y 12"
  by (simp add: day_number_def month_offset_def days_per_month_def k_days_per_month_def)

text \<open>The day after a day, month by month: this and the epoch determine the numbers.\<close>

definition next_day :: "int \<times> int \<times> int \<Rightarrow> int \<times> int \<times> int" where
  "next_day = (\<lambda>(y, m, d).
     if d < days_per_month y m then (y, m, d + 1) else if m < 12 then (y, m + 1, 1) else (y + 1, 1, 1))"

lemma day_number_next:
  assumes "valid_date y m d" "next_day (y, m, d) = (y', m', d')"
  shows "valid_date y' m' d'" "day_number y' m' d' = day_number y m d + 1"
proof -
  have m: "1 \<le> m" "m \<le> 12" "1 \<le> d" "d \<le> days_per_month y m" using assms(1) by (simp_all add: valid_date_def)
  show "valid_date y' m' d'"
    using assms m days_per_month_pos [of m' y'] by (auto simp: next_day_def valid_date_def split: if_splits)
  show "day_number y' m' d' = day_number y m d + 1"
    using assms(2) m day_number_month [of m y 0] day_number_december [of y 0]
    by (auto simp: next_day_def day_number_day [of _ _ d] day_number_day [of _ _ "d + 1"]
        day_number_day [of _ _ 1] split: if_splits)
qed

text \<open>The numbers are in the order of the dates.\<close>

lemma day_number_months: "1 \<le> m \<Longrightarrow> m < m' \<Longrightarrow> m' \<le> 12 \<Longrightarrow> day_number y m 0 + days_per_month y m \<le> day_number y m' 0"
proof (induction "nat (m' - m)" arbitrary: m' rule: less_induct)
  case less
  show ?case
  proof (cases "m' = m + 1")
    case True
    then show ?thesis using day_number_month [of m y 0] less.prems by simp
  next
    case False
    have "day_number y m 0 + days_per_month y m \<le> day_number y (m' - 1) 0"
      using False less.prems by (intro less.hyps) auto
    moreover have "day_number y m' 0 = day_number y (m' - 1) 0 + days_per_month y (m' - 1)"
      using day_number_month [of "m' - 1" y 0] less.prems by simp
    moreover have "0 \<le> days_per_month y (m' - 1)" using days_per_month_pos [of "m' - 1" y] less.prems by simp
    ultimately show ?thesis by linarith
  qed
qed

lemma day_number_year_mono: "y < y' \<Longrightarrow> day_number (y + 1) 1 0 \<le> day_number y' 1 0"
proof (induction "nat (y' - y)" arbitrary: y' rule: less_induct)
  case less
  show ?case
  proof (cases "y' = y + 1")
    case False
    have "day_number (y + 1) 1 0 \<le> day_number (y' - 1) 1 0"
      using False less.prems by (intro less.hyps) auto
    then show ?thesis using day_number_1_year [of "y' - 1" 1 0] by (simp split: if_splits)
  qed simp
qed

lemma day_number_year_bounds:
  assumes "valid_date y m d"
  shows "day_number y 1 0 < day_number y m d" "day_number y m d \<le> day_number (y + 1) 1 0"
proof -
  have m: "1 \<le> m" "m \<le> 12" "1 \<le> d" "d \<le> days_per_month y m" using assms by (simp_all add: valid_date_def)
  have "day_number y 1 0 \<le> day_number y m 0"
    using day_number_months [of 1 m y] days_per_month_pos [of 1 y] m by (cases "m = 1") auto
  then show "day_number y 1 0 < day_number y m d" using m by (simp add: day_number_day [of y m d])
  have "day_number y m 0 + days_per_month y m \<le> day_number (y + 1) 1 0"
    using day_number_months [of m 12 y] day_number_december [of y 0] days_per_month_pos [of 12 y] m
    by (cases "m = 12") auto
  then show "day_number y m d \<le> day_number (y + 1) 1 0" using m by (simp add: day_number_day [of y m d])
qed

definition date_less :: "int \<times> int \<times> int \<Rightarrow> int \<times> int \<times> int \<Rightarrow> bool" where
  "date_less = (\<lambda>(y, m, d) (y', m', d'). y < y' \<or> (y = y' \<and> (m < m' \<or> (m = m' \<and> d < d'))))"

lemma date_less_number:
  assumes "valid_date y m d" "valid_date y' m' d'" "date_less (y, m, d) (y', m', d')"
  shows "day_number y m d < day_number y' m' d'"
proof -
  have m: "1 \<le> m" "m \<le> 12" "1 \<le> d" "d \<le> days_per_month y m" "1 \<le> m'" "m' \<le> 12" "1 \<le> d'"
    using assms(1,2) by (simp_all add: valid_date_def)
  consider "y < y'" | "y = y'" "m < m'" | "y = y'" "m = m'" "d < d'"
    using assms(3) by (auto simp: date_less_def)
  then show ?thesis
  proof cases
    case 1
    then show ?thesis
      using day_number_year_bounds(2) [OF assms(1)] day_number_year_bounds(1) [OF assms(2)]
        day_number_year_mono [of y y'] by linarith
  next
    case 2
    then show ?thesis
      using day_number_months [of m m' y] m day_number_day [of y m d] day_number_day [of y m' d'] by simp
  next
    case 3
    then show ?thesis using day_number_day [of y m d] day_number_day [of y m d'] by simp
  qed
qed

lemma date_trichotomy: "date_less a b \<or> date_less b a \<or> a = b"
  by (cases a; cases b) (simp add: date_less_def, linarith)

lemma day_number_less_iff:
  assumes "valid_date y m d" "valid_date y' m' d'"
  shows "day_number y m d < day_number y' m' d' \<longleftrightarrow> date_less (y, m, d) (y', m', d')"
  using date_less_number [OF assms] date_less_number [OF assms(2,1)]
    date_trichotomy [of "(y, m, d)" "(y', m', d')"] by fastforce

lemma day_number_inject:
  assumes "valid_date y m d" "valid_date y' m' d'" "day_number y m d = day_number y' m' d'"
  shows "y = y' \<and> m = m' \<and> d = d'"
  using day_number_less_iff [OF assms(1,2)] day_number_less_iff [OF assms(2,1)] assms(3)
    date_trichotomy [of "(y, m, d)" "(y', m', d')"] by simp

section \<open>The periods of the code\<close>

lemma i64_Inr [simp]: "- (2 ^ 63) \<le> x \<Longrightarrow> x < 2 ^ 63 \<Longrightarrow> i64 x = Inr x"
  by (simp add: i64_def)

lemma cast8_id: "- 128 \<le> x \<Longrightarrow> x < 128 \<Longrightarrow> cast8 x = x"
  by (simp add: cast8_def)

lemma year_index_eq:
  assumes "- (2 ^ 63) \<le> y" "y < 2 ^ 63 - 1"
  shows "year_index y m = Inr ((y + of_bool (m > 2)) mod 400)"
proof -
  define z where "z = y + of_bool (m > 2)"
  have "i64 z = Inr z" using assms by (intro i64_Inr) (auto simp: z_def)
  moreover have "(z smod 400 + 400) smod 400 = z mod 400"
  proof -
    have "0 \<le> z smod 400 + 400" using smod_bounds [of 400 z] by simp
    then have "(z smod 400 + 400) smod 400 = (z smod 400 + 400) mod 400" by (simp add: sdiv_nonneg)
    also have "\<dots> = (z smod 400 + (if z smod 400 < 0 then 400 else 0)) mod 400" by simp
    also have "\<dots> = z mod 400" using floor_correction(2) [of 400 z] by simp
    finally show ?thesis .
  qed
  ultimately show ?thesis by (simp add: year_index_def z_def)
qed

lemma period_days_eq:
  assumes "- (2 ^ 63) \<le> y" "y < 2 ^ 63 - 1" "k = 100 \<or> k = 4 \<or> k = 1"
  shows "period_days k y m = Inr (day_number (y + k) m 0 - day_number y m 0)"
proof -
  define z where "z = (if m > 2 then y else y - 1)"
  have z: "y + of_bool (m > 2) = z + 1" by (simp add: z_def)
  have n: "day_number (y + k) m 0 - day_number y m 0 = 365 * k + (leap_count (z + k) - leap_count z)"
    unfolding z_def by (rule day_number_years)
  have yi: "year_index y m = Inr ((z + 1) mod 400)" using year_index_eq [OF assms(1,2)] z by simp
  have smod: "(z + 1) mod 400 \<noteq> 0 \<Longrightarrow> ((z + 1) mod 400 - 1) smod 100 = ((z + 1) mod 400 - 1) mod 100"
    using pos_mod_sign [of 400 "z + 1"] sdiv_nonneg [of "(z + 1) mod 400 - 1" 100] by simp
  have "i64 (z + 1) = Inr (z + 1)" using assms(1,2) unfolding z [symmetric] by (intro i64_Inr) auto
  then have "days_per_year y m = Inr (365 + (leap_count (z + 1) - leap_count z))"
    unfolding days_per_year_def z leap_count_1 by simp
  moreover have "days_per_4years y m = Inr (1460 + (leap_count (z + 4) - leap_count z))"
    using smod by (auto simp: days_per_4years_def yi leap_count_4)
  moreover have "days_per_century y m = Inr (36500 + (leap_count (z + 100) - leap_count z))"
    by (simp add: days_per_century_def yi leap_count_100)
  ultimately show ?thesis using assms(3) n by (auto simp: period_days_def)
qed

lemma of_bool_bounds: "0 \<le> (of_bool P :: int)" "of_bool P \<le> (1 :: int)"
  by simp_all

lemma period_length:
  "365 \<le> day_number (y + 1) m 0 - day_number y m 0" "day_number (y + 1) m 0 - day_number y m 0 \<le> 366"
  "1460 \<le> day_number (y + 4) m 0 - day_number y m 0" "day_number (y + 4) m 0 - day_number y m 0 \<le> 1461"
  "36524 \<le> day_number (y + 100) m 0 - day_number y m 0" "day_number (y + 100) m 0 - day_number y m 0 \<le> 36525"
proof -
  define z where "z = (if m > 2 then y else y - 1)"
  note ys = day_number_years [of y _ m 0, folded z_def]
  show "365 \<le> day_number (y + 1) m 0 - day_number y m 0" "day_number (y + 1) m 0 - day_number y m 0 \<le> 366"
    unfolding ys leap_count_1 by simp_all
  show "1460 \<le> day_number (y + 4) m 0 - day_number y m 0" "day_number (y + 4) m 0 - day_number y m 0 \<le> 1461"
    unfolding ys leap_count_4
    using of_bool_bounds [of "(z + 1) mod 400 = 0 \<or> (z + 1) mod 400 > 300 \<or> ((z + 1) mod 400 - 1) mod 100 < 96"]
    by linarith+
  show "36524 \<le> day_number (y + 100) m 0 - day_number y m 0" "day_number (y + 100) m 0 - day_number y m 0 \<le> 36525"
    unfolding ys leap_count_100
    using of_bool_bounds [of "(z + 1) mod 400 = 0 \<or> (z + 1) mod 400 > 300"] by linarith+
qed

text \<open>
  The loop over the periods keeps the day and stops within one. It neither leaves the 64-bit range
  when the year has room for the days.
\<close>

lemma years_loop_eq:
  assumes "- (2 ^ 63) \<le> y" "y + d < 2 ^ 62 + 2 ^ 61" "0 < d" "d < 2 ^ 61" "k = 100 \<or> k = 4 \<or> k = 1"
  shows "\<exists>y' d'. years_loop k y m d = Inr (y', d') \<and> day_number y' m d' = day_number y m d \<and>
    0 < d' \<and> d' \<le> day_number (y' + k) m 0 - day_number y' m 0 \<and> d' \<le> d \<and> y \<le> y' \<and> y' + d' \<le> y + d"
  using assms(1-4)
proof (induction "nat d" arbitrary: y d rule: less_induct)
  case less
  let ?n = "day_number (y + k) m 0 - day_number y m 0"
  have n: "period_days k y m = Inr ?n" using less.prems assms(5) by (intro period_days_eq) auto
  have long: "k < ?n" "0 < k" using assms(5) period_length [of y m] by auto
  show ?case
  proof (cases "d > ?n")
    case True
    have "\<exists>y' d'. years_loop k (y + k) m (d - ?n) = Inr (y', d') \<and>
        day_number y' m d' = day_number (y + k) m (d - ?n) \<and> 0 < d' \<and>
        d' \<le> day_number (y' + k) m 0 - day_number y' m 0 \<and> d' \<le> d - ?n \<and> y + k \<le> y' \<and> y' + d' \<le> y + k + (d - ?n)"
      using True long less.prems by (intro less.hyps) auto
    moreover have "years_loop k y m d = years_loop k (y + k) m (d - ?n)"
      using True n long less.prems by (subst years_loop.simps) simp
    moreover have "day_number (y + k) m (d - ?n) = day_number y m d"
      using day_number_day [of "y + k" m "d - ?n"] day_number_day [of y m d] by linarith
    ultimately show ?thesis using long by fastforce
  next
    case False
    have "years_loop k y m d = Inr (y, d)" using False n by (subst years_loop.simps) simp
    then show ?thesis using False less.prems(3) by auto
  qed
qed

lemma months_loop_eq:
  assumes "1 \<le> m" "m \<le> 12" "- (2 ^ 63) \<le> y" "y + d < 2 ^ 62 + 2 ^ 61" "0 < d"
  shows "\<exists>y' m' d'. months_loop y m d = Inr (y', m', d') \<and> valid_date y' m' d' \<and>
    day_number y' m' d' = day_number y m d \<and> y \<le> y' \<and> y' \<le> y + d"
  using assms
proof (induction "nat d" arbitrary: y m d rule: less_induct)
  case less
  let ?n = "days_per_month y m"
  have n: "28 \<le> ?n" using days_per_month_pos less.prems by blast
  show ?case
  proof (cases "d > ?n")
    case True
    define y1 m1 where "y1 = (if m = 12 then y + 1 else y)" and "m1 = (if m = 12 then 1 else m + 1)"
    have "months_loop y m d = months_loop y1 m1 (d - ?n)"
      using True less.prems n by (subst months_loop.simps) (auto simp: y1_def m1_def Let_def)
    moreover have "day_number y1 m1 (d - ?n) = day_number y m d"
      using day_number_month [of m y 0] day_number_december [of y 0] less.prems
        day_number_day [of y1 m1 "d - ?n"] day_number_day [of y m d]
      by (auto simp: y1_def m1_def)
    moreover have "\<exists>y' m' d'. months_loop y1 m1 (d - ?n) = Inr (y', m', d') \<and> valid_date y' m' d' \<and>
        day_number y' m' d' = day_number y1 m1 (d - ?n) \<and> y1 \<le> y' \<and> y' \<le> y1 + (d - ?n)"
      using True less.prems n by (intro less.hyps) (auto simp: y1_def m1_def)
    moreover have "y \<le> y1" "y1 \<le> y + 1" by (auto simp: y1_def)
    ultimately show ?thesis using n by fastforce
  next
    case False
    have "months_loop y m d = Inr (y, m, d)"
      using False less.prems by (subst months_loop.simps) (simp add: Let_def)
    then show ?thesis using False less.prems by (auto simp: valid_date_def)
  qed
qed

end
