(* ===== verification/Civil_Normal.thy ===== *)
theory Civil_Normal
  imports Civil_Days
begin

text \<open>
  Normalization keeps the moment: the fields that \<open>n_day\<close> to \<open>n_sec\<close> return are valid and count the
  same days and seconds as the arguments, for all 64-bit arguments and every year that leaves some
  room, without an overflow on the way.
\<close>

section \<open>Days\<close>

lemma int64_quotient:
  assumes "- (2 ^ 63) \<le> x" "x < 2 ^ 63"
  shows "- (2 ^ 46) < (x :: int) sdiv 146097" "x sdiv 146097 < 2 ^ 46"
    "- 146097 < x smod 146097" "x smod 146097 < 146097" "x sdiv 146097 * 146097 + x smod 146097 = x"
  using sdiv_mult_smod_eq [of x 146097] smod_bounds [of 146097 x] assms by auto

lemma carry_days_eq:
  assumes "- (2 ^ 62) - 2 ^ 60 \<le> y" "y \<le> 2 ^ 62 + 2 ^ 60" "- (2 ^ 63) \<le> cd" "cd < 2 ^ 63"
  obtains y' cd' where "carry_days y cd = Inr (y', cd')" "0 \<le> cd'" "cd' < 146097"
    "day_number y' m 0 + cd' = day_number y m 0 + cd" "y - 2 ^ 56 \<le> y'" "y' \<le> y + 2 ^ 56"
proof -
  define q r where "q = cd sdiv 146097" and "r = cd smod 146097"
  note qr = int64_quotient [OF assms(3,4), folded q_def r_def]
  define y' cd' where "y' = (if r < 0 then y + q * 400 - 400 else y + q * 400)"
    and "cd' = (if r < 0 then r + 146097 else r)"
  have "i64 (q * 400) = Inr (q * 400)" "i64 (y + q * 400) = Inr (y + q * 400)"
      "i64 (y + q * 400 - 400) = Inr (y + q * 400 - 400)"
    using qr assms by (auto intro!: i64_Inr)
  then have "carry_days y cd = Inr (y', cd')"
    by (simp add: carry_days_def q_def [symmetric] r_def [symmetric] y'_def cd'_def Let_def)
  moreover have "day_number y' m 0 + cd' = day_number y m 0 + cd"
    using day_number_eras [of y q m 0] day_number_eras [of y "q - 1" m 0] qr(5)
    by (simp add: y'_def cd'_def algebra_simps)
  ultimately show thesis using that qr by (auto simp: y'_def cd'_def split: if_splits)
qed

lemma era_days_eq:
  assumes "- (2 ^ 62) - 2 ^ 61 \<le> y" "y \<le> 2 ^ 62 + 2 ^ 60 + 2 ^ 57" "- (2 ^ 63) \<le> d" "d < 2 ^ 63" "0 \<le> cd" "cd < 146097"
  obtains y' d' where "era_days y m d cd = Inr (y', d')" "0 < d'" "d' \<le> 146097"
    "day_number y' m d' = day_number y m 0 + d + cd" "y - 2 ^ 56 \<le> y'" "y' \<le> y + 2 ^ 56"
proof -
  define q e where "q = d sdiv 146097" and "e = d smod 146097 + cd"
  note qr = int64_quotient [OF assms(3,4), folded q_def]
  define y1 where "y1 = y + q * 400"
  have bounds: "- (2 ^ 63) < y1 - 400" "y1 + 400 < 2 ^ 62 + 2 ^ 61" using qr assms by (auto simp: y1_def)
  have "i64 (q * 400) = Inr (q * 400)" using qr by (intro i64_Inr) auto
  moreover have "i64 y1 = Inr y1" "i64 (y1 + 400) = Inr (y1 + 400)" "i64 (y1 - 400) = Inr (y1 - 400)"
      "i64 (y1 - 1) = Inr (y1 - 1)"
    using bounds by (auto intro!: i64_Inr)
  moreover have year: "days_per_year (y1 - 1) m = Inr (day_number y1 m 0 - day_number (y1 - 1) m 0)"
    using period_days_eq [of "y1 - 1" 1 m] bounds by (simp add: period_days_def)
  ultimately have eq: "era_days y m d cd =
      (if e > 0 then if e > 146097 then Inr (y1 + 400, e - 146097) else Inr (y1, e)
       else if e > - 365 then Inr (y1 - 1, e + (day_number y1 m 0 - day_number (y1 - 1) m 0))
       else Inr (y1 - 400, e + 146097))"
    by (simp add: era_days_def q_def [symmetric] e_def [symmetric] y1_def [symmetric] Let_def)
  have num: "day_number y1 m 0 + e = day_number y m 0 + d + cd"
    using day_number_eras [of y q m 0] qr(5) by (simp add: y1_def e_def algebra_simps)
  have e: "- 146097 < e" "e < 2 * 146097" using qr assms by (auto simp: e_def)
  have near: "y - 2 ^ 55 \<le> y1" "y1 \<le> y + 2 ^ 55" using qr by (auto simp: y1_def)
  note shift = day_number_400_years [of y1 m 0] day_number_400_years [of "y1 - 400" m 0]
  consider "e > 146097" | "0 < e" "e \<le> 146097" | "e \<le> 0" "e > - 365" | "e \<le> - 365" by linarith
  then show thesis
  proof cases
    case 1
    then show ?thesis
      using that [of "y1 + 400" "e - 146097"] eq num e near shift day_number_day [of "y1 + 400" m "e - 146097"] by simp
  next
    case 2
    then show ?thesis using that [of y1 e] eq num near day_number_day [of y1 m e] by simp
  next
    case 3
    let ?n = "day_number y1 m 0 - day_number (y1 - 1) m 0"
    have "365 \<le> ?n" "?n \<le> 366" using period_length(1,2) [of "y1 - 1" m] by simp_all
    then show ?thesis
      using 3 that [of "y1 - 1" "e + ?n"] eq num near day_number_day [of "y1 - 1" m "e + ?n"] by simp
  next
    case 4
    then show ?thesis
      using that [of "y1 - 400" "e + 146097"] eq num e near shift day_number_day [of "y1 - 400" m "e + 146097"] by simp
  qed
qed

lemma count_years_eq:
  assumes "- (2 ^ 63) \<le> y" "y < 2 ^ 62 + 2 ^ 61 - 2 ^ 59" "0 < d" "d \<le> 146097"
  obtains y' d' where "count_years y m d = Inr (y', d')" "0 < d'" "d' \<le> 366"
    "day_number y' m d' = day_number y m d" "y \<le> y'" "y' \<le> y + 146097"
proof (cases "d > 365")
  case True
  obtain y1 d1 where 1: "years_loop 100 y m d = Inr (y1, d1)" "day_number y1 m d1 = day_number y m d" "0 < d1"
      "d1 \<le> d" "y \<le> y1" "y1 + d1 \<le> y + d"
    using years_loop_eq [of y d 100 m] assms by auto
  obtain y2 d2 where 2: "years_loop 4 y1 m d1 = Inr (y2, d2)" "day_number y2 m d2 = day_number y1 m d1" "0 < d2"
      "d2 \<le> d1" "y1 \<le> y2" "y2 + d2 \<le> y1 + d1"
    using years_loop_eq [of y1 d1 4 m] assms 1 by auto
  obtain y3 d3 where 3: "years_loop 1 y2 m d2 = Inr (y3, d3)" "day_number y3 m d3 = day_number y2 m d2" "0 < d3"
      "d3 \<le> day_number (y3 + 1) m 0 - day_number y3 m 0" "y2 \<le> y3" "y3 + d3 \<le> y2 + d2"
    using years_loop_eq [of y2 d2 1 m] assms 1 2 by auto
  have "d3 \<le> 366" using 3(4) period_length(2) [of y3 m] by linarith
  then show ?thesis
    using that [of y3 d3] True 1 2 3 assms(4) by (simp add: count_years_def)
next
  case False
  then show ?thesis using that [of y d] assms by (simp add: count_years_def)
qed

text \<open>A month in its range, and any number of days in two parts.\<close>

lemma n_day_eq:
  assumes "1 \<le> m" "m \<le> 12" "- (2 ^ 62) - 2 ^ 60 \<le> y" "y \<le> 2 ^ 62 + 2 ^ 60"
    "- (2 ^ 63) \<le> d" "d < 2 ^ 63" "- (2 ^ 63) \<le> cd" "cd < 2 ^ 63"
  obtains y' m' d' where "n_day y m d cd hh mm ss = Inr (mk_fields y' m' d' hh mm ss)" "valid_date y' m' d'"
    "day_number y' m' d' = day_number y m d + cd"
proof -
  obtain y1 cd1 where 1: "carry_days y cd = Inr (y1, cd1)" "0 \<le> cd1" "cd1 < 146097"
      "day_number y1 m 0 + cd1 = day_number y m 0 + cd" "y - 2 ^ 56 \<le> y1" "y1 \<le> y + 2 ^ 56"
    using carry_days_eq [of y cd m] assms by auto
  obtain y2 d2 where 2: "era_days y1 m d cd1 = Inr (y2, d2)" "0 < d2" "d2 \<le> 146097"
      "day_number y2 m d2 = day_number y1 m 0 + d + cd1" "y1 - 2 ^ 56 \<le> y2" "y2 \<le> y1 + 2 ^ 56"
    using era_days_eq [of y1 d cd1 m] assms 1 by auto
  obtain y3 d3 where 3: "count_years y2 m d2 = Inr (y3, d3)" "0 < d3" "d3 \<le> 366"
      "day_number y3 m d3 = day_number y2 m d2" "y2 \<le> y3" "y3 \<le> y2 + 146097"
    using count_years_eq [of y2 d2 m] assms 1 2 by auto
  obtain y4 m4 d4 where 4: "(if d3 > 28 then months_loop y3 m d3 else Inr (y3, m, d3)) = Inr (y4, m4, d4)"
      "valid_date y4 m4 d4" "day_number y4 m4 d4 = day_number y3 m d3"
  proof (cases "d3 > 28")
    case True
    have "\<exists>y' m' d'. months_loop y3 m d3 = Inr (y', m', d') \<and> valid_date y' m' d' \<and>
        day_number y' m' d' = day_number y3 m d3 \<and> y3 \<le> y' \<and> y' \<le> y3 + d3"
      using assms 1 2 3 by (intro months_loop_eq) auto
    then show ?thesis using that True by auto
  next
    case False
    then show ?thesis
      using that [of y3 m d3] 3 assms days_per_month_pos [of m y3] by (simp add: valid_date_def)
  qed
  have "d4 \<le> 31" "1 \<le> d4" using 4(2) days_per_month_pos [of m4 y4] by (auto simp: valid_date_def)
  then have "n_day y m d cd hh mm ss = Inr (mk_fields y4 m4 d4 hh mm ss)"
    using 1 2 3 4(1) by (simp add: n_day_def cast8_id)
  then show thesis using that 4 1 2 3 day_number_day [of y m d] by simp
qed

section \<open>Months, hours, minutes and seconds\<close>

text \<open>The number of a day of a month that is counted from January of a year, forward or back.\<close>

definition civil_day_number :: "int \<Rightarrow> int \<Rightarrow> int \<Rightarrow> int" where
  "civil_day_number y m d = day_number (y + (m - 1) div 12) ((m - 1) mod 12 + 1) d"

definition valid_time :: "fields \<Rightarrow> bool" where
  "valid_time f \<longleftrightarrow> valid_date (fy f) (fm f) (fd f) \<and> 0 \<le> fhh f \<and> fhh f < 24 \<and>
     0 \<le> fmm f \<and> fmm f < 60 \<and> 0 \<le> fss f \<and> fss f < 60"

definition date_number :: "fields \<Rightarrow> int" where
  "date_number f = day_number (fy f) (fm f) (fd f)"

definition seconds :: "fields \<Rightarrow> int" where
  "seconds f = 86400 * date_number f + 3600 * fhh f + 60 * fmm f + fss f"

definition int64 :: "int \<Rightarrow> bool" where
  "int64 x \<longleftrightarrow> - (2 ^ 63) \<le> x \<and> x < 2 ^ 63"

lemma mk_fields_simps [simp]:
  "fy (mk_fields y m d hh mm ss) = y" "fm (mk_fields y m d hh mm ss) = m" "fd (mk_fields y m d hh mm ss) = d"
  "fhh (mk_fields y m d hh mm ss) = hh" "fmm (mk_fields y m d hh mm ss) = mm" "fss (mk_fields y m d hh mm ss) = ss"
  by (simp_all add: mk_fields_def)

lemma civil_day_number_valid: "1 \<le> m \<Longrightarrow> m \<le> 12 \<Longrightarrow> civil_day_number y m d = day_number y m d"
  by (simp add: civil_day_number_def)

lemma month_correction:
  defines "q m \<equiv> (if m = 12 then 0 else if m smod 12 \<le> 0 then m sdiv 12 - 1 else m sdiv 12)"
    and "r m \<equiv> (if m = 12 then 12 else if m smod 12 \<le> 0 then m smod 12 + 12 else m smod 12)"
  shows "q m = (m - 1) div 12" "r m = ((m :: int) - 1) mod 12 + 1"
proof -
  have "m = q m * 12 + r m" using sdiv_mult_smod_eq [of m 12] by (simp add: q_def r_def)
  then have "m - 1 = 12 * q m + (r m - 1)" by simp
  moreover have "0 \<le> r m - 1" "r m - 1 < 12" using smod_bounds [of 12 m] by (auto simp: r_def)
  ultimately show "q m = (m - 1) div 12" "r m = (m - 1) mod 12 + 1"
    using int_div_pos_eq [of "m - 1" 12 "q m" "r m - 1"] int_mod_pos_eq [of "m - 1" 12 "q m" "r m - 1"] by simp_all
qed

lemma n_mon_eq:
  assumes "- (2 ^ 62) \<le> y" "y \<le> 2 ^ 62" "int64 m" "int64 d" "int64 cd"
  obtains y' m' d' where "n_mon y m d cd hh mm ss = Inr (mk_fields y' m' d' hh mm ss)" "valid_date y' m' d'"
    "day_number y' m' d' = civil_day_number y m d + cd"
proof -
  let ?y = "y + (m - 1) div 12" and ?m = "(m - 1) mod 12 + 1"
  have m: "- (2 ^ 63) \<le> m" "m < 2 ^ 63" using assms(3) by (simp_all add: int64_def)
  have "- (2 ^ 60) + 2 < m sdiv 12 \<and> m sdiv 12 < 2 ^ 60 - 2"
    using sdiv_mult_smod_eq [of m 12] smod_bounds [of 12 m] m by simp
  then have "i64 (y + m sdiv 12) = Inr (y + m sdiv 12)" "i64 (y + m sdiv 12 - 1) = Inr (y + m sdiv 12 - 1)"
    using assms(1,2) by (auto intro!: i64_Inr)
  then have "(if m \<noteq> 12 then
        bindr (i64 (y + m sdiv 12)) (\<lambda>y. let m = m smod 12 in
          if m \<le> 0 then bindr (i64 (y - 1)) (\<lambda>y. Inr (y, m + 12)) else Inr (y, m))
      else Inr (y, m)) = Inr (?y, ?m)"
    using month_correction [of m] by (auto simp: Let_def split: if_splits)
  moreover have m': "1 \<le> ?m" "?m \<le> 12" using pos_mod_sign [of 12 "m - 1"] pos_mod_bound [of 12 "m - 1"] by simp_all
  ultimately have eq: "n_mon y m d cd hh mm ss = n_day ?y ?m d cd hh mm ss"
    by (simp add: n_mon_def cast8_id)
  have q: "- (2 ^ 60) < (m - 1) div 12" "(m - 1) div 12 < 2 ^ 60"
    using div_mult_mod_eq [of "m - 1" 12] m' m by (simp_all del: div_mult_mod_eq)
  have b: "- (2 ^ 62) - 2 ^ 60 \<le> ?y" "?y \<le> 2 ^ 62 + 2 ^ 60" using q assms(1,2) by linarith+
  have dcd: "- (2 ^ 63) \<le> d" "d < 2 ^ 63" "- (2 ^ 63) \<le> cd" "cd < 2 ^ 63" using assms(4,5) by (simp_all add: int64_def)
  obtain y' m' d' where "n_day ?y ?m d cd hh mm ss = Inr (mk_fields y' m' d' hh mm ss)" "valid_date y' m' d'"
      "day_number y' m' d' = day_number ?y ?m d + cd"
    by (rule n_day_eq [OF m' b dcd])
  then show thesis using that eq by (simp add: civil_day_number_def)
qed

lemma n_hour_eq:
  assumes "- (2 ^ 62) \<le> y" "y \<le> 2 ^ 62" "int64 m" "int64 d" "- (2 ^ 62) \<le> cd" "cd \<le> 2 ^ 62" "int64 hh"
    "0 \<le> mm" "mm < 60" "0 \<le> ss" "ss < 60"
  obtains f where "n_hour y m d cd hh mm ss = Inr f" "valid_time f"
    "seconds f = 86400 * (civil_day_number y m d + cd) + 3600 * hh + 60 * mm + ss"
proof -
  have hh: "- (2 ^ 59) < hh sdiv 24 \<and> hh sdiv 24 < 2 ^ 59"
    using sdiv_mult_smod_eq [of hh 24] smod_bounds [of 24 hh] assms(7) by (simp add: int64_def)
  note fc = floor_correction [of 24 hh, simplified]
  have h: "0 \<le> hh mod 24" "hh mod 24 < 24" by simp_all
  have "i64 (cd + hh sdiv 24) = Inr (cd + hh sdiv 24)" "i64 (cd + hh sdiv 24 - 1) = Inr (cd + hh sdiv 24 - 1)"
    using hh assms(5,6) by (auto intro!: i64_Inr)
  then have eq: "n_hour y m d cd hh mm ss = n_mon y m d (cd + hh div 24) (hh mod 24) mm ss"
    using fc(2) h by (auto simp: n_hour_def Let_def cast8_id fc(1) [symmetric] add_diff_eq split: if_splits)
  have "int64 (cd + hh div 24)" using fc hh assms(5,6) by (auto simp: int64_def split: if_splits)
  then obtain y' m' d' where "n_hour y m d cd hh mm ss = Inr (mk_fields y' m' d' (hh mod 24) mm ss)"
      "valid_date y' m' d'" "day_number y' m' d' = civil_day_number y m d + (cd + hh div 24)"
    using n_mon_eq [OF assms(1-4), of "cd + hh div 24" "hh mod 24" mm ss] eq by metis
  moreover have "3600 * hh = 86400 * (hh div 24) + 3600 * (hh mod 24)"
    using div_mult_mod_eq [of hh 24] by linarith
  ultimately show thesis
    using that h assms(8-11) by (auto simp: valid_time_def seconds_def date_number_def)
qed

text \<open>Carrying minutes into hours and hours into days does not change a sum of seconds.\<close>

lemma carry_minutes:
  "24 * cd + h = hh + q \<Longrightarrow> 60 * q + r = mm \<Longrightarrow>
     86400 * (D + cd) + 3600 * h + 60 * r + ss = 86400 * D + 3600 * hh + 60 * mm + (ss :: int)"
proof -
  assume "24 * cd + h = hh + q" "60 * q + r = mm"
  then have "h = hh + q - 24 * cd" "r = mm - 60 * q" by auto
  then show ?thesis by simp
qed

lemma carry_seconds:
  "60 * ch + mi = mm + q \<Longrightarrow> 60 * q + r = ss \<Longrightarrow>
     86400 * D + 3600 * (hh + ch) + 60 * mi + r = 86400 * D + 3600 * hh + 60 * mm + (ss :: int)"
proof -
  assume "60 * ch + mi = mm + q" "60 * q + r = ss"
  then have "mi = mm + q - 60 * ch" "r = ss - 60 * q" by auto
  then show ?thesis by simp
qed

lemma n_min_eq:
  assumes "- (2 ^ 62) \<le> y" "y \<le> 2 ^ 62" "int64 m" "int64 d" "int64 hh" "- (2 ^ 62) \<le> ch" "ch \<le> 2 ^ 62" "int64 mm"
    "0 \<le> ss" "ss < 60"
  obtains f where "n_min y m d hh ch mm ss = Inr f" "valid_time f"
    "seconds f = 86400 * civil_day_number y m d + 3600 * (hh + ch) + 60 * mm + ss"
proof -
  define c where "c = ch + mm div 60"
  have mm: "- (2 ^ 58) < mm sdiv 60 \<and> mm sdiv 60 < 2 ^ 58"
    using sdiv_mult_smod_eq [of mm 60] smod_bounds [of 60 mm] assms(8) by (simp add: int64_def)
  note fc = floor_correction [of 60 mm, simplified]
  have mi: "0 \<le> mm mod 60" "mm mod 60 < 60" by simp_all
  have c: "- (2 ^ 62) - 2 ^ 59 < c" "c < 2 ^ 62 + 2 ^ 59"
    using mm assms(6,7) unfolding c_def fc(1) [symmetric] by (cases "mm smod 60 < 0"; simp)+
  have h24: "hh sdiv 24 * 24 + hh smod 24 = hh" "- (2 ^ 59) < hh sdiv 24" "hh sdiv 24 < 2 ^ 59"
      "- 24 < hh smod 24" "hh smod 24 < 24"
    using sdiv_mult_smod_eq [of hh 24] smod_bounds [of 24 hh] assms(5) by (simp_all add: int64_def)
  have c24: "c sdiv 24 * 24 + c smod 24 = c" "- (2 ^ 59) < c sdiv 24" "c sdiv 24 < 2 ^ 59"
      "- 24 < c smod 24" "c smod 24 < 24"
    using sdiv_mult_smod_eq [of c 24] smod_bounds [of 24 c] c by simp_all
  define cd h where "cd = hh sdiv 24 + c sdiv 24" and "h = hh smod 24 + c smod 24"
  have "i64 (ch + mm sdiv 60) = Inr (ch + mm sdiv 60)" "i64 (ch + mm sdiv 60 - 1) = Inr (ch + mm sdiv 60 - 1)"
    using mm assms(6,7) by (auto intro!: i64_Inr)
  moreover have "i64 cd = Inr cd" "i64 h = Inr h"
    using h24 c24 by (auto intro!: i64_Inr simp: cd_def h_def)
  moreover have "c = ch + mm sdiv 60 - (if mm smod 60 < 0 then 1 else 0)"
    unfolding c_def fc(1) [symmetric] by simp
  ultimately have eq: "n_min y m d hh ch mm ss = n_hour y m d cd h (mm mod 60) ss"
    using fc(2) mi by (auto simp: n_min_def Let_def cast8_id cd_def h_def split: if_splits)
  obtain f where f: "n_hour y m d cd h (mm mod 60) ss = Inr f" "valid_time f"
      "seconds f = 86400 * (civil_day_number y m d + cd) + 3600 * h + 60 * (mm mod 60) + ss"
    using n_hour_eq [of y m d cd h "mm mod 60" ss] assms mi h24 c24 by (auto simp: cd_def h_def int64_def)
  have "24 * cd + h = hh + ch + mm div 60" using h24(1) c24(1) by (simp add: cd_def h_def c_def)
  moreover have "60 * (mm div 60) + mm mod 60 = mm" by simp
  ultimately have "seconds f = 86400 * civil_day_number y m d + 3600 * (hh + ch) + 60 * mm + ss"
    unfolding f(3) by (rule carry_minutes)
  then show thesis using that f(1,2) eq by simp
qed

text \<open>
  All six fields may be any 64-bit number. Only the year has to leave room for what the others
  carry into it.
\<close>

lemma n_sec_eq:
  assumes "- (2 ^ 62) \<le> y" "y \<le> 2 ^ 62" "int64 m" "int64 d" "int64 hh" "int64 mm" "int64 ss"
  obtains f where "n_sec y m d hh mm ss = Inr f" "valid_time f"
    "seconds f = 86400 * civil_day_number y m d + 3600 * hh + 60 * mm + ss"
proof -
  have q60: "x sdiv 60 * 60 + x smod 60 = x" "- (2 ^ 58) < x sdiv 60" "x sdiv 60 < 2 ^ 58"
      "- 60 < x smod 60" "x smod 60 < 60" if "int64 x" for x
    using sdiv_mult_smod_eq [of x 60] smod_bounds [of 60 x] that by (simp_all add: int64_def)
  have q24: "hh sdiv 24 * 24 + hh smod 24 = hh" "- (2 ^ 59) < hh sdiv 24" "hh sdiv 24 < 2 ^ 59"
      "- 24 < hh smod 24" "hh smod 24 < 24"
    using sdiv_mult_smod_eq [of hh 24] smod_bounds [of 24 hh] assms(5) by (simp_all add: int64_def)
  consider "ss < 0 \<or> 60 \<le> ss" | "0 \<le> ss" "ss < 60" "mm < 0 \<or> 60 \<le> mm"
    | "0 \<le> ss" "ss < 60" "0 \<le> mm" "mm < 60" "hh < 0 \<or> 24 \<le> hh"
    | "0 \<le> ss" "ss < 60" "0 \<le> mm" "mm < 60" "0 \<le> hh" "hh < 24" by linarith
  then show thesis
  proof cases
    case 1
    define cm where "cm = ss div 60"
    note fc = floor_correction [of 60 ss, simplified]
    have s: "0 \<le> ss mod 60" "ss mod 60 < 60" by simp_all
    have cm: "int64 cm" using fc(1) q60 [OF assms(7)] by (auto simp: cm_def int64_def split: if_splits)
    define ch mi where "ch = mm sdiv 60 + cm sdiv 60" and "mi = mm smod 60 + cm smod 60"
    note b = q60 [OF assms(6)] q60 [OF cm]
    have "i64 ch = Inr ch" "i64 mi = Inr mi" using b by (auto intro!: i64_Inr simp: ch_def mi_def)
    moreover have "i64 (ss sdiv 60 - 1) = Inr (ss sdiv 60 - 1)" using q60 [OF assms(7)] by (intro i64_Inr) auto
    moreover have "cm = ss sdiv 60 - (if ss smod 60 < 0 then 1 else 0)" unfolding cm_def fc(1) [symmetric] by simp
    ultimately have eq: "n_sec y m d hh mm ss = n_min y m d hh ch mi (ss mod 60)"
      using 1 fc(2) s by (auto simp: n_sec_def Let_def cast8_id ch_def mi_def split: if_splits)
    obtain f where f: "n_min y m d hh ch mi (ss mod 60) = Inr f" "valid_time f"
        "seconds f = 86400 * civil_day_number y m d + 3600 * (hh + ch) + 60 * mi + ss mod 60"
      using n_min_eq [of y m d hh ch mi "ss mod 60"] assms s b by (auto simp: ch_def mi_def int64_def)
    have "60 * ch + mi = mm + cm" using b by (simp add: ch_def mi_def)
    moreover have "60 * cm + ss mod 60 = ss" by (simp add: cm_def)
    ultimately have "seconds f = 86400 * civil_day_number y m d + 3600 * hh + 60 * mm + ss"
      unfolding f(3) by (rule carry_seconds)
    then show ?thesis using that f(1,2) eq by simp
  next
    case 2
    note b = q60 [OF assms(6)]
    have eq: "n_sec y m d hh mm ss = n_min y m d hh (mm sdiv 60) (mm smod 60) ss"
      using 2 by (auto simp: n_sec_def Let_def cast8_id)
    obtain f where f: "n_min y m d hh (mm sdiv 60) (mm smod 60) ss = Inr f" "valid_time f"
        "seconds f = 86400 * civil_day_number y m d + 3600 * (hh + mm sdiv 60) + 60 * (mm smod 60) + ss"
      using n_min_eq [of y m d hh "mm sdiv 60" "mm smod 60" ss] assms 2 b by (auto simp: int64_def)
    then show ?thesis using that eq b(1) by simp
  next
    case 3
    have eq: "n_sec y m d hh mm ss = n_hour y m d (hh sdiv 24) (hh smod 24) mm ss"
      using 3 by (auto simp: n_sec_def Let_def cast8_id)
    obtain f where f: "n_hour y m d (hh sdiv 24) (hh smod 24) mm ss = Inr f" "valid_time f"
        "seconds f = 86400 * (civil_day_number y m d + hh sdiv 24) + 3600 * (hh smod 24) + 60 * mm + ss"
      using n_hour_eq [of y m d "hh sdiv 24" "hh smod 24" mm ss] assms 3 q24 by (auto simp: int64_def)
    then show ?thesis using that eq q24(1) by simp
  next
    case 4
    obtain y' m' d' where f: "n_mon y m d 0 hh mm ss = Inr (mk_fields y' m' d' hh mm ss)" "valid_date y' m' d'"
        "day_number y' m' d' = civil_day_number y m d + 0"
      using n_mon_eq [of y m d 0 hh mm ss] assms by (auto simp: int64_def)
    show ?thesis
    proof (cases "1 \<le> d \<and> d \<le> 28 \<and> 1 \<le> m \<and> m \<le> 12")
      case True
      then have "n_sec y m d hh mm ss = Inr (mk_fields y m d hh mm ss)"
        using 4 by (simp add: n_sec_def Let_def cast8_id)
      moreover have "valid_date y m d" using True days_per_month_pos [of m y] by (auto simp: valid_date_def)
      ultimately show ?thesis
        using that 4 True by (auto simp: valid_time_def seconds_def date_number_def civil_day_number_valid)
    next
      case False
      then have "n_sec y m d hh mm ss = n_mon y m d 0 hh mm ss"
        using 4 by (auto simp: n_sec_def Let_def cast8_id)
      then show ?thesis using that f 4 by (auto simp: valid_time_def seconds_def date_number_def)
    qed
  qed
qed

end
