(* ===== verification/Civil_Laws.thy ===== *)
theory Civil_Laws
  imports Civil_Normal
begin

text \<open>
  Steps and differences of civil times count the units of their type, the order of civil times is
  the order of the moments, and weekdays and the day of the year follow from the number of the day.
\<close>

section \<open>The ordinal of a day\<close>

lemma floor_era: "(if 0 \<le> z then z else z - 399) sdiv 400 = (z :: int) div 400"
proof (cases "0 \<le> z")
  case False
  define q r where "q = (399 - z) div 400" and "r = (399 - z) mod 400"
  have "399 - z = 400 * q + r" "0 \<le> r" "r < 400" by (simp_all add: q_def r_def)
  then have "z div 400 = - q" using int_div_pos_eq [of z 400 "- q" "399 - r"] by simp
  moreover have "(z - 399) sdiv 400 = - q" using False sdiv_neg [of "z - 399" 400] by (simp add: q_def)
  ultimately show ?thesis using False by simp
qed (simp add: sdiv_nonneg)

lemma ymd_ord_eq:
  assumes "1 \<le> m" "m \<le> 12" "- (2 ^ 54) \<le> y" "y \<le> 2 ^ 54" "0 \<le> d" "d \<le> 2 ^ 32"
  shows "ymd_ord y m d = Inr (day_number y m d)"
proof -
  define z where "z = (if m > 2 then y else y - 1)"
  define era yoe where "era = z div 400" and "yoe = z mod 400"
  define doy where "doy = (153 * (m + (if m > 2 then - 3 else 9)) + 2) div 5 + d - 1"
  have z: "z = 400 * era + yoe" "0 \<le> yoe" "yoe < 400" by (simp_all add: era_def yoe_def)
  have zb: "- (2 ^ 54) - 1 \<le> z" "z \<le> 2 ^ 54" using assms(3,4) by (auto simp: z_def)
  have eb: "- (2 ^ 54) \<le> era" "era \<le> 2 ^ 54" using z zb by auto
  have month: "doy = 365 * (y - z) + month_offset m + d - 60"
    using month_cases [OF assms(1,2)] by (elim disjE) (simp_all add: doy_def z_def month_offset_def)
  have doyb: "- 60 \<le> doy" "doy \<le> 2 ^ 32 + 1000"
    using month_cases [OF assms(1,2)] assms(5,6) by (elim disjE; simp add: doy_def)+
  have yoe: "yoe sdiv 4 = yoe div 4" "yoe sdiv 100 = yoe div 100" "yoe div 400 = 0"
    using z by (simp_all add: sdiv_nonneg)
  have yb: "0 \<le> yoe div 4" "yoe div 4 < 100" "0 \<le> yoe div 100" "yoe div 100 < 4" using z by auto
  have doys: "(153 * (m + (if m > 2 then - 3 else 9)) + 2) sdiv 5 + d - 1 = doy"
    using assms(1) by (simp add: doy_def sdiv_nonneg)
  have leap: "leap_count z = 97 * era + yoe div 4 - yoe div 100"
    using leap_count_era [of era yoe] yoe(3) by (simp add: z leap_count_def [of yoe])
  have e: "(if m \<le> 2 then i64 (y - 1) else Inr y) = Inr z"
      "(if z \<ge> 0 then Inr z else i64 (z - 399)) = Inr (if 0 \<le> z then z else z - 399)"
    using zb by (auto simp: z_def)
  let ?doe = "yoe * 365 + yoe div 4 - yoe div 100 + doy"
  have "i64 (era * 400) = Inr (era * 400)" "i64 (z - era * 400) = Inr yoe" "i64 (era * 146097) = Inr (era * 146097)"
      "i64 (era * 146097 + ?doe) = Inr (era * 146097 + ?doe)"
      "i64 (era * 146097 + ?doe - 719468) = Inr (era * 146097 + ?doe - 719468)"
    using z zb eb doyb yb by (simp_all add: i64_def)
  then have "ymd_ord y m d = Inr (era * 146097 + ?doe - 719468)"
    by (simp only: ymd_ord_def e bindr_Inr floor_era era_def [symmetric] Let_def doys yoe)
  also have "era * 146097 + ?doe - 719468 = day_number y m d"
    unfolding day_number_def z_def [symmetric] leap using month z(1) by simp
  finally show ?thesis .
qed

section \<open>Differences\<close>

lemma scale_add_eq:
  assumes f: "2 \<le> f" "f \<le> 2 ^ 32" "- f \<le> a" "a \<le> f" and fits: "int64 (v * f + a)"
  shows "scale_add v f a = Inr (v * f + a)"
proof -
  define p where "p = v * f"
  have p: "(v + 1) * f = p + f" "(v - 1) * f = p - f" by (simp_all add: p_def algebra_simps)
  have fits': "int64 (p + a)" using fits by (simp add: p_def)
  show ?thesis
  proof (cases "v < 0")
    case True
    have "p \<le> 2 * v" "p \<le> - f"
      using True f(1) mult_left_mono_neg [of 2 f v] mult_right_mono [of v "- 1" f] by (simp_all add: p_def)
    then have "i64 (v + 1) = Inr (v + 1)" "i64 (p + f) = Inr (p + f)" "i64 (p + f + a) = Inr (p + f + a)"
        "i64 (p + f + a - f) = Inr (p + a)"
      using True f fits' by (auto simp: i64_def int64_def)
    with True show ?thesis by (simp add: scale_add_def p p_def [symmetric])
  next
    case False
    have "2 * v \<le> p" using False f(1) mult_left_mono [of 2 f v] by (simp add: p_def)
    then have "i64 (v - 1) = Inr (v - 1)" "i64 (p - f) = Inr (p - f)" "i64 (p - f + a) = Inr (p - f + a)"
        "i64 (p - f + a + f) = Inr (p + a)"
      using False f fits' by (auto simp: i64_def int64_def)
    with False show ?thesis by (simp add: scale_add_def p p_def [symmetric])
  qed
qed

lemma leap_count_bounds: "list_all (\<lambda>r. 0 \<le> leap_count r \<and> leap_count r \<le> 96) [0..399]"
  by code_simp

lemma leap_count_sign: "0 \<le> z \<Longrightarrow> 0 \<le> leap_count z" "z < 0 \<Longrightarrow> leap_count z < 0"
proof -
  have z: "leap_count z = 97 * (z div 400) + leap_count (z mod 400)"
    using leap_count_era [of "z div 400" "z mod 400"] by simp
  have r: "0 \<le> leap_count (z mod 400)" "leap_count (z mod 400) \<le> 96"
    using leap_count_bounds by (auto simp: list_all_iff)
  show "0 \<le> leap_count z" if "0 \<le> z"
    using that z r pos_imp_zdiv_nonneg_iff [of 400 z] by simp
  show "leap_count z < 0" if "z < 0"
    using that z r pos_imp_zdiv_neg_iff [of 400 z] by simp
qed

lemma month_offset_bounds: "1 \<le> m \<Longrightarrow> m \<le> 12 \<Longrightarrow> 0 \<le> month_offset m \<and> month_offset m \<le> 334"
  by (drule (1) month_cases) (auto simp: month_offset_def)

text \<open>A year is bounded by the number of one of its days.\<close>

lemma year_bounds:
  assumes "valid_date y m d"
  shows "0 < y \<Longrightarrow> 365 * y \<le> day_number y m d + 719528" "y \<le> 0 \<Longrightarrow> day_number y m d < 365 * y"
proof -
  have m: "1 \<le> m" "m \<le> 12" "1 \<le> d" "d \<le> 31"
    using assms days_per_month_pos [of m y] by (auto simp: valid_date_def)
  note b = month_offset_bounds [OF m(1,2)] leap_count_sign [of "if m > 2 then y else y - 1"]
  show "365 * y \<le> day_number y m d + 719528" if "0 < y"
    using that b m by (simp add: day_number_def)
  show "day_number y m d < 365 * y" if "y \<le> 0"
  proof -
    have "leap_count (if m > 2 then y else y - 1) \<le> 0"
      using that leap_count_sign(2) [of y] leap_count_sign(2) [of "y - 1"] by (cases "y = 0") (auto simp: leap_count_def)
    then show ?thesis using b(1) m unfolding day_number_def by linarith
  qed
qed

text \<open>
  The days between two dates, of any 64-bit years. No step overflows when the difference itself is
  a 64-bit number.
\<close>

lemma era_start: "day_number 400 1 0 - day_number (- 399) 1 0 < 2 * 146097"
  by code_simp

lemma valid_date_era: "valid_date (a + 400 * p) m d \<longleftrightarrow> valid_date a m d"
proof -
  have "a + 400 * p = a + 4 * (100 * p)" "a + 400 * p = a + 100 * (4 * p)" by simp_all
  then have "is_leap_year (a + 400 * p) = is_leap_year a"
    unfolding is_leap_year_mod by (metis mod_mult_self2)
  then show ?thesis by (simp add: valid_date_def days_per_month_def)
qed

lemma era_delta:
  assumes "valid_date a m1 d1" "valid_date b m2 d2" "a < 400" "- 400 < b"
  shows "day_number a m1 d1 - day_number b m2 d2 < 2 * 146097"
proof -
  have "day_number a m1 d1 \<le> day_number 400 1 0"
    using day_number_year_bounds(2) [OF assms(1)] day_number_year_mono [of a 400] assms(3) by simp
  moreover have "day_number (- 399) 1 0 < day_number b m2 d2"
    using day_number_year_bounds(1) [OF assms(2)] day_number_year_mono [of "- 400" b] assms(4) by simp
  ultimately show ?thesis using era_start by linarith
qed

lemma sdiv_mult: "(400 * k) sdiv 400 = (k :: int)"
  using sdiv_mult_smod_eq [of "400 * k" 400] smod_0_iff [of 400 "400 * k"] by simp

lemma smod_between: "int64 x \<Longrightarrow> int64 (x - x smod 400)"
proof (cases "0 \<le> x")
  case True
  then show "int64 x \<Longrightarrow> int64 (x - x smod 400)"
    using sdiv_nonneg [of x 400] zmod_le_nonneg_dividend [of x 400] pos_mod_sign [of 400 x]
    unfolding int64_def by linarith
next
  case False
  then show "int64 x \<Longrightarrow> int64 (x - x smod 400)"
    using sdiv_neg [of x 400] zmod_le_nonneg_dividend [of "- x" 400] pos_mod_sign [of 400 "- x"]
    unfolding int64_def by linarith
qed

lemma day_difference_eq:
  assumes v: "valid_date y1 m1 d1" "valid_date y2 m2 d2" and y: "int64 y1" "int64 y2"
    and D: "int64 (day_number y1 m1 d1 - day_number y2 m2 d2)"
  shows "day_difference y1 m1 d1 y2 m2 d2 = Inr (day_number y1 m1 d1 - day_number y2 m2 d2)"
proof -
  define a b where "a = y1 smod 400" and "b = y2 smod 400"
  define p q where "p = y1 sdiv 400" and "q = y2 sdiv 400"
  have y1: "y1 = a + 400 * p" and y2: "y2 = b + 400 * q"
    using sdiv_mult_smod_eq [of y1 400] sdiv_mult_smod_eq [of y2 400] by (simp_all add: a_def b_def p_def q_def)
  have ab: "- 400 < a" "a < 400" "- 400 < b" "b < 400"
    using smod_bounds [of 400 y1] smod_bounds [of 400 y2] by (simp_all add: a_def b_def)
  have m: "1 \<le> m1" "m1 \<le> 12" "1 \<le> d1" "d1 \<le> 31" "1 \<le> m2" "m2 \<le> 12" "1 \<le> d2" "d2 \<le> 31"
    using v days_per_month_pos [of m1 y1] days_per_month_pos [of m2 y2] by (auto simp: valid_date_def)
  define k delta where "k = p - q" and "delta = day_number a m1 d1 - day_number b m2 d2"
  have ords: "ymd_ord a m1 d1 = Inr (day_number a m1 d1)" "ymd_ord b m2 d2 = Inr (day_number b m2 d2)"
    using ab m by (auto intro!: ymd_ord_eq)
  have eras: "day_number y1 m1 d1 - day_number y2 m2 d2 = k * 146097 + delta"
    using day_number_eras [of a p m1 d1] day_number_eras [of b q m2 d2] y1 y2 by (simp add: k_def delta_def algebra_simps)
  have delta: "- (2 * 146097) < delta" "delta < 2 * 146097"
    using era_delta [of a m1 d1 b m2 d2] era_delta [of b m2 d2 a m1 d1] v ab
    unfolding y1 y2 valid_date_era by (simp_all add: delta_def)
  have fits: "- (2 ^ 63) \<le> k * 146097 + delta" "k * 146097 + delta < 2 ^ 63" using D unfolding eras int64_def by simp_all
  have c4: "y1 - a = 400 * p" "y2 - b = 400 * q" "400 * p - 400 * q = 400 * k" using y1 y2 by (simp_all add: k_def)
  have "int64 (400 * p)" "int64 (400 * q)"
    using smod_between [OF y(1)] smod_between [OF y(2)] c4 by (simp_all add: a_def b_def)
  moreover have "int64 (400 * k)" using fits delta by (auto simp: int64_def)
  moreover have "int64 delta" using delta by (auto simp: int64_def)
  ultimately have checks: "i64 (400 * p) = Inr (400 * p)" "i64 (400 * q) = Inr (400 * q)"
      "i64 (400 * k) = Inr (400 * k)" "i64 delta = Inr delta" by (simp_all add: i64_def int64_def)
  define c e where "c = (if 0 < k \<and> delta < 0 then k - 2 else if k < 0 \<and> 0 < delta then k + 2 else k)"
    and "e = delta - 146097 * (c - k)"
  have "i64 (c * 146097) = Inr (c * 146097)" using fits delta by (auto simp: c_def i64_def)
  moreover have "i64 (c * 146097 + e) = Inr (k * 146097 + delta)"
    using fits by (simp add: e_def algebra_simps i64_def)
  moreover have "day_difference y1 m1 d1 y2 m2 d2 = bindr (i64 (c * 146097)) (\<lambda>x. i64 (x + e))"
    using sdiv_mult [of k] sdiv_mult [of "k - 2"] sdiv_mult [of "k + 2"]
    by (simp add: day_difference_def a_def [symmetric] b_def [symmetric] c4 checks ords delta_def [symmetric]
        Let_def c_def e_def)
  ultimately show ?thesis unfolding eras by simp
qed

section \<open>Units\<close>

text \<open>How many whole units of a civil type lie before its fields, counted from 1970, or from the year 0.\<close>

primrec units :: "tag \<Rightarrow> fields \<Rightarrow> int" where
  "units year_tag f = fy f"
| "units month_tag f = 12 * fy f + fm f"
| "units day_tag f = date_number f"
| "units hour_tag f = 24 * date_number f + fhh f"
| "units minute_tag f = 60 * (24 * date_number f + fhh f) + fmm f"
| "units second_tag f = 60 * (60 * (24 * date_number f + fhh f) + fmm f) + fss f"

lemma units_second: "units second_tag f = seconds f"
  by (simp add: seconds_def)

text \<open>A difference that fits has parts that fit.\<close>

lemma int64_part: "int64 (n * (u - v) + (a - b)) \<Longrightarrow> 2 \<le> n \<Longrightarrow> - n \<le> a - b \<Longrightarrow> a - b \<le> n \<Longrightarrow> n \<le> 60 \<Longrightarrow> int64 (u - v)"
proof -
  assume fits: "int64 (n * (u - v) + (a - b))" "2 \<le> n" "- n \<le> a - b" "a - b \<le> n" "n \<le> 60"
  define w p where "w = u - v" and "p = n * w"
  have "0 \<le> w \<Longrightarrow> 2 * w \<le> p" "w < 0 \<Longrightarrow> p \<le> 2 * w"
    using fits(2) mult_right_mono [of 2 n w] mult_right_mono_neg [of 2 n w] by (simp_all add: p_def)
  then show ?thesis
    using fits unfolding w_def [symmetric] p_def [symmetric] int64_def by (cases "0 \<le> w") auto
qed

lemma scale_add_units:
  assumes "int64 ((n * u + a) - (n * v + b))" "2 \<le> n" "n \<le> 60" "- n \<le> a - b" "a - b \<le> n"
  shows "scale_add (u - v) n (a - b) = Inr ((n * u + a) - (n * v + b))" "int64 (u - v)"
proof -
  have eq: "(n * u + a) - (n * v + b) = n * (u - v) + (a - b)" by (simp add: algebra_simps)
  show "int64 (u - v)" using int64_part [of n u v a b] assms unfolding eq by simp
  show "scale_add (u - v) n (a - b) = Inr ((n * u + a) - (n * v + b))"
    using scale_add_eq [of n "a - b" "u - v"] assms unfolding eq by (simp add: mult.commute)
qed

lemma difference_eq:
  assumes "valid_time f" "valid_time g" "int64 (fy f)" "int64 (fy g)" "int64 (units tag f - units tag g)"
  shows "difference tag f g = Inr (units tag f - units tag g)"
proof -
  have v: "valid_date (fy f) (fm f) (fd f)" "valid_date (fy g) (fm g) (fd g)"
    using assms(1,2) by (simp_all add: valid_time_def)
  have b: "- 12 \<le> fm f - fm g" "fm f - fm g \<le> 12" "- 24 \<le> fhh f - fhh g" "fhh f - fhh g \<le> 24"
      "- 60 \<le> fmm f - fmm g" "fmm f - fmm g \<le> 60" "- 60 \<le> fss f - fss g" "fss f - fss g \<le> 60"
    using assms(1,2) by (auto simp: valid_time_def valid_date_def)
  have days: "day_difference (fy f) (fm f) (fd f) (fy g) (fm g) (fd g) = Inr (date_number f - date_number g)"
    if "int64 (date_number f - date_number g)"
    using day_difference_eq [OF v assms(3,4)] that by (simp add: date_number_def)
  note hours = scale_add_units [of 24 "date_number f" "fhh f" "date_number g" "fhh g"]
  note minutes = scale_add_units [of 60 "24 * date_number f + fhh f" "fmm f" "24 * date_number g + fhh g" "fmm g"]
  note secs = scale_add_units [of 60 "60 * (24 * date_number f + fhh f) + fmm f" "fss f"
      "60 * (24 * date_number g + fhh g) + fmm g" "fss g"]
  show ?thesis
  proof (cases tag)
    case second_tag
    have 1: "int64 (units minute_tag f - units minute_tag g)" using secs(2) b assms(5) second_tag by simp
    have 2: "int64 (units hour_tag f - units hour_tag g)" using minutes(2) b 1 by simp
    have 3: "int64 (date_number f - date_number g)" using hours(2) b 2 by simp
    show ?thesis using secs(1) minutes(1) hours(1) days [OF 3] 1 2 b assms(5) second_tag by simp
  next
    case minute_tag
    have 2: "int64 (units hour_tag f - units hour_tag g)" using minutes(2) b assms(5) minute_tag by simp
    have 3: "int64 (date_number f - date_number g)" using hours(2) b 2 by simp
    show ?thesis using minutes(1) hours(1) days [OF 3] 2 b assms(5) minute_tag by simp
  next
    case hour_tag
    have 3: "int64 (date_number f - date_number g)" using hours(2) b assms(5) hour_tag by simp
    show ?thesis using hours(1) days [OF 3] b assms(5) hour_tag by simp
  next
    case day_tag
    then show ?thesis using days assms(5) by simp
  next
    case month_tag
    then show ?thesis
      using scale_add_units [of 12 "fy f" "fm f" "fy g" "fm g"] b assms(5) by (simp add: i64_def int64_def)
  next
    case year_tag
    then show ?thesis using assms(5) by (simp add: i64_def int64_def)
  qed
qed

text \<open>Aligned fields are determined by their units.\<close>

definition aligned :: "tag \<Rightarrow> fields \<Rightarrow> bool" where
  "aligned tag f \<longleftrightarrow> align tag f = f"

lemma aligned_iff:
  "aligned second_tag f" "aligned minute_tag f \<longleftrightarrow> fss f = 0" "aligned hour_tag f \<longleftrightarrow> fmm f = 0 \<and> fss f = 0"
  "aligned day_tag f \<longleftrightarrow> fhh f = 0 \<and> fmm f = 0 \<and> fss f = 0"
  "aligned month_tag f \<longleftrightarrow> fd f = 1 \<and> fhh f = 0 \<and> fmm f = 0 \<and> fss f = 0"
  "aligned year_tag f \<longleftrightarrow> fm f = 1 \<and> fd f = 1 \<and> fhh f = 0 \<and> fmm f = 0 \<and> fss f = 0"
  by (cases f; auto simp: aligned_def align_def mk_fields_def)+

text \<open>Aligning a valid time stays in the unit.\<close>

lemma align_valid:
  assumes "valid_time f"
  shows "valid_time (align tag f) \<and> aligned tag (align tag f) \<and> units tag (align tag f) = units tag f"
proof -
  have "1 \<le> days_per_month y m" if "valid_date y m d" for y m d
    using that by (auto simp: valid_date_def)
  moreover have "1 \<le> days_per_month (fy f) 1" by (simp add: days_per_month_def k_days_per_month_def)
  ultimately show ?thesis
    using assms by (cases tag)
      (auto simp: aligned_def align_def mk_fields_def valid_time_def valid_date_def date_number_def)
qed

section \<open>Steps\<close>

lemma digit: "n * u + a = n * v + b \<Longrightarrow> 0 \<le> a \<Longrightarrow> a < n \<Longrightarrow> 0 \<le> b \<Longrightarrow> b < n \<Longrightarrow> u = v \<and> a = (b :: int)"
proof -
  assume eq: "n * u + a = n * v + b" and b: "0 \<le> a" "a < n" "0 \<le> b" "b < n"
  have "(n * u + a) div n = u" "(n * v + b) div n = v" using b by simp_all
  with eq have "u = v" by simp
  with eq show ?thesis by simp
qed

text \<open>A moment that is a whole number of units has zeros below, and this number of units.\<close>

lemma whole_units:
  assumes "valid_time g"
  shows "seconds g = 60 * x \<Longrightarrow> aligned minute_tag g \<and> units minute_tag g = x"
    "seconds g = 3600 * x \<Longrightarrow> aligned hour_tag g \<and> units hour_tag g = x"
    "seconds g = 86400 * x \<Longrightarrow> aligned day_tag g \<and> units day_tag g = x"
proof -
  have b: "0 \<le> fhh g" "fhh g < 24" "0 \<le> fmm g" "fmm g < 60" "0 \<le> fss g" "fss g < 60"
    using assms by (simp_all add: valid_time_def)
  have 1: "units minute_tag g = x \<and> fss g = 0" if "seconds g = 60 * x" for x
    using digit [of 60 "units minute_tag g" "fss g" x 0] that b by (simp add: units_second [symmetric])
  have 2: "units hour_tag g = x \<and> fmm g = 0 \<and> fss g = 0" if "seconds g = 3600 * x" for x
    using digit [of 60 "units hour_tag g" "fmm g" x 0] 1 [of "60 * x"] that b by simp
  have 3: "units day_tag g = x \<and> fhh g = 0 \<and> fmm g = 0 \<and> fss g = 0" if "seconds g = 86400 * x" for x
    using digit [of 24 "units day_tag g" "fhh g" x 0] 2 [of "24 * x"] that b by simp
  show "seconds g = 60 * x \<Longrightarrow> aligned minute_tag g \<and> units minute_tag g = x"
    "seconds g = 3600 * x \<Longrightarrow> aligned hour_tag g \<and> units hour_tag g = x"
    "seconds g = 86400 * x \<Longrightarrow> aligned day_tag g \<and> units day_tag g = x"
    using 1 2 3 by (simp_all add: aligned_iff)
qed

lemma int64_sdiv:
  assumes "int64 n" "k = 12 \<or> k = 24 \<or> k = 60"
  shows "n sdiv k * k + n smod k = n" "- (2 ^ 60) < n sdiv k" "n sdiv k < 2 ^ 60" "- k < n smod k" "n smod k < k"
  using assms(2) sdiv_mult_smod_eq [of n k] smod_bounds [of k n] assms(1) by (auto simp: int64_def)

lemma aligned_units_inject:
  assumes "valid_time f" "valid_time g" "aligned tag f" "aligned tag g" "units tag f = units tag g"
  shows "f = g"
proof -
  have v: "valid_date (fy f) (fm f) (fd f)" "valid_date (fy g) (fm g) (fd g)"
    using assms(1,2) by (simp_all add: valid_time_def)
  note inj = day_number_inject [OF v, folded date_number_def]
  have b: "1 \<le> fm f" "fm f \<le> 12" "1 \<le> fm g" "fm g \<le> 12" "0 \<le> fhh f" "fhh f < 24" "0 \<le> fhh g" "fhh g < 24"
      "0 \<le> fmm f" "fmm f < 60" "0 \<le> fmm g" "fmm g < 60" "0 \<le> fss f" "fss f < 60" "0 \<le> fss g" "fss g < 60"
    using assms(1,2) by (auto simp: valid_time_def valid_date_def)
  note hours = digit [of 24 "date_number f" "fhh f" "date_number g" "fhh g"]
  note minutes = digit [of 60 "24 * date_number f + fhh f" "fmm f" "24 * date_number g + fhh g" "fmm g"]
  note secs = digit [of 60 "60 * (24 * date_number f + fhh f) + fmm f" "fss f"
      "60 * (24 * date_number g + fhh g) + fmm g" "fss g"]
  have "fy f = fy g \<and> fm f = fm g \<and> fd f = fd g \<and> fhh f = fhh g \<and> fmm f = fmm g \<and> fss f = fss g"
  proof (cases tag)
    case second_tag
    with assms(5) secs minutes hours inj b show ?thesis by simp
  next
    case minute_tag
    with assms(3-5) minutes hours inj b show ?thesis by (simp add: aligned_iff)
  next
    case hour_tag
    with assms(3-5) hours inj b show ?thesis by (simp add: aligned_iff)
  next
    case day_tag
    with assms(3-5) inj show ?thesis by (simp add: aligned_iff)
  next
    case month_tag
    with assms(3-5) digit [of 12 "fy f" "fm f - 1" "fy g" "fm g - 1"] b show ?thesis by (simp add: aligned_iff)
  next
    case year_tag
    with assms(3-5) show ?thesis by (simp add: aligned_iff)
  qed
  then show ?thesis by (cases f; cases g) simp
qed

lemma valid_time_fields:
  assumes "valid_time f"
  shows "1 \<le> fm f" "fm f \<le> 12" "1 \<le> fd f" "fd f \<le> 31" "0 \<le> fhh f" "fhh f < 24" "0 \<le> fmm f" "fmm f < 60"
    "0 \<le> fss f" "fss f < 60" "valid_date (fy f) (fm f) (fd f)"
    "civil_day_number (fy f) (fm f) (fd f + k) = date_number f + k"
    "int64 (fm f)" "int64 (fd f)" "int64 (fhh f)" "int64 (fmm f)"
proof -
  have v: "valid_date (fy f) (fm f) (fd f)" using assms by (simp add: valid_time_def)
  then show m: "1 \<le> fm f" "fm f \<le> 12" "1 \<le> fd f" "fd f \<le> 31"
    using days_per_month_pos [of "fm f" "fy f"] by (auto simp: valid_date_def)
  show b: "0 \<le> fhh f" "fhh f < 24" "0 \<le> fmm f" "fmm f < 60" "0 \<le> fss f" "fss f < 60"
    using assms by (simp_all add: valid_time_def)
  show "valid_date (fy f) (fm f) (fd f)" by (rule v)
  show "civil_day_number (fy f) (fm f) (fd f + k) = date_number f + k"
    using m day_number_day [of "fy f" "fm f" "fd f"] day_number_day [of "fy f" "fm f" "fd f + k"]
    by (simp add: civil_day_number_valid date_number_def)
  show "int64 (fm f)" "int64 (fd f)" "int64 (fhh f)" "int64 (fmm f)" using m b by (auto simp: int64_def)
qed

text \<open>Steps in the units of the clock add their seconds, whatever the fields below.\<close>

lemma step_clock:
  assumes f: "valid_time f" and y: "- (2 ^ 62) \<le> fy f" "fy f \<le> 2 ^ 62" and n: "int64 n"
  shows "\<exists>g. step second_tag f n = Inr g \<and> valid_time g \<and> seconds g = seconds f + n"
    "\<exists>g. step minute_tag f n = Inr g \<and> valid_time g \<and> seconds g = seconds f + 60 * n"
    "\<exists>g. step hour_tag f n = Inr g \<and> valid_time g \<and> seconds g = seconds f + 3600 * n"
proof -
  note b = valid_time_fields [OF f]
  note q = int64_sdiv [OF n]
  show "\<exists>g. step second_tag f n = Inr g \<and> valid_time g \<and> seconds g = seconds f + n"
  proof -
    let ?mm = "fmm f + n sdiv 60" and ?ss = "fss f + n smod 60"
    have fit: "int64 ?mm" "int64 ?ss" using q [of 60] b by (auto simp: int64_def)
    obtain g where g: "n_sec (fy f) (fm f) (fd f) (fhh f) ?mm ?ss = Inr g" "valid_time g"
        "seconds g = 86400 * civil_day_number (fy f) (fm f) (fd f) + 3600 * fhh f + 60 * ?mm + ?ss"
      using n_sec_eq [OF y b(13-15) fit] by metis
    then show ?thesis
      using fit q(1) [of 60] b(12) [of 0] by (simp add: step_def i64_def int64_def seconds_def)
  qed
  show "\<exists>g. step minute_tag f n = Inr g \<and> valid_time g \<and> seconds g = seconds f + 60 * n"
  proof -
    let ?hh = "fhh f + n sdiv 60" and ?mm = "fmm f + n smod 60"
    have fit: "int64 ?hh" "int64 ?mm" using q [of 60] b by (auto simp: int64_def)
    obtain g where g: "n_min (fy f) (fm f) (fd f) ?hh 0 ?mm (fss f) = Inr g" "valid_time g"
        "seconds g = 86400 * civil_day_number (fy f) (fm f) (fd f) + 3600 * (?hh + 0) + 60 * ?mm + fss f"
      using n_min_eq [OF y b(13,14) fit(1) _ _ fit(2), of 0 "fss f"] b by auto
    then show ?thesis
      using fit q(1) [of 60] b(12) [of 0] by (simp add: step_def i64_def int64_def seconds_def)
  qed
  show "\<exists>g. step hour_tag f n = Inr g \<and> valid_time g \<and> seconds g = seconds f + 3600 * n"
  proof -
    let ?d = "fd f + n sdiv 24" and ?hh = "fhh f + n smod 24"
    have fit: "int64 ?d" "int64 ?hh" using q [of 24] b by (auto simp: int64_def)
    obtain g where g: "n_hour (fy f) (fm f) ?d 0 ?hh (fmm f) (fss f) = Inr g" "valid_time g"
        "seconds g = 86400 * (civil_day_number (fy f) (fm f) ?d + 0) + 3600 * ?hh + 60 * fmm f + fss f"
      using n_hour_eq [OF y b(13) fit(1) _ _ fit(2), of 0 "fmm f" "fss f"] b by auto
    then show ?thesis
      using fit q(1) [of 24] b(12) [of "n sdiv 24"] by (simp add: step_def i64_def int64_def seconds_def)
  qed
qed

lemma step_day:
  assumes f: "valid_time f" and y: "- (2 ^ 62) \<le> fy f" "fy f \<le> 2 ^ 62" and n: "int64 n"
  shows "\<exists>y m d. step day_tag f n = Inr (mk_fields y m d (fhh f) (fmm f) (fss f)) \<and> valid_date y m d \<and>
    day_number y m d = date_number f + n"
proof -
  note b = valid_time_fields [OF f]
  have bs: "- (2 ^ 62) - 2 ^ 60 \<le> fy f" "fy f \<le> 2 ^ 62 + 2 ^ 60" "- (2 ^ 63) \<le> fd f" "fd f < 2 ^ 63"
      "- (2 ^ 63) \<le> n" "n < 2 ^ 63"
    using y n b by (auto simp: int64_def)
  obtain y' m' d' where "n_day (fy f) (fm f) (fd f) n (fhh f) (fmm f) (fss f) = Inr (mk_fields y' m' d' (fhh f) (fmm f) (fss f))"
      "valid_date y' m' d'" "day_number y' m' d' = day_number (fy f) (fm f) (fd f) + n"
    by (rule n_day_eq [OF b(1,2) bs])
  then show ?thesis by (auto simp: step_def date_number_def)
qed

text \<open>The first of a month stays the first of a month.\<close>

lemma n_mon_first:
  assumes "- (2 ^ 62) \<le> y" "y \<le> 2 ^ 62" "int64 m"
  shows "\<exists>y' m'. n_mon y m 1 0 0 0 0 = Inr (mk_fields y' m' 1 0 0 0) \<and> valid_date y' m' 1 \<and> 12 * y' + m' = 12 * y + m"
proof -
  let ?Y = "y + (m - 1) div 12" and ?M = "(m - 1) mod 12 + 1"
  obtain y' m' d' where g: "n_mon y m 1 0 0 0 0 = Inr (mk_fields y' m' d' 0 0 0)" "valid_date y' m' d'"
      "day_number y' m' d' = civil_day_number y m 1 + 0"
    using n_mon_eq [OF assms, of 1 0 0 0 0] by (auto simp: int64_def)
  have "1 \<le> ?M" "?M \<le> 12" using pos_mod_sign [of 12 "m - 1"] pos_mod_bound [of 12 "m - 1"] by simp_all
  then have v: "valid_date ?Y ?M 1" using days_per_month_pos [of ?M ?Y] by (simp add: valid_date_def)
  then have "y' = ?Y" "m' = ?M" "d' = 1"
    using day_number_inject [OF g(2), of ?Y ?M 1] g(3) by (simp_all add: civil_day_number_def)
  moreover have "12 * ?Y + ?M = 12 * y + m" using div_mult_mod_eq [of "m - 1" 12] by simp
  ultimately show ?thesis using g(1) v by blast
qed

lemma step_eq:
  assumes f: "valid_time f" "aligned tag f" and y: "- (2 ^ 61) \<le> fy f" "fy f \<le> 2 ^ 61" and n: "int64 n"
    "tag = year_tag \<Longrightarrow> int64 (fy f + n)"
  obtains g where "step tag f n = Inr g" "valid_time g" "aligned tag g" "units tag g = units tag f + n"
proof -
  have y': "- (2 ^ 62) \<le> fy f" "fy f \<le> 2 ^ 62" using y by auto
  note clock = step_clock [OF f(1) y' n(1)]
  show thesis
  proof (cases tag)
    case second_tag
    then show ?thesis using that clock(1) by (auto simp: units_second aligned_iff simp del: units.simps)
  next
    case minute_tag
    obtain g where g: "step minute_tag f n = Inr g" "valid_time g" "seconds g = seconds f + 60 * n" using clock(2) by blast
    then have "seconds g = 60 * (units minute_tag f + n)" using f(2) minute_tag by (simp add: aligned_iff seconds_def)
    then show ?thesis using that [of g] g whole_units(1) [OF g(2)] minute_tag by blast
  next
    case hour_tag
    obtain g where g: "step hour_tag f n = Inr g" "valid_time g" "seconds g = seconds f + 3600 * n" using clock(3) by blast
    then have "seconds g = 3600 * (units hour_tag f + n)" using f(2) hour_tag by (simp add: aligned_iff seconds_def)
    then show ?thesis using that [of g] g whole_units(2) [OF g(2)] hour_tag by blast
  next
    case day_tag
    then show ?thesis
      using that step_day [OF f(1) y' n(1)] f by (auto simp: valid_time_def aligned_iff date_number_def)
  next
    case month_tag
    have al: "fd f = 1" "fhh f = 0" "fmm f = 0" "fss f = 0" using f(2) month_tag by (simp_all add: aligned_iff)
    have fit: "int64 (fm f + n smod 12)" "- (2 ^ 62) \<le> fy f + n sdiv 12" "fy f + n sdiv 12 \<le> 2 ^ 62"
      using int64_sdiv [OF n(1), of 12] valid_time_fields(1,2) [OF f(1)] y by (auto simp: int64_def)
    obtain Y M where "n_mon (fy f + n sdiv 12) (fm f + n smod 12) 1 0 0 0 0 = Inr (mk_fields Y M 1 0 0 0)"
        "valid_date Y M 1" "12 * Y + M = 12 * (fy f + n sdiv 12) + (fm f + n smod 12)"
      using n_mon_first [OF fit(2,3,1)] by blast
    then show ?thesis
      using that [of "mk_fields Y M 1 0 0 0"] fit al month_tag int64_sdiv(1) [OF n(1), of 12]
      by (simp add: step_def i64_def int64_def valid_time_def aligned_iff)
  next
    case year_tag
    have "valid_date (fy f + n) 1 1" using days_per_month_pos [of 1 "fy f + n"] by (simp add: valid_date_def)
    then show ?thesis
      using that [of "mk_fields (fy f + n) (fm f) (fd f) (fhh f) (fmm f) (fss f)"] f(2) n(2) year_tag
      by (simp add: step_def i64_def int64_def valid_time_def aligned_iff)
  qed
qed

text \<open>The year of a later date, and of a date within some eras.\<close>

lemma later_year: "valid_time f \<Longrightarrow> valid_time g \<Longrightarrow> date_number f \<le> date_number g \<Longrightarrow> fy f \<le> fy g"
  using day_number_less_iff [of "fy g" "fm g" "fd g" "fy f" "fm f" "fd f"]
  by (auto simp: valid_time_def date_number_def date_less_def)

lemma era_year:
  assumes "valid_time f" "valid_time g" "date_number g \<le> date_number f + 146097 * k"
  shows "fy g \<le> fy f + 400 * k"
  using day_number_less_iff [of "fy f + 400 * k" "fm f" "fd f" "fy g" "fm g" "fd g"] assms
  by (auto simp: valid_time_def valid_date_era date_number_def date_less_def day_number_eras)

lemma units_date:
  assumes "valid_time f" "valid_time g" "units tag g = units tag f + n" "0 \<le> n" "tag \<noteq> month_tag" "tag \<noteq> year_tag"
  shows "date_number f \<le> date_number g" "date_number g \<le> date_number f + n"
  using assms valid_time_fields(5-10) [OF assms(1)] valid_time_fields(5-10) [OF assms(2)] by (cases tag; simp)+

lemma step_year_bound:
  assumes "valid_time f" "valid_time g" "units tag g = units tag f + n" "- (2 ^ 63) \<le> n" "n \<le> 2 ^ 63"
    "tag \<noteq> year_tag" "- (2 ^ 60) \<le> fy f" "fy f \<le> 2 ^ 60"
  shows "- (2 ^ 61) \<le> fy g \<and> fy g \<le> 2 ^ 61"
proof (cases "tag = month_tag")
  case True
  then show ?thesis
    using assms valid_time_fields(1,2) [OF assms(1)] valid_time_fields(1,2) [OF assms(2)] by simp
next
  case False
  show ?thesis
  proof (cases "0 \<le> n")
    case True
    note d = units_date [OF assms(1-3) True False assms(6)]
    have "fy f \<le> fy g" using later_year [OF assms(1,2)] d(1) by simp
    moreover have "fy g \<le> fy f + 400 * 2 ^ 47" using era_year [OF assms(1,2), of "2 ^ 47"] d(2) assms(5) by simp
    ultimately show ?thesis using assms(7,8) by simp
  next
    case neg: False
    have "units tag f = units tag g + - n" using assms(3) by simp
    note d = units_date [OF assms(2,1) this _ False assms(6)]
    have "fy g \<le> fy f" using later_year [OF assms(2,1)] d(1) neg by simp
    moreover have "fy f \<le> fy g + 400 * 2 ^ 47" using era_year [OF assms(2,1), of "2 ^ 47"] d(2) assms(4) neg by simp
    ultimately show ?thesis using assms(7,8) by simp
  qed
qed

lemma minus_assign_eq:
  assumes f: "valid_time f" "aligned tag f" and y: "- (2 ^ 60) \<le> fy f" "fy f \<le> 2 ^ 60" and n: "int64 n"
    "tag = year_tag \<Longrightarrow> int64 (fy f - n)"
  obtains g where "minus_assign tag f n = Inr g" "valid_time g" "aligned tag g" "units tag g = units tag f - n"
proof (cases "n = - (2 ^ 63)")
  case False
  have "- (2 ^ 61) \<le> fy f" "fy f \<le> 2 ^ 61" using y by auto
  moreover have "int64 (- n)" using n(1) False by (auto simp: int64_def)
  ultimately obtain g where "step tag f (- n) = Inr g" "valid_time g" "aligned tag g" "units tag g = units tag f + - n"
    using step_eq [OF f, of "- n"] n(2) by auto
  then show ?thesis using that False by (simp add: minus_assign_def)
next
  case True
  have y': "- (2 ^ 61) \<le> fy f" "fy f \<le> 2 ^ 61" using y by auto
  have i: "int64 (2 ^ 63 - 1)" "int64 1" by (simp_all add: int64_def)
  have "int64 (fy f + (2 ^ 63 - 1))" if "tag = year_tag" using n(2) [OF that] y True by (auto simp: int64_def)
  then obtain g where g: "step tag f (2 ^ 63 - 1) = Inr g" "valid_time g" "aligned tag g"
      "units tag g = units tag f + (2 ^ 63 - 1)"
    using step_eq [OF f y' i(1)] by metis
  obtain h where h: "step tag g 1 = Inr h" "valid_time h" "aligned tag h" "units tag h = units tag g + 1"
  proof (cases "tag = year_tag")
    case year: True
    have "int64 (fy g + 1)" using g(4) n(2) [OF year] year True by (auto simp: int64_def)
    then have "step tag g 1 = Inr (mk_fields (fy g + 1) (fm g) (fd g) (fhh g) (fmm g) (fss g))"
      using year by (simp add: step_def i64_def int64_def)
    moreover have "valid_date (fy g + 1) 1 1" using days_per_month_pos [of 1 "fy g + 1"] by (simp add: valid_date_def)
    ultimately show ?thesis using that g(3) year by (simp add: aligned_iff valid_time_def)
  next
    case not_year: False
    then show ?thesis
      using step_eq [OF g(2,3) _ _ i(2)] step_year_bound [OF f(1) g(2,4) _ _ not_year y] that by simp metis
  qed
  then show ?thesis using that g True by (simp add: minus_assign_def)
qed

section \<open>The order\<close>

lemma civil_less_iff:
  assumes "valid_time f" "valid_time g"
  shows "civil_less f g \<longleftrightarrow> seconds f < seconds g"
proof -
  note b = valid_time_fields [OF assms(1)] valid_time_fields [OF assms(2)]
  have date: "date_less (fy f, fm f, fd f) (fy g, fm g, fd g) \<longleftrightarrow> date_number f < date_number g"
    using day_number_less_iff [OF b(11) b(27)] by (simp add: date_number_def)
  have same: "date_number f = date_number g \<longleftrightarrow> fy f = fy g \<and> fm f = fm g \<and> fd f = fd g"
    using day_number_inject [OF b(11) b(27)] by (auto simp: date_number_def)
  have "civil_less f g \<longleftrightarrow> date_number f < date_number g \<or> date_number f = date_number g \<and>
      (fhh f < fhh g \<or> fhh f = fhh g \<and> (fmm f < fmm g \<or> fmm f = fmm g \<and> fss f < fss g))"
    unfolding date [symmetric] same by (auto simp: civil_less_def date_less_def)
  also have "\<dots> \<longleftrightarrow> seconds f < seconds g"
    using b(5-10) b(21-26) unfolding seconds_def by arith
  finally show ?thesis .
qed

section \<open>Weekdays and the day of the year\<close>

definition weekdays :: "weekday list" where
  "weekdays = [monday, tuesday, wednesday, thursday, friday, saturday, sunday]"

lemma weekday_table: "map (\<lambda>r. k_weekday_by_mon_off ! nat (r + 6)) [0..6] = map (\<lambda>r. weekdays ! nat ((r + 6) mod 7)) [0..6]"
  by code_simp

lemma weekday_table_nth: "0 \<le> r \<Longrightarrow> r < 7 \<Longrightarrow> k_weekday_by_mon_off ! nat (r + 6) = weekdays ! nat ((r + 6) mod 7)"
proof -
  assume "0 \<le> r" "r < 7"
  then have "r \<in> set [0..6]" by simp
  with weekday_table show ?thesis by (simp only: map_eq_conv)
qed

lemma weekday_offset:
  "1 \<le> m \<Longrightarrow> m \<le> 12 \<Longrightarrow> (k_weekday_offsets ! nat m) mod 7 = (month_offset m + of_bool (m < 3) - 1) mod 7"
  by (drule (1) month_cases) (auto simp: k_weekday_offsets_def month_offset_def)

text \<open>1970-01-01 was a Thursday, and weekdays repeat every seven days.\<close>

lemma get_weekday_eq:
  assumes "valid_date (fy f) (fm f) (fd f)"
  shows "get_weekday f = weekdays ! nat ((date_number f + 3) mod 7)"
proof -
  have m: "1 \<le> fm f" "fm f \<le> 12" "1 \<le> fd f" using assms by (simp_all add: valid_date_def)
  define z w where "z = (if fm f > 2 then fy f else fy f - 1)" and "w = 2400 + fy f smod 400 - of_bool (fm f < 3)"
  define j where "j = 6 - fy f sdiv 400"
  have w: "w = 400 * j + z"
    using sdiv_mult_smod_eq [of "fy f" 400] by (auto simp: w_def z_def j_def)
  have pos: "0 \<le> w" using smod_bounds [of 400 "fy f"] by (auto simp: w_def)
  define k where "k = k_weekday_offsets ! nat (fm f)"
  define wd where "wd = w + leap_count w + (k + fd f)"
  have "- 1 \<le> k" using month_cases [OF m(1,2)] by (elim disjE) (simp_all add: k_def k_weekday_offsets_def)
  then have wd0: "0 \<le> wd" using pos leap_count_sign(1) [OF pos] m(3) by (simp add: wd_def)
  have "get_weekday f = k_weekday_by_mon_off ! nat (wd smod 7 + 6)"
    using pos by (simp add: get_weekday_def w_def [symmetric] k_def [symmetric] wd_def leap_count_def sdiv_nonneg Let_def)
  also have "\<dots> = weekdays ! nat ((wd mod 7 + 6) mod 7)"
    using wd0 weekday_table_nth [of "wd mod 7"] by (simp add: sdiv_nonneg)
  also have "(wd mod 7 + 6) mod 7 = (date_number f + 3) mod 7"
  proof -
    define c where "c = of_bool (fm f < 3) + month_offset (fm f) + fd f"
    obtain t where t: "k = month_offset (fm f) + of_bool (fm f < 3) - 1 + 7 * t"
      using weekday_offset [OF m(1,2)] unfolding k_def by (metis mod_eqE add.commute diff_add_cancel mult.commute)
    have "wd = 497 * j + z + leap_count z + c - 1 + 7 * t"
      using leap_count_era [of j z] unfolding wd_def w t c_def by simp
    moreover have "date_number f = 365 * z + leap_count z + c + 364 * of_bool (fm f < 3) - 719528"
      unfolding date_number_def day_number_def c_def z_def by simp
    ultimately have eq: "date_number f + 3 = wd + 6 + 7 * (52 * z - 71 * j - t + 52 * of_bool (fm f < 3) - 102790)"
      by simp
    show ?thesis unfolding eq mod_mult_self2 by (rule mod_add_left_eq)
  qed
  finally show ?thesis .
qed

lemma get_yearday_eq:
  assumes "valid_date (fy f) (fm f) (fd f)"
  shows "get_yearday f = date_number f - day_number (fy f) 1 1 + 1"
proof -
  have m: "1 \<le> fm f" "fm f \<le> 12" using assms by (simp_all add: valid_date_def)
  have "leap_count (fy f) - leap_count (fy f - 1) = of_bool (is_leap_year (fy f))"
    using leap_count_1 [of "fy f - 1"] by simp
  then show ?thesis
    using month_cases [OF m]
    by (elim disjE)
      (simp_all add: get_yearday_def k_month_offsets_def date_number_def day_number_def month_offset_def)
qed

lemma get_yearday_bounds:
  assumes "valid_date (fy f) (fm f) (fd f)"
  shows "1 \<le> get_yearday f \<and> get_yearday f \<le> (if is_leap_year (fy f) then 366 else 365)"
  using day_number_year_bounds [OF assms] day_number_1_year [of "fy f" 1 0] day_number_day [of "fy f" 1 1]
  unfolding get_yearday_eq [OF assms] by (simp add: date_number_def split: if_splits)

text \<open>
  A walk from day to day, forward or back, that stops at a weekday: it takes at most a week, and
  stops at the first such day.
\<close>

definition first_after :: "int \<Rightarrow> int \<Rightarrow> weekday \<Rightarrow> int" where
  "first_after r s wd = (if weekdays ! nat ((r + s * 1) mod 7) = wd then 1
     else hd (filter (\<lambda>k. weekdays ! nat ((r + s * k) mod 7) = wd) [2..7]))"

lemma first_after_table:
  "list_all (\<lambda>r. list_all (\<lambda>s. list_all (\<lambda>wd. let k = first_after r s wd in
     1 \<le> k \<and> k \<le> 7 \<and> weekdays ! nat ((r + s * k) mod 7) = wd \<and>
     list_all (\<lambda>j. j < k \<longrightarrow> weekdays ! nat ((r + s * j) mod 7) \<noteq> wd) [1..7]) weekdays) [1, - 1]) [0..6]"
  by code_simp

lemma weekdays_all: "wd \<in> set weekdays"
  by (cases wd) (simp_all add: weekdays_def)

lemma first_weekday:
  assumes "s = 1 \<or> s = - 1"
  obtains k where "1 \<le> k" "k \<le> 7" "weekdays ! nat ((n + s * k + 3) mod 7) = wd"
    "\<And>j. 1 \<le> j \<Longrightarrow> j < k \<Longrightarrow> weekdays ! nat ((n + s * j + 3) mod 7) \<noteq> wd"
proof -
  define r k where "r = (n + 3) mod 7" and "k = first_after r s wd"
  have mod_r: "(n + s * j + 3) mod 7 = (r + s * j) mod 7" for j
    unfolding r_def by (metis add.assoc add.commute mod_add_left_eq)
  have "r \<in> set [0..6]" "s \<in> set [1, - 1]" using assms by (auto simp: r_def)
  then have "1 \<le> k \<and> k \<le> 7 \<and> weekdays ! nat ((r + s * k) mod 7) = wd \<and>
      list_all (\<lambda>j. j < k \<longrightarrow> weekdays ! nat ((r + s * j) mod 7) \<noteq> wd) [1..7]"
    using first_after_table weekdays_all [of wd] unfolding list_all_iff Let_def k_def by blast
  then show thesis using that [of k] unfolding mod_r list_all_iff by auto
qed

locale day_walk =
  fixes move :: "fields \<Rightarrow> fields result" and s :: int
  assumes unit: "s = 1 \<or> s = - 1"
    and moves: "valid_time f \<Longrightarrow> aligned day_tag f \<Longrightarrow> - (2 ^ 60) \<le> fy f \<Longrightarrow> fy f \<le> 2 ^ 60 \<Longrightarrow>
      \<exists>g. move f = Inr g \<and> valid_time g \<and> aligned day_tag g \<and> date_number g = date_number f + s"
begin

lemma walk:
  assumes "valid_time f" "aligned day_tag f" "- (2 ^ 60) + 400 \<le> fy f" "fy f \<le> 2 ^ 60 - 400"
    "valid_time c" "aligned day_tag c" "date_number c = date_number f + s * i" "0 \<le> i" "i < k" "k \<le> 7"
    "weekdays ! nat ((date_number f + s * k + 3) mod 7) = wd"
    "\<And>j. i < j \<Longrightarrow> j < k \<Longrightarrow> weekdays ! nat ((date_number f + s * j + 3) mod 7) \<noteq> wd"
  shows "\<exists>g. weekday_loop move c wd = Some (Inr g) \<and> valid_time g \<and> aligned day_tag g \<and>
    date_number g = date_number f + s * k \<and> get_weekday g = wd"
  using assms(5-)
proof (induction "nat (k - i)" arbitrary: c i)
  case 0
  then show ?case by simp
next
  case (Suc n)
  have near: "date_number c \<le> date_number f + 146097 * 1" "date_number f \<le> date_number c + 146097 * 1"
    using Suc.prems(3-6) unit by auto
  have "fy c \<le> fy f + 400 * 1" "fy f \<le> fy c + 400 * 1"
    using era_year [OF assms(1) Suc.prems(1) near(1)] era_year [OF Suc.prems(1) assms(1) near(2)] by auto
  then have "- (2 ^ 60) \<le> fy c" "fy c \<le> 2 ^ 60" using assms(3,4) by auto
  then obtain g where g: "move c = Inr g" "valid_time g" "aligned day_tag g" "date_number g = date_number c + s"
    using moves [OF Suc.prems(1,2)] by blast
  have num: "date_number g = date_number f + s * (i + 1)" using g(4) Suc.prems(3) by (simp add: algebra_simps)
  have wd: "get_weekday g = weekdays ! nat ((date_number f + s * (i + 1) + 3) mod 7)"
    using get_weekday_eq [of g] g(2) num by (simp add: valid_time_def)
  show ?case
  proof (cases "i + 1 = k")
    case True
    then have "get_weekday g = wd" using wd Suc.prems(7) by simp
    then have "weekday_loop move c wd = Some (Inr g)" using g(1) by (subst weekday_loop.simps) simp
    then show ?thesis using g num True \<open>get_weekday g = wd\<close> by blast
  next
    case False
    then have "get_weekday g \<noteq> wd" using wd Suc.prems(8) [of "i + 1"] Suc.prems(5) by simp
    then have "weekday_loop move c wd = weekday_loop move g wd" using g(1) by (subst weekday_loop.simps) simp
    moreover have "\<exists>h. weekday_loop move g wd = Some (Inr h) \<and> valid_time h \<and> aligned day_tag h \<and>
        date_number h = date_number f + s * k \<and> get_weekday h = wd"
      using Suc.hyps(2) Suc.prems False num g by (intro Suc.hyps(1) [of "i + 1"]) auto
    ultimately show ?thesis by simp
  qed
qed

lemma finds_weekday:
  assumes "valid_time f" "aligned day_tag f" "- (2 ^ 60) + 400 \<le> fy f" "fy f \<le> 2 ^ 60 - 400"
  shows "\<exists>g k. weekday_loop move f wd = Some (Inr g) \<and> valid_time g \<and> aligned day_tag g \<and> get_weekday g = wd \<and>
    1 \<le> k \<and> k \<le> 7 \<and> date_number g = date_number f + s * k"
proof -
  obtain k where k: "1 \<le> k" "k \<le> 7" "weekdays ! nat ((date_number f + s * k + 3) mod 7) = wd"
      "\<And>j. 1 \<le> j \<Longrightarrow> j < k \<Longrightarrow> weekdays ! nat ((date_number f + s * j + 3) mod 7) \<noteq> wd"
    using first_weekday [OF unit] by metis
  show ?thesis using walk [OF assms assms(1,2), of 0 k wd] k by auto
qed

end

interpretation forward: day_walk "\<lambda>cd. plus_assign day_tag cd 1" 1
proof
  fix f assume f: "valid_time f" "aligned day_tag f" "- (2 ^ 60) \<le> fy f" "fy f \<le> 2 ^ 60"
  then have "- (2 ^ 61) \<le> fy f" "fy f \<le> 2 ^ 61" by auto
  then show "\<exists>g. plus_assign day_tag f 1 = Inr g \<and> valid_time g \<and> aligned day_tag g \<and> date_number g = date_number f + 1"
    using step_eq [OF f(1,2), of 1] by (auto simp: plus_assign_def int64_def)
qed simp

interpretation backward: day_walk "\<lambda>cd. minus_assign day_tag cd 1" "- 1"
proof
  fix f assume f: "valid_time f" "aligned day_tag f" "- (2 ^ 60) \<le> fy f" "fy f \<le> 2 ^ 60"
  then show "\<exists>g. minus_assign day_tag f 1 = Inr g \<and> valid_time g \<and> aligned day_tag g \<and> date_number g = date_number f + - 1"
    using minus_assign_eq [OF f, of 1] by (auto simp: int64_def)
qed simp

section \<open>The extreme civil times\<close>

lemma civil_time_extremes:
  "civil_time_max tag = Inr (align tag (mk_fields (2 ^ 63 - 1) 12 31 23 59 59))"
  "civil_time_min tag = Inr (align tag (mk_fields (- (2 ^ 63)) 1 1 0 0 0))"
proof -
  have "n_sec (2 ^ 63 - 1) 12 31 23 59 59 = Inr (mk_fields (2 ^ 63 - 1) 12 31 23 59 59)" by code_simp
  then show "civil_time_max tag = Inr (align tag (mk_fields (2 ^ 63 - 1) 12 31 23 59 59))"
    by (simp only: civil_time_max_def civil_time_def bindr_Inr)
  have "n_sec (- (2 ^ 63)) 1 1 0 0 0 = Inr (mk_fields (- (2 ^ 63)) 1 1 0 0 0)" by code_simp
  then show "civil_time_min tag = Inr (align tag (mk_fields (- (2 ^ 63)) 1 1 0 0 0))"
    by (simp only: civil_time_min_def civil_time_def bindr_Inr)
qed

end
