(* ===== verification/Time_Laws.thy ===== *)
theory Time_Laws
  imports Civil_Laws
begin

text \<open>
  The properties of the civil times of the vendored Abseil that the development claims:
  normalization, steps, differences and the order, the calendar, and the search for a weekday.
\<close>

section \<open>Normalization\<close>

text \<open>At the end of the range of years a carry overflows: the bound of the next theorem leaves room.\<close>

lemma normalization_overflow:
  "civil_time tag (2 ^ 63 - 1) 13 1 0 0 0 = Inl (Undefined_behaviour ''int64 overflow'')"
proof -
  have "n_sec (2 ^ 63 - 1) 13 1 0 0 0 = Inl (Undefined_behaviour ''int64 overflow'')" by code_simp
  then show ?thesis by (simp add: civil_time_def)
qed

text \<open>C31: normalization keeps the moment. For a year of at most \<open>2 ^ 62\<close> in absolute value and any
  64-bit month, day, hour, minute and second the constructor of every civil type returns, without
  an overflow on the way: there is one valid time \<open>f\<close> with the seconds that the arguments add up
  to, and the result is the valid time aligned to the type that lies in the same unit as \<open>f\<close>. The
  extreme civil times, whose years leave no room, are built as well.\<close>

theorem normalization_exact:
  assumes "- (2 ^ 62) \<le> y" "y \<le> 2 ^ 62" "int64 m" "int64 d" "int64 hh" "int64 mm" "int64 ss"
  shows "\<exists>f g. valid_time f \<and>
    seconds f = 86400 * civil_day_number y m d + 3600 * hh + 60 * mm + ss \<and>
    {g. valid_time g \<and> seconds g = seconds f} = {f} \<and>
    civil_time second_tag y m d hh mm ss = Inr f \<and>
    civil_time tag y m d hh mm ss = Inr g \<and> valid_time g \<and> aligned tag g \<and> units tag g = units tag f \<and>
    civil_time_max tag = Inr (align tag (mk_fields (2 ^ 63 - 1) 12 31 23 59 59)) \<and>
    civil_time_min tag = Inr (align tag (mk_fields (- (2 ^ 63)) 1 1 0 0 0))"
proof -
  obtain f where f: "n_sec y m d hh mm ss = Inr f" "valid_time f"
      "seconds f = 86400 * civil_day_number y m d + 3600 * hh + 60 * mm + ss"
    using n_sec_eq [OF assms] .
  have "g = f" if "valid_time g" "seconds g = seconds f" for g
    using aligned_units_inject [OF that(1) f(2), of second_tag] that(2) by (simp add: units_second aligned_iff del: units.simps)
  then have "{g. valid_time g \<and> seconds g = seconds f} = {f}" using f(2) by blast
  moreover have "civil_time second_tag y m d hh mm ss = Inr f" "civil_time tag y m d hh mm ss = Inr (align tag f)"
    using f(1) by (simp_all add: civil_time_def align_def)
  moreover note align_valid [OF f(2), of tag]
  ultimately show ?thesis using f(2,3) civil_time_extremes by blast
qed

theorem normalization_exact_witness:
  "- (2 ^ 62) \<le> (2016 :: int) \<and> (2016 :: int) \<le> 2 ^ 62 \<and> int64 14 \<and> int64 (- 400) \<and> int64 100 \<and>
   int64 1000000 \<and> int64 (- (2 ^ 63)) \<and>
   (\<exists>f g. valid_time f \<and> civil_time month_tag 2016 14 (- 400) 100 1000000 (- (2 ^ 63)) = Inr g \<and>
     aligned month_tag g \<and> units month_tag g = units month_tag f \<and>
     seconds f = 86400 * civil_day_number 2016 14 (- 400) + 3600 * 100 + 60 * 1000000 + - (2 ^ 63))"
proof -
  have pre: "- (2 ^ 62) \<le> (2016 :: int)" "(2016 :: int) \<le> 2 ^ 62" "int64 14" "int64 (- 400)" "int64 100"
      "int64 1000000" "int64 (- (2 ^ 63))" by (simp_all add: int64_def)
  show ?thesis using normalization_exact [OF pre, of month_tag] pre by blast
qed

section \<open>Steps and differences\<close>

text \<open>C32: steps count units, and differences undo them. From an aligned civil time of any type
  whose year is at most \<open>2 ^ 60\<close> in absolute value, \<open>+=\<close> and \<open>-=\<close> with any 64-bit number, the
  smallest one included, lead to the aligned time that many units later or earlier, and \<open>-\<close> of the
  two times returns the number. For civil years, where the number is added to the year itself, the
  two sums must fit 64 bits.\<close>

theorem steps_count_units:
  assumes "valid_time f" "aligned tag f" "- (2 ^ 60) \<le> fy f" "fy f \<le> 2 ^ 60" "int64 n"
    "tag = year_tag \<longrightarrow> int64 (fy f + n) \<and> int64 (fy f - n)"
  shows "\<exists>g h. plus_assign tag f n = Inr g \<and> valid_time g \<and> aligned tag g \<and>
    units tag g = units tag f + n \<and> difference tag g f = Inr n \<and>
    minus_assign tag f n = Inr h \<and> valid_time h \<and> aligned tag h \<and>
    units tag h = units tag f - n \<and> difference tag f h = Inr n"
proof -
  have y: "- (2 ^ 61) \<le> fy f" "fy f \<le> 2 ^ 61" "int64 (fy f)" using assms(3,4) by (auto simp: int64_def)
  have up: "tag = year_tag \<Longrightarrow> int64 (fy f + n)" and down: "tag = year_tag \<Longrightarrow> int64 (fy f - n)" using assms(6) by simp_all
  obtain g where g: "step tag f n = Inr g" "valid_time g" "aligned tag g" "units tag g = units tag f + n"
    using step_eq [OF assms(1,2) y(1,2) assms(5) up] .
  obtain h where h: "minus_assign tag f n = Inr h" "valid_time h" "aligned tag h" "units tag h = units tag f - n"
    using minus_assign_eq [OF assms(1-5) down] .
  have "int64 (fy g)"
    using step_year_bound [OF assms(1) g(2,4) _ _ _ assms(3,4)] assms(5) g(4) up
    by (cases "tag = year_tag") (auto simp: int64_def)
  then have "difference tag g f = Inr n" using difference_eq [OF g(2) assms(1) _ y(3)] g(4) assms(5) by simp
  moreover have "int64 (fy h)"
    using step_year_bound [OF assms(1) h(2), of tag "- n"] assms(3-5) h(4) down
    by (cases "tag = year_tag") (auto simp: int64_def)
  then have "difference tag f h = Inr n" using difference_eq [OF assms(1) h(2) y(3)] h(4) assms(5) by simp
  ultimately show ?thesis using g h by (auto simp: plus_assign_def)
qed

theorem steps_count_units_witness:
  "valid_time (mk_fields 2016 2 29 0 0 0) \<and> aligned day_tag (mk_fields 2016 2 29 0 0 0) \<and> int64 (- (2 ^ 63)) \<and>
   (\<exists>h. minus_assign day_tag (mk_fields 2016 2 29 0 0 0) (- (2 ^ 63)) = Inr h \<and>
     units day_tag h = units day_tag (mk_fields 2016 2 29 0 0 0) + 2 ^ 63)"
proof -
  have pre: "valid_time (mk_fields 2016 2 29 0 0 0)" "aligned day_tag (mk_fields 2016 2 29 0 0 0)"
      "- (2 ^ 60) \<le> fy (mk_fields 2016 2 29 0 0 0)" "fy (mk_fields 2016 2 29 0 0 0) \<le> 2 ^ 60" "int64 (- (2 ^ 63))"
      "day_tag = year_tag \<longrightarrow> int64 (fy (mk_fields 2016 2 29 0 0 0) + - (2 ^ 63)) \<and> int64 (fy (mk_fields 2016 2 29 0 0 0) - - (2 ^ 63))"
    by (simp_all add: valid_time_def valid_date_def days_per_month_def k_days_per_month_def is_leap_year_mod aligned_iff int64_def)
  show ?thesis using steps_count_units [OF pre] pre(1,2,5) by auto
qed

text \<open>C33: differences are exact whenever they can be. For valid civil times of any 64-bit years the
  difference in each of the six units is returned when it is a 64-bit number itself: no step on
  the way overflows, although ordinals of extreme years would. The relational operators compare
  the moments.\<close>

theorem differences_exact:
  assumes "valid_time f" "valid_time g" "int64 (fy f)" "int64 (fy g)" "int64 (units tag f - units tag g)"
  shows "difference tag f g = Inr (units tag f - units tag g) \<and> (civil_less f g \<longleftrightarrow> seconds f < seconds g) \<and>
    (civil_le f g \<longleftrightarrow> seconds f \<le> seconds g) \<and> (civil_eq f g \<longleftrightarrow> seconds f = seconds g)"
proof -
  have "civil_eq f g \<longleftrightarrow> f = g" by (cases f; cases g) (auto simp: civil_eq_def)
  also have "\<dots> \<longleftrightarrow> seconds f = seconds g"
    using aligned_units_inject [OF assms(1,2), of second_tag] by (auto simp: units_second aligned_iff simp del: units.simps)
  finally show ?thesis
    using difference_eq [OF assms] civil_less_iff [OF assms(1,2)] civil_less_iff [OF assms(2,1)]
    by (auto simp: civil_le_def)
qed

theorem differences_exact_witness:
  "valid_time (mk_fields (2 ^ 63 - 1) 3 1 0 0 0) \<and> valid_time (mk_fields (2 ^ 63 - 1) 2 28 23 0 0) \<and>
   difference hour_tag (mk_fields (2 ^ 63 - 1) 3 1 0 0 0) (mk_fields (2 ^ 63 - 1) 2 28 23 0 0) = Inr 1"
proof -
  have "valid_time (mk_fields (2 ^ 63 - 1) 3 1 0 0 0)" "valid_time (mk_fields (2 ^ 63 - 1) 2 28 23 0 0)" by code_simp+
  moreover have u: "units hour_tag (mk_fields (2 ^ 63 - 1) 3 1 0 0 0) - units hour_tag (mk_fields (2 ^ 63 - 1) 2 28 23 0 0) = 1"
    by code_simp
  ultimately show ?thesis
    using differences_exact [of "mk_fields (2 ^ 63 - 1) 3 1 0 0 0" "mk_fields (2 ^ 63 - 1) 2 28 23 0 0" hour_tag]
    by (simp add: int64_def del: units.simps)
qed

section \<open>The calendar\<close>

text \<open>C34: the calendar, for years between \<open>- (2 ^ 54)\<close> and \<open>2 ^ 54\<close>. \<open>ymd_ord\<close> counts the days from 1970-01-01: the day after a day, in the next
  month or year if need be, has the next number. The weekday and the day of the year, which come
  from tables and not from the number, move on with it, from Thursday on the first day.\<close>

theorem calendar_exact:
  assumes "valid_date y m d" "- (2 ^ 54) < y" "y < 2 ^ 54" "next_day (y, m, d) = (y', m', d')"
  shows "ymd_ord 1970 1 1 = Inr 0 \<and>
    (\<exists>k. ymd_ord y m d = Inr k \<and> ymd_ord y' m' d' = Inr (k + 1) \<and>
       get_weekday (mk_fields y m d 0 0 0) = weekdays ! nat ((k + 3) mod 7) \<and>
       get_yearday (mk_fields y m d 0 0 0) = k - day_number y 1 1 + 1)"
proof -
  note nxt = day_number_next [OF assms(1,4)]
  have y': "- (2 ^ 54) \<le> y'" "y' \<le> 2 ^ 54" using assms(2-4) by (auto simp: next_day_def split: if_splits)
  have ord: "ymd_ord y m d = Inr (day_number y m d)" if "valid_date y m d" "- (2 ^ 54) \<le> y" "y \<le> 2 ^ 54" for y m d
    using that days_per_month_pos [of m y] by (intro ymd_ord_eq) (auto simp: valid_date_def)
  have "ymd_ord 1970 1 1 = Inr 0" by code_simp
  moreover have "ymd_ord y m d = Inr (day_number y m d)" "ymd_ord y' m' d' = Inr (day_number y m d + 1)"
    using ord [OF assms(1)] ord [OF nxt(1) y'] nxt(2) assms(2,3) by auto
  moreover have "valid_date (fy (mk_fields y m d 0 0 0)) (fm (mk_fields y m d 0 0 0)) (fd (mk_fields y m d 0 0 0))"
    using assms(1) by simp
  note get_weekday_eq [OF this] get_yearday_eq [OF this]
  ultimately show ?thesis by (simp add: date_number_def)
qed

theorem calendar_exact_witness:
  "valid_date 1900 2 28 \<and> next_day (1900, 2, 28) = (1900, 3, 1) \<and>
   (\<exists>k. ymd_ord 1900 2 28 = Inr k \<and> ymd_ord 1900 3 1 = Inr (k + 1))"
proof -
  have "valid_date 1900 2 28" "next_day (1900, 2, 28) = (1900, 3, 1)" by code_simp+
  with calendar_exact [of 1900 2 28 1900 3 1] show ?thesis by auto
qed

text \<open>The search for a weekday ends. From a day, \<open>next_weekday\<close> and \<open>prev_weekday\<close> step to a day
  with the weekday asked for that is one to seven days later or earlier, which makes it the first.\<close>

lemma weekday_search_ends:
  assumes "valid_time f" "aligned day_tag f" "- (2 ^ 60) + 400 \<le> fy f" "fy f \<le> 2 ^ 60 - 400"
  shows "(\<exists>g. next_weekday f wd = Some (Inr g) \<and> valid_time g \<and> aligned day_tag g \<and> get_weekday g = wd \<and>
      date_number g - date_number f \<in> {1..7}) \<and>
    (\<exists>g. prev_weekday f wd = Some (Inr g) \<and> valid_time g \<and> aligned day_tag g \<and> get_weekday g = wd \<and>
      date_number f - date_number g \<in> {1..7})"
  using forward.finds_weekday [OF assms, of wd] backward.finds_weekday [OF assms, of wd]
  unfolding next_weekday_def prev_weekday_def by force

end
