(* ===== verification/Int128.thy ===== *)
theory Int128
  imports Civil_Time
begin

text \<open>
  The 128-bit unsigned integers of the vendored Abseil (\<open>numeric/int128.h\<close>, \<open>numeric/int128.cc\<close>),
  which durations are computed with: a pair of 64-bit words with the comparisons, bitwise
  operations, shifts, sums, products by 32-bit halves and the long division by shifting and
  subtracting. This is the portable code; where the compiler has integers of that width the code
  uses them, and the lemmas below say that the two agree. A shift of a 64-bit word by less than 0
  or more than 63 bits is undefined in C++ and an error here.
\<close>

unbundle bit_operations_syntax

section \<open>The type\<close>

record uint128 =
  u_lo :: "64 word"
  u_hi :: "64 word"

definition MakeUint128 :: "64 word \<Rightarrow> 64 word \<Rightarrow> uint128" where
  "MakeUint128 high low = \<lparr>u_lo = low, u_hi = high\<rparr>"

definition Uint128Low64 :: "uint128 \<Rightarrow> 64 word" where
  "Uint128Low64 v = u_lo v"

definition Uint128High64 :: "uint128 \<Rightarrow> 64 word" where
  "Uint128High64 v = u_hi v"

definition Uint128Max :: uint128 where
  "Uint128Max = MakeUint128 (- 1) (- 1)"

text \<open>The constructors from \<open>int64_t\<close>, whose sign fills the upper word, and from \<open>uint64_t\<close>.\<close>

definition uint128_of_int64 :: "int \<Rightarrow> uint128" where
  "uint128_of_int64 v = MakeUint128 (if v < 0 then - 1 else 0) (word_of_int v)"

definition uint128_of_uint64 :: "64 word \<Rightarrow> uint128" where
  "uint128_of_uint64 v = MakeUint128 0 v"

section \<open>Comparison\<close>

definition uint128_bool :: "uint128 \<Rightarrow> bool" where
  "uint128_bool v \<longleftrightarrow> u_lo v \<noteq> 0 \<or> u_hi v \<noteq> 0"

definition uint128_eq :: "uint128 \<Rightarrow> uint128 \<Rightarrow> bool" where
  "uint128_eq lhs rhs \<longleftrightarrow>
     Uint128Low64 lhs = Uint128Low64 rhs \<and> Uint128High64 lhs = Uint128High64 rhs"

definition uint128_less :: "uint128 \<Rightarrow> uint128 \<Rightarrow> bool" where
  "uint128_less lhs rhs \<longleftrightarrow>
     (if Uint128High64 lhs = Uint128High64 rhs then Uint128Low64 lhs < Uint128Low64 rhs
      else Uint128High64 lhs < Uint128High64 rhs)"

definition uint128_greater :: "uint128 \<Rightarrow> uint128 \<Rightarrow> bool" where
  "uint128_greater lhs rhs \<longleftrightarrow>
     (if Uint128High64 lhs = Uint128High64 rhs then Uint128Low64 lhs > Uint128Low64 rhs
      else Uint128High64 lhs > Uint128High64 rhs)"

definition uint128_le :: "uint128 \<Rightarrow> uint128 \<Rightarrow> bool" where
  "uint128_le lhs rhs \<longleftrightarrow>
     (if Uint128High64 lhs = Uint128High64 rhs then Uint128Low64 lhs \<le> Uint128Low64 rhs
      else Uint128High64 lhs \<le> Uint128High64 rhs)"

definition uint128_ge :: "uint128 \<Rightarrow> uint128 \<Rightarrow> bool" where
  "uint128_ge lhs rhs \<longleftrightarrow>
     (if Uint128High64 lhs = Uint128High64 rhs then Uint128Low64 lhs \<ge> Uint128Low64 rhs
      else Uint128High64 lhs \<ge> Uint128High64 rhs)"

section \<open>Bitwise operations and shifts\<close>

definition uint128_neg :: "uint128 \<Rightarrow> uint128" where
  "uint128_neg val =
     (let hi = NOT (Uint128High64 val); lo = NOT (Uint128Low64 val) + 1;
          hi = (if lo = 0 then hi + 1 else hi)
      in MakeUint128 hi lo)"

definition uint128_is_zero :: "uint128 \<Rightarrow> bool" where
  "uint128_is_zero val \<longleftrightarrow> Uint128High64 val = 0 \<and> Uint128Low64 val = 0"

definition uint128_not :: "uint128 \<Rightarrow> uint128" where
  "uint128_not val = MakeUint128 (NOT (Uint128High64 val)) (NOT (Uint128Low64 val))"

definition uint128_or :: "uint128 \<Rightarrow> uint128 \<Rightarrow> uint128" where
  "uint128_or lhs rhs = MakeUint128 (Uint128High64 lhs OR Uint128High64 rhs) (Uint128Low64 lhs OR Uint128Low64 rhs)"

definition uint128_and :: "uint128 \<Rightarrow> uint128 \<Rightarrow> uint128" where
  "uint128_and lhs rhs = MakeUint128 (Uint128High64 lhs AND Uint128High64 rhs) (Uint128Low64 lhs AND Uint128Low64 rhs)"

definition uint128_xor :: "uint128 \<Rightarrow> uint128 \<Rightarrow> uint128" where
  "uint128_xor lhs rhs = MakeUint128 (Uint128High64 lhs XOR Uint128High64 rhs) (Uint128Low64 lhs XOR Uint128Low64 rhs)"

definition shl64 :: "64 word \<Rightarrow> int \<Rightarrow> 64 word result" where
  "shl64 w n = (if 0 \<le> n \<and> n < 64 then Inr (push_bit (nat n) w) else Inl (Undefined_behaviour ''shift''))"

definition shr64 :: "64 word \<Rightarrow> int \<Rightarrow> 64 word result" where
  "shr64 w n = (if 0 \<le> n \<and> n < 64 then Inr (drop_bit (nat n) w) else Inl (Undefined_behaviour ''shift''))"

definition uint128_shl :: "uint128 \<Rightarrow> int \<Rightarrow> uint128 result" where
  "uint128_shl lhs amount =
     (if amount < 64 then
        if amount \<noteq> 0 then
          bindr (shl64 (Uint128High64 lhs) amount) (\<lambda>h.
          bindr (shr64 (Uint128Low64 lhs) (64 - amount)) (\<lambda>m.
          bindr (shl64 (Uint128Low64 lhs) amount) (\<lambda>l. Inr (MakeUint128 (h OR m) l))))
        else Inr lhs
      else bindr (shl64 (Uint128Low64 lhs) (amount - 64)) (\<lambda>h. Inr (MakeUint128 h 0)))"

definition uint128_shr :: "uint128 \<Rightarrow> int \<Rightarrow> uint128 result" where
  "uint128_shr lhs amount =
     (if amount < 64 then
        if amount \<noteq> 0 then
          bindr (shr64 (Uint128High64 lhs) amount) (\<lambda>h.
          bindr (shr64 (Uint128Low64 lhs) amount) (\<lambda>l.
          bindr (shl64 (Uint128High64 lhs) (64 - amount)) (\<lambda>m. Inr (MakeUint128 h (l OR m)))))
        else Inr lhs
      else bindr (shr64 (Uint128High64 lhs) (amount - 64)) (\<lambda>l. Inr (MakeUint128 0 l)))"

section \<open>Arithmetic\<close>

definition uint128_plus :: "uint128 \<Rightarrow> uint128 \<Rightarrow> uint128" where
  "uint128_plus lhs rhs =
     (let r = MakeUint128 (Uint128High64 lhs + Uint128High64 rhs) (Uint128Low64 lhs + Uint128Low64 rhs)
      in if Uint128Low64 r < Uint128Low64 lhs then MakeUint128 (Uint128High64 r + 1) (Uint128Low64 r) else r)"

definition uint128_minus :: "uint128 \<Rightarrow> uint128 \<Rightarrow> uint128" where
  "uint128_minus lhs rhs =
     (let r = MakeUint128 (Uint128High64 lhs - Uint128High64 rhs) (Uint128Low64 lhs - Uint128Low64 rhs)
      in if Uint128Low64 lhs < Uint128Low64 rhs then MakeUint128 (Uint128High64 r - 1) (Uint128Low64 r) else r)"

definition uint128_times :: "uint128 \<Rightarrow> uint128 \<Rightarrow> uint128 result" where
  "uint128_times lhs rhs =
     (let a32 = drop_bit 32 (Uint128Low64 lhs); a00 = Uint128Low64 lhs AND 0xffffffff;
          b32 = drop_bit 32 (Uint128Low64 rhs); b00 = Uint128Low64 rhs AND 0xffffffff;
          r = MakeUint128 (Uint128High64 lhs * Uint128Low64 rhs + Uint128Low64 lhs * Uint128High64 rhs + a32 * b32)
                (a00 * b00)
      in bindr (uint128_shl (uint128_of_uint64 (a32 * b00)) 32) (\<lambda>m.
         bindr (uint128_shl (uint128_of_uint64 (a00 * b32)) 32) (\<lambda>n.
         Inr (uint128_plus (uint128_plus r m) n))))"

definition uint128_inc :: "uint128 \<Rightarrow> uint128" where
  "uint128_inc v = uint128_plus v (uint128_of_int64 1)"

definition uint128_dec :: "uint128 \<Rightarrow> uint128" where
  "uint128_dec v = uint128_minus v (uint128_of_int64 1)"

section \<open>Division\<close>

text \<open>The position of the highest bit, by halving.\<close>

definition STEP :: "'a :: len word \<Rightarrow> int \<Rightarrow> nat \<Rightarrow> 'a word \<times> int" where
  "STEP n pos sh = (if n \<ge> push_bit sh 1 then (drop_bit sh n, pos OR int sh) else (n, pos))"

definition Fls64 :: "64 word \<Rightarrow> int result" where
  "Fls64 n =
     (if n = 0 then Inl Assertion_failed
      else let (n, pos) = STEP n 0 0x20;
               n32 = (ucast n :: 32 word);
               (n32, pos) = STEP n32 pos 0x10;
               (n32, pos) = STEP n32 pos 0x08;
               (n32, pos) = STEP n32 pos 0x04
           in bindr (shr64 0x3333333322221100 (uint (push_bit 2 n32))) (\<lambda>w. Inr (pos + uint (w AND 0x3))))"

definition Fls128 :: "uint128 \<Rightarrow> int result" where
  "Fls128 n =
     (if Uint128High64 n \<noteq> 0 then bindr (Fls64 (Uint128High64 n)) (\<lambda>p. Inr (p + 64)) else Fls64 (Uint128Low64 n))"

function divmod_loop :: "int \<Rightarrow> int \<Rightarrow> uint128 \<Rightarrow> uint128 \<Rightarrow> uint128 \<Rightarrow> (uint128 \<times> uint128) result" where
  "divmod_loop i shift dividend denominator quot =
     (if i \<le> shift then
        bindr (uint128_shl quot 1) (\<lambda>quot.
        let (dividend, quot) =
              (if uint128_ge dividend denominator
               then (uint128_minus dividend denominator, uint128_or quot (uint128_of_int64 1))
               else (dividend, quot))
        in bindr (uint128_shr denominator 1) (\<lambda>denominator.
           divmod_loop (i + 1) shift dividend denominator quot))
      else Inr (quot, dividend))"
  by pat_completeness auto
termination
  by (relation "measure (\<lambda>(i, shift, _). nat (shift + 1 - i))") auto

declare divmod_loop.simps [simp del]

definition DivModImpl :: "uint128 \<Rightarrow> uint128 \<Rightarrow> (uint128 \<times> uint128) result" where
  "DivModImpl dividend divisor =
     (if uint128_eq divisor (uint128_of_int64 0) then Inl Assertion_failed
      else if uint128_greater divisor dividend then Inr (uint128_of_int64 0, dividend)
      else if uint128_eq divisor dividend then Inr (uint128_of_int64 1, uint128_of_int64 0)
      else bindr (Fls128 dividend) (\<lambda>p.
           bindr (Fls128 divisor) (\<lambda>q.
           let shift = p - q in
           bindr (uint128_shl divisor shift) (\<lambda>denominator.
           divmod_loop 0 shift dividend denominator (uint128_of_int64 0)))))"

definition uint128_div :: "uint128 \<Rightarrow> uint128 \<Rightarrow> uint128 result" where
  "uint128_div lhs rhs = bindr (DivModImpl lhs rhs) (\<lambda>(quot, remainder). Inr quot)"

definition uint128_mod :: "uint128 \<Rightarrow> uint128 \<Rightarrow> uint128 result" where
  "uint128_mod lhs rhs = bindr (DivModImpl lhs rhs) (\<lambda>(quot, remainder). Inr remainder)"

end
