(* ===== verification/Durations.thy ===== *)
theory Durations
  imports Int128
begin

text \<open>
  Durations of the vendored Abseil (\<open>time/time.h\<close>, \<open>time/duration.cc\<close>): a signed 64-bit number of
  seconds and a 32-bit number of quarter nanoseconds, with two infinities at which arithmetic
  saturates. Values of \<open>int64_t\<close> and \<open>uint32_t\<close> are integers: signed sums and products are
  checked for overflow, and every conversion and unsigned sum is written out modulo its width. A
  point in time is the duration since the Unix epoch. What is computed in floating point (factors
  and quotients of type \<open>double\<close>, the text of a duration) is left out.
\<close>

unbundle bit_operations_syntax

section \<open>The representation\<close>

definition kint64max :: int where "kint64max = 2 ^ 63 - 1"

definition kint64min :: int where "kint64min = - (2 ^ 63)"

definition kTicksPerNanosecond :: int where "kTicksPerNanosecond = 4"

definition kTicksPerSecond :: int where "kTicksPerSecond = 1000 * 1000 * 1000 * kTicksPerNanosecond"

text \<open>The conversion to \<open>uint32_t\<close>, and the largest value of that type.\<close>

definition u32 :: "int \<Rightarrow> int" where "u32 x = x mod 2 ^ 32"

definition u32_max :: int where "u32_max = 2 ^ 32 - 1"

record Duration =
  rep_hi :: int
  rep_lo :: int

definition MakeDuration :: "int \<Rightarrow> int \<Rightarrow> Duration" where
  "MakeDuration hi lo = \<lparr>rep_hi = hi, rep_lo = lo\<rparr>"

definition MakeDuration_int64 :: "int \<Rightarrow> int \<Rightarrow> Duration" where
  "MakeDuration_int64 hi lo = MakeDuration hi (u32 lo)"

definition MakeNormalizedDuration :: "int \<Rightarrow> int \<Rightarrow> Duration result" where
  "MakeNormalizedDuration sec ticks =
     (if ticks < 0 then bindr (i64 (sec - 1)) (\<lambda>sec. Inr (MakeDuration_int64 sec (ticks + kTicksPerSecond)))
      else Inr (MakeDuration_int64 sec ticks))"

definition IsInfiniteDuration :: "Duration \<Rightarrow> bool" where
  "IsInfiniteDuration d \<longleftrightarrow> rep_lo d = u32_max"

definition OppositeInfinity :: "Duration \<Rightarrow> Duration" where
  "OppositeInfinity d = (if rep_hi d < 0 then MakeDuration kint64max u32_max else MakeDuration kint64min u32_max)"

definition NegateAndSubtractOne :: "int \<Rightarrow> int result" where
  "NegateAndSubtractOne n =
     (if n < 0 then bindr (i64 (n + 1)) (\<lambda>n. i64 (- n)) else bindr (i64 (- n)) (\<lambda>n. i64 (n - 1)))"

definition InfiniteDuration :: Duration where
  "InfiniteDuration = MakeDuration kint64max u32_max"

definition ZeroDuration :: Duration where
  "ZeroDuration = MakeDuration 0 0"

definition Duration_less :: "Duration \<Rightarrow> Duration \<Rightarrow> bool" where
  "Duration_less lhs rhs \<longleftrightarrow>
     (if rep_hi lhs \<noteq> rep_hi rhs then rep_hi lhs < rep_hi rhs
      else if rep_hi lhs = kint64min then u32 (rep_lo lhs + 1) < u32 (rep_lo rhs + 1)
      else rep_lo lhs < rep_lo rhs)"

definition Duration_eq :: "Duration \<Rightarrow> Duration \<Rightarrow> bool" where
  "Duration_eq lhs rhs \<longleftrightarrow> rep_hi lhs = rep_hi rhs \<and> rep_lo lhs = rep_lo rhs"

definition Duration_le :: "Duration \<Rightarrow> Duration \<Rightarrow> bool" where
  "Duration_le lhs rhs \<longleftrightarrow> \<not> Duration_less rhs lhs"

definition Duration_ge :: "Duration \<Rightarrow> Duration \<Rightarrow> bool" where
  "Duration_ge lhs rhs \<longleftrightarrow> \<not> Duration_less lhs rhs"

definition Duration_neg :: "Duration \<Rightarrow> Duration result" where
  "Duration_neg d =
     (if rep_lo d = 0 then
        if rep_hi d = kint64min then Inr InfiniteDuration
        else bindr (i64 (- rep_hi d)) (\<lambda>hi. Inr (MakeDuration hi 0))
      else if IsInfiniteDuration d then Inr (OppositeInfinity d)
      else bindr (NegateAndSubtractOne (rep_hi d)) (\<lambda>hi.
           Inr (MakeDuration_int64 hi (kTicksPerSecond - rep_lo d))))"

text \<open>\<open>-InfiniteDuration()\<close>, as the code writes it in many places.\<close>

definition infinity :: "bool \<Rightarrow> Duration result" where
  "infinity is_neg = (if is_neg then Duration_neg InfiniteDuration else Inr InfiniteDuration)"

section \<open>Factories\<close>

definition FromInt64 :: "int \<Rightarrow> int \<Rightarrow> Duration result" where
  "FromInt64 v N =
     bindr (i64 (v smod N * kTicksPerNanosecond * 1000 * 1000 * 1000)) (\<lambda>t.
     MakeNormalizedDuration (v sdiv N) (t sdiv N))"

definition FromInt64_60 :: "int \<Rightarrow> Duration result" where
  "FromInt64_60 v =
     (if v \<le> kint64max sdiv 60 \<and> v \<ge> kint64min sdiv 60 then bindr (i64 (v * 60)) (\<lambda>s. Inr (MakeDuration s 0))
      else infinity (\<not> v > 0))"

definition FromInt64_3600 :: "int \<Rightarrow> Duration result" where
  "FromInt64_3600 v =
     (if v \<le> kint64max sdiv 3600 \<and> v \<ge> kint64min sdiv 3600 then bindr (i64 (v * 3600)) (\<lambda>s. Inr (MakeDuration s 0))
      else infinity (\<not> v > 0))"

definition Nanoseconds :: "int \<Rightarrow> Duration result" where "Nanoseconds n = FromInt64 n 1000000000"

definition Microseconds :: "int \<Rightarrow> Duration result" where "Microseconds n = FromInt64 n 1000000"

definition Milliseconds :: "int \<Rightarrow> Duration result" where "Milliseconds n = FromInt64 n 1000"

definition Seconds :: "int \<Rightarrow> Duration result" where "Seconds n = FromInt64 n 1"

definition Minutes :: "int \<Rightarrow> Duration result" where "Minutes n = FromInt64_60 n"

definition Hours :: "int \<Rightarrow> Duration result" where "Hours n = FromInt64_3600 n"

section \<open>Sums and differences\<close>

definition EncodeTwosComp :: "int \<Rightarrow> int" where
  "EncodeTwosComp v = v mod 2 ^ 64"

definition DecodeTwosComp :: "int \<Rightarrow> int" where
  "DecodeTwosComp v = (if v < 2 ^ 63 then v else v - 2 ^ 64)"

definition Duration_plus :: "Duration \<Rightarrow> Duration \<Rightarrow> Duration result" where
  "Duration_plus lhs rhs =
     (if IsInfiniteDuration lhs then Inr lhs
      else if IsInfiniteDuration rhs then Inr rhs
      else
        let orig_rep_hi = rep_hi lhs;
            hi = DecodeTwosComp ((EncodeTwosComp (rep_hi lhs) + EncodeTwosComp (rep_hi rhs)) mod 2 ^ 64);
            (hi, lo) = (if rep_lo lhs \<ge> kTicksPerSecond - rep_lo rhs
                        then (DecodeTwosComp ((EncodeTwosComp hi + 1) mod 2 ^ 64), u32 (rep_lo lhs - kTicksPerSecond))
                        else (hi, rep_lo lhs));
            lo = u32 (lo + rep_lo rhs)
        in if (if rep_hi rhs < 0 then hi > orig_rep_hi else hi < orig_rep_hi)
           then infinity (rep_hi rhs < 0)
           else Inr (MakeDuration hi lo))"

definition Duration_minus :: "Duration \<Rightarrow> Duration \<Rightarrow> Duration result" where
  "Duration_minus lhs rhs =
     (if IsInfiniteDuration lhs then Inr lhs
      else if IsInfiniteDuration rhs then infinity (rep_hi rhs \<ge> 0)
      else
        let orig_rep_hi = rep_hi lhs;
            hi = DecodeTwosComp ((EncodeTwosComp (rep_hi lhs) - EncodeTwosComp (rep_hi rhs)) mod 2 ^ 64);
            (hi, lo) = (if rep_lo lhs < rep_lo rhs
                        then (DecodeTwosComp ((EncodeTwosComp hi - 1) mod 2 ^ 64), u32 (rep_lo lhs + kTicksPerSecond))
                        else (hi, rep_lo lhs));
            lo = u32 (lo - rep_lo rhs)
        in if (if rep_hi rhs < 0 then hi < orig_rep_hi else hi > orig_rep_hi)
           then infinity (rep_hi rhs \<ge> 0)
           else Inr (MakeDuration hi lo))"

section \<open>Ticks as 128-bit numbers\<close>

definition MakeU128 :: "int \<Rightarrow> uint128 result" where
  "MakeU128 a =
     bindr (if a < 0 then bindr (i64 (a + 1)) (\<lambda>a. bindr (i64 (- a)) (\<lambda>a. Inr (uint128_inc (uint128_of_int64 0), a)))
            else Inr (uint128_of_int64 0, a)) (\<lambda>(u128, a).
     Inr (uint128_plus u128 (uint128_of_uint64 (word_of_int a))))"

definition MakeU128Ticks :: "Duration \<Rightarrow> uint128 result" where
  "MakeU128Ticks d =
     bindr (if rep_hi d < 0
            then bindr (i64 (rep_hi d + 1)) (\<lambda>hi. bindr (i64 (- hi)) (\<lambda>hi. Inr (hi, u32 (kTicksPerSecond - rep_lo d))))
            else Inr (rep_hi d, rep_lo d)) (\<lambda>(hi, lo).
     bindr (uint128_times (uint128_of_uint64 (word_of_int hi)) (uint128_of_uint64 (word_of_int kTicksPerSecond))) (\<lambda>u128.
     Inr (uint128_plus u128 (uint128_of_uint64 (word_of_int lo)))))"

definition kMaxRepHi64 :: "64 word" where "kMaxRepHi64 = 0x77359400"

text \<open>The end of \<open>MakeDurationFromU128\<close>, where the parts of a negative duration are adjusted.\<close>

definition with_sign :: "bool \<Rightarrow> int \<Rightarrow> int \<Rightarrow> Duration result" where
  "with_sign is_neg hi lo =
     (if is_neg then
        bindr (i64 (- hi)) (\<lambda>hi.
        if lo \<noteq> 0 then bindr (i64 (hi - 1)) (\<lambda>hi. Inr (MakeDuration hi (u32 (kTicksPerSecond - lo))))
        else Inr (MakeDuration hi lo))
      else Inr (MakeDuration hi lo))"

definition MakeDurationFromU128 :: "uint128 \<Rightarrow> bool \<Rightarrow> Duration result" where
  "MakeDurationFromU128 u128 is_neg =
     (let h64 = Uint128High64 u128; l64 = Uint128Low64 u128; k64 = word_of_int kTicksPerSecond in
      if h64 = 0 then
        let hi = l64 div k64 in with_sign is_neg (sint hi) (u32 (uint (l64 - hi * k64)))
      else if h64 \<ge> kMaxRepHi64 then
        if is_neg \<and> h64 = kMaxRepHi64 \<and> l64 = 0 then Inr (MakeDuration kint64min 0) else infinity is_neg
      else
        bindr (uint128_div u128 (uint128_of_uint64 k64)) (\<lambda>hi.
        bindr (uint128_times hi (uint128_of_uint64 k64)) (\<lambda>p.
        with_sign is_neg (sint (Uint128Low64 hi)) (u32 (uint (Uint128Low64 (uint128_minus u128 p)))))))"

section \<open>Products and quotients by numbers\<close>

definition SafeMultiply :: "uint128 \<Rightarrow> uint128 \<Rightarrow> uint128 result" where
  "SafeMultiply a b =
     (if Uint128High64 b \<noteq> 0 then Inl Assertion_failed
      else if Uint128High64 a = 0 then
        if drop_bit 32 (Uint128Low64 a OR Uint128Low64 b) = 0
        then Inr (uint128_of_uint64 (Uint128Low64 a * Uint128Low64 b))
        else uint128_times a b
      else if uint128_eq b (uint128_of_int64 0) then Inr b
      else bindr (uint128_div Uint128Max b) (\<lambda>m.
           if uint128_greater a m then Inr Uint128Max else uint128_times a b))"

definition ScaleFixed :: "(uint128 \<Rightarrow> uint128 \<Rightarrow> uint128 result) \<Rightarrow> Duration \<Rightarrow> int \<Rightarrow> Duration result" where
  "ScaleFixed op d r =
     bindr (MakeU128Ticks d) (\<lambda>a.
     bindr (MakeU128 r) (\<lambda>b.
     bindr (op a b) (\<lambda>q. MakeDurationFromU128 q ((rep_hi d < 0) \<noteq> (r < 0)))))"

definition Duration_times :: "Duration \<Rightarrow> int \<Rightarrow> Duration result" where
  "Duration_times d r =
     (if IsInfiniteDuration d then infinity ((r < 0) \<noteq> (rep_hi d < 0)) else ScaleFixed SafeMultiply d r)"

definition Duration_divide :: "Duration \<Rightarrow> int \<Rightarrow> Duration result" where
  "Duration_divide d r =
     (if IsInfiniteDuration d \<or> r = 0 then infinity ((r < 0) \<noteq> (rep_hi d < 0)) else ScaleFixed uint128_div d r)"

section \<open>Quotients of durations\<close>

text \<open>The division by a unit below one second, \<open>per_second\<close> of which make a second.\<close>

definition sub_second_path :: "Duration \<Rightarrow> int \<Rightarrow> (int \<times> Duration) option result" where
  "sub_second_path num per_second =
     (let den_lo = 1000000000 sdiv per_second * kTicksPerNanosecond in
      if rep_hi num \<ge> 0 \<and> rep_hi num < (kint64max - kTicksPerSecond) sdiv per_second then
        bindr (i64 (rep_hi num * per_second)) (\<lambda>p.
        bindr (i64 (p + rep_lo num sdiv den_lo)) (\<lambda>q.
        Inr (Some (q, MakeDuration 0 (rep_lo num smod den_lo)))))
      else Inr None)"

definition seconds_path :: "Duration \<Rightarrow> int \<Rightarrow> (int \<times> Duration) option result" where
  "seconds_path num den_hi =
     (if rep_hi num \<ge> 0 then
        if den_hi = 1 then Inr (Some (rep_hi num, MakeDuration 0 (rep_lo num)))
        else Inr (Some (rep_hi num sdiv den_hi, MakeDuration (rep_hi num smod den_hi) (rep_lo num)))
      else
        bindr (if rep_lo num \<noteq> 0 then i64 (rep_hi num + 1) else Inr (rep_hi num)) (\<lambda>num_hi.
        let quot = num_hi sdiv den_hi; rem_sec = num_hi smod den_hi;
            (rem_sec, quot) = (if rem_sec > 0 then (rem_sec - den_hi, quot + 1) else (rem_sec, quot))
        in bindr (if rep_lo num \<noteq> 0 then i64 (rem_sec - 1) else Inr rem_sec) (\<lambda>rem_sec.
           Inr (Some (quot, MakeDuration rem_sec (rep_lo num))))))"

definition IDivFastPath :: "Duration \<Rightarrow> Duration \<Rightarrow> (int \<times> Duration) option result" where
  "IDivFastPath num den =
     (if IsInfiniteDuration num \<or> IsInfiniteDuration den then Inr None
      else if rep_hi den = 0 \<and> rep_lo den = kTicksPerNanosecond then sub_second_path num 1000000000
      else if rep_hi den = 0 \<and> rep_lo den = 100 * kTicksPerNanosecond then sub_second_path num 10000000
      else if rep_hi den = 0 \<and> rep_lo den = 1000 * kTicksPerNanosecond then sub_second_path num 1000000
      else if rep_hi den = 0 \<and> rep_lo den = 1000000 * kTicksPerNanosecond then sub_second_path num 1000
      else if rep_hi den > 0 \<and> rep_lo den = 0 then seconds_path num (rep_hi den)
      else Inr None)"

definition IDivSlow :: "bool \<Rightarrow> Duration \<Rightarrow> Duration \<Rightarrow> (int \<times> Duration) result" where
  "IDivSlow satq num den =
     (let num_neg = Duration_less num ZeroDuration; den_neg = Duration_less den ZeroDuration;
          quotient_neg = (num_neg \<noteq> den_neg)
      in if IsInfiniteDuration num \<or> Duration_eq den ZeroDuration then
           bindr (infinity num_neg) (\<lambda>rem. Inr (if quotient_neg then kint64min else kint64max, rem))
         else if IsInfiniteDuration den then Inr (0, num)
         else
           bindr (MakeU128Ticks num) (\<lambda>a.
           bindr (MakeU128Ticks den) (\<lambda>b.
           bindr (uint128_div a b) (\<lambda>quotient128.
           let quotient128 =
                 (if satq \<and> uint128_greater quotient128 (uint128_of_uint64 (word_of_int kint64max))
                  then if quotient_neg then uint128_of_uint64 (word_of_int kint64min)
                       else uint128_of_uint64 (word_of_int kint64max)
                  else quotient128)
           in bindr (uint128_times quotient128 b) (\<lambda>p.
              bindr (MakeDurationFromU128 (uint128_minus a p) num_neg) (\<lambda>rem.
              if \<not> quotient_neg \<or> uint128_eq quotient128 (uint128_of_int64 0)
              then Inr (uint (Uint128Low64 quotient128 AND word_of_int kint64max), rem)
              else bindr (i64 (- uint (Uint128Low64 (uint128_minus quotient128 (uint128_of_int64 1)) AND word_of_int kint64max)))
                     (\<lambda>q. bindr (i64 (q - 1)) (\<lambda>q. Inr (q, rem)))))))))"

definition IDivDuration :: "bool \<Rightarrow> Duration \<Rightarrow> Duration \<Rightarrow> (int \<times> Duration) result" where
  "IDivDuration satq num den =
     bindr (IDivFastPath num den) (\<lambda>fast. case fast of Some r \<Rightarrow> Inr r | None \<Rightarrow> IDivSlow satq num den)"

definition Duration_div :: "Duration \<Rightarrow> Duration \<Rightarrow> int result" where
  "Duration_div lhs rhs = bindr (IDivDuration True lhs rhs) (\<lambda>(q, rem). Inr q)"

definition Duration_mod :: "Duration \<Rightarrow> Duration \<Rightarrow> Duration result" where
  "Duration_mod lhs rhs = bindr (IDivDuration False lhs rhs) (\<lambda>(q, rem). Inr rem)"

section \<open>Rounding to units\<close>

definition AbsDuration :: "Duration \<Rightarrow> Duration result" where
  "AbsDuration d = (if Duration_less d ZeroDuration then Duration_neg d else Inr d)"

definition Trunc :: "Duration \<Rightarrow> Duration \<Rightarrow> Duration result" where
  "Trunc d unit = bindr (Duration_mod d unit) (\<lambda>rem. Duration_minus d rem)"

definition Floor :: "Duration \<Rightarrow> Duration \<Rightarrow> Duration result" where
  "Floor d unit =
     bindr (Trunc d unit) (\<lambda>td.
     if Duration_le td d then Inr td else bindr (AbsDuration unit) (\<lambda>u. Duration_minus td u))"

definition Ceil :: "Duration \<Rightarrow> Duration \<Rightarrow> Duration result" where
  "Ceil d unit =
     bindr (Trunc d unit) (\<lambda>td.
     if Duration_ge td d then Inr td else bindr (AbsDuration unit) (\<lambda>u. Duration_plus td u))"

section \<open>Conversions\<close>

definition ToInt64Nanoseconds :: "Duration \<Rightarrow> int result" where
  "ToInt64Nanoseconds d =
     (if rep_hi d \<ge> 0 \<and> drop_bit 33 (rep_hi d) = 0 then
        bindr (i64 (rep_hi d * 1000 * 1000 * 1000)) (\<lambda>p. i64 (p + rep_lo d sdiv kTicksPerNanosecond))
      else bindr (Nanoseconds 1) (\<lambda>u. Duration_div d u))"

definition ToInt64Microseconds :: "Duration \<Rightarrow> int result" where
  "ToInt64Microseconds d =
     (if rep_hi d \<ge> 0 \<and> drop_bit 43 (rep_hi d) = 0 then
        bindr (i64 (rep_hi d * 1000 * 1000)) (\<lambda>p. i64 (p + rep_lo d sdiv (kTicksPerNanosecond * 1000)))
      else bindr (Microseconds 1) (\<lambda>u. Duration_div d u))"

definition ToInt64Milliseconds :: "Duration \<Rightarrow> int result" where
  "ToInt64Milliseconds d =
     (if rep_hi d \<ge> 0 \<and> drop_bit 53 (rep_hi d) = 0 then
        bindr (i64 (rep_hi d * 1000)) (\<lambda>p. i64 (p + rep_lo d sdiv (kTicksPerNanosecond * 1000 * 1000)))
      else bindr (Milliseconds 1) (\<lambda>u. Duration_div d u))"

definition ToInt64Seconds :: "Duration \<Rightarrow> int result" where
  "ToInt64Seconds d =
     (if IsInfiniteDuration d then Inr (rep_hi d)
      else if rep_hi d < 0 \<and> rep_lo d \<noteq> 0 then i64 (rep_hi d + 1) else Inr (rep_hi d))"

definition ToInt64Minutes :: "Duration \<Rightarrow> int result" where
  "ToInt64Minutes d =
     (if IsInfiniteDuration d then Inr (rep_hi d)
      else bindr (if rep_hi d < 0 \<and> rep_lo d \<noteq> 0 then i64 (rep_hi d + 1) else Inr (rep_hi d)) (\<lambda>hi. Inr (hi sdiv 60)))"

definition ToInt64Hours :: "Duration \<Rightarrow> int result" where
  "ToInt64Hours d =
     (if IsInfiniteDuration d then Inr (rep_hi d)
      else bindr (if rep_hi d < 0 \<and> rep_lo d \<noteq> 0 then i64 (rep_hi d + 1) else Inr (rep_hi d)) (\<lambda>hi. Inr (hi sdiv (60 * 60))))"

record timespec =
  tv_sec :: int
  tv_nsec :: int

record timeval =
  val_sec :: int
  val_usec :: int

text \<open>\<open>time_t\<close> and the fields of the two structures have 64 bits.\<close>

definition narrow64 :: "int \<Rightarrow> int" where
  "narrow64 x = DecodeTwosComp (EncodeTwosComp x)"

definition ToTimespec :: "Duration \<Rightarrow> timespec result" where
  "ToTimespec d =
     (let largest = (if Duration_ge d ZeroDuration
                     then \<lparr>tv_sec = kint64max, tv_nsec = 1000 * 1000 * 1000 - 1\<rparr> else \<lparr>tv_sec = kint64min, tv_nsec = 0\<rparr>)
      in if IsInfiniteDuration d then Inr largest
         else
           bindr (if rep_hi d < 0 then
                    let lo = u32 (rep_lo d + (kTicksPerNanosecond - 1)) in
                    if lo \<ge> kTicksPerSecond then bindr (i64 (rep_hi d + 1)) (\<lambda>hi. Inr (hi, u32 (lo - kTicksPerSecond)))
                    else Inr (rep_hi d, lo)
                  else Inr (rep_hi d, rep_lo d)) (\<lambda>(hi, lo).
           if narrow64 hi = hi then Inr \<lparr>tv_sec = narrow64 hi, tv_nsec = lo sdiv kTicksPerNanosecond\<rparr>
           else Inr largest))"

definition ToTimeval :: "Duration \<Rightarrow> timeval result" where
  "ToTimeval d =
     bindr (ToTimespec d) (\<lambda>ts.
     bindr (if tv_sec ts < 0 then
              let nsec = tv_nsec ts + (1000 - 1) in
              if nsec \<ge> 1000 * 1000 * 1000
              then bindr (i64 (tv_sec ts + 1)) (\<lambda>sec. Inr (sec, nsec - 1000 * 1000 * 1000))
              else Inr (tv_sec ts, nsec)
            else Inr (tv_sec ts, tv_nsec ts)) (\<lambda>(sec, nsec).
     if narrow64 sec \<noteq> sec then
       Inr (if sec < 0 then \<lparr>val_sec = kint64min, val_usec = 0\<rparr> else \<lparr>val_sec = kint64max, val_usec = 1000 * 1000 - 1\<rparr>)
     else Inr \<lparr>val_sec = narrow64 sec, val_usec = nsec sdiv 1000\<rparr>))"

definition DurationFromTimespec :: "timespec \<Rightarrow> Duration result" where
  "DurationFromTimespec ts =
     (if EncodeTwosComp (tv_nsec ts) < 1000 * 1000 * 1000
      then Inr (MakeDuration_int64 (tv_sec ts) (tv_nsec ts * kTicksPerNanosecond))
      else bindr (Seconds (tv_sec ts)) (\<lambda>s. bindr (Nanoseconds (tv_nsec ts)) (\<lambda>n. Duration_plus s n)))"

definition DurationFromTimeval :: "timeval \<Rightarrow> Duration result" where
  "DurationFromTimeval tv =
     (if EncodeTwosComp (val_usec tv) < 1000 * 1000
      then Inr (MakeDuration_int64 (val_sec tv) (val_usec tv * 1000 * kTicksPerNanosecond))
      else bindr (Seconds (val_sec tv)) (\<lambda>s. bindr (Microseconds (val_usec tv)) (\<lambda>n. Duration_plus s n)))"

end
