(* ===== verification/Duration_Parse.thy ===== *)
theory Duration_Parse
  imports Durations
begin

text \<open>
  The parser of durations (\<open>ParseDuration\<close> of \<open>time/duration.cc\<close>). A pointer into the text is the
  list of the characters from there to the terminating NUL. \<open>None\<close> is the result \<open>false\<close>, with
  which the parameters of the result are not read. \<open>isdigit\<close> takes an \<open>int\<close>, and the plain
  characters are signed: those above 127 are negative numbers, for which, except for the last,
  \<open>EOF\<close>, its behaviour is undefined.
\<close>

section \<open>Numbers and units\<close>

definition c_str :: "string \<Rightarrow> string" where
  "c_str s = takeWhile (\<lambda>c. c \<noteq> CHR 0x00) s"

definition at :: "string \<Rightarrow> char" where
  "at p = (case p of [] \<Rightarrow> CHR 0x00 | c # _ \<Rightarrow> c)"

definition isdigit :: "char \<Rightarrow> bool result" where
  "isdigit c =
     (if 128 \<le> (of_char c :: nat) \<and> (of_char c :: nat) < 255 then Inl (Undefined_behaviour ''isdigit'')
      else Inr (48 \<le> (of_char c :: nat) \<and> (of_char c :: nat) \<le> 57))"

fun int_part_loop :: "string \<Rightarrow> int \<Rightarrow> (string \<times> int) option result" where
  "int_part_loop [] int_part = Inr (Some ([], int_part))"
| "int_part_loop (c # p) int_part =
     bindr (isdigit c) (\<lambda>digit.
     if digit then
       let d = int (of_char c) - 48 in
       if int_part > kint64max sdiv 10 then Inr None
       else bindr (i64 (int_part * 10)) (\<lambda>int_part.
            if int_part > kint64max - d then Inr None
            else bindr (i64 (int_part + d)) (\<lambda>int_part. int_part_loop p int_part))
     else Inr (Some (c # p, int_part)))"

fun frac_part_loop :: "string \<Rightarrow> int \<Rightarrow> int \<Rightarrow> (string \<times> int \<times> int) result" where
  "frac_part_loop [] frac_part frac_scale = Inr ([], frac_part, frac_scale)"
| "frac_part_loop (c # p) frac_part frac_scale =
     bindr (isdigit c) (\<lambda>digit.
     if digit then
       let d = int (of_char c) - 48 in
       if frac_scale \<le> kint64max sdiv 10 then
         bindr (i64 (frac_part * 10)) (\<lambda>frac_part.
         bindr (i64 (frac_part + d)) (\<lambda>frac_part.
         bindr (i64 (frac_scale * 10)) (\<lambda>frac_scale. frac_part_loop p frac_part frac_scale)))
       else frac_part_loop p frac_part frac_scale
     else Inr (c # p, frac_part, frac_scale))"

definition ConsumeDurationNumber :: "string \<Rightarrow> (string \<times> int \<times> int \<times> int) option result" where
  "ConsumeDurationNumber start =
     bindr (int_part_loop start 0) (\<lambda>res. case res of None \<Rightarrow> Inr None | Some (dpp, int_part) \<Rightarrow>
       let int_part_empty = (dpp = start) in
       if at dpp \<noteq> CHR ''.'' then Inr (if \<not> int_part_empty then Some (dpp, int_part, 0, 1) else None)
       else bindr (frac_part_loop (tl dpp) 0 1) (\<lambda>(dpp, frac_part, frac_scale).
            Inr (if \<not> int_part_empty \<or> frac_scale \<noteq> 1 then Some (dpp, int_part, frac_part, frac_scale) else None)))"

definition strncmp_eq :: "string \<Rightarrow> string \<Rightarrow> nat \<Rightarrow> bool" where
  "strncmp_eq s t n \<longleftrightarrow> take n s = take n t"

definition ConsumeDurationUnit :: "string \<Rightarrow> (string \<times> Duration) option result" where
  "ConsumeDurationUnit s =
     (if strncmp_eq s ''ns'' 2 then bindr (Nanoseconds 1) (\<lambda>unit. Inr (Some (drop 2 s, unit)))
      else if strncmp_eq s ''us'' 2 then bindr (Microseconds 1) (\<lambda>unit. Inr (Some (drop 2 s, unit)))
      else if strncmp_eq s ''ms'' 2 then bindr (Milliseconds 1) (\<lambda>unit. Inr (Some (drop 2 s, unit)))
      else if strncmp_eq s ''s'' 1 then bindr (Seconds 1) (\<lambda>unit. Inr (Some (drop 1 s, unit)))
      else if strncmp_eq s ''m'' 1 then bindr (Minutes 1) (\<lambda>unit. Inr (Some (drop 1 s, unit)))
      else if strncmp_eq s ''h'' 1 then bindr (Hours 1) (\<lambda>unit. Inr (Some (drop 1 s, unit)))
      else Inr None)"

lemma int_part_loop_length: "int_part_loop p v = Inr (Some (p', v')) \<Longrightarrow> length p' \<le> length p"
  by (induction p v rule: int_part_loop.induct) (auto simp: Let_def le_Suc_eq split: if_splits)

lemma frac_part_loop_length: "frac_part_loop p v s = Inr (p', v', s') \<Longrightarrow> length p' \<le> length p"
  by (induction p v s rule: frac_part_loop.induct) (auto simp: Let_def le_Suc_eq split: if_splits)

lemma ConsumeDurationNumber_length:
  "ConsumeDurationNumber p = Inr (Some (p', x)) \<Longrightarrow> length p' \<le> length p"
proof -
  assume "ConsumeDurationNumber p = Inr (Some (p', x))"
  then obtain q v where q: "int_part_loop p 0 = Inr (Some (q, v))" "p' = q \<or> (\<exists>y. frac_part_loop (tl q) 0 1 = Inr (p', y))"
    by (auto simp: ConsumeDurationNumber_def Let_def split: option.splits if_splits)
  have "length (tl q) \<le> length q" by simp
  with q(2) have "length p' \<le> length q" using frac_part_loop_length [of "tl q"] by fastforce
  with int_part_loop_length [OF q(1)] show "length p' \<le> length p" by simp
qed

lemma ConsumeDurationUnit_length:
  "ConsumeDurationUnit p = Inr (Some (p', u)) \<Longrightarrow> length p' < length p"
  by (cases p) (auto simp: ConsumeDurationUnit_def strncmp_eq_def split: if_splits)

section \<open>The parser\<close>

function duration_loop :: "int \<Rightarrow> string \<Rightarrow> Duration \<Rightarrow> Duration option result" where
  "duration_loop sign start dur =
     (if at start = CHR 0x00 then Inr (Some dur)
      else bindr (ConsumeDurationNumber start) (\<lambda>number. case number of None \<Rightarrow> Inr None
        | Some (start', int_part, frac_part, frac_scale) \<Rightarrow>
            bindr (ConsumeDurationUnit start') (\<lambda>res. case res of None \<Rightarrow> Inr None
              | Some (start'', unit) \<Rightarrow>
                  bindr (if int_part \<noteq> 0 then
                           bindr (i64 (sign * int_part)) (\<lambda>n. bindr (Duration_times unit n) (\<lambda>x. Duration_plus dur x))
                         else Inr dur) (\<lambda>dur.
                  bindr (if frac_part \<noteq> 0 then
                           bindr (i64 (sign * frac_part)) (\<lambda>n. bindr (Duration_times unit n) (\<lambda>x.
                           bindr (Duration_divide x frac_scale) (\<lambda>x. Duration_plus dur x)))
                         else Inr dur) (\<lambda>dur.
                  duration_loop sign start'' dur)))))"
  by pat_completeness auto
termination
  by (relation "measure (\<lambda>(_, p, _). length p)")
    (auto dest!: ConsumeDurationNumber_length ConsumeDurationUnit_length)

declare duration_loop.simps [simp del]

definition ParseDuration :: "string \<Rightarrow> Duration option result" where
  "ParseDuration dur_string =
     (let start = c_str dur_string;
          (sign, start) = (if at start = CHR ''-'' \<or> at start = CHR ''+''
                           then (if at start = CHR ''-'' then - 1 else 1, tl start) else (1, start))
      in if at start = CHR 0x00 then Inr None
         else if at start = CHR ''0'' \<and> at (tl start) = CHR 0x00 then Inr (Some ZeroDuration)
         else if start = ''inf'' then bindr (Duration_times InfiniteDuration sign) (\<lambda>d. Inr (Some d))
         else duration_loop sign start ZeroDuration)"

definition ParseFlag_Duration :: "string \<Rightarrow> Duration option result" where
  "ParseFlag_Duration text_value = ParseDuration text_value"

end
