(* ===== verification/Int128_Laws.thy ===== *)
theory Int128_Laws
  imports Int128
begin

text \<open>
  The pair of 64-bit words computes as one 128-bit word. \<open>w128\<close> is that word and \<open>val\<close> its number.
\<close>

unbundle bit_operations_syntax

named_theorems uint128_simps \<open>operations on pairs of words as operations on one word\<close>

definition w128 :: "uint128 \<Rightarrow> 128 word" where
  "w128 x = push_bit 64 (ucast (u_hi x)) OR ucast (u_lo x)"

abbreviation val :: "uint128 \<Rightarrow> nat" where
  "val x \<equiv> unat (w128 x)"

lemmas parts = MakeUint128_def Uint128High64_def Uint128Low64_def uint128_of_uint64_def

lemma bit_w128: "bit (w128 x) n \<longleftrightarrow> (if n < 64 then bit (u_lo x) n else n < 128 \<and> bit (u_hi x) (n - 64))"
  by (auto simp: w128_def bit_simps dest: bit_imp_le_length)

lemma unat_ucast_128: "unat (ucast (w :: 64 word) :: 128 word) = unat w"
proof -
  have "unat w < 2 ^ 128" using unsigned_less [of w, where 'a = nat] by (simp add: less_le_trans)
  then show ?thesis by (simp add: unsigned_ucast_eq take_bit_nat_eq_self)
qed

lemma val_parts: "val x = unat (u_hi x) * 2 ^ 64 + unat (u_lo x)"
proof -
  have "push_bit 64 (ucast (u_hi x)) AND ucast (u_lo x) = (0 :: 128 word)"
    by (rule bit_word_eqI) (auto simp: bit_simps dest: bit_imp_le_length)
  then have w: "w128 x = push_bit 64 (ucast (u_hi x)) + ucast (u_lo x)"
    by (simp add: w128_def disjunctive_add_eq_or)
  have h: "unat (u_hi x) * 2 ^ 64 \<le> (2 ^ 64 - 1) * 2 ^ 64"
    using unsigned_less [of "u_hi x", where 'a = nat] by (intro mult_right_mono) auto
  then have "unat (push_bit 64 (ucast (u_hi x)) :: 128 word) = unat (u_hi x) * 2 ^ 64"
    by (simp add: push_bit_eq_mult unat_word_ariths unat_ucast_128)
  with h show ?thesis
    using unsigned_less [of "u_lo x", where 'a = nat] by (simp add: w unat_word_ariths unat_ucast_128)
qed

lemma val_less: "val x < 2 ^ 128"
  using unsigned_less [of "w128 x"] by simp

lemma lo_less: "unat (u_lo x) < 2 ^ 64" and hi_less: "unat (u_hi x) < 2 ^ 64"
  using unsigned_less [of "u_lo x"] unsigned_less [of "u_hi x"] by simp_all

lemma w128_inject: "w128 x = w128 y \<longleftrightarrow> x = y"
proof
  assume "w128 x = w128 y"
  then have e: "unat (u_hi x) * 2 ^ 64 + unat (u_lo x) = unat (u_hi y) * 2 ^ 64 + unat (u_lo y)"
    by (metis val_parts)
  moreover have h: "unat (u_hi x) = unat (u_hi y)" using e lo_less [of x] lo_less [of y] by simp
  ultimately show "x = y" by (simp add: word_unat_eq_iff)
qed simp

lemma val_inject: "val x = val y \<longleftrightarrow> x = y"
  by (simp add: word_unat_eq_iff [symmetric] w128_inject)

section \<open>Comparison\<close>

lemma uint128_eq_iff [uint128_simps]: "uint128_eq x y \<longleftrightarrow> w128 x = w128 y"
  unfolding w128_inject by (cases x; cases y) (auto simp: uint128_eq_def parts)

lemma lex_less:
  fixes a b c d :: nat
  assumes "b < 2 ^ 64" "d < 2 ^ 64"
  shows "a * 2 ^ 64 + b < c * 2 ^ 64 + d \<longleftrightarrow> (if a = c then b < d else a < c)"
    and "a * 2 ^ 64 + b \<le> c * 2 ^ 64 + d \<longleftrightarrow> (if a = c then b \<le> d else a \<le> c)"
  using assms by auto

lemma uint128_compare [uint128_simps]:
  "uint128_less x y \<longleftrightarrow> w128 x < w128 y" "uint128_le x y \<longleftrightarrow> w128 x \<le> w128 y"
  "uint128_greater x y \<longleftrightarrow> w128 x > w128 y" "uint128_ge x y \<longleftrightarrow> w128 x \<ge> w128 y"
  unfolding word_less_nat_alt word_le_nat_alt val_parts
  using lex_less [OF lo_less [of x] lo_less [of y]] lex_less [OF lo_less [of y] lo_less [of x]]
  by (auto simp: uint128_less_def uint128_le_def uint128_greater_def uint128_ge_def parts
      word_less_nat_alt word_le_nat_alt word_unat_eq_iff)

lemma uint128_bool_iff [uint128_simps]: "uint128_bool x \<longleftrightarrow> w128 x \<noteq> 0" "uint128_is_zero x \<longleftrightarrow> w128 x = 0"
proof -
  have "w128 x = 0 \<longleftrightarrow> val x = 0" by (simp add: unat_eq_zero)
  then show "uint128_bool x \<longleftrightarrow> w128 x \<noteq> 0" "uint128_is_zero x \<longleftrightarrow> w128 x = 0"
    by (auto simp: val_parts uint128_bool_def uint128_is_zero_def parts unat_eq_zero)
qed

section \<open>Bitwise operations and shifts\<close>

lemma w128_Make: "w128 (MakeUint128 h l) = push_bit 64 (ucast h) OR ucast l"
  by (simp add: w128_def parts)

lemma uint128_bitwise [uint128_simps]:
  "w128 (uint128_not x) = NOT (w128 x)" "w128 (uint128_or x y) = w128 x OR w128 y"
  "w128 (uint128_and x y) = w128 x AND w128 y" "w128 (uint128_xor x y) = w128 x XOR w128 y"
  by (rule bit_word_eqI; auto simp: bit_w128 bit_simps uint128_not_def uint128_or_def uint128_and_def
      uint128_xor_def parts)+

lemma uint128_shl_eq:
  assumes "0 \<le> n" "n < 128"
  obtains y where "uint128_shl x n = Inr y" "w128 y = push_bit (nat n) (w128 x)"
proof -
  obtain y where y: "uint128_shl x n = Inr y" "w128 y = push_bit (nat n) (w128 x)"
  proof (cases "n < 64")
    case True
    show thesis
    proof (cases "n = 0")
      case True
      then show thesis by (intro that [of x]) (simp_all add: uint128_shl_def)
    next
      case False
      with assms True have n: "0 < nat n" "nat n < 64" "nat (64 - n) = 64 - nat n" by auto
      have "w128 (MakeUint128 (push_bit (nat n) (u_hi x) OR drop_bit (64 - nat n) (u_lo x)) (push_bit (nat n) (u_lo x)))
          = push_bit (nat n) (w128 x)"
        by (rule bit_word_eqI) (use n in \<open>auto simp: bit_w128 bit_simps parts add.commute [of 64] dest: bit_imp_le_length\<close>; arith)
      then show thesis
        using n True False assms by (intro that) (simp_all add: uint128_shl_def shl64_def shr64_def parts)
    qed
  next
    case False
    have "w128 (MakeUint128 (push_bit (nat (n - 64)) (u_lo x)) 0) = push_bit (nat n) (w128 x)"
      by (rule bit_word_eqI) (use False assms in \<open>auto simp: bit_w128 bit_simps parts nat_diff_distrib dest: bit_imp_le_length\<close>)
    then show thesis
      using False assms by (intro that) (simp_all add: uint128_shl_def shl64_def parts)
  qed
  then show thesis by (rule that)
qed

lemma uint128_shr_eq:
  assumes "0 \<le> n" "n < 128"
  obtains y where "uint128_shr x n = Inr y" "w128 y = drop_bit (nat n) (w128 x)"
proof -
  obtain y where y: "uint128_shr x n = Inr y" "w128 y = drop_bit (nat n) (w128 x)"
  proof (cases "n < 64")
    case True
    show thesis
    proof (cases "n = 0")
      case True
      then show thesis by (intro that [of x]) (simp_all add: uint128_shr_def)
    next
      case False
      with assms True have n: "0 < nat n" "nat n < 64" "nat (64 - n) = 64 - nat n" by auto
      have "w128 (MakeUint128 (drop_bit (nat n) (u_hi x)) (drop_bit (nat n) (u_lo x) OR push_bit (64 - nat n) (u_hi x)))
          = drop_bit (nat n) (w128 x)"
        by (rule bit_word_eqI) (use n in \<open>auto simp: bit_w128 bit_simps parts add.commute [of "nat n"] dest: bit_imp_le_length\<close>; arith)
      then show thesis
        using n True False assms by (intro that) (simp_all add: uint128_shr_def shl64_def shr64_def parts)
    qed
  next
    case False
    have "w128 (MakeUint128 0 (drop_bit (nat (n - 64)) (u_hi x))) = drop_bit (nat n) (w128 x)"
      by (rule bit_word_eqI) (use False assms in \<open>auto simp: bit_w128 bit_simps parts nat_diff_distrib dest: bit_imp_le_length\<close>)
    then show thesis
      using False assms by (intro that) (simp_all add: uint128_shr_def shr64_def parts)
  qed
  then show thesis by (rule that)
qed

section \<open>Arithmetic\<close>

text \<open>The parts as numbers of 128 bits: in the upper part multiples of \<open>2 ^ 64\<close> do not count.\<close>

definition up :: "64 word \<Rightarrow> 128 word" where
  "up w = ucast w * 2 ^ 64"

lemma two_128: "(2 ^ 64 * 2 ^ 64 :: 128 word) = 0"
  by simp

lemma ucast_128: "(ucast (w :: 64 word) :: 128 word) = of_nat (unat w)"
  by (simp add: word_unat_eq_iff unat_ucast_128)

lemma upper_mod: "(of_nat (n mod 2 ^ 64) :: 128 word) * 2 ^ 64 = of_nat n * 2 ^ 64"
proof -
  have "of_nat n = of_nat (n mod 2 ^ 64) + 2 ^ 64 * (of_nat (n div 2 ^ 64) :: 128 word)"
    using mod_mult_div_eq [of n "2 ^ 64"] by (metis of_nat_add of_nat_mult of_nat_numeral of_nat_power)
  then have "of_nat n * 2 ^ 64 = of_nat (n mod 2 ^ 64) * 2 ^ 64 + (2 ^ 64 * 2 ^ 64) * (of_nat (n div 2 ^ 64) :: 128 word)"
    by (simp only: distrib_left distrib_right ac_simps)
  then show ?thesis unfolding two_128 by simp
qed

lemma up_plus: "up (a + b) = up a + up b"
proof -
  have "up (a + b) = of_nat ((unat a + unat b) mod 2 ^ 64) * 2 ^ 64"
    by (simp add: up_def ucast_128 unat_word_ariths del: of_nat_unat)
  also have "\<dots> = up a + up b"
    unfolding upper_mod up_def ucast_128 by (simp only: of_nat_add distrib_right)
  finally show ?thesis .
qed

lemma up_times: "up (a * b) = up a * ucast b"
proof -
  have "up (a * b) = of_nat ((unat a * unat b) mod 2 ^ 64) * 2 ^ 64"
    by (simp add: up_def ucast_128 unat_word_ariths del: of_nat_unat)
  also have "\<dots> = up a * ucast b"
    unfolding upper_mod up_def ucast_128 by (simp only: of_nat_mult mult.assoc mult.commute mult.left_commute)
  finally show ?thesis .
qed

lemma up_minus: "up (a - b) = up a - up b"
  using up_plus [of "a - b" b] by simp

lemma up_consts: "up 0 = 0" "up 1 = 2 ^ 64"
  by (simp_all add: up_def)

lemmas ups = up_plus up_minus up_times up_consts

lemma ucast_plus: "(ucast (a + b :: 64 word) :: 128 word) = ucast a + ucast b - (if a + b < a then 2 ^ 64 else 0)"
proof (cases "unat a + unat b < 2 ^ 64")
  case True
  then show ?thesis by (simp add: ucast_128 word_less_nat_alt unat_word_ariths del: of_nat_unat)
next
  case False
  have "unat a < 2 ^ 64" "unat b < 2 ^ 64" using unsigned_less [of a, where 'a = nat] unsigned_less [of b, where 'a = nat] by simp_all
  with False have m: "(unat a + unat b) mod 2 ^ 64 = unat a + unat b - 2 ^ 64" "unat a + unat b - 2 ^ 64 < unat a"
    by (simp_all add: mod_if)
  then have "(ucast (a + b) :: 128 word) = of_nat (unat a + unat b - 2 ^ 64)" "a + b < a"
    by (simp_all add: ucast_128 unat_word_ariths word_less_nat_alt del: of_nat_unat)
  with False show ?thesis by (simp add: ucast_128 of_nat_diff del: of_nat_unat)
qed

lemma ucast_minus: "(ucast (a - b :: 64 word) :: 128 word) = ucast a - ucast b + (if a < b then 2 ^ 64 else 0)"
proof -
  have "a - b + b < a - b \<longleftrightarrow> a < b"
    by (simp add: word_less_nat_alt unat_sub_if_size word_size) (use unsigned_less [of a, where 'a = nat] unsigned_less [of b, where 'a = nat] in auto)
  then show ?thesis using ucast_plus [of "a - b" b] by (simp add: algebra_simps)
qed

lemma w128_up: "w128 x = up (u_hi x) + ucast (u_lo x)"
proof -
  have "w128 x = of_nat (val x)" by simp
  then show ?thesis by (simp add: val_parts up_def ucast_128 del: of_nat_unat)
qed

lemma uint128_plus_eq [uint128_simps]: "w128 (uint128_plus x y) = w128 x + w128 y"
  by (simp add: w128_up uint128_plus_def parts Let_def ups ucast_plus)

lemma uint128_minus_eq [uint128_simps]: "w128 (uint128_minus x y) = w128 x - w128 y"
  by (simp add: w128_up uint128_minus_def parts Let_def ups ucast_minus)


lemma uint128_neg_eq [uint128_simps]: "w128 (uint128_neg x) = - w128 x"
proof -
  have "NOT w + 1 = - w" for w :: "64 word" by (simp add: not_eq_complement)
  then show ?thesis
    using ucast_minus [of 0 "u_lo x"]
    by (simp add: uint128_neg_def parts w128_up Let_def not_eq_complement ups word_neq_0_conv)
      (simp add: up_minus [of 0, simplified up_consts diff_0])
qed

lemma w128_of_uint64 [uint128_simps]: "w128 (uint128_of_uint64 v) = ucast v"
  by (simp add: uint128_of_uint64_def w128_Make)

lemma w128_of_int64 [uint128_simps]:
  assumes "- (2 ^ 63) \<le> v" "v < 2 ^ 63"
  shows "w128 (uint128_of_int64 v) = word_of_int v"
proof -
  have u: "ucast (word_of_int k :: 64 word) = (word_of_int k :: 128 word)" if "0 \<le> k" "k < 2 ^ 64" for k
    using that by (simp add: word_uint_eq_iff unsigned_ucast_eq unsigned_of_int take_bit_int_eq_self)
  show ?thesis
  proof (cases "v < 0")
    case True
    have "(ucast (word_of_int v :: 64 word) :: 128 word) = word_of_int (v + 2 ^ 64)"
    proof -
      have "(2 ^ 64 :: 64 word) = 0" by simp
      then have e: "(word_of_int v :: 64 word) = word_of_int (v + 2 ^ 64)"
        by (simp only: of_int_add of_int_power of_int_numeral) simp
      show ?thesis unfolding e by (rule u) (use True assms in auto)
    qed
    moreover have "up (- 1) = - (2 ^ 64)" using up_minus [of 0 1] by (simp add: up_consts)
    ultimately show ?thesis
      using True assms by (simp add: uint128_of_int64_def w128_up parts u)
  next
    case False
    with assms show ?thesis by (simp add: uint128_of_int64_def w128_up parts u up_consts)
  qed
qed

text \<open>The halves of a 64-bit word, whose products fit 64 bits.\<close>

lemma halves: "unat v = 2 ^ 32 * unat (drop_bit 32 v) + unat (v AND 0xffffffff)"
  and upper_half: "unat (drop_bit 32 v) < 2 ^ 32" and lower_half: "unat (v AND 0xffffffff) < 2 ^ 32"
  for v :: "64 word"
proof -
  have "v AND 0xffffffff = take_bit 32 v" by (simp add: take_bit_eq_mask mask_eq_exp_minus_1)
  then have t: "unat (v AND 0xffffffff) = unat v mod 2 ^ 32" by (simp only: unsigned_take_bit_eq) (simp add: take_bit_eq_mod)
  have d: "unat (drop_bit 32 v) = unat v div 2 ^ 32" by (simp only: unsigned_drop_bit_eq) (simp add: drop_bit_eq_div take_bit_nat_eq_self unsigned_less [of v, where 'a = nat, simplified])
  show "unat v = 2 ^ 32 * unat (drop_bit 32 v) + unat (v AND 0xffffffff)" unfolding t d by simp
  show "unat (drop_bit 32 v) < 2 ^ 32" using unsigned_less [of v, where 'a = nat] unfolding d by (simp add: less_mult_imp_div_less)
  show "unat (v AND 0xffffffff) < 2 ^ 32" unfolding t by simp
qed

lemma ucast_halves: "(ucast (v :: 64 word) :: 128 word) = 2 ^ 32 * ucast (drop_bit 32 v) + ucast (v AND 0xffffffff)"
proof -
  have "(ucast v :: 128 word) = of_nat (2 ^ 32 * unat (drop_bit 32 v) + unat (v AND 0xffffffff))"
    unfolding ucast_128 halves [of v, symmetric] ..
  also have "\<dots> = 2 ^ 32 * ucast (drop_bit 32 v) + ucast (v AND 0xffffffff)"
    unfolding ucast_128 of_nat_add of_nat_mult by simp
  finally show ?thesis .
qed

lemma ucast_product:
  assumes "unat v < 2 ^ 32" "unat w < 2 ^ 32"
  shows "(ucast (v * w :: 64 word) :: 128 word) = ucast v * ucast w"
proof -
  have "unat v * unat w < 2 ^ 32 * 2 ^ 32" using assms by (intro mult_strict_mono) auto
  then have "unat (v * w) = unat v * unat w" by (simp add: unat_word_ariths)
  then show ?thesis unfolding ucast_128 by (metis of_nat_mult)
qed

lemmas half_products = ucast_product [OF upper_half lower_half] ucast_product [OF lower_half upper_half]
  ucast_product [OF lower_half lower_half] ucast_product [OF upper_half upper_half]

lemma uint128_times_eq:
  obtains z where "uint128_times x y = Inr z" "w128 z = w128 x * w128 y"
proof -
  let ?a = "u_lo x" and ?b = "u_lo y"
  let ?ah = "drop_bit 32 ?a" and ?al = "?a AND 0xffffffff" and ?bh = "drop_bit 32 ?b" and ?bl = "?b AND 0xffffffff"
  obtain m where m: "uint128_shl (uint128_of_uint64 (?ah * ?bl)) 32 = Inr m"
      "w128 m = push_bit 32 (ucast (?ah * ?bl))"
    using uint128_shl_eq [of 32 "uint128_of_uint64 (?ah * ?bl)"] by (auto simp: uint128_simps)
  obtain n where n: "uint128_shl (uint128_of_uint64 (?al * ?bh)) 32 = Inr n"
      "w128 n = push_bit 32 (ucast (?al * ?bh))"
    using uint128_shl_eq [of 32 "uint128_of_uint64 (?al * ?bh)"] by (auto simp: uint128_simps)
  show thesis
  proof (rule that)
    show "uint128_times x y = Inr (uint128_plus (uint128_plus (MakeUint128 (u_hi x * ?b + ?a * u_hi y + ?ah * ?bh) (?al * ?bl)) m) n)"
      using m(1) n(1) by (simp add: uint128_times_def parts Let_def)
    define A B where "A = (ucast ?a :: 128 word)" and "B = (ucast ?b :: 128 word)"
    define A1 A0 B1 B0 where "A1 = (ucast ?ah :: 128 word)" and "A0 = (ucast ?al :: 128 word)"
      and "B1 = (ucast ?bh :: 128 word)" and "B0 = (ucast ?bl :: 128 word)"
    have h: "A = 2 ^ 32 * A1 + A0" "B = 2 ^ 32 * B1 + B0"
      unfolding A_def B_def A1_def A0_def B1_def B0_def by (rule ucast_halves)+
    have q: "up (?ah * ?bh) = 2 ^ 64 * (A1 * B1)"
      unfolding up_def A1_def B1_def half_products by (simp only: ac_simps)
    have "up (u_hi x) * up (u_hi y) = ucast (u_hi x) * ucast (u_hi y) * (2 ^ 64 * 2 ^ 64)"
      unfolding up_def by (simp only: ac_simps)
    then have z: "up (u_hi x) * up (u_hi y) = 0" unfolding two_128 by simp
    have "w128 (uint128_plus (uint128_plus (MakeUint128 (u_hi x * ?b + ?a * u_hi y + ?ah * ?bh) (?al * ?bl)) m) n)
      = up (u_hi x) * B + A * up (u_hi y) + 2 ^ 64 * (A1 * B1) + A0 * B0 + 2 ^ 32 * (A1 * B0) + 2 ^ 32 * (A0 * B1)"
    proof -
      have "w128 (MakeUint128 (u_hi x * ?b + ?a * u_hi y + ?ah * ?bh) (?al * ?bl))
        = up (u_hi x) * B + A * up (u_hi y) + 2 ^ 64 * (A1 * B1) + A0 * B0"
        unfolding w128_up parts uint128.simps up_plus q half_products
        unfolding mult.commute [of ?a] up_times A_def B_def A0_def B0_def
        by (simp only: ac_simps)
      then show ?thesis
        unfolding uint128_plus_eq m(2) n(2) push_bit_eq_mult half_products A0_def B0_def A1_def B1_def by (simp only: ac_simps)
    qed
    also have "\<dots> = up (u_hi x) * B + A * up (u_hi y) + A * B"
      unfolding h by (simp add: algebra_simps)
    also have "\<dots> = w128 x * w128 y"
      unfolding w128_up distrib_left distrib_right z by (simp add: A_def B_def)
    finally show "w128 (uint128_plus (uint128_plus (MakeUint128 (u_hi x * ?b + ?a * u_hi y + ?ah * ?bh) (?al * ?bl)) m) n)
      = w128 x * w128 y" .
  qed
qed

section \<open>Division\<close>

lemma unat_drop_bit: "unat (drop_bit k w) = unat w div 2 ^ k" for w :: "'a :: len word"
  by (simp only: unsigned_drop_bit_eq) (simp add: drop_bit_eq_div take_bit_nat_eq_self)

lemma STEP_eq:
  fixes n :: "'a :: len word"
  assumes "STEP n pos sh = (n', pos')" "sh < LENGTH('a)"
  shows "unat n \<ge> 2 ^ sh \<and> unat n' = unat n div 2 ^ sh \<and> pos' = pos OR int sh \<or> unat n < 2 ^ sh \<and> n' = n \<and> pos' = pos"
proof -
  have "unat (push_bit sh 1 :: 'a word) = 2 ^ sh" 
  proof -
    have "(2 :: nat) ^ sh < 2 ^ LENGTH('a)" using assms(2) by simp
    then have "unat (of_nat (2 ^ sh) :: 'a word) = 2 ^ sh" by (simp only: unsigned_of_nat take_bit_nat_eq_self of_nat_id)
    moreover have "(push_bit sh 1 :: 'a word) = of_nat (2 ^ sh)"
      unfolding push_bit_eq_mult of_nat_power of_nat_numeral by simp
    ultimately show ?thesis by simp
  qed
  with assms(1) show ?thesis
    by (auto simp: STEP_def word_le_nat_alt unat_drop_bit simp del: drop_bit_eq_div split: if_splits)
qed


text \<open>The exponent of the largest power of two that is not above a positive number.\<close>

definition top_bit :: "nat \<Rightarrow> nat \<Rightarrow> bool" where
  "top_bit n p \<longleftrightarrow> 2 ^ p \<le> n \<and> n < 2 ^ (p + 1)"

lemma top_bit_div: "top_bit (n div 2 ^ s) p \<Longrightarrow> top_bit n (p + s)"
  unfolding top_bit_def
  by (simp add: power_add less_eq_div_iff_mult_less_eq div_less_iff_less_mult ac_simps)

lemma STEP_top:
  fixes m :: "'a :: len word"
  assumes "STEP m pos sh = (m', pos')" "sh < LENGTH('a)" "unat m < 2 ^ (2 * sh)" "0 < unat m" "pos AND int sh = 0" "0 \<le> pos"
    and inv: "\<And>p. top_bit (unat m) p \<Longrightarrow> top_bit n (p + nat pos)"
  shows "unat m' < 2 ^ sh" "0 < unat m'" "pos' = pos \<or> pos' = pos + int sh"
    "top_bit (unat m') p \<Longrightarrow> top_bit n (p + nat pos')"
proof -
  have or: "pos OR int sh = pos + int sh" using assms(5) by (simp add: disjunctive_add_eq_or)
  have "2 ^ (2 * sh) = (2 ^ sh * 2 ^ sh :: nat)" by (simp add: mult_2 power_add)
  then have small: "unat m div 2 ^ sh < 2 ^ sh" using assms(3) by (simp add: less_mult_imp_div_less)
  consider "2 ^ sh \<le> unat m" "unat m' = unat m div 2 ^ sh" "pos' = pos + int sh"
    | "unat m < 2 ^ sh" "m' = m" "pos' = pos"
    using STEP_eq [OF assms(1,2)] or by auto
  then have "unat m' < 2 ^ sh \<and> 0 < unat m' \<and> (pos' = pos \<or> pos' = pos + int sh) \<and>
      (top_bit (unat m') p \<longrightarrow> top_bit n (p + nat pos'))"
  proof cases
    case 1
    then show ?thesis
      using small inv [OF top_bit_div [of "unat m" sh p]] assms(6)
      by (auto simp: div_greater_zero_iff nat_add_distrib ac_simps)
  next
    case 2
    then show ?thesis using assms(4) inv by blast
  qed
  then show "unat m' < 2 ^ sh" "0 < unat m'" "pos' = pos \<or> pos' = pos + int sh"
    "top_bit (unat m') p \<Longrightarrow> top_bit n (p + nat pos')" by blast+
qed

lemma table_top:
  assumes "0 < n" "n < 16"
  obtains p where "p < 4" "drop_bit (4 * n) (0x3333333322221100 :: 64 word) AND 0x3 = of_nat p" "top_bit n p"
proof -
  have "list_all (\<lambda>n. list_ex (\<lambda>p. drop_bit (4 * n) (0x3333333322221100 :: 64 word) AND 0x3 = of_nat p \<and> top_bit n p) [0..<4]) [1..<16]"
    unfolding top_bit_def by code_simp
  moreover have "n \<in> set [1..<16]" using assms by auto
  ultimately have "list_ex (\<lambda>p. drop_bit (4 * n) (0x3333333322221100 :: 64 word) AND 0x3 = of_nat p \<and> top_bit n p) [0..<4]"
    unfolding list_all_iff by blast
  then show thesis using that unfolding list_ex_iff by (auto simp del: push_bit_numeral)
qed

lemma Fls64_eq:
  assumes "n \<noteq> 0"
  obtains p where "Fls64 n = Inr (int p)" "top_bit (unat n) p"
proof -
  obtain n1 p1 where s1: "STEP n 0 0x20 = (n1, p1)" by (cases "STEP n 0 0x20")
  note t1 = STEP_top [OF s1, where n = "unat n"]
  obtain n2 p2 where s2: "STEP (ucast n1 :: 32 word) p1 0x10 = (n2, p2)" by (cases "STEP (ucast n1 :: 32 word) p1 0x10")
  obtain n3 p3 where s3: "STEP n2 p2 0x08 = (n3, p3)" by (cases "STEP n2 p2 0x08")
  obtain n4 p4 where s4: "STEP n3 p3 0x04 = (n4, p4)" by (cases "STEP n3 p3 0x04")
  have n: "0 < unat n" using assms by (simp add: unat_gt_0)
  have r1: "unat n1 < 2 ^ 32" "0 < unat n1" "p1 = 0 \<or> p1 = 32" "top_bit (unat n1) p \<Longrightarrow> top_bit (unat n) (p + nat p1)" for p
    using t1 n unsigned_less [of n, where 'a = nat] by simp_all
  have u: "unat (ucast n1 :: 32 word) = unat n1" using r1(1) by (simp add: unsigned_ucast_eq take_bit_nat_eq_self)
  have r2: "unat n2 < 2 ^ 16" "0 < unat n2" "p2 = p1 \<or> p2 = p1 + 16" "top_bit (unat n2) p \<Longrightarrow> top_bit (unat n) (p + nat p2)" for p
    using STEP_top [OF s2, where n = "unat n"] r1 by (auto simp: u)
  have r3: "unat n3 < 2 ^ 8" "0 < unat n3" "p3 = p2 \<or> p3 = p2 + 8" "top_bit (unat n3) p \<Longrightarrow> top_bit (unat n) (p + nat p3)" for p
    using STEP_top [OF s3, where n = "unat n"] r2 r1(3) by auto
  have r4: "unat n4 < 2 ^ 4" "0 < unat n4" "p4 = p3 \<or> p4 = p3 + 4" "top_bit (unat n4) p \<Longrightarrow> top_bit (unat n) (p + nat p4)" for p
    using STEP_top [OF s4, where n = "unat n"] r3 r2(3) r1(3) by auto
  obtain p where p: "p < 4" "drop_bit (4 * unat n4) (0x3333333322221100 :: 64 word) AND 0x3 = of_nat p" "top_bit (unat n4) p"
    using table_top [of "unat n4"] r4(1,2) by auto
  have "0 \<le> p4" using r1(3) r2(3) r3(3) r4(3) by auto
  have sh: "uint (push_bit 2 n4) = int (4 * unat n4)"
  proof -
    have "unat (push_bit 2 n4) = 4 * unat n4" using r4(1) by (simp add: push_bit_eq_mult unat_word_ariths)
    then show ?thesis by (simp only: uint_nat)
  qed
  have "uint (of_nat p :: 64 word) = int p"
  proof -
    have "p = 0 \<or> p = 1 \<or> p = 2 \<or> p = 3" using p(1) by arith
    then show ?thesis by auto
  qed
  moreover have "uint n4 < 16" using r4(1) unfolding uint_nat by (simp del: of_nat_unat)
  ultimately have "Fls64 n = Inr (p4 + int p)"
    using assms p(1,2) r4(1) by (simp add: Fls64_def s1 s2 s3 s4 sh shr64_def nat_mult_distrib)
  then show thesis using that [of "p + nat p4"] r4(4) [OF p(3)] \<open>0 \<le> p4\<close> by (simp add: add.commute)
qed


lemma Fls128_eq:
  assumes "w128 n \<noteq> 0"
  obtains p where "Fls128 n = Inr (int p)" "top_bit (val n) p" "p < 128"
proof -
  obtain p where p: "Fls128 n = Inr (int p)" "top_bit (val n) p"
  proof (cases "u_hi n = 0")
    case True
    then have "u_lo n \<noteq> 0" using assms by (auto simp: w128_def)
    then obtain p where "Fls64 (u_lo n) = Inr (int p)" "top_bit (unat (u_lo n)) p" by (rule Fls64_eq)
    with True show thesis by (intro that [of p]) (simp_all add: Fls128_def parts val_parts)
  next
    case False
    then obtain p where p: "Fls64 (u_hi n) = Inr (int p)" "top_bit (unat (u_hi n)) p" by (rule Fls64_eq)
    have "val n div 2 ^ 64 = unat (u_hi n)" unfolding val_parts using lo_less [of n] by simp
    with p(2) have "top_bit (val n) (p + 64)" using top_bit_div [of "val n" 64 p] by simp
    with False p(1) show thesis by (intro that [of "p + 64"]) (simp_all add: Fls128_def parts)
  qed
  moreover have "(2 :: nat) ^ p < 2 ^ 128" using p(2) val_less [of n] unfolding top_bit_def by (meson le_less_trans)
  then have "p < 128" by (rule power_less_imp_less_exp [rotated]) simp
  ultimately show thesis by (rule that)
qed


lemma val_shl:
  assumes "0 \<le> n" "n < 128" "val x * 2 ^ nat n < 2 ^ 128"
  obtains y where "uint128_shl x n = Inr y" "val y = val x * 2 ^ nat n" "w128 y = push_bit (nat n) (w128 x)"
proof -
  obtain y where y: "uint128_shl x n = Inr y" "w128 y = push_bit (nat n) (w128 x)" by (rule uint128_shl_eq [OF assms(1,2)])
  have "val y = (val x * 2 ^ nat n) mod 2 ^ 128"
    unfolding y(2) by (simp only: unsigned_push_bit_eq) (simp add: take_bit_eq_mod push_bit_eq_mult)
  with assms(3) y show thesis by (intro that) simp_all
qed

lemma val_minus: "w128 y \<le> w128 x \<Longrightarrow> val (uint128_minus x y) = val x - val y"
  by (simp add: uint128_minus_eq unat_sub)

lemma val_or_1:
  assumes "w128 x = push_bit 1 w" "val x + 1 < 2 ^ 128"
  shows "val (uint128_or x (uint128_of_int64 1)) = val x + 1"
proof -
  have "push_bit 1 w AND 1 = (0 :: 128 word)"
    by (rule bit_word_eqI) (simp only: bit_and_iff bit_push_bit_iff bit_1_iff bit_0_eq bot_apply, auto)
  then have "w128 (uint128_or x (uint128_of_int64 1)) = w128 x + 1"
    using assms(1) w128_of_int64 [of 1] by (simp add: uint128_bitwise disjunctive_add_eq_or)
  with assms(2) show ?thesis by (simp add: unat_word_ariths)
qed

lemma le_mult_power: "n \<le> n * 2 ^ j" for n :: nat
  by simp

lemma divmod_loop_eq:
  assumes "shift = i + int j - 1" "0 < d" "j = 0 \<or> val dn = d * 2 ^ (j - 1)" "val dv < d * 2 ^ j"
    "val q * 2 ^ j + val dv div d < 2 ^ 128"
  shows "\<exists>q' r'. divmod_loop i shift dv dn q = Inr (q', r') \<and> val q' = val q * 2 ^ j + val dv div d \<and> val r' = val dv mod d"
  using assms
proof (induction j arbitrary: i dv dn q)
  case 0
  then show ?case by (simp add: divmod_loop.simps [of i])
next
  case (Suc j)
  have dn: "val dn = d * 2 ^ j" using Suc.prems(3) by simp
  have "val q * 2 * 2 ^ j \<le> val q * 2 ^ Suc j + val dv div d" by simp
  then have "val q * 2 * 2 ^ j < 2 ^ 128" using Suc.prems(5) by (rule le_less_trans)
  then have "val q * 2 < 2 ^ 128" by (rule le_less_trans [rotated]) simp
  then have "val q * 2 ^ nat 1 < 2 ^ 128" by simp
  then obtain q1 where q1: "uint128_shl q 1 = Inr q1" "val q1 = val q * 2" "w128 q1 = push_bit 1 (w128 q)"
    using val_shl [of 1 q] by auto
  obtain dn1 where dn1: "uint128_shr dn 1 = Inr dn1" "w128 dn1 = drop_bit 1 (w128 dn)"
    using uint128_shr_eq [of 1 dn] by auto
  have dn1v: "j = 0 \<or> val dn1 = d * 2 ^ (j - 1)"
    unfolding dn1(2) unat_drop_bit dn by (cases j) simp_all
  define dv1 q2 where "dv1 = (if uint128_ge dv dn then uint128_minus dv dn else dv)"
    and "q2 = (if uint128_ge dv dn then uint128_or q1 (uint128_of_int64 1) else q1)"
  have ge: "uint128_ge dv dn \<longleftrightarrow> d * 2 ^ j \<le> val dv"
    unfolding uint128_compare word_le_nat_alt dn ..
  have step: "divmod_loop i shift dv dn q = divmod_loop (i + 1) shift dv1 dn1 q2"
    using Suc.prems(1) q1(1) dn1(1) by (subst divmod_loop.simps) (simp add: dv1_def q2_def)
  have key: "val q2 * 2 ^ j + val dv1 div d = val q * 2 ^ Suc j + val dv div d" "val dv1 mod d = val dv mod d" "val dv1 < d * 2 ^ j"
  proof -
    have two: "val dv < 2 * (d * 2 ^ j)" using Suc.prems(4) by simp
    have "val dv1 < d * 2 ^ j \<and> val q2 * 2 ^ j + val dv1 div d = val q * 2 ^ Suc j + val dv div d \<and> val dv1 mod d = val dv mod d"
    proof (cases "d * 2 ^ j \<le> val dv")
      case True
      have dv1: "val dv1 = val dv - d * 2 ^ j"
        using True ge val_minus [of dn dv] dn by (simp add: dv1_def word_le_nat_alt)
      have dv: "val dv = val dv1 + d * 2 ^ j" using True dv1 by simp
      have div: "val dv div d = val dv1 div d + 2 ^ j" "val dv mod d = val dv1 mod d"
        unfolding dv using Suc.prems(2) by simp_all
      have grow: "val q * 2 + 1 \<le> (val q * 2 + 1) * 2 ^ j" by (rule le_mult_power)
      have "(val q * 2 + 1) * 2 ^ j \<le> val q * 2 ^ Suc j + val dv div d" unfolding div by simp
      then have "(val q * 2 + 1) * 2 ^ j < 2 ^ 128" using Suc.prems(5) by (rule le_less_trans)
      then have "val q1 + 1 < 2 ^ 128" unfolding q1(2) using grow by (rule le_less_trans [rotated])
      then have "val q2 = val q * 2 + 1" using True ge val_or_1 [OF q1(3)] q1(2) by (simp add: q2_def)
      then show ?thesis using div dv1 two by (simp add: algebra_simps)
    next
      case False
      then show ?thesis using ge q1(2) by (simp add: dv1_def q2_def)
    qed
    then show "val dv1 < d * 2 ^ j" "val q2 * 2 ^ j + val dv1 div d = val q * 2 ^ Suc j + val dv div d" "val dv1 mod d = val dv mod d"
      by blast+
  qed
  have "\<exists>q' r'. divmod_loop (i + 1) shift dv1 dn1 q2 = Inr (q', r') \<and> val q' = val q2 * 2 ^ j + val dv1 div d \<and> val r' = val dv1 mod d"
    by (rule Suc.IH) (use Suc.prems dn1v key in auto)
  then show ?case unfolding step key .
qed


lemma top_bit_shift:
  assumes "top_bit n p" "top_bit d q" "d \<le> n"
  shows "q \<le> p" "d * 2 ^ (p - q) < 2 ^ (p + 1)" "n < d * 2 ^ (p - q + 1)"
proof -
  have "(2 :: nat) ^ q < 2 ^ (p + 1)" using assms unfolding top_bit_def by linarith
  then have "q < p + 1" by (rule power_less_imp_less_exp [rotated]) simp
  then show q: "q \<le> p" by simp
  then have p: "2 ^ (p + 1) = (2 ^ (q + 1) * 2 ^ (p - q) :: nat)" "2 ^ (p + 1) = (2 ^ q * 2 ^ (p - q + 1) :: nat)"
    by (simp_all flip: power_add)
  have "d * 2 ^ (p - q) < 2 ^ (q + 1) * 2 ^ (p - q)" using assms(2) by (simp add: top_bit_def)
  then show "d * 2 ^ (p - q) < 2 ^ (p + 1)" unfolding p(1) .
  have "2 ^ q * 2 ^ (p - q + 1) \<le> d * 2 ^ (p - q + 1)" using assms(2) by (simp add: top_bit_def)
  then show "n < d * 2 ^ (p - q + 1)" using assms(1) unfolding p(2) [symmetric] top_bit_def by linarith
qed

lemma DivModImpl_eq:
  assumes "w128 y \<noteq> 0"
  obtains q r where "DivModImpl x y = Inr (q, r)" "w128 q = w128 x div w128 y" "w128 r = w128 x mod w128 y"
proof -
  have lits: "w128 (uint128_of_int64 0) = 0" "w128 (uint128_of_int64 1) = 1" by (simp_all add: uint128_simps)
  have y: "0 < val y" using assms by (simp add: unat_gt_0)
  obtain q r where qr: "DivModImpl x y = Inr (q, r)" "val q = val x div val y" "val r = val x mod val y"
  proof (cases "val x \<le> val y")
    case True
    consider "val x < val y" | "w128 x = w128 y" using True unfolding word_unat_eq_iff by linarith
    then show thesis
    proof cases
      case 1
      then show thesis
        using assms by (intro that [of "uint128_of_int64 0" x]) (simp_all add: DivModImpl_def uint128_simps word_less_nat_alt)
    next
      case 2
      then show thesis
        using assms y by (intro that [of "uint128_of_int64 1" "uint128_of_int64 0"]) (simp_all add: DivModImpl_def uint128_simps word_less_nat_alt)
    qed
  next
    case False
    then have "w128 x \<noteq> 0" by auto
    then obtain p where p: "Fls128 x = Inr (int p)" "top_bit (val x) p" "p < 128" by (rule Fls128_eq)
    obtain k where k: "Fls128 y = Inr (int k)" "top_bit (val y) k" "k < 128" by (rule Fls128_eq [OF assms])
    note sh = top_bit_shift [OF p(2) k(2)]
    have kp: "k \<le> p" "nat (int p - int k) = p - k" using sh False by auto
    have "(2 :: nat) ^ (p + 1) \<le> 2 ^ 128" using p(3) by (intro power_increasing) auto
    then have "val y * 2 ^ nat (int p - int k) < 2 ^ 128"
      using sh(2) False unfolding kp(2) by linarith
    moreover have "0 \<le> int p - int k" "int p - int k < 128" using kp(1) p(3) by simp_all
    ultimately obtain dn where dn: "uint128_shl y (int p - int k) = Inr dn" "val dn = val y * 2 ^ (p - k)"
      using val_shl [of "int p - int k" y] unfolding kp(2) by blast
    have "val x div val y < 2 ^ 128" using val_less [of x] by (rule le_less_trans [rotated]) simp
    then obtain q r where "divmod_loop 0 (int p - int k) x dn (uint128_of_int64 0) = Inr (q, r)"
        "val q = val x div val y" "val r = val x mod val y"
      using divmod_loop_eq [of "int p - int k" 0 "p - k + 1" "val y" dn x "uint128_of_int64 0"] y dn(2) sh(3) False kp
      by (auto simp: lits)
    moreover have "\<not> uint128_greater y x" "\<not> uint128_eq y x" "\<not> uint128_eq y (uint128_of_int64 0)"
      unfolding uint128_compare uint128_eq_iff lits using False assms by (auto simp: word_less_nat_alt)
    ultimately show thesis
      using p(1) k(1) dn(1) by (intro that [of q r]) (simp_all add: DivModImpl_def)
  qed
  from qr show thesis by (intro that [of q r]) (simp_all add: word_unat_eq_iff unat_div_distrib unat_mod_distrib)
qed

end
