(* ===== verification/Duration_Laws.thy ===== *)
theory Duration_Laws
  imports Durations Int128_Laws Civil_Normal
begin

text \<open>
  Durations against their specification: integers between two infinities, counted in quarters of a
  nanosecond. \<open>dur\<close> is the representation of such a number; every operation of the code on
  representations is the operation on the numbers.
\<close>

section \<open>Numbers between infinities\<close>

datatype ext = NegInf | Fin int | PosInf

instantiation ext :: linorder
begin

fun less_eq_ext :: "ext \<Rightarrow> ext \<Rightarrow> bool" where
  "less_eq_ext NegInf _ = True"
| "less_eq_ext _ PosInf = True"
| "less_eq_ext (Fin s) (Fin t) = (s \<le> t)"
| "less_eq_ext _ _ = False"

definition less_ext :: "ext \<Rightarrow> ext \<Rightarrow> bool" where
  "less_ext x y \<longleftrightarrow> x \<le> y \<and> \<not> y \<le> (x :: ext)"

instance
proof
  fix x y z :: ext
  show "(x < y) = (x \<le> y \<and> \<not> y \<le> x)" by (rule less_ext_def)
  show "x \<le> x" by (cases x) simp_all
  show "x \<le> z" if "x \<le> y" "y \<le> z" using that by (cases x; cases y; cases z) simp_all
  show "x = y" if "x \<le> y" "y \<le> x" using that by (cases x; cases y) simp_all
  show "x \<le> y \<or> y \<le> x" by (cases x; cases y) auto
qed

end

lemma less_ext_simps [simp]:
  "Fin s < Fin t \<longleftrightarrow> s < t" "NegInf < Fin t" "Fin t < PosInf" "NegInf < PosInf" "\<not> x < NegInf" "\<not> PosInf < x"
  "\<not> Fin t < NegInf"
  by (cases x; auto simp: less_ext_def)+

definition limit :: int where
  "limit = 2 ^ 63 * 4000000000"

text \<open>Sums and products that leave the range of representable numbers are infinite.\<close>

definition sat :: "int \<Rightarrow> ext" where
  "sat t = (if t \<ge> limit then PosInf else if t < - limit then NegInf else Fin t)"

definition representable :: "ext \<Rightarrow> bool" where
  "representable e \<longleftrightarrow> (\<forall>t. e = Fin t \<longrightarrow> - limit \<le> t \<and> t < limit)"

fun dur :: "ext \<Rightarrow> Duration" where
  "dur NegInf = MakeDuration kint64min u32_max"
| "dur PosInf = MakeDuration kint64max u32_max"
| "dur (Fin t) = MakeDuration (t div kTicksPerSecond) (t mod kTicksPerSecond)"

lemma representable_simps [simp]:
  "representable NegInf" "representable PosInf" "representable (Fin t) \<longleftrightarrow> - limit \<le> t \<and> t < limit" "representable (sat t)"
  by (auto simp: representable_def sat_def split: if_splits)

lemma sat_Fin: "- limit \<le> t \<Longrightarrow> t < limit \<Longrightarrow> sat t = Fin t"
  by (simp add: sat_def)

lemma ticks_per_second [simp]: "kTicksPerSecond = 4000000000"
  by (simp add: kTicksPerSecond_def kTicksPerNanosecond_def)

lemma parts_bounds:
  assumes "- limit \<le> t" "t < limit"
  shows "- (2 ^ 63) \<le> t div 4000000000" "t div 4000000000 < 2 ^ 63" "0 \<le> t mod 4000000000" "t mod 4000000000 < 4000000000"
  using assms by (auto simp: limit_def)

text \<open>A valid representation: what the header of \<open>duration.cc\<close> asks for.\<close>

definition valid_duration :: "Duration \<Rightarrow> bool" where
  "valid_duration d \<longleftrightarrow> kint64min \<le> rep_hi d \<and> rep_hi d \<le> kint64max \<and>
     (0 \<le> rep_lo d \<and> rep_lo d < kTicksPerSecond \<or> rep_lo d = u32_max \<and> (rep_hi d = kint64min \<or> rep_hi d = kint64max))"

definition ticks :: "Duration \<Rightarrow> ext" where
  "ticks d = (if IsInfiniteDuration d then if rep_hi d < 0 then NegInf else PosInf
              else Fin (rep_hi d * kTicksPerSecond + rep_lo d))"

lemmas duration_defs = MakeDuration_def MakeDuration_int64_def kint64min_def kint64max_def u32_max_def u32_def
  InfiniteDuration_def ZeroDuration_def kTicksPerNanosecond_def

lemma dur_ticks: "valid_duration d \<Longrightarrow> dur (ticks d) = d"
  by (cases d) (auto simp: valid_duration_def ticks_def IsInfiniteDuration_def duration_defs)

lemma ticks_dur: "representable e \<Longrightarrow> ticks (dur e) = e"
  by (cases e) (auto simp: ticks_def IsInfiniteDuration_def duration_defs)

lemma valid_dur: "representable e \<Longrightarrow> valid_duration (dur e)"
  by (cases e) (auto simp: valid_duration_def duration_defs limit_def)

lemma representable_ticks: "valid_duration d \<Longrightarrow> representable (ticks d)"
  by (auto simp: valid_duration_def ticks_def IsInfiniteDuration_def duration_defs limit_def)

lemma valid_durationE:
  assumes "valid_duration d"
  obtains e where "representable e" "d = dur e" "ticks d = e"
  using dur_ticks [OF assms] representable_ticks [OF assms] that by metis

lemma infinite_dur [simp]:
  "IsInfiniteDuration (dur NegInf)" "IsInfiniteDuration (dur PosInf)" "\<not> IsInfiniteDuration (dur (Fin t))"
proof -
  have "t mod 4000000000 < 4000000000" by simp
  then have "t mod 4000000000 \<noteq> 4294967295" by linarith
  then show "\<not> IsInfiniteDuration (dur (Fin t))" by (simp add: IsInfiniteDuration_def duration_defs)
qed (simp_all add: IsInfiniteDuration_def duration_defs)

lemma rep_dur_Fin: "rep_hi (dur (Fin t)) = t div 4000000000" "rep_lo (dur (Fin t)) = t mod 4000000000"
  by (simp_all add: duration_defs)

lemma rep_dur [simp]:
  "rep_hi (dur NegInf) = - (2 ^ 63)" "rep_hi (dur PosInf) = 2 ^ 63 - 1"
  by (simp_all add: duration_defs)

declare dur.simps [simp del]

lemma dur_Fin: "dur (Fin t) = MakeDuration (t div 4000000000) (t mod 4000000000)"
  by (simp add: dur.simps)

lemma constants: "InfiniteDuration = dur PosInf" "ZeroDuration = dur (Fin 0)"
  by (simp_all add: dur.simps duration_defs)

text \<open>A finite duration by its parts, in which the operations are linear arithmetic.\<close>

lemma finE:
  assumes "representable (Fin t)"
  obtains h l where "t = h * 4000000000 + l" "0 \<le> l" "l < 4000000000" "- (2 ^ 63) \<le> h" "h < 2 ^ 63"
    "rep_hi (dur (Fin t)) = h" "rep_lo (dur (Fin t)) = l"
  using that [of "t div 4000000000" "t mod 4000000000"] assms parts_bounds [of t] by (simp add: rep_dur_Fin)

lemma dur_parts:
  assumes "0 \<le> l" "l < 4000000000"
  shows "dur (Fin (h * 4000000000 + l)) = MakeDuration h l"
  using assms by (simp add: dur_Fin)

lemma sat_parts:
  assumes "0 \<le> l" "l < 4000000000"
  shows "sat (h * 4000000000 + l) = (if h \<ge> 2 ^ 63 then PosInf else if h < - (2 ^ 63) then NegInf else Fin (h * 4000000000 + l))"
  using assms by (auto simp: sat_def limit_def)

lemma dur_sat_parts:
  assumes "0 \<le> l" "l < 4000000000"
  shows "dur (sat (h * 4000000000 + l)) =
    (if h \<ge> 2 ^ 63 then dur PosInf else if h < - (2 ^ 63) then dur NegInf else MakeDuration h l)"
  using assms by (simp add: sat_parts dur_parts)

section \<open>Comparison and negation\<close>

lemma Duration_less_iff:
  assumes "representable a" "representable b"
  shows "Duration_less (dur a) (dur b) \<longleftrightarrow> a < b"
proof (cases "\<exists>s t. a = Fin s \<and> b = Fin t")
  case True
  then obtain s t where ab: "a = Fin s" "b = Fin t" by blast
  obtain h l where s: "s = h * 4000000000 + l" "0 \<le> l" "l < 4000000000" "rep_hi (dur (Fin s)) = h" "rep_lo (dur (Fin s)) = l"
    using finE [OF assms(1) [unfolded ab]] .
  obtain k m where t: "t = k * 4000000000 + m" "0 \<le> m" "m < 4000000000" "rep_hi (dur (Fin t)) = k" "rep_lo (dur (Fin t)) = m"
    using finE [OF assms(2) [unfolded ab]] .
  have "Duration_less (dur a) (dur b) \<longleftrightarrow> (if h \<noteq> k then h < k else l < m)"
    unfolding ab Duration_less_def s(4,5) t(4,5) using s(2,3) t(2,3) by (auto simp: duration_defs)
  then show ?thesis using s(1-3) t(1-3) by (auto simp: ab)
next
  case False
  with assms show ?thesis
    by (cases a; cases b) (auto simp: Duration_less_def dur.simps duration_defs limit_def)
qed

lemma dur_inject: "representable a \<Longrightarrow> representable b \<Longrightarrow> dur a = dur b \<longleftrightarrow> a = b"
  using ticks_dur by metis

lemma Duration_eq_iff: "representable a \<Longrightarrow> representable b \<Longrightarrow> Duration_eq (dur a) (dur b) \<longleftrightarrow> a = b"
  using dur_inject [of a b] by (cases "dur a"; cases "dur b") (auto simp: Duration_eq_def)

lemma Duration_order:
  assumes "representable a" "representable b"
  shows "Duration_le (dur a) (dur b) \<longleftrightarrow> a \<le> b" "Duration_ge (dur a) (dur b) \<longleftrightarrow> a \<ge> b"
  using Duration_less_iff [OF assms] Duration_less_iff [OF assms(2,1)] by (auto simp: Duration_le_def Duration_ge_def)

fun ext_neg :: "ext \<Rightarrow> ext" where
  "ext_neg NegInf = PosInf"
| "ext_neg PosInf = NegInf"
| "ext_neg (Fin t) = sat (- t)"

lemma Duration_neg_eq:
  assumes "representable e"
  shows "Duration_neg (dur e) = Inr (dur (ext_neg e))"
proof (cases e)
  case (Fin t)
  obtain h l where t: "t = h * 4000000000 + l" "0 \<le> l" "l < 4000000000" "- (2 ^ 63) \<le> h" "h < 2 ^ 63"
      "rep_hi (dur (Fin t)) = h" "rep_lo (dur (Fin t)) = l"
    using finE [OF assms [unfolded Fin]] .
  show ?thesis
  proof (cases "l = 0")
    case True
    have "dur (ext_neg e) = (if h = - (2 ^ 63) then dur PosInf else MakeDuration (- h) 0)"
      using dur_sat_parts [of 0 "- h"] t True by (simp add: Fin)
    with True t show ?thesis by (simp add: Duration_neg_def Fin constants kint64min_def)
  next
    case False
    have "dur (ext_neg e) = MakeDuration (- h - 1) (4000000000 - l)"
      using dur_sat_parts [of "4000000000 - l" "- h - 1"] t False by (simp add: Fin algebra_simps)
    moreover have "NegateAndSubtractOne h = Inr (- h - 1)" using t by (simp add: NegateAndSubtractOne_def)
    ultimately show ?thesis
      using False t infinite_dur(3) [of t] by (simp add: Duration_neg_def Fin MakeDuration_int64_def u32_def)
  qed
qed (simp_all add: Duration_neg_def dur.simps duration_defs IsInfiniteDuration_def OppositeInfinity_def)

lemma infinity_eq [simp]: "infinity n = Inr (dur (if n then NegInf else PosInf))"
  using Duration_neg_eq [of PosInf] by (simp add: infinity_def constants)


section \<open>Sums and differences\<close>

fun ext_plus :: "ext \<Rightarrow> ext \<Rightarrow> ext" where
  "ext_plus (Fin s) (Fin t) = sat (s + t)"
| "ext_plus (Fin s) b = b"
| "ext_plus a b = a"

definition ext_minus :: "ext \<Rightarrow> ext \<Rightarrow> ext" where
  "ext_minus a b = (case (a, b) of (Fin s, Fin t) \<Rightarrow> sat (s - t) | (Fin s, _) \<Rightarrow> ext_neg b | _ \<Rightarrow> a)"

definition wrap64 :: "int \<Rightarrow> int" where
  "wrap64 x = DecodeTwosComp (x mod 2 ^ 64)"

lemma wrap64_eq:
  assumes "- (2 ^ 64) - 1 \<le> x" "x \<le> 2 ^ 64"
  shows "wrap64 x = (if x < - (2 ^ 63) then x + 2 ^ 64 else if x < 2 ^ 63 then x else x - 2 ^ 64)"
proof -
  have "x mod 2 ^ 64 = (if x < - (2 ^ 64) then x + 2 * 2 ^ 64 else if x < 0 then x + 2 ^ 64 else if x < 2 ^ 64 then x else x - 2 ^ 64)"
    using assms int_mod_pos_eq [of x "2 ^ 64" "- 2" "x + 2 * 2 ^ 64"] int_mod_pos_eq [of x "2 ^ 64" "- 1" "x + 2 ^ 64"]
      int_mod_pos_eq [of x "2 ^ 64" 0 x] int_mod_pos_eq [of x "2 ^ 64" 1 "x - 2 ^ 64"]
    by (simp split: if_splits)
  then show ?thesis using assms by (auto simp: wrap64_def DecodeTwosComp_def)
qed

lemma wrap64_arith:
  "DecodeTwosComp ((EncodeTwosComp a + EncodeTwosComp b) mod 2 ^ 64) = wrap64 (a + b)"
  "DecodeTwosComp ((EncodeTwosComp a - EncodeTwosComp b) mod 2 ^ 64) = wrap64 (a - b)"
  "DecodeTwosComp ((EncodeTwosComp (wrap64 a) + 1) mod 2 ^ 64) = wrap64 (a + 1)"
  "DecodeTwosComp ((EncodeTwosComp (wrap64 a) - 1) mod 2 ^ 64) = wrap64 (a - 1)"
proof -
  have e: "EncodeTwosComp (wrap64 a) = a mod 2 ^ 64"
    by (auto simp: wrap64_def EncodeTwosComp_def DecodeTwosComp_def)
  show "DecodeTwosComp ((EncodeTwosComp a + EncodeTwosComp b) mod 2 ^ 64) = wrap64 (a + b)"
    "DecodeTwosComp ((EncodeTwosComp a - EncodeTwosComp b) mod 2 ^ 64) = wrap64 (a - b)"
    unfolding wrap64_def EncodeTwosComp_def by (simp_all add: mod_simps)
  show "DecodeTwosComp ((EncodeTwosComp (wrap64 a) + 1) mod 2 ^ 64) = wrap64 (a + 1)"
    "DecodeTwosComp ((EncodeTwosComp (wrap64 a) - 1) mod 2 ^ 64) = wrap64 (a - 1)"
    unfolding e unfolding wrap64_def by (simp_all add: mod_simps)
qed

lemma Duration_plus_Fin:
  assumes "representable (Fin s)" "representable (Fin t)"
  shows "Duration_plus (dur (Fin s)) (dur (Fin t)) = Inr (dur (sat (s + t)))"
proof -
  obtain h l where s: "s = h * 4000000000 + l" "0 \<le> l" "l < 4000000000" "- (2 ^ 63) \<le> h" "h < 2 ^ 63"
      "rep_hi (dur (Fin s)) = h" "rep_lo (dur (Fin s)) = l"
    using finE [OF assms(1)] .
  obtain k m where t: "t = k * 4000000000 + m" "0 \<le> m" "m < 4000000000" "- (2 ^ 63) \<le> k" "k < 2 ^ 63"
      "rep_hi (dur (Fin t)) = k" "rep_lo (dur (Fin t)) = m"
    using finE [OF assms(2)] .
  define c where "c = (if l + m \<ge> 4000000000 then 1 else 0 :: int)"
  define lo where "lo = l + m - c * 4000000000"
  have lo: "0 \<le> lo" "lo < 4000000000" "s + t = (h + k + c) * 4000000000 + lo"
    using s(1-3) t(1-3) by (auto simp: lo_def c_def)
  have u: "u32 (u32 (l - 4000000000) + m) = u32 (l + m - 4000000000)" by (simp add: u32_def mod_simps algebra_simps)
  have ulo: "u32 lo = lo" using lo by (simp add: u32_def)
  have w: "wrap64 (h + k + c) = (if h + k + c < - (2 ^ 63) then h + k + c + 2 ^ 64 else if h + k + c < 2 ^ 63 then h + k + c else h + k + c - 2 ^ 64)"
    using s(4,5) t(4,5) by (intro wrap64_eq) (auto simp: c_def)
  have "Duration_plus (dur (Fin s)) (dur (Fin t)) =
      (if (if k < 0 then wrap64 (h + k + c) > h else wrap64 (h + k + c) < h) then Inr (dur (if k < 0 then NegInf else PosInf))
       else Inr (MakeDuration (wrap64 (h + k + c)) (u32 lo)))"
    unfolding Duration_plus_def Let_def s(6,7) t(6,7) wrap64_arith
    by (simp add: c_def lo_def u add.assoc)
  also have "\<dots> = Inr (dur (sat (s + t)))"
    unfolding lo(3) dur_sat_parts [OF lo(1,2)] w ulo
    using s(4,5) t(4,5) by (auto simp: c_def)
  finally show ?thesis .
qed

lemma Duration_plus_eq:
  assumes "representable a" "representable b"
  shows "Duration_plus (dur a) (dur b) = Inr (dur (ext_plus a b))"
  using assms Duration_plus_Fin by (cases a; cases b) (auto simp: Duration_plus_def)

lemma Duration_minus_Fin:
  assumes "representable (Fin s)" "representable (Fin t)"
  shows "Duration_minus (dur (Fin s)) (dur (Fin t)) = Inr (dur (sat (s - t)))"
proof -
  obtain h l where s: "s = h * 4000000000 + l" "0 \<le> l" "l < 4000000000" "- (2 ^ 63) \<le> h" "h < 2 ^ 63"
      "rep_hi (dur (Fin s)) = h" "rep_lo (dur (Fin s)) = l"
    using finE [OF assms(1)] .
  obtain k m where t: "t = k * 4000000000 + m" "0 \<le> m" "m < 4000000000" "- (2 ^ 63) \<le> k" "k < 2 ^ 63"
      "rep_hi (dur (Fin t)) = k" "rep_lo (dur (Fin t)) = m"
    using finE [OF assms(2)] .
  define c where "c = (if l < m then 1 else 0 :: int)"
  define lo where "lo = l - m + c * 4000000000"
  have lo: "0 \<le> lo" "lo < 4000000000" "s - t = (h - k - c) * 4000000000 + lo"
    using s(1-3) t(1-3) by (auto simp: lo_def c_def)
  have u: "u32 (u32 (l + 4000000000) - m) = u32 (l - m + 4000000000)" by (simp add: u32_def mod_simps algebra_simps)
  have ulo: "u32 lo = lo" using lo by (simp add: u32_def)
  have w: "wrap64 (h - k - c) = (if h - k - c < - (2 ^ 63) then h - k - c + 2 ^ 64 else if h - k - c < 2 ^ 63 then h - k - c else h - k - c - 2 ^ 64)"
    using s(4,5) t(4,5) by (intro wrap64_eq) (auto simp: c_def)
  have "Duration_minus (dur (Fin s)) (dur (Fin t)) =
      (if (if k < 0 then wrap64 (h - k - c) < h else wrap64 (h - k - c) > h) then Inr (dur (if k \<ge> 0 then NegInf else PosInf))
       else Inr (MakeDuration (wrap64 (h - k - c)) (u32 lo)))"
    unfolding Duration_minus_def Let_def s(6,7) t(6,7) wrap64_arith
    by (simp add: c_def lo_def u)
  also have "\<dots> = Inr (dur (sat (s - t)))"
    unfolding lo(3) dur_sat_parts [OF lo(1,2)] w ulo
    using s(4,5) t(4,5) by (auto simp: c_def)
  finally show ?thesis .
qed

lemma Duration_minus_eq:
  assumes "representable a" "representable b"
  shows "Duration_minus (dur a) (dur b) = Inr (dur (ext_minus a b))"
  using assms Duration_minus_Fin by (cases a; cases b) (auto simp: Duration_minus_def ext_minus_def)

end
