(* ===== verification/Duration_Scale.thy ===== *)
theory Duration_Scale
  imports Duration_Laws
begin

text \<open>
  The tick counts as 128-bit numbers, and the product and the quotient of a duration and a number:
  exact as long as the result is representable, infinite otherwise, without an overflow on the way.
\<close>

unbundle bit_operations_syntax

section \<open>Ticks as 128-bit numbers\<close>

lemma unat_of_int64: "0 \<le> a \<Longrightarrow> a < 2 ^ 64 \<Longrightarrow> unat (word_of_int a :: 64 word) = nat a"
  by (simp add: unsigned_of_int take_bit_int_eq_self)

lemma val_of_uint64: "val (uint128_of_uint64 w) = unat w"
  by (simp add: uint128_simps unat_ucast_128)

lemma val_plus: "val x + val y < 2 ^ 128 \<Longrightarrow> val (uint128_plus x y) = val x + val y"
  by (simp add: uint128_plus_eq unat_word_ariths)

lemma val_times:
  assumes "val x * val y < 2 ^ 128"
  obtains z where "uint128_times x y = Inr z" "val z = val x * val y"
proof -
  obtain z where "uint128_times x y = Inr z" "w128 z = w128 x * w128 y" by (rule uint128_times_eq)
  with assms that show thesis by (simp add: unat_word_ariths)
qed

lemma val_div:
  assumes "0 < val y"
  obtains z where "uint128_div x y = Inr z" "val z = val x div val y"
proof -
  have "w128 y \<noteq> 0" using assms by auto
  then obtain q r where "DivModImpl x y = Inr (q, r)" "w128 q = w128 x div w128 y" by (rule DivModImpl_eq [of y x])
  then show thesis using that [of q] by (simp add: uint128_div_def unat_div)
qed

lemma val_small_ints: "val (uint128_of_int64 0) = 0" "val (uint128_of_int64 1) = 1"
  by (simp_all add: uint128_simps)

lemma MakeU128_eq:
  assumes "int64 r"
  obtains b where "MakeU128 r = Inr b" "val b = nat \<bar>r\<bar>"
proof (cases "r < 0")
  case True
  have "val (uint128_inc (uint128_of_int64 0)) = 1" by (simp add: uint128_inc_def val_plus val_small_ints)
  moreover have "unat (word_of_int (- (r + 1)) :: 64 word) = nat (- (r + 1))"
    using assms True by (intro unat_of_int64) (auto simp: int64_def)
  ultimately have "val (uint128_plus (uint128_inc (uint128_of_int64 0)) (uint128_of_uint64 (word_of_int (- (r + 1))))) = nat \<bar>r\<bar>"
    using True assms by (subst val_plus) (auto simp: val_of_uint64 int64_def)
  then show thesis using True assms by (intro that) (auto simp: MakeU128_def int64_def)
next
  case False
  have "unat (word_of_int r :: 64 word) = nat r"
    using assms False by (intro unat_of_int64) (auto simp: int64_def)
  then have "val (uint128_plus (uint128_of_int64 0) (uint128_of_uint64 (word_of_int r))) = nat \<bar>r\<bar>"
    using False assms by (subst val_plus) (auto simp: val_of_uint64 val_small_ints int64_def)
  then show thesis using False assms by (intro that) (auto simp: MakeU128_def)
qed

lemma join_ticks:
  assumes "0 \<le> hi" "hi \<le> 2 ^ 63" "0 \<le> lo" "lo \<le> 4000000000"
  obtains u p where "uint128_times (uint128_of_uint64 (word_of_int hi)) (uint128_of_uint64 (word_of_int 4000000000)) = Inr p"
    "u = uint128_plus p (uint128_of_uint64 (word_of_int lo))" "val u = nat (hi * 4000000000 + lo)"
proof -
  have w: "unat (word_of_int hi :: 64 word) = nat hi" "unat (word_of_int lo :: 64 word) = nat lo" "unat (word_of_int 4000000000 :: 64 word) = 4000000000"
    using assms by (auto simp: unat_of_int64)
  have b: "nat hi * 4000000000 \<le> 2 ^ 63 * 4000000000" using assms by (intro mult_right_mono) auto
  obtain p where p: "uint128_times (uint128_of_uint64 (word_of_int hi)) (uint128_of_uint64 (word_of_int 4000000000)) = Inr p"
      "val p = nat hi * 4000000000"
    using val_times [of "uint128_of_uint64 (word_of_int hi)" "uint128_of_uint64 (word_of_int 4000000000)"] b by (auto simp: val_of_uint64 w)
  have "val (uint128_plus p (uint128_of_uint64 (word_of_int lo))) = nat (hi * 4000000000 + lo)"
    using assms b by (subst val_plus) (auto simp: p(2) val_of_uint64 w nat_add_distrib nat_mult_distrib)
  with p(1) show thesis using that by blast
qed

lemma MakeU128Ticks_eq:
  assumes "representable (Fin t)"
  obtains a where "MakeU128Ticks (dur (Fin t)) = Inr a" "val a = nat \<bar>t\<bar>"
proof -
  obtain h l where t: "t = h * 4000000000 + l" "0 \<le> l" "l < 4000000000" "- (2 ^ 63) \<le> h" "h < 2 ^ 63"
      "rep_hi (dur (Fin t)) = h" "rep_lo (dur (Fin t)) = l"
    using finE [OF assms] .
  show thesis
  proof (cases "h < 0")
    case True
    obtain u p where u: "uint128_times (uint128_of_uint64 (word_of_int (- (h + 1)))) (uint128_of_uint64 (word_of_int 4000000000)) = Inr p"
        "u = uint128_plus p (uint128_of_uint64 (word_of_int (4000000000 - l)))" "val u = nat (- (h + 1) * 4000000000 + (4000000000 - l))"
      by (rule join_ticks [of "- (h + 1)" "4000000000 - l"]) (use t(2-5) True in auto)
    have "u32 (4000000000 - l) = 4000000000 - l" using t(2,3) by (simp add: u32_def)
    then have "MakeU128Ticks (dur (Fin t)) = Inr u"
      unfolding MakeU128Ticks_def t(6,7) ticks_per_second using True t(2-5) u(1,2) by simp
    moreover have "\<bar>t\<bar> = - (h + 1) * 4000000000 + (4000000000 - l)" using t(1-3) True by simp
    ultimately show thesis using that u(3) by metis
  next
    case False
    obtain u p where u: "uint128_times (uint128_of_uint64 (word_of_int h)) (uint128_of_uint64 (word_of_int 4000000000)) = Inr p"
        "u = uint128_plus p (uint128_of_uint64 (word_of_int l))" "val u = nat (h * 4000000000 + l)"
      by (rule join_ticks [of h l]) (use t(2-5) False in auto)
    then have "MakeU128Ticks (dur (Fin t)) = Inr u"
      unfolding MakeU128Ticks_def t(6,7) ticks_per_second using False by simp
    moreover have "\<bar>t\<bar> = h * 4000000000 + l" using t(1-3) False by simp
    ultimately show thesis using that u(3) by metis
  qed
qed


lemma with_sign_eq:
  assumes "0 \<le> hi" "hi < 2 ^ 63" "0 \<le> lo" "lo < 4000000000"
  shows "with_sign n hi lo = Inr (dur (sat (if n then - (hi * 4000000000 + lo) else hi * 4000000000 + lo)))"
proof -
  have "dur (sat (- hi * 4000000000 + 0)) = MakeDuration (- hi) 0"
    using assms by (subst dur_sat_parts) auto
  moreover have "dur (sat ((- hi - 1) * 4000000000 + (4000000000 - lo))) = MakeDuration (- hi - 1) (4000000000 - lo)" if "lo \<noteq> 0"
    using assms that by (subst dur_sat_parts) auto
  moreover have "(- hi - 1) * 4000000000 + (4000000000 - lo) = - (hi * 4000000000 + lo)" by simp
  moreover have "dur (sat (hi * 4000000000 + lo)) = MakeDuration hi lo" using assms by (subst dur_sat_parts) auto
  ultimately show ?thesis using assms by (auto simp: with_sign_def u32_def)
qed

lemma low_val: "val x < 2 ^ 64 \<Longrightarrow> unat (Uint128Low64 x) = val x"
  by (simp add: val_parts Uint128Low64_def)

lemma sint_small: "unat w < 2 ^ 63 \<Longrightarrow> sint w = int (unat w)" for w :: "64 word"
  by (simp add: sint_uint uint_nat signed_take_bit_int_eq_self del: of_nat_unat)

lemma uint_small: "unat w < 4000000000 \<Longrightarrow> u32 (uint w) = int (unat w)" for w :: "64 word"
  by (simp add: u32_def uint_nat del: of_nat_unat)

lemma MakeDurationFromU128_eq:
  "MakeDurationFromU128 u n = Inr (dur (sat (if n then - int (val u) else int (val u))))"
proof -
  let ?h = "Uint128High64 u" and ?l = "Uint128Low64 u" and ?k = "word_of_int 4000000000 :: 64 word"
  define V where "V = val u"
  have v: "V = unat ?h * 2 ^ 64 + unat ?l" by (simp add: V_def val_parts parts)
  have l: "unat ?l < 2 ^ 64" using unsigned_less [of ?l, where 'a = nat] by simp
  have k: "unat ?k = 4000000000" by (simp add: unat_of_int64)
  have M: "unat kMaxRepHi64 = 2000000000" by (simp add: kMaxRepHi64_def)
  have split: "with_sign n (int (V div 4000000000)) (int (V mod 4000000000)) = Inr (dur (sat (if n then - int V else int V)))"
    if "V div 4000000000 < 2 ^ 63"
  proof -
    have "int V = int (V div 4000000000) * 4000000000 + int (V mod 4000000000)" by (simp add: zdiv_int zmod_int)
    moreover have "int (V div 4000000000) < 2 ^ 63" using that by simp
    ultimately show ?thesis using with_sign_eq [of "int (V div 4000000000)" "int (V mod 4000000000)" n] by simp
  qed
  consider "?h = 0" | "?h \<noteq> 0" "?h \<ge> kMaxRepHi64" | "?h \<noteq> 0" "?h < kMaxRepHi64" by fastforce
  then have "MakeDurationFromU128 u n = Inr (dur (sat (if n then - int V else int V)))"
  proof cases
    case 1
    then have vl: "V = unat ?l" using v by simp
    have small: "V div 4000000000 < 2 ^ 63" unfolding vl using l by simp
    have d: "unat (?l div ?k) = V div 4000000000" unfolding vl unat_div k ..
    have "?l - ?l div ?k * ?k = ?l mod ?k" by (rule minus_div_mult_eq_mod)
    then have m: "unat (?l - ?l div ?k * ?k) = V mod 4000000000" unfolding vl by (simp only: unat_mod k)
    have "sint (?l div ?k) = int (V div 4000000000)" "u32 (uint (?l - ?l div ?k * ?k)) = int (V mod 4000000000)"
      unfolding d [symmetric] m [symmetric] by (rule sint_small uint_small; simp only: d m small; simp)+
    then show ?thesis using split [OF small] 1 by (simp add: MakeDurationFromU128_def Let_def)
  next
    case 2
    then have ge: "2000000000 \<le> unat ?h" using M by (simp add: word_le_nat_alt)
    show ?thesis
    proof (cases "n \<and> ?h = kMaxRepHi64 \<and> ?l = 0")
      case True
      then have "int V = limit" using v M by (simp add: limit_def)
      then have "dur (sat (- int V)) = MakeDuration kint64min 0"
        using dur_sat_parts [of 0 "- (2 ^ 63)"] by (simp add: limit_def kint64min_def)
      with 2 True show ?thesis by (simp add: MakeDurationFromU128_def Let_def)
    next
      case False
      have "2000000000 < unat ?h \<or> 0 < unat ?l" if n
        using False that ge M by (auto simp: word_unat_eq_iff)
      then have "V \<ge> 2000000000 * 2 ^ 64 \<and> (n \<longrightarrow> V > 2000000000 * 2 ^ 64)" using ge unfolding v by auto
      then have "sat (if n then - int V else int V) = (if n then NegInf else PosInf)"
        by (auto simp: sat_def limit_def)
      with 2 False show ?thesis by (auto simp: MakeDurationFromU128_def Let_def)
    qed
  next
    case 3
    then have less: "unat ?h < 2000000000" using M by (simp add: word_less_nat_alt)
    then have "V < 2000000000 * 2 ^ 64" unfolding v using l by simp
    then have small: "V div 4000000000 < 2 ^ 63" by (simp add: less_mult_imp_div_less)
    obtain q where q: "uint128_div u (uint128_of_uint64 ?k) = Inr q" "val q = V div 4000000000"
      using val_div [of "uint128_of_uint64 ?k" u] unfolding val_of_uint64 k V_def by auto
    have "val q * val (uint128_of_uint64 ?k) \<le> V" unfolding q(2) val_of_uint64 k by simp
    then have "val q * val (uint128_of_uint64 ?k) < 2 ^ 128" using val_less [of u] unfolding V_def by (rule le_less_trans)
    then obtain p where p: "uint128_times q (uint128_of_uint64 ?k) = Inr p" "val p = V div 4000000000 * 4000000000"
      using val_times [of q "uint128_of_uint64 ?k"] unfolding q(2) val_of_uint64 k by blast
    have "val (uint128_minus u p) = V mod 4000000000"
      using val_minus [of p u] p(2) by (simp add: word_le_nat_alt V_def minus_div_mult_eq_mod)
    then have lo: "unat (Uint128Low64 (uint128_minus u p)) = V mod 4000000000" "unat (Uint128Low64 q) = V div 4000000000"
      using low_val [of "uint128_minus u p"] low_val [of q] q(2) small by simp_all
    have "sint (Uint128Low64 q) = int (V div 4000000000)"
      "u32 (uint (Uint128Low64 (uint128_minus u p))) = int (V mod 4000000000)"
      unfolding lo [symmetric] by (rule sint_small uint_small; simp only: lo small; simp)+
    then show ?thesis using 3 split [OF small] q(1) p(1) by (auto simp: MakeDurationFromU128_def Let_def)
  qed
  then show ?thesis unfolding V_def .
qed


section \<open>Products and quotients by numbers\<close>

lemma SafeMultiply_eq:
  assumes "val b < 2 ^ 64"
  obtains q where "SafeMultiply a b = Inr q" "val q = min (val a * val b) (2 ^ 128 - 1)"
proof -
  have hb: "Uint128High64 b = 0"
    using assms unfolding val_parts Uint128High64_def by (simp add: unat_eq_zero [symmetric])
  have lb: "unat (Uint128Low64 b) = val b" by (rule low_val [OF assms])
  have vmax: "val Uint128Max = 2 ^ 128 - 1"
    by (simp add: val_parts Uint128Max_def parts unsigned_minus_1_eq_mask mask_eq_exp_minus_1)
  have exact: thesis if "SafeMultiply a b = uint128_times a b" "val a * val b < 2 ^ 128"
    using val_times [OF that(2)] that \<open>\<And>q. SafeMultiply a b = Inr q \<Longrightarrow> val q = min (val a * val b) (2 ^ 128 - 1) \<Longrightarrow> thesis\<close>
    by (metis less_eq_Suc_le min.absorb1 Suc_diff_1 zero_less_numeral zero_less_power less_Suc_eq_le)
  show thesis
  proof (cases "Uint128High64 a = 0")
    case True
    then have a: "val a < 2 ^ 64" "unat (Uint128Low64 a) = val a"
      using lo_less [of a] by (simp_all add: val_parts parts)
    show thesis
    proof (cases "drop_bit 32 (Uint128Low64 a OR Uint128Low64 b) = 0")
      case small: True
      then have "drop_bit 32 (Uint128Low64 a) = 0" "drop_bit 32 (Uint128Low64 b) = 0"
        by (simp_all only: drop_bit_or or_eq_0_iff)
      then have "val a div 2 ^ 32 = 0" "val b div 2 ^ 32 = 0"
        using a(2) lb unat_drop_bit [of 32 "Uint128Low64 a"] unat_drop_bit [of 32 "Uint128Low64 b"] by auto
      then have ab: "val a < 2 ^ 32" "val b < 2 ^ 32" by (simp_all add: div_eq_0_iff)
      have "val a * val b < 2 ^ 32 * 2 ^ 32" using ab by (intro mult_strict_mono) auto
      then have "unat (Uint128Low64 a * Uint128Low64 b) = val a * val b"
        unfolding unat_word_ariths a(2) lb by simp
      with small True hb \<open>val a * val b < 2 ^ 32 * 2 ^ 32\<close> show thesis
        by (intro that [of "uint128_of_uint64 (Uint128Low64 a * Uint128Low64 b)"])
          (simp_all add: SafeMultiply_def val_of_uint64)
    next
      case False
      have "val a * val b < 2 ^ 64 * 2 ^ 64" using a(1) assms by (intro mult_strict_mono) auto
      with False True hb show thesis by (intro exact) (simp_all add: SafeMultiply_def)
    qed
  next
    case False
    show thesis
    proof (cases "val b = 0")
      case True
      then have "w128 b = 0" by (simp only: unat_eq_zero)
      then show thesis using True False hb by (intro that [of b]) (simp_all add: SafeMultiply_def uint128_simps)
    next
      case b: False
      obtain m where m: "uint128_div Uint128Max b = Inr m" "val m = (2 ^ 128 - 1) div val b"
        using val_div [of b Uint128Max] b vmax by auto
      have "val a > val m \<longleftrightarrow> val a * val b > 2 ^ 128 - 1"
        unfolding m(2) using b by (simp add: div_less_iff_less_mult)
      then have g: "uint128_greater a m \<longleftrightarrow> \<not> val a * val b < 2 ^ 128"
        unfolding uint128_compare word_less_nat_alt by auto
      have nz: "\<not> uint128_eq b (uint128_of_int64 0)"
        using b val_small_ints unfolding uint128_eq_iff by metis
      show thesis
      proof (cases "val a * val b < 2 ^ 128")
        case True
        then show thesis using False hb nz m(1) g by (intro exact) (simp_all add: SafeMultiply_def)
      next
        case big: False
        then show thesis
          using False hb nz m(1) g vmax by (intro that [of Uint128Max]) (simp_all add: SafeMultiply_def)
      qed
    qed
  qed
qed


lemma scale_sign:
  assumes "representable (Fin t)"
  shows "rep_hi (dur (Fin t)) < 0 \<longleftrightarrow> t < 0"
proof -
  obtain h l where "t = h * 4000000000 + l" "0 \<le> l" "l < 4000000000" "rep_hi (dur (Fin t)) = h"
    using finE [OF assms] .
  then show ?thesis by auto
qed

fun ext_times :: "ext \<Rightarrow> int \<Rightarrow> ext" where
  "ext_times (Fin t) r = sat (t * r)"
| "ext_times PosInf r = (if r < 0 then NegInf else PosInf)"
| "ext_times NegInf r = (if r < 0 then PosInf else NegInf)"

lemma sat_clamped:
  assumes "int v = \<bar>x\<bar>" "n \<longleftrightarrow> x < 0 \<or> x = 0 \<and> n"
  shows "sat (if n then - int (min v (2 ^ 128 - 1)) else int (min v (2 ^ 128 - 1))) = sat x"
proof (cases "v \<le> 2 ^ 128 - 1")
  case True
  then show ?thesis using assms by (auto simp: min_absorb1)
next
  case False
  then have "int v \<ge> 2 ^ 128" by (simp add: not_le)
  moreover have "int (min v (2 ^ 128 - 1)) = 2 ^ 128 - 1" using False by (simp add: min_absorb2)
  ultimately show ?thesis using assms by (auto simp: sat_def limit_def)
qed

lemma Duration_times_eq:
  assumes "representable e" "int64 r"
  shows "Duration_times (dur e) r = Inr (dur (ext_times e r))"
proof (cases e)
  case (Fin t)
  have t: "representable (Fin t)" using assms(1) by (simp only: Fin)
  obtain a where a: "MakeU128Ticks (dur (Fin t)) = Inr a" "val a = nat \<bar>t\<bar>" by (rule MakeU128Ticks_eq [OF t])
  obtain b where b: "MakeU128 r = Inr b" "val b = nat \<bar>r\<bar>" by (rule MakeU128_eq [OF assms(2)])
  have "val b < 2 ^ 64" unfolding b(2) using assms(2) by (auto simp: int64_def)
  then obtain q where q: "SafeMultiply a b = Inr q" "val q = min (val a * val b) (2 ^ 128 - 1)" by (rule SafeMultiply_eq)
  have "int (val a * val b) = \<bar>t * r\<bar>" unfolding a(2) b(2) by (simp add: abs_mult)
  moreover have "((t < 0) \<noteq> (r < 0)) \<longleftrightarrow> t * r < 0 \<or> t * r = 0 \<and> ((t < 0) \<noteq> (r < 0))"
    by (auto simp: mult_less_0_iff not_less order.order_iff_strict)
  ultimately have "sat (if (t < 0) \<noteq> (r < 0) then - int (val q) else int (val q)) = sat (t * r)"
    unfolding q(2) by (rule sat_clamped)
  then show ?thesis
    using a(1) b(1) q(1) by (simp add: Fin Duration_times_def ScaleFixed_def MakeDurationFromU128_eq scale_sign [OF t])
qed (simp_all add: Duration_times_def)

definition ext_divide :: "ext \<Rightarrow> int \<Rightarrow> ext" where
  "ext_divide e r =
     (case e of Fin t \<Rightarrow> if r = 0 then if t < 0 then NegInf else PosInf else sat (t sdiv r) | _ \<Rightarrow> ext_times e r)"

lemma sdiv_parts: "t sdiv r = (if (t < 0) \<noteq> (r < 0) then - (\<bar>t\<bar> div \<bar>r\<bar>) else \<bar>t\<bar> div \<bar>r\<bar>)" for t r :: int
  unfolding signed_divide_int_def by (auto simp: sgn_if)

lemma Duration_divide_eq:
  assumes "representable e" "int64 r"
  shows "Duration_divide (dur e) r = Inr (dur (ext_divide e r))"
proof (cases e)
  case (Fin t)
  have t: "representable (Fin t)" using assms(1) by (simp only: Fin)
  show ?thesis
  proof (cases "r = 0")
    case True
    then show ?thesis using scale_sign [OF t] by (simp add: Fin Duration_divide_def ext_divide_def)
  next
    case False
    obtain a where a: "MakeU128Ticks (dur (Fin t)) = Inr a" "val a = nat \<bar>t\<bar>" by (rule MakeU128Ticks_eq [OF t])
    obtain b where b: "MakeU128 r = Inr b" "val b = nat \<bar>r\<bar>" by (rule MakeU128_eq [OF assms(2)])
    obtain q where q: "uint128_div a b = Inr q" "val q = val a div val b" using val_div [of b a] b(2) False by auto
    have "int (val q) = \<bar>t\<bar> div \<bar>r\<bar>" unfolding q(2) a(2) b(2) by (simp add: zdiv_int)
    then have "(if (t < 0) \<noteq> (r < 0) then - int (val q) else int (val q)) = t sdiv r" unfolding sdiv_parts by simp
    then show ?thesis
      using a(1) b(1) q(1) False
      by (simp add: Fin Duration_divide_def ext_divide_def ScaleFixed_def MakeDurationFromU128_eq scale_sign [OF t])
  qed
qed (simp_all add: Duration_divide_def ext_divide_def)

end
