(* ===== verification/Duration_Div.thy ===== *)
theory Duration_Div
  imports Duration_Scale
begin

text \<open>
  The quotient and the remainder of two durations: the fast paths for common units and the division
  of 128-bit numbers against division that truncates, with a quotient that saturates.
\<close>

unbundle bit_operations_syntax

section \<open>Quotients of durations\<close>

definition clamp64 :: "int \<Rightarrow> int" where
  "clamp64 x = max (- (2 ^ 63)) (min (2 ^ 63 - 1) x)"

lemma sdiv_smod_eqI:
  fixes s t q r :: int
  assumes "s = q * t + r" "0 < t" "\<bar>r\<bar> < t" "s \<ge> 0 \<longrightarrow> r \<ge> 0" "s < 0 \<longrightarrow> r \<le> 0"
  shows "s sdiv t = q" "s smod t = r"
proof -
  show d: "s sdiv t = q"
  proof (cases "s < 0")
    case True
    have "(- s) div t = - q" by (rule int_div_pos_eq [of _ _ _ "- r"]) (use assms True in auto)
    with True assms(2) show ?thesis unfolding sdiv_parts by simp
  next
    case False
    have "s div t = q" by (rule int_div_pos_eq [of _ _ _ r]) (use assms False in auto)
    with False assms(2) show ?thesis unfolding sdiv_parts by simp
  qed
  show "s smod t = r" using sdiv_mult_smod_eq [of s t] d assms(1) by simp
qed

lemma pos_div_less: "l < N * D \<Longrightarrow> 0 < D \<Longrightarrow> l div D < N" for l N D :: int
  by (metis div_mult_mod_eq mult_less_cancel_right_pos not_less order.strict_trans1 le_add_same_cancel1 pos_mod_sign)

lemma le_div_mult:
  fixes x M N :: int
  assumes "x \<le> M div N" "0 < N"
  shows "x * N \<le> M"
proof -
  have "x * N \<le> M div N * N" using assms by (intro mult_right_mono) auto
  also have "\<dots> \<le> M" using div_mult_mod_eq [of M N] pos_mod_sign [OF assms(2), of M] by linarith
  finally show ?thesis .
qed

lemma sub_second_path_eq:
  assumes "representable (Fin s)" "D * N = 4000000000" "0 < N" "1000000000 sdiv N * 4 = D"
  shows "sub_second_path (dur (Fin s)) N = Inr None \<or>
    (sub_second_path (dur (Fin s)) N = Inr (Some (s sdiv D, dur (Fin (s smod D)))) \<and> int64 (s sdiv D))"
proof -
  obtain h l where s: "s = h * 4000000000 + l" "0 \<le> l" "l < 4000000000" "- (2 ^ 63) \<le> h" "h < 2 ^ 63"
      "rep_hi (dur (Fin s)) = h" "rep_lo (dur (Fin s)) = l"
    using finE [OF assms(1)] .
  have D: "0 < D" using assms(2,3) by (metis zero_less_mult_pos2 zero_less_numeral)
  have lD: "l sdiv D = l div D" "l smod D = l mod D" using sdiv_nonneg [OF s(2) D] by simp_all
  have ld: "0 \<le> l div D" "l div D < N" "0 \<le> l mod D" "l mod D < D"
    using s(2,3) D int_div_less_self assms(2) pos_div_less [of l N D] by (simp_all add: pos_imp_zdiv_nonneg_iff ac_simps)
  show ?thesis
  proof (cases "h \<ge> 0 \<and> h < (kint64max - 4000000000) sdiv N")
    case True
    have "(kint64max - 4000000000) sdiv N = (kint64max - 4000000000) div N"
      using sdiv_nonneg [of "kint64max - 4000000000" N] assms(3) by (simp add: kint64max_def)
    then have "(h + 1) * N \<le> kint64max - 4000000000"
      using True assms(3) by (intro le_div_mult) auto
    then have b: "h * N + l div D < 2 ^ 63" "0 \<le> h * N" "h * N < 2 ^ 63"
      using ld(2) True assms(3) by (simp_all add: kint64max_def algebra_simps)
    have "s = (h * N + l div D) * D + l mod D" using s(1) assms(2) by (simp add: algebra_simps)
    moreover have "0 \<le> s" using s(1,2) True by simp
    ultimately have q: "s sdiv D = h * N + l div D" "s smod D = l mod D"
      using sdiv_smod_eqI [of s "h * N + l div D" D "l mod D"] D ld by auto
    have "D \<le> 4000000000" using mult_left_mono [of 1 N D] assms(2,3) D by simp
    then have "dur (Fin (l mod D)) = MakeDuration 0 (l mod D)" using dur_parts [of "l mod D" 0] ld by simp
    moreover have i: "i64 (h * N) = Inr (h * N)" "i64 (h * N + l div D) = Inr (h * N + l div D)"
      by (rule i64_Inr; use b ld in linarith)+
    have "sub_second_path (dur (Fin s)) N = Inr (Some (h * N + l div D, MakeDuration 0 (l mod D)))"
      unfolding sub_second_path_def s(6,7) kTicksPerNanosecond_def assms(4) Let_def lD
      using True i by simp
    ultimately show ?thesis unfolding q using b ld by (simp add: int64_def)
  next
    case False
    then show ?thesis unfolding sub_second_path_def s(6,7) Let_def by auto
  qed
qed

lemma seconds_path_eq:
  assumes "representable (Fin s)" "0 < k" "k < 2 ^ 63"
  shows "seconds_path (dur (Fin s)) k = Inr (Some (s sdiv (k * 4000000000), dur (Fin (s smod (k * 4000000000)))))
    \<and> int64 (s sdiv (k * 4000000000))"
proof -
  obtain h l where s: "s = h * 4000000000 + l" "0 \<le> l" "l < 4000000000" "- (2 ^ 63) \<le> h" "h < 2 ^ 63"
      "rep_hi (dur (Fin s)) = h" "rep_lo (dur (Fin s)) = l"
    using finE [OF assms(1)] .
  show ?thesis
  proof (cases "h \<ge> 0")
    case True
    have hk: "h sdiv k = h div k" "h smod k = h mod k" "0 \<le> h mod k" "h mod k < k" "0 \<le> h div k" "h div k \<le> h"
      using sdiv_nonneg [OF True assms(2)] assms(2) True zdiv_mono2 [of h 1 k] by (simp_all add: pos_imp_zdiv_nonneg_iff)
    have "s = h div k * (k * 4000000000) + (h mod k * 4000000000 + l)"
      unfolding s(1) add.assoc [symmetric] mult.assoc [symmetric] distrib_right [symmetric] div_mult_mod_eq ..
    moreover have "h mod k * 4000000000 + l < k * 4000000000" using hk(4) s(3) by linarith
    ultimately have q: "s sdiv (k * 4000000000) = h div k" "s smod (k * 4000000000) = h mod k * 4000000000 + l"
      using sdiv_smod_eqI [of s "h div k" "k * 4000000000" "h mod k * 4000000000 + l"] assms(2) hk(3) s(1,2) True by auto
    have "seconds_path (dur (Fin s)) k = Inr (Some (h div k, MakeDuration (h mod k) l))"
      unfolding seconds_path_def s(6,7) hk(1,2) using True by simp
    then show ?thesis unfolding q dur_parts [OF s(2,3)] using hk(5,6) s(5) by (simp add: int64_def)
  next
    case False
    define g where "g = (if l \<noteq> 0 then h + 1 else h)"
    have g: "- (2 ^ 63) \<le> g" "g \<le> 0" using False s(4) by (auto simp: g_def)
    define q r where "q = g sdiv k" and "r = g smod k"
    have qr: "g = q * k + r" "- k < r" "r \<le> 0"
      unfolding q_def r_def using sdiv_mult_smod_eq [of g k] g(2) assms(2) by (auto simp: smod_int_alt_def sgn_if abs_if)
    have qb: "g \<le> q" "q \<le> 0"
      unfolding q_def sdiv_parts using g(2) assms(2) zdiv_mono2 [of "- g" 1 k] by (auto simp: pos_imp_zdiv_nonneg_iff)
    define c where "c = (if l \<noteq> 0 then 1 else 0 :: int)"
    have "s = q * (k * 4000000000) + ((r - c) * 4000000000 + l)"
      using qr(1) s(1) by (simp add: g_def c_def algebra_simps split: if_splits)
    moreover have "- (k * 4000000000) < (r - c) * 4000000000 + l" "(r - c) * 4000000000 + l \<le> 0"
      using qr(2,3) s(2,3) by (auto simp: c_def)
    ultimately have eq: "s sdiv (k * 4000000000) = q" "s smod (k * 4000000000) = (r - c) * 4000000000 + l"
      using sdiv_smod_eqI [of s q "k * 4000000000" "(r - c) * 4000000000 + l"] assms(2) s(1,2,3) False by auto
    have "seconds_path (dur (Fin s)) k = Inr (Some (q, MakeDuration (r - c) l))"
      unfolding seconds_path_def s(6,7) using False s(4,5) qr assms(3) by (auto simp: c_def g_def q_def r_def)
    then show ?thesis unfolding eq dur_parts [OF s(2,3)] using qb g by (simp add: int64_def)
  qed
qed


text \<open>The fast path either declines or returns the exact quotient and remainder.\<close>

lemma IDivFastPath_eq:
  assumes "representable (Fin s)" "representable (Fin t)"
  shows "IDivFastPath (dur (Fin s)) (dur (Fin t)) = Inr None \<or>
    (IDivFastPath (dur (Fin s)) (dur (Fin t)) = Inr (Some (s sdiv t, dur (Fin (s smod t)))) \<and> int64 (s sdiv t))"
proof -
  obtain k m where t: "t = k * 4000000000 + m" "0 \<le> m" "m < 4000000000" "- (2 ^ 63) \<le> k" "k < 2 ^ 63"
      "rep_hi (dur (Fin t)) = k" "rep_lo (dur (Fin t)) = m"
    using finE [OF assms(2)] .
  have path: "IDivFastPath (dur (Fin s)) (dur (Fin t)) =
     (if k = 0 \<and> m = 4 then sub_second_path (dur (Fin s)) 1000000000
      else if k = 0 \<and> m = 400 then sub_second_path (dur (Fin s)) 10000000
      else if k = 0 \<and> m = 4000 then sub_second_path (dur (Fin s)) 1000000
      else if k = 0 \<and> m = 4000000 then sub_second_path (dur (Fin s)) 1000
      else if k > 0 \<and> m = 0 then seconds_path (dur (Fin s)) k
      else Inr None)"
    unfolding IDivFastPath_def t(6,7) by (simp add: kTicksPerNanosecond_def)
  note sub = sub_second_path_eq [OF assms(1)]
  consider "k = 0" "m = 4" | "k = 0" "m = 400" | "k = 0" "m = 4000" | "k = 0" "m = 4000000" | "k > 0" "m = 0"
    | "\<not> (k = 0 \<and> m = 4)" "\<not> (k = 0 \<and> m = 400)" "\<not> (k = 0 \<and> m = 4000)" "\<not> (k = 0 \<and> m = 4000000)" "\<not> (k > 0 \<and> m = 0)"
    by blast
  then show ?thesis
  proof cases
    case 1 then show ?thesis unfolding path using sub [of 4 1000000000] t(1) by simp
  next
    case 2 then show ?thesis unfolding path using sub [of 400 10000000] t(1) by simp
  next
    case 3 then show ?thesis unfolding path using sub [of 4000 1000000] t(1) by simp
  next
    case 4 then show ?thesis unfolding path using sub [of 4000000 1000] t(1) by simp
  next
    case 5 then show ?thesis unfolding path using seconds_path_eq [OF assms(1) _ t(5)] t(1) by simp
  next
    case 6 then show ?thesis unfolding path by (simp only: if_False simp_thms)
  qed
qed

lemma mask_63: "uint (w AND word_of_int kint64max) = int (unat w mod 2 ^ 63)" for w :: "64 word"
proof -
  have "(word_of_int kint64max :: 64 word) = mask 63" by (simp add: kint64max_def mask_eq_exp_minus_1)
  then have "uint (w AND word_of_int kint64max) = uint (take_bit 63 w)" by (simp add: take_bit_eq_mask)
  also have "\<dots> = int (unat w mod 2 ^ 63)"
    by (simp only: unsigned_take_bit_eq uint_nat) (simp add: take_bit_eq_mod zmod_int del: of_nat_unat)
  finally show ?thesis .
qed

text \<open>The value that the code returns for a quotient of 128 bits and its sign.\<close>

definition signed_quotient :: "bool \<Rightarrow> uint128 \<Rightarrow> int result" where
  "signed_quotient n Q =
     (if \<not> n \<or> uint128_eq Q (uint128_of_int64 0) then Inr (uint (Uint128Low64 Q AND word_of_int kint64max))
      else bindr (i64 (- uint (Uint128Low64 (uint128_minus Q (uint128_of_int64 1)) AND word_of_int kint64max))) (\<lambda>q. i64 (q - 1)))"

lemma signed_quotient_eq:
  obtains q where "signed_quotient n Q = Inr q"
    "val Q \<le> (if n then 2 ^ 63 else 2 ^ 63 - 1) \<longrightarrow> q = (if n then - int (val Q) else int (val Q))"
proof -
  have low: "uint (Uint128Low64 x AND word_of_int kint64max) = int (val x mod 2 ^ 63)" for x
  proof -
    have "unat (Uint128Low64 x) mod 2 ^ 63 = val x mod 2 ^ 63"
      unfolding val_parts Uint128Low64_def using mod_mult_self3 [of "2 * unat (u_hi x)" "2 ^ 63" "unat (u_lo x)"] by (simp add: mult.commute)
    then show ?thesis by (simp only: mask_63)
  qed
  have z: "uint128_eq Q (uint128_of_int64 0) \<longleftrightarrow> val Q = 0"
    unfolding uint128_eq_iff by (simp only: word_unat_eq_iff val_small_ints)
  show thesis
  proof (cases "\<not> n \<or> val Q = 0")
    case True
    then show thesis using that [of "int (val Q mod 2 ^ 63)"] by (auto simp: signed_quotient_def z low)
  next
    case False
    then have "w128 (uint128_of_int64 1) \<le> w128 Q" by (simp add: word_le_nat_alt uint128_simps)
    then have m: "val (uint128_minus Q (uint128_of_int64 1)) = val Q - 1" by (simp only: val_minus val_small_ints)
    have "(val Q - 1) mod 2 ^ 63 < 2 ^ 63" by simp
    then have "int ((val Q - 1) mod 2 ^ 63) < int (2 ^ 63)" by (simp only: of_nat_less_iff)
    then have b: "int ((val Q - 1) mod 2 ^ 63) < 2 ^ 63" by (simp only: of_nat_power of_nat_numeral)
    have e: "signed_quotient n Q = Inr (- int ((val Q - 1) mod 2 ^ 63) - 1)"
      using False b by (simp add: signed_quotient_def z low m)
    have "- int ((val Q - 1) mod 2 ^ 63) - 1 = - int (val Q)" if "val Q \<le> 2 ^ 63"
    proof -
      have "(val Q - 1) mod 2 ^ 63 = val Q - 1" using that False by (intro mod_less) linarith
      then show ?thesis using False by (simp add: of_nat_diff del: of_nat_unat)
    qed
    then show thesis using False by (intro that [OF e]) (simp only: if_True simp_thms de_Morgan_disj, blast)
  qed
qed

lemma IDivSlow_eq:
  assumes "representable (Fin s)" "representable (Fin t)" "t \<noteq> 0"
  shows "\<exists>q. IDivSlow satq (dur (Fin s)) (dur (Fin t)) =
      Inr (q, dur (Fin (s - (if satq then clamp64 (s sdiv t) else s sdiv t) * t))) \<and>
    (satq \<or> int64 (s sdiv t) \<longrightarrow> q = clamp64 (s sdiv t))"
proof -
  have lits: "ZeroDuration = dur (Fin 0)" "representable (Fin 0)" by (simp_all add: constants limit_def)
  have neg: "Duration_less (dur (Fin s)) ZeroDuration \<longleftrightarrow> s < 0" "Duration_less (dur (Fin t)) ZeroDuration \<longleftrightarrow> t < 0"
    "\<not> Duration_eq (dur (Fin t)) ZeroDuration"
    using assms lits by (simp_all only: lits(1) Duration_less_iff Duration_eq_iff less_ext_simps ext.inject not_False_eq_True)
  obtain a where a: "MakeU128Ticks (dur (Fin s)) = Inr a" "val a = nat \<bar>s\<bar>" by (rule MakeU128Ticks_eq [OF assms(1)])
  obtain b where b: "MakeU128Ticks (dur (Fin t)) = Inr b" "val b = nat \<bar>t\<bar>" by (rule MakeU128Ticks_eq [OF assms(2)])
  have "0 < val b" using b(2) assms(3) by simp
  then obtain q0 where q0: "uint128_div a b = Inr q0" "val q0 = val a div val b" by (rule val_div)
  define n where "n \<longleftrightarrow> (s < 0) \<noteq> (t < 0)"
  define big where "big \<longleftrightarrow> satq \<and> uint128_greater q0 (uint128_of_uint64 (word_of_int kint64max))"
  define Q where "Q = (if big then if n then uint128_of_uint64 (word_of_int kint64min) else uint128_of_uint64 (word_of_int kint64max) else q0)"
  have vals: "val (uint128_of_uint64 (word_of_int kint64max)) = 2 ^ 63 - 1" "val (uint128_of_uint64 (word_of_int kint64min)) = 2 ^ 63"
    by (simp_all add: val_of_uint64 kint64max_def kint64min_def unat_of_int64)
  have big: "big \<longleftrightarrow> satq \<and> val q0 > 2 ^ 63 - 1" unfolding big_def uint128_compare word_less_nat_alt vals ..
  have vQ: "val Q = (if big then if n then 2 ^ 63 else 2 ^ 63 - 1 else val q0)" by (cases big; cases n) (simp_all only: Q_def vals if_True if_False)
  have AB: "val Q * val b \<le> val a"
  proof -
    have "val Q \<le> val a div val b" using vQ big q0(2) by auto
    then show ?thesis using div_times_less_eq_dividend [of "val a" "val b"] by (meson mult_le_mono1 order_trans)
  qed
  then have "val Q * val b < 2 ^ 128" using val_less [of a] by (rule le_less_trans)
  then obtain P where P: "uint128_times Q b = Inr P" "val P = val Q * val b" by (rule val_times)
  have rem: "val (uint128_minus a P) = val a - val Q * val b"
    using AB P(2) by (simp add: val_minus word_le_nat_alt)
  define q' where "q' = (if n then - int (val Q) else int (val Q))"
  have d: "s sdiv t = (if n then - int (val q0) else int (val q0))"
    unfolding sdiv_parts n_def q0(2) a(2) b(2) by (simp add: zdiv_int)
  have q': "q' = (if satq then clamp64 (s sdiv t) else s sdiv t)"
    unfolding q'_def d vQ big clamp64_def by (auto simp del: of_nat_unat)
  have "int (val (uint128_minus a P)) = \<bar>s\<bar> - int (val Q) * \<bar>t\<bar>"
    using AB unfolding rem by (simp add: of_nat_diff a(2) b(2) del: of_nat_unat)
  then have "(if s < 0 then - int (val (uint128_minus a P)) else int (val (uint128_minus a P))) = s - q' * t"
    by (auto simp: q'_def n_def abs_if simp del: of_nat_unat)
  moreover have "sat (s - q' * t) = Fin (s - q' * t)"
  proof -
    have "int (val (uint128_minus a P)) \<le> \<bar>s\<bar>" unfolding rem a(2) by simp
    then have "\<bar>s - q' * t\<bar> \<le> \<bar>s\<bar>" "s < 0 \<longrightarrow> s - q' * t \<le> 0" "s \<ge> 0 \<longrightarrow> s - q' * t \<ge> 0"
      using calculation by (auto split: if_splits simp del: of_nat_unat)
    then show ?thesis using assms(1) by (intro sat_Fin) auto
  qed
  ultimately have "MakeDurationFromU128 (uint128_minus a P) (s < 0) = Inr (dur (Fin (s - q' * t)))"
    by (simp only: MakeDurationFromU128_eq)
  moreover obtain q where q: "signed_quotient n Q = Inr q"
    "val Q \<le> (if n then 2 ^ 63 else 2 ^ 63 - 1) \<longrightarrow> q = q'"
    unfolding q'_def by (rule signed_quotient_eq)
  moreover have "IDivSlow satq (dur (Fin s)) (dur (Fin t)) =
    bindr (MakeDurationFromU128 (uint128_minus a P) (s < 0)) (\<lambda>rem. bindr (signed_quotient n Q) (\<lambda>q. Inr (q, rem)))"
    unfolding IDivSlow_def Let_def neg n_def [symmetric]
    by (simp only: infinite_dur neg(3) simp_thms if_False a(1) b(1) q0(1) bindr_Inr big_def [symmetric]
        Q_def [symmetric] P(1))
      (cases "\<not> n \<or> uint128_eq Q (uint128_of_int64 0)"; simp add: signed_quotient_def bindr_assoc)
  ultimately have "IDivSlow satq (dur (Fin s)) (dur (Fin t)) = Inr (q, dur (Fin (s - q' * t)))" by simp
  moreover have "q = clamp64 (s sdiv t)" if "satq \<or> int64 (s sdiv t)"
  proof -
    have "val Q \<le> (if n then 2 ^ 63 else 2 ^ 63 - 1)" "satq \<or> clamp64 (s sdiv t) = s sdiv t"
      using that vQ big d by (auto simp: int64_def clamp64_def simp del: of_nat_unat split: if_splits)
    with q(2) q' show ?thesis by auto
  qed
  ultimately show ?thesis unfolding q' by blast
qed

text \<open>Quotient and remainder of the numbers, with the conventions for zero and the infinities.\<close>

definition ext_negative :: "ext \<Rightarrow> bool" where
  "ext_negative e \<longleftrightarrow> e < Fin 0"

definition ext_div :: "ext \<Rightarrow> ext \<Rightarrow> int" where
  "ext_div a b =
     (case (a, b) of
        (Fin s, Fin t) \<Rightarrow> if t = 0 then if s < 0 then - (2 ^ 63) else 2 ^ 63 - 1 else clamp64 (s sdiv t)
      | (Fin s, _) \<Rightarrow> 0
      | _ \<Rightarrow> if ext_negative a \<noteq> ext_negative b then - (2 ^ 63) else 2 ^ 63 - 1)"

definition ext_rem :: "bool \<Rightarrow> ext \<Rightarrow> ext \<Rightarrow> ext" where
  "ext_rem satq a b =
     (case (a, b) of
        (Fin s, Fin t) \<Rightarrow>
          if t = 0 then if s < 0 then NegInf else PosInf
          else Fin (s - (if satq then clamp64 (s sdiv t) else s sdiv t) * t)
      | (Fin s, _) \<Rightarrow> a
      | _ \<Rightarrow> a)"

lemma zero_dur: "ZeroDuration = dur (Fin 0)" "representable (Fin 0)"
  by (simp_all add: constants limit_def)

lemma Duration_negative: "representable e \<Longrightarrow> Duration_less (dur e) ZeroDuration \<longleftrightarrow> ext_negative e"
  by (simp only: zero_dur Duration_less_iff ext_negative_def)

lemma ext_negative_simps [simp]: "ext_negative (Fin t) \<longleftrightarrow> t < 0" "ext_negative NegInf" "\<not> ext_negative PosInf"
  by (simp_all add: ext_negative_def)

lemma int64_clamp: "int64 x \<Longrightarrow> clamp64 x = x"
  by (auto simp: int64_def clamp64_def)

lemma IDivDuration_Fin:
  assumes "representable (Fin s)" "representable (Fin t)" "t \<noteq> 0"
  shows "\<exists>q. IDivDuration satq (dur (Fin s)) (dur (Fin t)) = Inr (q, dur (ext_rem satq (Fin s) (Fin t))) \<and>
    (satq \<or> int64 (s sdiv t) \<longrightarrow> q = ext_div (Fin s) (Fin t))"
proof (cases "IDivFastPath (dur (Fin s)) (dur (Fin t)) = Inr None")
  case True
  then show ?thesis
    using IDivSlow_eq [OF assms, of satq] assms(3) by (simp add: IDivDuration_def ext_rem_def ext_div_def)
next
  case False
  then have f: "IDivFastPath (dur (Fin s)) (dur (Fin t)) = Inr (Some (s sdiv t, dur (Fin (s smod t))))" "int64 (s sdiv t)"
    using IDivFastPath_eq [OF assms(1,2)] by blast+
  have "s - s sdiv t * t = s smod t" using sdiv_mult_smod_eq [of s t] by simp
  with f assms(3) show ?thesis
    by (simp add: IDivDuration_def ext_rem_def ext_div_def int64_clamp)
qed

lemma IDivDuration_special:
  assumes "representable a" "representable b" "\<not> (\<exists>s t. a = Fin s \<and> b = Fin t \<and> t \<noteq> 0)"
  shows "IDivDuration satq (dur a) (dur b) = Inr (ext_div a b, dur (ext_rem satq a b))"
proof -
  have "IDivFastPath (dur a) (dur b) = Inr None"
  proof (cases "\<exists>s t. a = Fin s \<and> b = Fin t")
    case True
    with assms(3) have "\<exists>s. a = Fin s \<and> b = Fin 0" by blast
    then show ?thesis by (auto simp: IDivFastPath_def rep_dur_Fin kTicksPerNanosecond_def)
  next
    case False
    then show ?thesis by (cases a; cases b) (auto simp: IDivFastPath_def)
  qed
  moreover have "IDivSlow satq (dur a) (dur b) = Inr (ext_div a b, dur (ext_rem satq a b))"
  proof -
    have z: "Duration_eq (dur b) ZeroDuration \<longleftrightarrow> b = Fin 0"
      using assms(2) zero_dur(2) by (simp only: zero_dur(1) Duration_eq_iff)
    show ?thesis
      unfolding IDivSlow_def Let_def Duration_negative [OF assms(1)] Duration_negative [OF assms(2)] z
      using assms(3) by (cases a; cases b) (auto simp: ext_div_def ext_rem_def kint64min_def kint64max_def)
  qed
  ultimately show ?thesis by (simp add: IDivDuration_def)
qed

lemma IDivDuration_eq:
  assumes "representable a" "representable b"
  shows "IDivDuration True (dur a) (dur b) = Inr (ext_div a b, dur (ext_rem True a b))"
  using IDivDuration_special [OF assms, of True] IDivDuration_Fin assms by blast

lemma Duration_div_eq: "representable a \<Longrightarrow> representable b \<Longrightarrow> Duration_div (dur a) (dur b) = Inr (ext_div a b)"
  by (simp add: Duration_div_def IDivDuration_eq)

lemma Duration_mod_eq:
  assumes "representable a" "representable b"
  shows "Duration_mod (dur a) (dur b) = Inr (dur (ext_rem False a b))"
proof (cases "\<exists>s t. a = Fin s \<and> b = Fin t \<and> t \<noteq> 0")
  case True
  then obtain s t where "a = Fin s" "b = Fin t" "t \<noteq> 0" by blast
  then show ?thesis using IDivDuration_Fin [of s t False] assms by (auto simp: Duration_mod_def simp del: representable_simps)
next
  case False
  then show ?thesis using IDivDuration_special [OF assms, of False] by (simp add: Duration_mod_def)
qed

end
