(* ===== verification/Duration_Units.thy ===== *)
theory Duration_Units
  imports Duration_Div
begin

text \<open>
  Rounding to units, the factories, the conversions to counts of units and to the structures of the
  operating system: each is the truncation of a number of ticks.
\<close>

unbundle bit_operations_syntax

section \<open>Rounding\<close>

text \<open>The multiple of \<open>t\<close> that is next to \<open>s\<close> on the side of zero, by its distance.\<close>

lemma truncated:
  fixes s t :: int
  assumes "t \<noteq> 0"
  obtains D where "s sdiv t * t = (if s < 0 then - D else D)" "D = \<bar>s\<bar> div \<bar>t\<bar> * \<bar>t\<bar>" "0 \<le> D" "D \<le> \<bar>s\<bar>" "\<bar>s\<bar> < D + \<bar>t\<bar>"
proof (rule that [of "\<bar>s\<bar> div \<bar>t\<bar> * \<bar>t\<bar>"])
  have t: "0 < \<bar>t\<bar>" using assms by simp
  show "s sdiv t * t = (if s < 0 then - (\<bar>s\<bar> div \<bar>t\<bar> * \<bar>t\<bar>) else \<bar>s\<bar> div \<bar>t\<bar> * \<bar>t\<bar>)"
    unfolding sdiv_parts by (auto simp: abs_if)
  show "0 \<le> \<bar>s\<bar> div \<bar>t\<bar> * \<bar>t\<bar>" using t by (simp add: pos_imp_zdiv_nonneg_iff)
  show "\<bar>s\<bar> div \<bar>t\<bar> * \<bar>t\<bar> \<le> \<bar>s\<bar>" "\<bar>s\<bar> < \<bar>s\<bar> div \<bar>t\<bar> * \<bar>t\<bar> + \<bar>t\<bar>"
    using div_mult_mod_eq [of "\<bar>s\<bar>" "\<bar>t\<bar>"] pos_mod_sign [OF t, of "\<bar>s\<bar>"] pos_mod_bound [OF t, of "\<bar>s\<bar>"] by linarith+
qed simp

text \<open>What a clamped quotient leaves lies between zero and the dividend.\<close>

lemma clamped_rest_bounds:
  fixes s t :: int
  assumes "t \<noteq> 0"
  shows "if s < 0 then s \<le> s - clamp64 (s sdiv t) * t \<and> s - clamp64 (s sdiv t) * t \<le> 0
    else 0 \<le> s - clamp64 (s sdiv t) * t \<and> s - clamp64 (s sdiv t) * t \<le> s"
proof -
  define q k where "q = s sdiv t" and "k = clamp64 q"
  have k: "0 \<le> k \<and> k \<le> q \<or> q \<le> k \<and> k \<le> 0" by (auto simp: k_def clamp64_def)
  have "0 \<le> k * t \<and> k * t \<le> q * t \<or> q * t \<le> k * t \<and> k * t \<le> 0"
  proof (cases "0 < t")
    case True
    then show ?thesis using k mult_right_mono [of k q t] mult_right_mono [of q k t] by (auto simp: mult_le_0_iff zero_le_mult_iff)
  next
    case False
    then show ?thesis using k mult_right_mono_neg [of k q t] mult_right_mono_neg [of q k t] by (auto simp: mult_le_0_iff zero_le_mult_iff)
  qed
  moreover obtain D where "q * t = (if s < 0 then - D else D)" "0 \<le> D" "D \<le> \<bar>s\<bar>"
    using truncated [OF assms, of s] unfolding q_def .
  ultimately show ?thesis unfolding q_def [symmetric] k_def [symmetric] by (auto split: if_splits)
qed

lemma Trunc_eq:
  assumes "representable (Fin s)" "representable (Fin t)" "t \<noteq> 0"
  shows "Trunc (dur (Fin s)) (dur (Fin t)) = Inr (dur (Fin (s sdiv t * t)))" "representable (Fin (s sdiv t * t))"
proof -
  obtain D where D: "s sdiv t * t = (if s < 0 then - D else D)" "0 \<le> D" "D \<le> \<bar>s\<bar>" using truncated [OF assms(3)] .
  have r: "representable (Fin (s - s sdiv t * t))" using assms(1) D by (auto split: if_splits)
  show rep: "representable (Fin (s sdiv t * t))" using assms(1) D by (auto split: if_splits)
  have "Duration_minus (dur (Fin s)) (dur (Fin (s - s sdiv t * t))) = Inr (dur (sat (s sdiv t * t)))"
    using Duration_minus_Fin [OF assms(1) r] by simp
  moreover have "sat (s sdiv t * t) = Fin (s sdiv t * t)" using rep by (simp add: sat_Fin)
  moreover have "Duration_mod (dur (Fin s)) (dur (Fin t)) = Inr (dur (Fin (s - s sdiv t * t)))"
    unfolding Duration_mod_eq [OF assms(1,2)] ext_rem_def using assms(3) by simp
  ultimately show "Trunc (dur (Fin s)) (dur (Fin t)) = Inr (dur (Fin (s sdiv t * t)))"
    by (simp add: Trunc_def)
qed

lemma AbsDuration_eq:
  assumes "representable (Fin t)"
  shows "AbsDuration (dur (Fin t)) = Inr (dur (sat \<bar>t\<bar>))"
  using assms Duration_neg_eq [OF assms] unfolding AbsDuration_def Duration_negative [OF assms]
  by (auto simp: abs_if sat_Fin)

lemma floor_multiple:
  fixes s t :: int
  assumes "t \<noteq> 0"
  shows "s div \<bar>t\<bar> * \<bar>t\<bar> = (if s sdiv t * t \<le> s then s sdiv t * t else s sdiv t * t - \<bar>t\<bar>)"
proof -
  obtain D where D: "s sdiv t * t = (if s < 0 then - D else D)" "D = \<bar>s\<bar> div \<bar>t\<bar> * \<bar>t\<bar>" "0 \<le> D" "D \<le> \<bar>s\<bar>" "\<bar>s\<bar> < D + \<bar>t\<bar>"
    using truncated [OF assms] .
  have t: "0 < \<bar>t\<bar>" using assms by simp
  define k B where "k = \<bar>s\<bar> div \<bar>t\<bar>" and "B = \<bar>t\<bar>"
  have DB: "D = k * B" "0 < B" unfolding D(2) k_def B_def using t by simp_all
  show ?thesis
  proof (cases "0 \<le> s")
    case True
    then show ?thesis using D by simp
  next
    case neg: False
    show ?thesis
    proof (cases "D = - s")
      case True
      have "s div B = - k" by (rule int_div_pos_eq [of _ _ _ 0]) (use True DB in \<open>simp_all add: mult.commute\<close>)
      then show ?thesis using neg D(1) DB(1) True by (simp add: B_def)
    next
      case False
      have eq: "s div B = - k - 1"
        by (rule int_div_pos_eq [of _ _ _ "s + D + B"]) (use D(4,5) DB neg False in \<open>simp_all add: B_def algebra_simps\<close>)
      have "s div B * B = - D - B" unfolding eq DB(1) by (simp add: algebra_simps)
      then show ?thesis using neg False D(1,4) by (simp add: B_def)
    qed
  qed
qed

lemma Floor_eq:
  assumes "representable (Fin s)" "representable (Fin t)" "t \<noteq> 0" "t \<noteq> - limit"
  shows "Floor (dur (Fin s)) (dur (Fin t)) = Inr (dur (sat (s div \<bar>t\<bar> * \<bar>t\<bar>)))"
proof -
  note tr = Trunc_eq [OF assms(1-3)]
  have u: "representable (Fin \<bar>t\<bar>)" using assms(2,4) by auto
  have "sat \<bar>t\<bar> = Fin \<bar>t\<bar>" using u by (simp add: sat_Fin)
  then have a: "AbsDuration (dur (Fin t)) = Inr (dur (Fin \<bar>t\<bar>))" using AbsDuration_eq [OF assms(2)] by simp
  have "sat (s sdiv t * t) = Fin (s sdiv t * t)" using tr(2) by (simp add: sat_Fin)
  then show ?thesis
    unfolding Floor_def tr(1) a bindr_Inr Duration_order(1) [OF tr(2) assms(1)] Duration_minus_Fin [OF tr(2) u] floor_multiple [OF assms(3)]
    by simp
qed

lemma Ceil_eq:
  assumes "representable (Fin s)" "representable (Fin t)" "t \<noteq> 0"
  shows "Ceil (dur (Fin s)) (dur (Fin t)) = Inr (dur (sat (- ((- s) div \<bar>t\<bar> * \<bar>t\<bar>))))"
proof -
  note tr = Trunc_eq [OF assms]
  have c: "- ((- s) div \<bar>t\<bar> * \<bar>t\<bar>) = (if s \<le> s sdiv t * t then s sdiv t * t else s sdiv t * t + \<bar>t\<bar>)"
    using floor_multiple [OF assms(3), of "- s"] by simp
  have s: "sat (s sdiv t * t) = Fin (s sdiv t * t)" using tr(2) by (simp add: sat_Fin)
  have "ext_plus (Fin (s sdiv t * t)) (sat \<bar>t\<bar>) = sat (s sdiv t * t + \<bar>t\<bar>)" if "\<not> s \<le> s sdiv t * t"
  proof -
    obtain D where "s sdiv t * t = (if s < 0 then - D else D)" "0 \<le> D" "D \<le> \<bar>s\<bar>" using truncated [OF assms(3)] .
    with that have "0 \<le> s sdiv t * t" by (auto split: if_splits)
    then show ?thesis by (auto simp: sat_def limit_def)
  qed
  then show ?thesis
    unfolding Ceil_def tr(1) AbsDuration_eq [OF assms(2)] bindr_Inr Duration_order(2) [OF tr(2) assms(1)]
      Duration_plus_eq [OF tr(2) representable_simps(4)] c
    using s by simp
qed

section \<open>Factories\<close>

lemma FromInt64_eq:
  assumes "int64 v" "N * D = 4000000000" "N = 1 \<or> N = 1000 \<or> N = 1000000 \<or> N = 1000000000"
  shows "FromInt64 v N = Inr (dur (Fin (v * D)))" "representable (Fin (v * D))"
proof -
  have N: "0 < N" "N \<le> 1000000000" using assms(3) by auto
  define q r where "q = v sdiv N" and "r = v smod N"
  have v: "v = q * N + r" using sdiv_mult_smod_eq [of v N] by (simp add: q_def r_def)
  have r: "- N < r" "r < N" using smod_bounds [OF N(1), of v] by (simp_all add: r_def)
  have "D \<noteq> 0" using assms(2) by auto
  have D: "0 < D" "D \<le> 4000000000" using assms(2,3) by auto
  have x: "r * 4 * 1000 * 1000 * 1000 = (r * D) * N" using assms(2) by (simp add: ac_simps)
  have "(r * D * N) sdiv N = r * D" using sdiv_smod_eqI [of "r * D * N" "r * D" N 0] N(1) by simp
  then have d: "(r * 4 * 1000 * 1000 * 1000) sdiv N = r * D" unfolding x .
  have rD: "- 4000000000 < r * D" "r * D < 4000000000"
  proof -
    have "r * D < N * D" "- N * D < r * D" using r D(1) by (simp_all only: mult_strict_right_mono)
    then show "- 4000000000 < r * D" "r * D < 4000000000" using assms(2) by simp_all
  qed
  have vD: "v * D = q * 4000000000 + r * D" unfolding v using assms(2) by (simp add: algebra_simps)
  have q: "- (2 ^ 63) \<le> q" "q < 2 ^ 63" "r < 0 \<longrightarrow> - (2 ^ 63) < q"
    using assms(1,3) v r by (auto simp: int64_def)
  have neg: "r * D < 0 \<longleftrightarrow> r < 0" using D(1) by (simp add: mult_less_0_iff)
  have i: "i64 (v smod N * kTicksPerNanosecond * 1000 * 1000 * 1000) = Inr (r * 4 * 1000 * 1000 * 1000)"
    using r N by (simp add: r_def kTicksPerNanosecond_def)
  have e: "FromInt64 v N = MakeNormalizedDuration q (r * D)"
    unfolding FromInt64_def i bindr_Inr d q_def [symmetric] ..
  show "representable (Fin (v * D))"
    using q rD neg unfolding vD by (auto simp: limit_def)
  show "FromInt64 v N = Inr (dur (Fin (v * D)))"
  proof (cases "r * D < 0")
    case True
    have "dur (Fin ((q - 1) * 4000000000 + (r * D + 4000000000))) = MakeDuration (q - 1) (r * D + 4000000000)"
      using True rD by (intro dur_parts) simp_all
    moreover have "(q - 1) * 4000000000 + (r * D + 4000000000) = v * D" unfolding vD by simp
    ultimately show ?thesis
      unfolding e MakeNormalizedDuration_def using True rD q neg by (simp add: MakeDuration_int64_def u32_def)
  next
    case False
    then have "dur (Fin (v * D)) = MakeDuration q (r * D)" unfolding vD using rD by (intro dur_parts) simp_all
    with False rD show ?thesis unfolding e MakeNormalizedDuration_def by (simp add: MakeDuration_int64_def u32_def)
  qed
qed


lemma le_div_iff_mult: "0 < c \<Longrightarrow> x \<le> M div c \<longleftrightarrow> x * c \<le> M" for x M c :: int
  using le_div_mult [of x M c] zdiv_mono1 [of "x * c" M c] by auto

lemma long_factory:
  assumes "int64 v" "0 < c"
  shows "(if v \<le> kint64max sdiv c \<and> v \<ge> kint64min sdiv c then bindr (i64 (v * c)) (\<lambda>s. Inr (MakeDuration s 0)) else infinity (\<not> v > 0))
    = Inr (dur (sat (v * c * 4000000000)))"
proof -
  have max: "v \<le> kint64max sdiv c \<longleftrightarrow> v * c < 2 ^ 63"
  proof -
    have "kint64max sdiv c = (2 ^ 63 - 1) div c" using sdiv_nonneg [of kint64max c] assms(2) by (simp add: kint64max_def)
    moreover have "v \<le> (2 ^ 63 - 1) div c \<longleftrightarrow> v * c \<le> 2 ^ 63 - 1"
      by (rule le_div_iff_mult [OF assms(2)])
    ultimately show ?thesis by auto
  qed
  have min: "v \<ge> kint64min sdiv c \<longleftrightarrow> v * c \<ge> - (2 ^ 63)"
  proof -
    have "kint64min sdiv c = - ((2 ^ 63) div c)" using sdiv_neg [of kint64min c] assms(2) by (simp add: kint64min_def)
    moreover have "- v \<le> 2 ^ 63 div c \<longleftrightarrow> - v * c \<le> 2 ^ 63"
      by (rule le_div_iff_mult [OF assms(2)])
    ultimately show ?thesis by auto
  qed
  have sign: "0 < v \<longleftrightarrow> 0 < v * c" using assms(2) by (simp add: zero_less_mult_iff)
  have "dur (sat (v * c * 4000000000 + 0)) =
      (if v * c \<ge> 2 ^ 63 then dur PosInf else if v * c < - (2 ^ 63) then dur NegInf else MakeDuration (v * c) 0)"
    by (rule dur_sat_parts) simp_all
  then show ?thesis unfolding max min sign infinity_eq by auto
qed

lemma factories:
  assumes "int64 n"
  shows "Nanoseconds n = Inr (dur (Fin (n * 4)))" "Microseconds n = Inr (dur (Fin (n * 4000)))"
    "Milliseconds n = Inr (dur (Fin (n * 4000000)))" "Seconds n = Inr (dur (Fin (n * 4000000000)))"
    "Minutes n = Inr (dur (sat (n * 60 * 4000000000)))" "Hours n = Inr (dur (sat (n * 3600 * 4000000000)))"
  unfolding Nanoseconds_def Microseconds_def Milliseconds_def Seconds_def Minutes_def Hours_def FromInt64_60_def FromInt64_3600_def
  by (rule FromInt64_eq(1) [OF assms] long_factory [OF assms]; simp)+

lemma times_sdiv: "0 < c \<Longrightarrow> n * c sdiv c = n" for n c :: int
  using sdiv_smod_eqI(1) [of "n * c" n c 0] by simp

section \<open>Counts of units\<close>

text \<open>The six conversions return the quotient by their unit.\<close>

lemma count_path:
  assumes "representable (Fin t)" "rep_hi (dur (Fin t)) \<ge> 0" "D * N = 4000000000" "0 < N" "rep_hi (dur (Fin t)) * N + N < 2 ^ 63"
  shows "i64 (rep_hi (dur (Fin t)) * N) = Inr (rep_hi (dur (Fin t)) * N)"
    "i64 (rep_hi (dur (Fin t)) * N + rep_lo (dur (Fin t)) sdiv D) = Inr (ext_div (Fin t) (Fin D))"
proof -
  obtain h l where t: "t = h * 4000000000 + l" "0 \<le> l" "l < 4000000000" "- (2 ^ 63) \<le> h" "h < 2 ^ 63"
      "rep_hi (dur (Fin t)) = h" "rep_lo (dur (Fin t)) = l"
    using finE [OF assms(1)] .
  have D: "0 < D" using assms(3,4) by (metis zero_less_mult_pos2 zero_less_numeral)
  have l: "l sdiv D = l div D" "0 \<le> l div D" "l div D < N" "0 \<le> l mod D" "l mod D < D"
    using sdiv_nonneg [OF t(2) D] t(2,3) D assms(3) pos_div_less [of l N D] by (simp_all add: pos_imp_zdiv_nonneg_iff ac_simps)
  have hN: "0 \<le> h * N" using assms(2,4) t(6) by simp
  have "t = (h * N + l div D) * D + l mod D" using t(1) assms(3) by (simp add: algebra_simps)
  moreover have "0 \<le> t" using t(1,2,6) assms(2) by simp
  ultimately have "t sdiv D = h * N + l div D"
    using sdiv_smod_eqI [of t "h * N + l div D" D "l mod D"] D l by auto
  moreover have "h * N + l div D < 2 ^ 63" using assms(5) l(3) t(6) by simp
  ultimately show "i64 (rep_hi (dur (Fin t)) * N) = Inr (rep_hi (dur (Fin t)) * N)"
    "i64 (rep_hi (dur (Fin t)) * N + rep_lo (dur (Fin t)) sdiv D) = Inr (ext_div (Fin t) (Fin D))"
    unfolding t(6,7) l(1) ext_div_def using hN l(2) D by (simp_all add: int64_clamp int64_def)
qed

lemma count_or_divide:
  assumes "representable e" "representable (Fin D)" "D * N = 4000000000" "0 < N" "2 ^ k * N + N \<le> 2 ^ 63" "k < 63"
  shows "(if rep_hi (dur e) \<ge> 0 \<and> drop_bit k (rep_hi (dur e)) = 0
      then bindr (i64 (rep_hi (dur e) * N)) (\<lambda>p. i64 (p + rep_lo (dur e) sdiv D)) else Duration_div (dur e) (dur (Fin D)))
    = Inr (ext_div e (Fin D))"
proof (cases "rep_hi (dur e) \<ge> 0 \<and> drop_bit k (rep_hi (dur e)) = 0")
  case True
  then have h: "0 \<le> rep_hi (dur e)" "rep_hi (dur e) < 2 ^ k"
    using div_mult_mod_eq [of "rep_hi (dur e)" "2 ^ k"] pos_mod_bound [of "2 ^ k" "rep_hi (dur e)"] by (auto simp: drop_bit_eq_div)
  have "(2 :: int) ^ k \<le> 2 ^ 62" using assms(6) by (intro power_increasing) auto
  then obtain t where t: "e = Fin t" using h by (cases e) auto
  have "rep_hi (dur (Fin t)) * N \<le> (2 ^ k - 1) * N" using h assms(4) t by (intro mult_right_mono) auto
  then have "rep_hi (dur (Fin t)) * N + N < 2 ^ 63" using assms(4,5) by (simp add: algebra_simps)
  with count_path [of t D N] assms(1,3,4) h(1) True show ?thesis unfolding t by simp
next
  case False
  then show ?thesis using Duration_div_eq [OF assms(1,2)] by (simp only: if_False)
qed

lemma ToInt64_small_units:
  assumes "representable e"
  shows "ToInt64Nanoseconds (dur e) = Inr (ext_div e (Fin 4))" "ToInt64Microseconds (dur e) = Inr (ext_div e (Fin 4000))"
    "ToInt64Milliseconds (dur e) = Inr (ext_div e (Fin 4000000))"
proof -
  have units: "Nanoseconds 1 = Inr (dur (Fin 4))" "Microseconds 1 = Inr (dur (Fin 4000))" "Milliseconds 1 = Inr (dur (Fin 4000000))"
    "representable (Fin 4)" "representable (Fin 4000)" "representable (Fin 4000000)"
    using factories(1-3) [of 1] by (simp_all add: int64_def limit_def)
  have nanos: "x * 1000 * 1000 * 1000 = x * 1000000000" and micros: "x * 1000 * 1000 = x * 1000000" for x :: int by simp_all
  have lits: "(4 :: int) * 1000 = 4000" "(4000 :: int) * 1000 = 4000000" by simp_all
  show "ToInt64Nanoseconds (dur e) = Inr (ext_div e (Fin 4))"
    unfolding ToInt64Nanoseconds_def units(1) bindr_Inr nanos kTicksPerNanosecond_def
    by (rule count_or_divide [OF assms units(4)]) simp_all
  show "ToInt64Microseconds (dur e) = Inr (ext_div e (Fin 4000))"
    unfolding ToInt64Microseconds_def units(2) bindr_Inr micros kTicksPerNanosecond_def lits
    by (rule count_or_divide [OF assms units(5)]) simp_all
  show "ToInt64Milliseconds (dur e) = Inr (ext_div e (Fin 4000000))"
    unfolding ToInt64Milliseconds_def units(3) bindr_Inr kTicksPerNanosecond_def lits
    by (rule count_or_divide [OF assms units(6)]) simp_all
qed

lemma sdiv_sdiv:
  fixes x a b :: int
  assumes "0 < a" "0 < b"
  shows "x sdiv a sdiv b = x sdiv (a * b)"
proof -
  have "0 < a * b" using assms by simp
  then have "\<not> a * b < 0" by simp
  moreover have "\<bar>x\<bar> div (a * b) = \<bar>x\<bar> div a div b" using assms by (simp add: zdiv_zmult2_eq)
  moreover have "0 \<le> \<bar>x\<bar> div a" using assms by (simp add: pos_imp_zdiv_nonneg_iff)
  ultimately show ?thesis using assms by (auto simp: sdiv_parts abs_of_pos simp del: abs_mult)
qed

lemma sdiv_int64:
  assumes "0 < c" "int64 x"
  shows "int64 (x sdiv c)"
proof -
  have "0 \<le> \<bar>x\<bar> div c" "\<bar>x\<bar> div c \<le> \<bar>x\<bar> div 1"
    using assms(1) zdiv_mono2 [of "\<bar>x\<bar>" 1 c] by (simp_all add: pos_imp_zdiv_nonneg_iff)
  then show ?thesis unfolding sdiv_parts using assms by (auto simp: int64_def)
qed

lemma ToInt64_large_units:
  assumes "representable e"
  shows "ToInt64Seconds (dur e) = Inr (ext_div e (Fin 4000000000))" "ToInt64Minutes (dur e) = Inr (ext_div e (Fin (4000000000 * 60)))"
    "ToInt64Hours (dur e) = Inr (ext_div e (Fin (4000000000 * 3600)))"
proof -
  have "ToInt64Seconds (dur e) = Inr (ext_div e (Fin 4000000000)) \<and> ToInt64Minutes (dur e) = Inr (ext_div e (Fin (4000000000 * 60))) \<and>
    ToInt64Hours (dur e) = Inr (ext_div e (Fin (4000000000 * 3600)))"
  proof (cases e)
    case (Fin t)
    obtain h l where t: "t = h * 4000000000 + l" "0 \<le> l" "l < 4000000000" "- (2 ^ 63) \<le> h" "h < 2 ^ 63"
        "rep_hi (dur (Fin t)) = h" "rep_lo (dur (Fin t)) = l"
      using finE [OF assms [unfolded Fin]] .
    define g where "g = (if h < 0 \<and> l \<noteq> 0 then h + 1 else h)"
    have "t = g * 4000000000 + (if h < 0 \<and> l \<noteq> 0 then l - 4000000000 else l)" using t(1) by (simp add: g_def)
    then have g: "t sdiv 4000000000 = g"
      using t(1-3) by (intro sdiv_smod_eqI(1)) (auto split: if_splits)
    have gb: "- (2 ^ 63) \<le> g" "g < 2 ^ 63" using t(4,5) by (auto simp: g_def)
    have i: "(if h < 0 \<and> l \<noteq> 0 then i64 (h + 1) else Inr h) = Inr g" using t(4,5) by (simp add: g_def)
    have c: "clamp64 g = g" "clamp64 (g sdiv 60) = g sdiv 60" "clamp64 (g sdiv 3600) = g sdiv 3600"
      using sdiv_int64 [of _ g] gb by (auto simp: int64_def intro!: int64_clamp)
    show ?thesis
      unfolding Fin ToInt64Seconds_def ToInt64Minutes_def ToInt64Hours_def t(6,7) ext_div_def
      using sdiv_sdiv [of 4000000000 60 t] sdiv_sdiv [of 4000000000 3600 t] c by (simp add: i g)
  qed (simp_all add: ToInt64Seconds_def ToInt64Minutes_def ToInt64Hours_def ext_div_def)
  then show "ToInt64Seconds (dur e) = Inr (ext_div e (Fin 4000000000))" "ToInt64Minutes (dur e) = Inr (ext_div e (Fin (4000000000 * 60)))"
    "ToInt64Hours (dur e) = Inr (ext_div e (Fin (4000000000 * 3600)))" by blast+
qed

section \<open>Structures of the operating system\<close>

lemma EncodeTwosComp_id: "0 \<le> n \<Longrightarrow> n < 2 ^ 63 \<Longrightarrow> EncodeTwosComp n = n"
  by (simp add: EncodeTwosComp_def)

lemma EncodeTwosComp_neg: "- (2 ^ 63) \<le> n \<Longrightarrow> n < 0 \<Longrightarrow> EncodeTwosComp n = n + 2 ^ 64"
  unfolding EncodeTwosComp_def by (rule int_mod_pos_eq [of _ _ "-1"]) simp_all

lemma narrow64_id: "int64 x \<Longrightarrow> narrow64 x = x"
  using EncodeTwosComp_id [of x] EncodeTwosComp_neg [of x]
  by (cases "x < 0") (auto simp: narrow64_def DecodeTwosComp_def int64_def)

lemma ToTimespec_infinite:
  "ToTimespec (dur PosInf) = Inr \<lparr>tv_sec = kint64max, tv_nsec = 999999999\<rparr>"
  "ToTimespec (dur NegInf) = Inr \<lparr>tv_sec = kint64min, tv_nsec = 0\<rparr>"
  by (simp_all add: ToTimespec_def Duration_ge_def Duration_negative)

lemma ToTimespec_Fin:
  assumes "representable (Fin t)"
  shows "ToTimespec (dur (Fin t)) = Inr \<lparr>tv_sec = t sdiv 4 div 1000000000, tv_nsec = t sdiv 4 mod 1000000000\<rparr>"
proof -
  obtain h l where t: "t = h * 4000000000 + l" "0 \<le> l" "l < 4000000000" "- (2 ^ 63) \<le> h" "h < 2 ^ 63"
      "rep_hi (dur (Fin t)) = h" "rep_lo (dur (Fin t)) = l"
    using finE [OF assms] .
  define g m where "g = (if h < 0 \<and> l + 3 \<ge> 4000000000 then h + 1 else h)"
    and "m = (if h < 0 then if l + 3 \<ge> 4000000000 then l + 3 - 4000000000 else l + 3 else l)"
  have g: "- (2 ^ 63) \<le> g" "g < 2 ^ 63" "0 \<le> m" "m < 4000000000" using t(2-5) by (auto simp: g_def m_def)
  have n: "0 \<le> m div 4" "m div 4 < 1000000000" using g(3,4) by auto
  have q: "t sdiv 4 = g * 1000000000 + m div 4"
  proof (cases "h < 0")
    case True
    then have "g * 4000000000 + m = t + 3" using t(1) by (auto simp: g_def m_def)
    then show ?thesis using True t(1-3) by (simp add: sdiv_parts)
  next
    case False
    then show ?thesis using t(1-3) by (simp add: sdiv_parts g_def m_def)
  qed
  have parts: "t sdiv 4 div 1000000000 = g" "t sdiv 4 mod 1000000000 = m div 4"
    unfolding q using n by simp_all
  have s: "m sdiv 4 = m div 4" using sdiv_nonneg [OF g(3)] by simp
  have e: "(if h < 0 then let lo = u32 (l + 3) in
        if lo \<ge> 4000000000 then bindr (i64 (h + 1)) (\<lambda>hi. Inr (hi, u32 (lo - 4000000000))) else Inr (h, lo)
      else Inr (h, l)) = Inr (g, m)"
    using t(2-5) by (simp add: u32_def g_def m_def Let_def)
  have w: "narrow64 g = g" using g(1,2) by (intro narrow64_id) (simp add: int64_def)
  have three: "(4 :: int) - 1 = 3" by simp
  show ?thesis
    unfolding ToTimespec_def Let_def t(6,7) parts ticks_per_second kTicksPerNanosecond_def three e [unfolded Let_def]
    using w s by simp
qed

lemma ToTimeval_Fin:
  assumes "representable (Fin t)"
  shows "ToTimeval (dur (Fin t)) = Inr \<lparr>val_sec = t sdiv 4000 div 1000000, val_usec = t sdiv 4000 mod 1000000\<rparr>"
proof -
  define n where "n = t sdiv 4"
  define h l where "h = n div 1000000000" and "l = n mod 1000000000"
  have l: "n = h * 1000000000 + l" "0 \<le> l" "l < 1000000000" by (simp_all add: h_def l_def)
  have h: "- (2 ^ 63) \<le> h" "h < 2 ^ 63"
    using assms sdiv_parts [of t 4] by (auto simp: h_def n_def limit_def)
  define g m where "g = (if h < 0 \<and> l + 999 \<ge> 1000000000 then h + 1 else h)"
    and "m = (if h < 0 then if l + 999 \<ge> 1000000000 then l + 999 - 1000000000 else l + 999 else l)"
  have g: "- (2 ^ 63) \<le> g" "g < 2 ^ 63" "0 \<le> m" "m < 1000000000" using l h by (auto simp: g_def m_def)
  have u: "0 \<le> m div 1000" "m div 1000 < 1000000" using g(3,4) by auto
  have q: "t sdiv 4000 = g * 1000000 + m div 1000"
  proof -
    have "t sdiv 4000 = n sdiv 1000" using sdiv_sdiv [of 4 1000 t] by (simp add: n_def)
    also have "\<dots> = g * 1000000 + m div 1000"
    proof (cases "h < 0")
      case True
      then have "g * 1000000000 + m = n + 999" using l(1) by (auto simp: g_def m_def)
      then show ?thesis using True l by (simp add: sdiv_parts)
    next
      case False
      then show ?thesis using l by (simp add: sdiv_parts g_def m_def)
    qed
    finally show ?thesis .
  qed
  have parts: "t sdiv 4000 div 1000000 = g" "t sdiv 4000 mod 1000000 = m div 1000"
    unfolding q using u by simp_all
  have s: "m sdiv 1000 = m div 1000" using sdiv_nonneg [OF g(3)] by simp
  have w: "narrow64 g = g" using g(1,2) by (intro narrow64_id) (simp add: int64_def)
  have e: "(if h < 0 then if l + 999 \<ge> 1000000000 then bindr (i64 (h + 1)) (\<lambda>sec. Inr (sec, l + 999 - 1000000000)) else Inr (h, l + 999)
      else Inr (h, l)) = Inr (g, m)"
    using h by (simp add: g_def m_def)
  have lits: "(1000 :: int) - 1 = 999" "(1000 :: int) * 1000 = 1000000" "(1000000 :: int) * 1000 = 1000000000" by simp_all
  show ?thesis
    unfolding ToTimeval_def ToTimespec_Fin [OF assms] Let_def parts bindr_Inr n_def [symmetric] h_def [symmetric] l_def [symmetric] timespec.simps lits e
    using w s by simp
qed

lemma from_parts:
  assumes "int64 s" "int64 n" "0 < c" "c * D = 4000000000" "f n = Inr (dur (Fin (n * D)))" "representable (Fin (n * D))"
  shows "(if EncodeTwosComp n < c then Inr (MakeDuration_int64 s (n * D))
      else bindr (Seconds s) (\<lambda>s. bindr (f n) (\<lambda>n. Duration_plus s n))) = Inr (dur (sat (s * 4000000000 + n * D)))"
proof (cases "EncodeTwosComp n < c")
  case True
  have "0 < D" using assms(3,4) by (metis zero_less_mult_pos zero_less_numeral)
  then have "c * 1 \<le> c * D" using assms(3) by (intro mult_left_mono) auto
  then have "c \<le> 4000000000" using assms(4) by simp
  with True have n: "0 \<le> n" "n < c"
    using assms(2) EncodeTwosComp_id [of n] EncodeTwosComp_neg [of n] by (cases "n < 0"; simp add: int64_def)+
  then have nD: "0 \<le> n * D" "n * D < 4000000000"
    using \<open>0 < D\<close> mult_strict_right_mono [of n c D] assms(4) by simp_all
  then have "dur (sat (s * 4000000000 + n * D)) = MakeDuration s (n * D)"
    using dur_sat_parts [OF nD, of s] assms(1) by (simp add: int64_def)
  then show ?thesis using True nD by (simp add: MakeDuration_int64_def u32_def)
next
  case False
  have s: "Seconds s = Inr (dur (Fin (s * 4000000000)))" "representable (Fin (s * 4000000000))"
    using factories(4) [OF assms(1)] assms(1) by (simp_all add: int64_def limit_def)
  show ?thesis using False by (simp add: s(1) assms(5) Duration_plus_Fin [OF s(2) assms(6)])
qed

lemma DurationFromTimespec_eq:
  assumes "int64 (tv_sec ts)" "int64 (tv_nsec ts)"
  shows "DurationFromTimespec ts = Inr (dur (sat (tv_sec ts * 4000000000 + tv_nsec ts * 4)))"
proof -
  have c: "(1000 :: int) * 1000 * 1000 = 1000000000" by simp
  show ?thesis
    unfolding DurationFromTimespec_def kTicksPerNanosecond_def c
    by (rule from_parts [OF assms]; (rule factories(1) [OF assms(2)] FromInt64_eq(2) [OF assms(2), of 1000000000 4])?; simp)
qed

lemma DurationFromTimeval_eq:
  assumes "int64 (val_sec tv)" "int64 (val_usec tv)"
  shows "DurationFromTimeval tv = Inr (dur (sat (val_sec tv * 4000000000 + val_usec tv * 4000)))"
proof -
  have c: "(1000 :: int) * 1000 = 1000000" "x * 1000 * 4 = x * 4000" for x :: int by simp_all
  show ?thesis
    unfolding DurationFromTimeval_def kTicksPerNanosecond_def c
    by (rule from_parts [OF assms]; (rule factories(2) [OF assms(2)] FromInt64_eq(2) [OF assms(2), of 1000000 4000])?; simp)
qed

end
