(* ===== verification/Duration_Text.thy ===== *)
theory Duration_Text
  imports Duration_Parse Duration_Units Absl_Numbers
begin

text \<open>
  The grammar of durations as text, and the parser against it: which texts are accepted, and the
  value of each.
\<close>

section \<open>The grammar\<close>

text \<open>An item is a number with an optional fraction and a unit. The value of a fraction is taken
  from its first eighteen digits.\<close>

type_synonym item = "string \<times> string option \<times> string"

definition unit_ticks :: "string \<Rightarrow> int" where
  "unit_ticks u =
     (if u = ''ns'' then 4 else if u = ''us'' then 4000 else if u = ''ms'' then 4000000
      else if u = ''s'' then 4000000000 else if u = ''m'' then 60 * 4000000000 else 3600 * 4000000000)"

definition units_of_time :: "string list" where
  "units_of_time = [''ns'', ''us'', ''ms'', ''s'', ''m'', ''h'']"

fun item_ok :: "item \<Rightarrow> bool" where
  "item_ok (ds, fr, u) \<longleftrightarrow> list_all ascii_isdigit ds \<and> numeral_value 10 ds \<le> kint64max \<and> u \<in> set units_of_time \<and>
     (case fr of None \<Rightarrow> ds \<noteq> [] | Some f \<Rightarrow> list_all ascii_isdigit f \<and> (ds \<noteq> [] \<or> f \<noteq> []))"

fun item_text :: "item \<Rightarrow> string" where
  "item_text (ds, fr, u) = ds @ (case fr of None \<Rightarrow> [] | Some f \<Rightarrow> CHR ''.'' # f) @ u"

definition add_number :: "int \<Rightarrow> int \<Rightarrow> int \<Rightarrow> ext \<Rightarrow> ext" where
  "add_number n u c e = (if n = 0 then e else ext_plus e (ext_divide (sat (u * n)) c))"

fun add_item :: "int \<Rightarrow> ext \<Rightarrow> item \<Rightarrow> ext" where
  "add_item sign e (ds, fr, u) =
     (let f = take 18 (case fr of None \<Rightarrow> [] | Some f \<Rightarrow> f)
      in add_number (sign * numeral_value 10 f) (unit_ticks u) (10 ^ length f)
           (add_number (sign * numeral_value 10 ds) (unit_ticks u) 1 e))"

section \<open>Numbers\<close>

lemma isdigit_ascii: "(of_char c :: nat) < 128 \<Longrightarrow> isdigit c = Inr (ascii_isdigit c)"
  by (simp add: isdigit_def ascii_isdigit_def)

lemma isdigit_True: "ascii_isdigit c \<Longrightarrow> isdigit c = Inr True"
  by (simp add: isdigit_def ascii_isdigit_def)

lemma decimal_char: "ascii_isdigit c \<Longrightarrow> int (of_char c) - 48 = digit_value c" "ascii_isdigit c \<Longrightarrow> digit_value c < 10"
  by (simp_all add: digit_value_eq ascii_isdigit_def)

abbreviation plain :: "string \<Rightarrow> bool" where
  "plain \<equiv> list_all (\<lambda>c. (of_char c :: nat) < 128)"

abbreviation number_from :: "int \<Rightarrow> string \<Rightarrow> int" where
  "number_from \<equiv> foldl (\<lambda>v c. 10 * v + digit_value c)"

lemma int_part_loop_eq:
  assumes "plain p" "0 \<le> v" "v \<le> kint64max"
  shows "int_part_loop p v =
    (if number_from v (takeWhile ascii_isdigit p) \<le> kint64max
     then Inr (Some (dropWhile ascii_isdigit p, number_from v (takeWhile ascii_isdigit p))) else Inr None)"
  using assms
proof (induction p arbitrary: v)
  case (Cons c p)
  show ?case
  proof (cases "ascii_isdigit c")
    case True
    note d = decimal_char(2) [OF True] digit_value_bounds(1) [of c] and simps = isdigit_True [OF True] decimal_char(1) [OF True] Let_def mult.commute
    have k: "kint64max = 9223372036854775807" "kint64max sdiv 10 = 922337203685477580" by (simp_all add: kint64max_def)
    have "10 * v + digit_value c \<le> number_from (10 * v + digit_value c) (takeWhile ascii_isdigit p)"
      using Cons.prems(2) d(2) by (intro fold_value_ge) auto
    then show ?thesis
      using Cons.IH [of "10 * v + digit_value c"] Cons.prems True d
      by (auto simp: simps k)
  next
    case False
    then show ?thesis using Cons.prems by (simp add: isdigit_ascii)
  qed
qed simp

lemma frac_part_loop_eq:
  assumes "plain p" "0 \<le> v" "v < 10 ^ k" "k \<le> 18"
  shows "frac_part_loop p v (10 ^ k) =
    (let ds = take (18 - k) (takeWhile ascii_isdigit p) in Inr (dropWhile ascii_isdigit p, number_from v ds, 10 ^ (k + length ds)))"
  using assms
proof (induction p arbitrary: v k)
  case (Cons c p)
  show ?case
  proof (cases "ascii_isdigit c")
    case True
    note d = decimal_char(2) [OF True] digit_value_bounds(1) [of c] and simps = isdigit_True [OF True] decimal_char(1) [OF True] Let_def mult.commute
    have lim: "kint64max sdiv 10 = 922337203685477580" by (simp add: kint64max_def)
    show ?thesis
    proof (cases "k < 18")
      case k: True
      have "(10 :: int) ^ k \<le> 10 ^ 17" using k by (intro power_increasing) auto
      moreover have "10 * v + digit_value c < 10 ^ Suc k" using Cons.prems(3) d(1) by simp
      moreover have "18 - k = Suc (18 - Suc k)" using k by simp
      ultimately show ?thesis
        using Cons.IH [of "10 * v + digit_value c" "Suc k"] Cons.prems True d k
        by (simp add: simps lim)
    next
      case False
      then have "k = 18" using Cons.prems(4) by simp
      then show ?thesis
        using Cons.IH [of v 18] Cons.prems True by (simp add: simps lim)
    qed
  next
    case False
    then show ?thesis using Cons.prems by (simp add: isdigit_ascii)
  qed
qed simp

text \<open>The fraction that follows the digits, if any, and what is left behind it.\<close>

definition fraction_of :: "string \<Rightarrow> string option \<times> string" where
  "fraction_of r = (case r of [] \<Rightarrow> (None, [])
     | c # p \<Rightarrow> if c = CHR ''.'' then (Some (takeWhile ascii_isdigit p), dropWhile ascii_isdigit p) else (None, r))"

definition fraction_digits :: "string option \<Rightarrow> string" where
  "fraction_digits fr = take 18 (case fr of None \<Rightarrow> [] | Some f \<Rightarrow> f)"

lemma power_one: "(10 :: int) ^ n = 1 \<longleftrightarrow> n = 0"
  using one_less_power [of "10 :: int" n] by (cases n) auto

lemma ConsumeDurationNumber_eq:
  assumes "plain p" "fraction_of (dropWhile ascii_isdigit p) = (fr, r)" "takeWhile ascii_isdigit p = ds"
  shows "ConsumeDurationNumber p =
    (if numeral_value 10 ds \<le> kint64max \<and> (ds \<noteq> [] \<or> (\<exists>f. fr = Some f \<and> f \<noteq> []))
     then Inr (Some (r, numeral_value 10 ds, numeral_value 10 (fraction_digits fr), 10 ^ length (fraction_digits fr)))
     else Inr None)"
proof -
  define t where "t = dropWhile ascii_isdigit p"
  have fr_r: "fraction_of t = (fr, r)" using assms(2) by (simp add: t_def)
  have i: "int_part_loop p 0 = (if numeral_value 10 ds \<le> kint64max then Inr (Some (t, numeral_value 10 ds)) else Inr None)"
    using int_part_loop_eq [OF assms(1), of 0] assms(3) by (simp add: numeral_value_def kint64max_def t_def)
  have e: "t = p \<longleftrightarrow> ds = []"
    using takeWhile_dropWhile_id [of ascii_isdigit p] unfolding assms(3) t_def [symmetric] by (metis append_self_conv2 append_Nil)
  show ?thesis
  proof (cases t)
    case Nil
    then show ?thesis using fr_r e
      by (auto simp: ConsumeDurationNumber_def i at_def fraction_of_def fraction_digits_def numeral_value_def)
  next
    case (Cons c q)
    show ?thesis
    proof (cases "c = CHR ''.''")
      case True
      then have fr: "fr = Some (takeWhile ascii_isdigit q)" "r = dropWhile ascii_isdigit q"
        using fr_r Cons by (simp_all add: fraction_of_def)
      have "plain t" using assms(1) set_dropWhileD [of _ ascii_isdigit p] by (auto simp: list_all_iff t_def)
      then have "plain q" using Cons by simp
      then have f: "frac_part_loop q 0 1 = Inr (r, numeral_value 10 (fraction_digits fr), 10 ^ length (fraction_digits fr))"
        using frac_part_loop_eq [of q 0 0] by (simp add: fr fraction_digits_def numeral_value_def Let_def)
      have one: "(10 :: int) ^ length (fraction_digits fr) = 1 \<longleftrightarrow> takeWhile ascii_isdigit q = []"
        unfolding power_one by (auto simp: fraction_digits_def fr min_def split: if_splits)
      show ?thesis
        using Cons True e one [unfolded fr(1)] by (auto simp: ConsumeDurationNumber_def i at_def f fr Let_def)
    next
      case False
      then have "fr = None" "r = t" using fr_r Cons by (simp_all add: fraction_of_def)
      then show ?thesis using Cons False e
        by (auto simp: ConsumeDurationNumber_def i at_def fraction_digits_def numeral_value_def)
    qed
  qed
qed

section \<open>Units\<close>

lemma unit_durations:
  "Nanoseconds 1 = Inr (dur (Fin 4))" "Microseconds 1 = Inr (dur (Fin 4000))" "Milliseconds 1 = Inr (dur (Fin 4000000))"
  "Seconds 1 = Inr (dur (Fin 4000000000))" "Minutes 1 = Inr (dur (Fin (60 * 4000000000)))" "Hours 1 = Inr (dur (Fin (3600 * 4000000000)))"
  using factories [of 1] by (simp_all add: int64_def sat_def limit_def)

lemma unit_ticks_simps [simp]:
  "unit_ticks ''ns'' = 4" "unit_ticks ''us'' = 4000" "unit_ticks ''ms'' = 4000000" "unit_ticks ''s'' = 4000000000"
  "unit_ticks ''m'' = 60 * 4000000000" "unit_ticks ''h'' = 3600 * 4000000000"
  by (simp_all add: unit_ticks_def)

lemma unit_ticks_bounds: "0 < unit_ticks u" "unit_ticks u \<le> 3600 * 4000000000"
  by (simp_all add: unit_ticks_def)

lemma strncmp_append: "strncmp_eq s t (length t) \<Longrightarrow> s = t @ drop (length t) s"
  by (metis append_take_drop_id strncmp_eq_def take_all order_refl)

text \<open>A text that an item can begin.\<close>

definition item_start :: "string \<Rightarrow> bool" where
  "item_start r \<longleftrightarrow> r = [] \<or> ascii_isdigit (hd r) \<or> hd r = CHR ''.''"

lemma ConsumeDurationUnit_unit:
  assumes "u \<in> set units_of_time" "item_start r"
  shows "ConsumeDurationUnit (u @ r) = Inr (Some (r, dur (Fin (unit_ticks u))))"
proof -
  have "take 1 r \<noteq> ''s''" using assms(2) by (cases r) (auto simp: item_start_def ascii_isdigit_def)
  with assms(1) show ?thesis
    by (cases r) (auto simp: units_of_time_def ConsumeDurationUnit_def strncmp_eq_def unit_durations)
qed

lemma ConsumeDurationUnit_cases:
  obtains "ConsumeDurationUnit s = Inr None"
  | u r where "u \<in> set units_of_time" "s = u @ r" "ConsumeDurationUnit s = Inr (Some (r, dur (Fin (unit_ticks u))))"
proof (cases "\<exists>t \<in> set units_of_time. strncmp_eq s t (length t)")
  case False
  then have "ConsumeDurationUnit s = Inr None" by (simp add: ConsumeDurationUnit_def units_of_time_def numeral_2_eq_2)
  then show ?thesis by (rule that(1))
next
  case True
  have "\<exists>u \<in> set units_of_time. strncmp_eq s u (length u) \<and>
      ConsumeDurationUnit s = Inr (Some (drop (length u) s, dur (Fin (unit_ticks u))))"
    using True unfolding units_of_time_def ConsumeDurationUnit_def by (auto simp: unit_durations numeral_2_eq_2)
  then show ?thesis using that(2) strncmp_append by blast
qed

section \<open>Items\<close>

lemma number_bounds:
  assumes "list_all ascii_isdigit ds"
  shows "0 \<le> numeral_value 10 ds" "numeral_value 10 ds < 10 ^ length ds"
proof -
  have "0 \<le> v \<Longrightarrow> v < m \<Longrightarrow> 0 \<le> number_from v ds \<and> number_from v ds < m * 10 ^ length ds" for v m
    using assms
  proof (induction ds arbitrary: v m)
    case (Cons c ds)
    have "0 \<le> digit_value c" "digit_value c < 10" using Cons.prems(3) digit_value_bounds(1) decimal_char(2) by simp_all
    then have "0 \<le> 10 * v + digit_value c" "10 * v + digit_value c < 10 * m" using Cons.prems(1,2) by linarith+
    from Cons.IH [OF this] Cons.prems(3) show ?case by (simp add: ac_simps)
  qed simp
  from this [of 0 1] show "0 \<le> numeral_value 10 ds" "numeral_value 10 ds < 10 ^ length ds"
    by (simp_all add: numeral_value_def)
qed

lemma representable_add_number: "representable e \<Longrightarrow> representable (add_number n u c e)"
proof -
  assume "representable e"
  moreover have "representable (ext_divide (sat x) c)" for x by (cases "sat x") (auto simp: ext_divide_def)
  ultimately show "representable (add_number n u c e)"
    by (cases e; cases "ext_divide (sat (u * n)) c") (auto simp: add_number_def)
qed

lemma sat_divide_1: "ext_divide (sat x) 1 = sat x"
  by (cases "sat x") (auto simp: ext_divide_def sat_def split: if_splits)

lemma add_whole:
  assumes "representable e" "representable (Fin t)" "int64 n"
  shows "bindr (Duration_times (dur (Fin t)) n) (\<lambda>x. Duration_plus (dur e) x) = Inr (dur (ext_plus e (ext_divide (sat (t * n)) 1)))"
  using Duration_times_eq [OF assms(2,3)] Duration_plus_eq [OF assms(1) representable_simps(4)] by (simp add: sat_divide_1)

lemma add_fraction:
  assumes "representable e" "representable (Fin t)" "int64 n" "int64 c"
  shows "bindr (Duration_times (dur (Fin t)) n) (\<lambda>x. bindr (Duration_divide x c) (\<lambda>x. Duration_plus (dur e) x)) =
    Inr (dur (ext_plus e (ext_divide (sat (t * n)) c)))"
proof -
  have "representable (ext_divide (sat (t * n)) c)" by (cases "sat (t * n)") (auto simp: ext_divide_def)
  from Duration_plus_eq [OF assms(1) this] show ?thesis
    using Duration_times_eq [OF assms(2,3)] Duration_divide_eq [OF representable_simps(4) assms(4), of "t * n"] by simp
qed

lemma duration_loop_step:
  assumes "at p \<noteq> CHR 0x00" "ConsumeDurationNumber p = Inr (Some (p', n, f, 10 ^ k))"
    "ConsumeDurationUnit p' = Inr (Some (r, dur (Fin (unit_ticks u))))" "representable e" "sign = 1 \<or> sign = - 1"
    "0 \<le> n" "n \<le> kint64max" "0 \<le> f" "f < 10 ^ k" "k \<le> 18"
  shows "duration_loop sign p (dur e) =
    duration_loop sign r (dur (add_number (sign * f) (unit_ticks u) (10 ^ k) (add_number (sign * n) (unit_ticks u) 1 e)))"
proof -
  have "(10 :: int) ^ k \<le> 10 ^ 18" using assms(10) by (intro power_increasing) auto
  then have i: "int64 (sign * n)" "int64 (sign * f)" "int64 (10 ^ k)"
    using assms(5-9) by (auto simp: int64_def kint64max_def)
  then have i64: "i64 (sign * n) = Inr (sign * n)" "i64 (sign * f) = Inr (sign * f)" by (simp_all add: int64_def)
  have t: "representable (Fin (unit_ticks u))" using unit_ticks_bounds [of u] by (simp add: limit_def)
  have z: "sign \<noteq> 0" using assms(5) by auto
  have n: "(if n \<noteq> 0 then bindr (i64 (sign * n)) (\<lambda>n. bindr (Duration_times (dur (Fin (unit_ticks u))) n) (\<lambda>x. Duration_plus (dur e) x))
      else Inr (dur e)) = Inr (dur (add_number (sign * n) (unit_ticks u) 1 e))"
    using add_whole [OF assms(4) t i(1)] by (simp add: i64 add_number_def z)
  have f: "(if f \<noteq> 0 then bindr (i64 (sign * f)) (\<lambda>n. bindr (Duration_times (dur (Fin (unit_ticks u))) n) (\<lambda>x.
        bindr (Duration_divide x (10 ^ k)) (\<lambda>x. Duration_plus (dur e') x))) else Inr (dur e')) =
      Inr (dur (add_number (sign * f) (unit_ticks u) (10 ^ k) e'))" if "representable e'" for e'
    using add_fraction [OF that t i(2,3)] by (simp add: i64 add_number_def z)
  show ?thesis
    by (subst duration_loop.simps)
      (simp only: assms(1-3) bindr_Inr option.case prod.case n f [OF representable_add_number [OF assms(4)]] if_False simp_thms)
qed

lemma unit_head: "u \<in> set units_of_time \<Longrightarrow> u \<noteq> [] \<and> \<not> ascii_isdigit (hd u) \<and> hd u \<noteq> CHR ''.'' \<and> plain u \<and> CHR 0x00 \<notin> set u"
  by (auto simp: units_of_time_def ascii_isdigit_def)

lemma digits_plain: "list_all ascii_isdigit ds \<Longrightarrow> plain ds \<and> CHR 0x00 \<notin> set ds"
  by (induction ds) (auto simp: ascii_isdigit_def)

lemma item_text_plain: "item_ok i \<Longrightarrow> plain (item_text i) \<and> CHR 0x00 \<notin> set (item_text i)"
  using digits_plain unit_head by (cases i) (auto split: option.splits)

lemma takeWhile_digits:
  assumes "list_all ascii_isdigit ds" "r = [] \<or> \<not> ascii_isdigit (hd r)"
  shows "takeWhile ascii_isdigit (ds @ r) = ds" "dropWhile ascii_isdigit (ds @ r) = r"
  using assms by (induction ds) (cases r; auto)+

lemma item_parts:
  assumes "item_ok (ds, fr, u)"
  shows "takeWhile ascii_isdigit (item_text (ds, fr, u) @ r) = ds"
    "fraction_of (dropWhile ascii_isdigit (item_text (ds, fr, u) @ r)) = (fr, u @ r)"
proof -
  let ?t = "(case fr of None \<Rightarrow> [] | Some f \<Rightarrow> CHR ''.'' # f) @ u @ r"
  have u: "u \<noteq> []" "\<not> ascii_isdigit (hd u)" "hd u \<noteq> CHR ''.''" using unit_head assms by auto
  have "\<not> ascii_isdigit CHR ''.''" by (simp add: ascii_isdigit_def)
  then have "\<not> ascii_isdigit (hd ?t)" using u by (auto split: option.splits)
  then have "takeWhile ascii_isdigit (ds @ ?t) = ds" "dropWhile ascii_isdigit (ds @ ?t) = ?t"
    using takeWhile_digits [of ds ?t] assms by auto
  moreover have "fraction_of ?t = (fr, u @ r)"
  proof (cases fr)
    case None
    then show ?thesis using u by (cases u) (auto simp: fraction_of_def)
  next
    case (Some f)
    then show ?thesis using assms u takeWhile_digits [of f "u @ r"] by (auto simp: fraction_of_def)
  qed
  ultimately show "takeWhile ascii_isdigit (item_text (ds, fr, u) @ r) = ds"
    "fraction_of (dropWhile ascii_isdigit (item_text (ds, fr, u) @ r)) = (fr, u @ r)" by simp_all
qed

lemma fraction_bounds:
  assumes "\<forall>f. fr = Some f \<longrightarrow> list_all ascii_isdigit f"
  shows "0 \<le> numeral_value 10 (fraction_digits fr)" "numeral_value 10 (fraction_digits fr) < 10 ^ length (fraction_digits fr)"
    "length (fraction_digits fr) \<le> 18"
proof -
  have "list_all ascii_isdigit (fraction_digits fr)"
    using assms by (auto simp: fraction_digits_def list_all_iff split: option.splits dest: in_set_takeD)
  from number_bounds [OF this] show "0 \<le> numeral_value 10 (fraction_digits fr)"
    "numeral_value 10 (fraction_digits fr) < 10 ^ length (fraction_digits fr)" .
  show "length (fraction_digits fr) \<le> 18" by (simp add: fraction_digits_def)
qed

text \<open>One round of the loop consumes one item and adds its value.\<close>

lemma duration_loop_item:
  assumes "plain p" "CHR 0x00 \<notin> set p" "p \<noteq> []" "takeWhile ascii_isdigit p = ds" "fraction_of (dropWhile ascii_isdigit p) = (fr, u @ r)"
    "item_ok (ds, fr, u)" "ConsumeDurationUnit (u @ r) = Inr (Some (r, dur (Fin (unit_ticks u))))"
    "representable e" "sign = 1 \<or> sign = - 1"
  shows "duration_loop sign p (dur e) = duration_loop sign r (dur (add_item sign e (ds, fr, u)))"
proof -
  have "ConsumeDurationNumber p =
      Inr (Some (u @ r, numeral_value 10 ds, numeral_value 10 (fraction_digits fr), 10 ^ length (fraction_digits fr)))"
    using ConsumeDurationNumber_eq [OF assms(1,5,4)] assms(6) by (auto split: option.splits)
  moreover have "at p \<noteq> CHR 0x00" using assms(2,3) by (cases p) (auto simp: at_def)
  moreover have "0 \<le> numeral_value 10 ds" "numeral_value 10 ds \<le> kint64max" "\<forall>f. fr = Some f \<longrightarrow> list_all ascii_isdigit f"
    using assms(6) number_bounds [of ds] by auto
  ultimately show ?thesis
    using duration_loop_step [OF _ _ assms(7-9)] fraction_bounds [of fr] by (simp add: fraction_digits_def)
qed

lemma representable_add_item: "representable e \<Longrightarrow> representable (add_item sign e i)"
  by (cases i) (auto simp: Let_def intro!: representable_add_number simp del: representable_simps)

lemma item_text_start: "item_ok i \<Longrightarrow> item_text i \<noteq> [] \<and> item_start (item_text i @ r)"
proof -
  assume ok: "item_ok i"
  obtain ds fr u where i: "i = (ds, fr, u)" by (cases i)
  have "u \<noteq> []" using ok unit_head by (simp add: i)
  with ok show ?thesis by (cases ds) (auto simp: i item_start_def split: option.splits)
qed

lemma items_plain:
  "list_all item_ok items \<Longrightarrow> plain (concat (map item_text items)) \<and> CHR 0x00 \<notin> set (concat (map item_text items))"
  using item_text_plain by (induction items) auto

lemma items_start: "list_all item_ok items \<Longrightarrow> item_start (concat (map item_text items))"
proof (cases items)
  case (Cons a list)
  moreover assume "list_all item_ok items"
  ultimately show ?thesis
    using item_text_start [of a "concat (map item_text list)"] by (simp del: item_ok.simps item_text.simps)
qed (simp add: item_start_def)

lemma duration_loop_complete:
  assumes "list_all item_ok items" "representable e" "sign = 1 \<or> sign = - 1"
  shows "duration_loop sign (concat (map item_text items)) (dur e) = Inr (Some (dur (foldl (add_item sign) e items)))"
  using assms(1,2)
proof (induction items arbitrary: e)
  case Nil
  then show ?case by (subst duration_loop.simps) (simp add: at_def)
next
  case (Cons i items)
  obtain ds fr u where i: "i = (ds, fr, u)" by (cases i)
  let ?r = "concat (map item_text items)"
  have ok: "item_ok (ds, fr, u)" "u \<in> set units_of_time" using Cons.prems i by auto
  have "plain (concat (map item_text (i # items)))" "CHR 0x00 \<notin> set (concat (map item_text (i # items)))"
    using items_plain [OF Cons.prems(1)] by blast+
  then have p: "plain (item_text (ds, fr, u) @ ?r)" "CHR 0x00 \<notin> set (item_text (ds, fr, u) @ ?r)" by (simp_all add: i)
  have "item_start ?r" using items_start [of items] Cons.prems(1) by simp
  note unit = ConsumeDurationUnit_unit [OF ok(2) this]
  have "item_text (ds, fr, u) @ ?r \<noteq> []" using item_text_start [OF ok(1)] by blast
  note step = duration_loop_item [OF p this item_parts [OF ok(1)] ok(1) unit Cons.prems(2) assms(3)]
  have "duration_loop sign (concat (map item_text (i # items))) (dur e) = duration_loop sign ?r (dur (add_item sign e i))"
    using step unfolding i by (simp only: list.map concat.simps)
  also have "\<dots> = Inr (Some (dur (foldl (add_item sign) (add_item sign e i) items)))"
    using Cons.prems by (intro Cons.IH) (simp_all only: list.pred_inject representable_add_item)
  finally show ?case by simp
qed

lemma duration_loop_sound:
  assumes "plain p" "CHR 0x00 \<notin> set p" "representable e" "sign = 1 \<or> sign = - 1"
  shows "duration_loop sign p (dur e) = Inr None \<or>
    (\<exists>items. list_all item_ok items \<and> p = concat (map item_text items) \<and>
       duration_loop sign p (dur e) = Inr (Some (dur (foldl (add_item sign) e items))))"
  using assms(1-3)
proof (induction "length p" arbitrary: p e rule: less_induct)
  case less
  show ?case
  proof (cases "p = []")
    case True
    then show ?thesis using duration_loop_complete [of "[]" e sign] less.prems assms(4) by (intro disjI2 exI [of _ "[]"]) simp
  next
    case False
    then have at: "at p \<noteq> CHR 0x00" using less.prems(2) by (cases p) (auto simp: at_def)
    define ds where "ds = takeWhile ascii_isdigit p"
    obtain fr r where fr: "fraction_of (dropWhile ascii_isdigit p) = (fr, r)" by fastforce
    note number = ConsumeDurationNumber_eq [OF less.prems(1) fr ds_def [symmetric]]
    have p: "p = ds @ (case fr of None \<Rightarrow> [] | Some f \<Rightarrow> CHR ''.'' # f) @ r" "\<forall>f. fr = Some f \<longrightarrow> list_all ascii_isdigit f"
      using fr takeWhile_dropWhile_id [of ascii_isdigit p] unfolding ds_def [symmetric]
      by (auto simp: fraction_of_def list_all_iff dest: set_takeWhileD split: list.splits if_splits)
    show ?thesis
    proof (cases "ConsumeDurationNumber p = Inr None \<or> ConsumeDurationUnit r = Inr None")
      case True
      then have "duration_loop sign p (dur e) = Inr None"
        using number at by (subst duration_loop.simps) (auto split: if_splits)
      then show ?thesis ..
    next
      case ok: False
      then obtain u r' where u: "u \<in> set units_of_time" "r = u @ r'"
          "ConsumeDurationUnit r = Inr (Some (r', dur (Fin (unit_ticks u))))"
        by (metis ConsumeDurationUnit_cases)
      have i: "item_ok (ds, fr, u)"
        using ok number u(1) p(2) by (auto simp: ds_def list_all_iff dest: set_takeWhileD split: if_splits option.splits)
      have pr: "p = item_text (ds, fr, u) @ r'" using p(1) u(2) by simp
      then have "length r' < length p" "plain r'" "CHR 0x00 \<notin> set r'"
        using item_text_start [OF i] less.prems(1,2) by auto
      note ih = less.hyps [OF this representable_add_item [OF less.prems(3)], of sign "(ds, fr, u)"]
      have step: "duration_loop sign p (dur e) = duration_loop sign r' (dur (add_item sign e (ds, fr, u)))"
        by (rule duration_loop_item [OF less.prems(1,2) False ds_def [symmetric] _ i _ less.prems(3) assms(4)])
          (use fr u in simp_all)
      from ih show ?thesis
      proof (elim disjE exE conjE)
        fix items
        assume items: "list_all item_ok items" "r' = concat (map item_text items)"
          and "duration_loop sign r' (dur (add_item sign e (ds, fr, u))) =
            Inr (Some (dur (foldl (add_item sign) (add_item sign e (ds, fr, u)) items)))"
        then have "duration_loop sign p (dur e) = Inr (Some (dur (foldl (add_item sign) e ((ds, fr, u) # items))))"
          unfolding step by (simp only: foldl.simps)
        moreover have "p = concat (map item_text ((ds, fr, u) # items))" using pr items(2) by (simp only: list.map concat.simps)
        ultimately show ?thesis using i items(1) by (metis list.pred_inject(2))
      qed (simp add: step)
    qed
  qed
qed

section \<open>Texts of durations\<close>

definition duration_text :: "int \<Rightarrow> string \<Rightarrow> ext \<Rightarrow> bool" where
  "duration_text sign body e \<longleftrightarrow>
     body = ''0'' \<and> e = Fin 0 \<or> body = ''inf'' \<and> e = (if sign < 0 then NegInf else PosInf) \<or>
     (\<exists>items. items \<noteq> [] \<and> list_all item_ok items \<and> body = concat (map item_text items) \<and>
        e = foldl (add_item sign) (Fin 0) items)"

definition signed_text :: "string \<Rightarrow> int \<Rightarrow> string \<Rightarrow> bool" where
  "signed_text t sign body \<longleftrightarrow> sign = 1 \<and> (t = body \<or> t = CHR ''+'' # body) \<or> sign = - 1 \<and> t = CHR ''-'' # body"

lemma items_shape:
  assumes "list_all item_ok items" "items \<noteq> []"
  shows "2 \<le> length (concat (map item_text items))" "item_start (concat (map item_text items))"
proof -
  obtain ds fr u list where items: "items = (ds, fr, u) # list" using assms(2) by (cases items) auto
  then have "u \<noteq> []" using assms(1) unit_head by auto
  then have "1 \<le> length u" by (cases u) auto
  moreover have "1 \<le> length ds \<or> (\<exists>f. fr = Some f)" using assms(1) items by (cases ds) (auto split: option.splits)
  ultimately show "2 \<le> length (concat (map item_text items))" by (auto simp: items)
qed (rule items_start [OF assms(1)])

lemma item_start_head: "item_start r \<Longrightarrow> r \<noteq> [] \<Longrightarrow> hd r \<noteq> CHR ''-'' \<and> hd r \<noteq> CHR ''+'' \<and> hd r \<noteq> CHR ''i''"
  by (auto simp: item_start_def ascii_isdigit_def)

lemma duration_text_head:
  assumes "duration_text sign body e"
  shows "body \<noteq> []" "hd body \<noteq> CHR ''-''" "hd body \<noteq> CHR ''+''"
proof -
  have "body \<noteq> [] \<and> hd body \<noteq> CHR ''-'' \<and> hd body \<noteq> CHR ''+''"
    using assms unfolding duration_text_def
  proof (elim disjE exE conjE)
    fix items
    assume "list_all item_ok items" "items \<noteq> []" "body = concat (map item_text items)"
    then have "2 \<le> length body" "item_start body" using items_shape [of items] by simp_all
    moreover from this have "body \<noteq> []" by (cases body) simp_all
    ultimately show ?thesis using item_start_head [of body] by simp
  qed simp_all
  then show "body \<noteq> []" "hd body \<noteq> CHR ''-''" "hd body \<noteq> CHR ''+''" by simp_all
qed

text \<open>The part of the parser behind the sign.\<close>

definition parse_body :: "int \<Rightarrow> string \<Rightarrow> Duration option result" where
  "parse_body sign start =
     (if at start = CHR 0x00 then Inr None
      else if at start = CHR ''0'' \<and> at (tl start) = CHR 0x00 then Inr (Some ZeroDuration)
      else if start = ''inf'' then bindr (Duration_times InfiniteDuration sign) (\<lambda>d. Inr (Some d))
      else duration_loop sign start ZeroDuration)"

lemma parse_body_cases:
  assumes "CHR 0x00 \<notin> set body"
  shows "parse_body sign body = (if body = [] then Inr None else if body = ''0'' then Inr (Some ZeroDuration)
      else if body = ''inf'' then bindr (Duration_times InfiniteDuration sign) (\<lambda>d. Inr (Some d))
      else duration_loop sign body ZeroDuration)"
proof (cases body)
  case (Cons c t)
  with assms show ?thesis unfolding parse_body_def by (cases t) (auto simp: at_def)
qed (simp add: parse_body_def at_def)

lemma infinite_text: "sign = 1 \<or> sign = - 1 \<Longrightarrow>
    Duration_times InfiniteDuration sign = Inr (dur (if sign < 0 then NegInf else PosInf))"
  using Duration_times_eq [of PosInf sign] by (auto simp: constants int64_def)

lemma parse_body_complete:
  assumes "duration_text sign body e" "sign = 1 \<or> sign = - 1"
  shows "parse_body sign body = Inr (Some (dur e))" "CHR 0x00 \<notin> set body"
proof -
  have "CHR 0x00 \<notin> set body \<and> parse_body sign body = Inr (Some (dur e))"
    using assms(1) unfolding duration_text_def
  proof (elim disjE exE conjE)
    fix items
    assume i: "list_all item_ok items" "items \<noteq> []" "body = concat (map item_text items)" "e = foldl (add_item sign) (Fin 0) items"
    have b: "2 \<le> length body" "item_start body" using items_shape [OF i(1,2)] by (simp_all only: i(3))
    have "body \<noteq> []" "body \<noteq> ''0''" using b(1) by auto
    moreover have "body \<noteq> ''inf''" using item_start_head [OF b(2)] by auto
    moreover have "CHR 0x00 \<notin> set body" using items_plain [OF i(1)] i(3) by simp
    ultimately have "CHR 0x00 \<notin> set body" "parse_body sign body = duration_loop sign body (dur (Fin 0))"
      using parse_body_cases [of body sign] by (simp_all add: zero_dur(1))
    then show ?thesis using duration_loop_complete [OF i(1) zero_dur(2) assms(2)] i(3,4) by simp
  qed (use infinite_text [OF assms(2)] in \<open>simp_all add: parse_body_def at_def constants\<close>)
  then show "parse_body sign body = Inr (Some (dur e))" "CHR 0x00 \<notin> set body" by blast+
qed

lemma parse_body_sound:
  assumes "plain body" "CHR 0x00 \<notin> set body" "sign = 1 \<or> sign = - 1"
  shows "parse_body sign body = Inr None \<or> (\<exists>e. duration_text sign body e \<and> parse_body sign body = Inr (Some (dur e)))"
proof (cases "body = [] \<or> body = ''0'' \<or> body = ''inf''")
  case True
  moreover have "duration_text sign ''0'' (Fin 0)" "duration_text sign ''inf'' (if sign < 0 then NegInf else PosInf)"
    by (simp_all add: duration_text_def)
  moreover have "parse_body sign ''0'' = Inr (Some (dur (Fin 0)))" "parse_body sign [] = Inr None"
      "parse_body sign ''inf'' = Inr (Some (dur (if sign < 0 then NegInf else PosInf)))"
    using infinite_text [OF assms(3)] by (simp_all add: parse_body_def at_def constants)
  ultimately show ?thesis by auto
next
  case False
  then have "parse_body sign body = duration_loop sign body (dur (Fin 0))"
    unfolding parse_body_cases [OF assms(2)] by (simp add: zero_dur(1))
  then show ?thesis
    using duration_loop_sound [OF assms(1,2) zero_dur(2) assms(3)]
  proof (elim disjE exE conjE)
    fix items
    assume i: "list_all item_ok items" "body = concat (map item_text items)"
    then have "items \<noteq> []" using False by auto
    with i have "duration_text sign body (foldl (add_item sign) (Fin 0) items)" unfolding duration_text_def by blast
    moreover assume "duration_loop sign body (dur (Fin 0)) = Inr (Some (dur (foldl (add_item sign) (Fin 0) items)))"
      "parse_body sign body = duration_loop sign body (dur (Fin 0))"
    ultimately show ?thesis by auto
  qed simp
qed

lemma ParseDuration_body:
  assumes "signed_text (c_str s) sign body" "body \<noteq> []" "hd body \<noteq> CHR ''-''" "hd body \<noteq> CHR ''+''"
  shows "ParseDuration s = parse_body sign body"
proof -
  obtain c t where b: "body = c # t" using assms(2) by (cases body) auto
  have p: "ParseDuration s = (let (sign, start) = (if at (c_str s) = CHR ''-'' \<or> at (c_str s) = CHR ''+''
      then (if at (c_str s) = CHR ''-'' then - 1 else 1, tl (c_str s)) else (1, c_str s)) in parse_body sign start)"
    unfolding ParseDuration_def parse_body_def Let_def ..
  from assms(1) show ?thesis
    unfolding signed_text_def by (elim disjE conjE) (use assms(3,4) b in \<open>simp_all add: p at_def\<close>)
qed

end
