(* ===== verification/Instants.thy ===== *)
theory Instants
  imports Durations
begin

text \<open>
  Points in time of the vendored Abseil (the class \<open>Time\<close> of \<open>time/time.h\<close> and \<open>time/time.cc\<close>): the
  duration since the Unix epoch, with the conversions to and from counts of units, the universal
  time scale and the structures of the operating system. Conversions in floating point and the
  calls of time zones are left out.
\<close>

section \<open>The type\<close>

record Time =
  time_rep :: Duration

definition FromUnixDuration :: "Duration \<Rightarrow> Time" where
  "FromUnixDuration d = \<lparr>time_rep = d\<rparr>"

definition ToUnixDuration :: "Time \<Rightarrow> Duration" where
  "ToUnixDuration t = time_rep t"

definition Time_less :: "Time \<Rightarrow> Time \<Rightarrow> bool" where
  "Time_less lhs rhs \<longleftrightarrow> Duration_less (time_rep lhs) (time_rep rhs)"

definition Time_eq :: "Time \<Rightarrow> Time \<Rightarrow> bool" where
  "Time_eq lhs rhs \<longleftrightarrow> Duration_eq (time_rep lhs) (time_rep rhs)"

definition Time_le :: "Time \<Rightarrow> Time \<Rightarrow> bool" where
  "Time_le lhs rhs \<longleftrightarrow> \<not> Time_less rhs lhs"

definition Time_plus :: "Time \<Rightarrow> Duration \<Rightarrow> Time result" where
  "Time_plus lhs rhs = bindr (Duration_plus (time_rep lhs) rhs) (\<lambda>d. Inr (lhs\<lparr>time_rep := d\<rparr>))"

definition Time_minus :: "Time \<Rightarrow> Duration \<Rightarrow> Time result" where
  "Time_minus lhs rhs = bindr (Duration_minus (time_rep lhs) rhs) (\<lambda>d. Inr (lhs\<lparr>time_rep := d\<rparr>))"

definition Time_difference :: "Time \<Rightarrow> Time \<Rightarrow> Duration result" where
  "Time_difference lhs rhs = Duration_minus (time_rep lhs) (time_rep rhs)"

definition UnixEpoch :: Time where
  "UnixEpoch = \<lparr>time_rep = MakeDuration 0 0\<rparr>"

definition UniversalEpoch :: Time where
  "UniversalEpoch = \<lparr>time_rep = MakeDuration (- 24 * 719162 * 3600) 0\<rparr>"

definition InfiniteFuture :: Time where
  "InfiniteFuture = \<lparr>time_rep = MakeDuration kint64max u32_max\<rparr>"

definition InfinitePast :: Time where
  "InfinitePast = \<lparr>time_rep = MakeDuration kint64min u32_max\<rparr>"

section \<open>From counts of units\<close>

definition FromUnixNanos :: "int \<Rightarrow> Time result" where
  "FromUnixNanos ns = bindr (Nanoseconds ns) (\<lambda>d. Inr (FromUnixDuration d))"

definition FromUnixMicros :: "int \<Rightarrow> Time result" where
  "FromUnixMicros us = bindr (Microseconds us) (\<lambda>d. Inr (FromUnixDuration d))"

definition FromUnixMillis :: "int \<Rightarrow> Time result" where
  "FromUnixMillis ms = bindr (Milliseconds ms) (\<lambda>d. Inr (FromUnixDuration d))"

definition FromUnixSeconds :: "int \<Rightarrow> Time result" where
  "FromUnixSeconds s = bindr (Seconds s) (\<lambda>d. Inr (FromUnixDuration d))"

definition FromTimeT :: "int \<Rightarrow> Time result" where
  "FromTimeT t = bindr (Seconds t) (\<lambda>d. Inr (FromUnixDuration d))"

definition FromUniversal :: "int \<Rightarrow> Time result" where
  "FromUniversal universal =
     bindr (Nanoseconds universal) (\<lambda>n. bindr (Duration_times n 100) (\<lambda>d. Time_plus UniversalEpoch d))"

definition TimeFromTimespec :: "timespec \<Rightarrow> Time result" where
  "TimeFromTimespec ts = bindr (DurationFromTimespec ts) (\<lambda>d. Inr (FromUnixDuration d))"

definition TimeFromTimeval :: "timeval \<Rightarrow> Time result" where
  "TimeFromTimeval tv = bindr (DurationFromTimeval tv) (\<lambda>d. Inr (FromUnixDuration d))"

section \<open>To counts of units\<close>

definition FloorToUnit :: "Duration \<Rightarrow> Duration \<Rightarrow> int result" where
  "FloorToUnit d unit =
     bindr (IDivDuration True d unit) (\<lambda>(q, rem).
     if q > 0 \<or> Duration_ge rem ZeroDuration \<or> q = kint64min then Inr q else i64 (q - 1))"

definition ToUnixNanos :: "Time \<Rightarrow> int result" where
  "ToUnixNanos t =
     (if rep_hi (ToUnixDuration t) \<ge> 0 \<and> drop_bit 33 (rep_hi (ToUnixDuration t)) = 0 then
        bindr (i64 (rep_hi (ToUnixDuration t) * 1000 * 1000 * 1000)) (\<lambda>p. i64 (p + rep_lo (ToUnixDuration t) sdiv 4))
      else bindr (Nanoseconds 1) (\<lambda>u. FloorToUnit (ToUnixDuration t) u))"

definition ToUnixMicros :: "Time \<Rightarrow> int result" where
  "ToUnixMicros t =
     (if rep_hi (ToUnixDuration t) \<ge> 0 \<and> drop_bit 43 (rep_hi (ToUnixDuration t)) = 0 then
        bindr (i64 (rep_hi (ToUnixDuration t) * 1000 * 1000)) (\<lambda>p. i64 (p + rep_lo (ToUnixDuration t) sdiv 4000))
      else bindr (Microseconds 1) (\<lambda>u. FloorToUnit (ToUnixDuration t) u))"

definition ToUnixMillis :: "Time \<Rightarrow> int result" where
  "ToUnixMillis t =
     (if rep_hi (ToUnixDuration t) \<ge> 0 \<and> drop_bit 53 (rep_hi (ToUnixDuration t)) = 0 then
        bindr (i64 (rep_hi (ToUnixDuration t) * 1000)) (\<lambda>p. i64 (p + rep_lo (ToUnixDuration t) sdiv (4000 * 1000)))
      else bindr (Milliseconds 1) (\<lambda>u. FloorToUnit (ToUnixDuration t) u))"

definition ToUnixSeconds :: "Time \<Rightarrow> int" where
  "ToUnixSeconds t = rep_hi (ToUnixDuration t)"

definition ToUniversal :: "Time \<Rightarrow> int result" where
  "ToUniversal t =
     bindr (Time_difference t UniversalEpoch) (\<lambda>d. bindr (Nanoseconds 100) (\<lambda>u. FloorToUnit d u))"

definition Time_ToTimespec :: "Time \<Rightarrow> timespec" where
  "Time_ToTimespec t =
     (let d = ToUnixDuration t;
          largest = (if Duration_ge d ZeroDuration
                     then \<lparr>tv_sec = kint64max, tv_nsec = 1000 * 1000 * 1000 - 1\<rparr> else \<lparr>tv_sec = kint64min, tv_nsec = 0\<rparr>)
      in if \<not> IsInfiniteDuration d then
           let sec = narrow64 (rep_hi d) in
           if sec = rep_hi d then \<lparr>tv_sec = sec, tv_nsec = rep_lo d sdiv 4\<rparr> else largest
         else largest)"

definition Time_ToTimeval :: "Time \<Rightarrow> timeval" where
  "Time_ToTimeval t =
     (let ts = Time_ToTimespec t; sec = narrow64 (tv_sec ts)
      in if sec \<noteq> tv_sec ts then
           if tv_sec ts < 0 then \<lparr>val_sec = kint64min, val_usec = 0\<rparr>
           else \<lparr>val_sec = kint64max, val_usec = 1000 * 1000 - 1\<rparr>
         else \<lparr>val_sec = sec, val_usec = tv_nsec ts sdiv 1000\<rparr>)"

definition ToTimeT :: "Time \<Rightarrow> int" where
  "ToTimeT t = tv_sec (Time_ToTimespec t)"

end
