(* ===== verification/Instant_Laws.thy ===== *)
theory Instant_Laws
  imports Instants Duration_Units
begin

text \<open>
  Conversions of points in time round towards the past: each is the floor of a number of ticks,
  clamped to 64 bits.
\<close>

definition ext_floor :: "ext \<Rightarrow> int \<Rightarrow> int" where
  "ext_floor e D = (case e of Fin t \<Rightarrow> clamp64 (t div D) | PosInf \<Rightarrow> 2 ^ 63 - 1 | NegInf \<Rightarrow> - (2 ^ 63))"

lemma FloorToUnit_Fin:
  assumes "representable (Fin t)" "representable (Fin D)" "0 < D"
  shows "FloorToUnit (dur (Fin t)) (dur (Fin D)) = Inr (clamp64 (t div D))"
proof -
  define q where "q = t sdiv D"
  have D: "D \<noteq> 0" using assms(3) by simp
  note left = clamped_rest_bounds [OF D, of t, folded q_def]
  then have "representable (Fin (t - clamp64 q * D))" using assms(1) by (auto split: if_splits)
  then have ge: "Duration_ge (dur (Fin (t - clamp64 q * D))) ZeroDuration \<longleftrightarrow> 0 \<le> t - clamp64 q * D"
    unfolding zero_dur(1) by (subst Duration_order(2)) (simp_all only: zero_dur(2) less_eq_ext.simps)
  have "FloorToUnit (dur (Fin t)) (dur (Fin D)) =
      (if clamp64 q > 0 \<or> 0 \<le> t - clamp64 q * D \<or> clamp64 q = - (2 ^ 63) then Inr (clamp64 q) else i64 (clamp64 q - 1))"
    using IDivDuration_eq [OF assms(1,2)] D ge by (simp add: FloorToUnit_def ext_div_def ext_rem_def q_def kint64min_def)
  also have "\<dots> = Inr (clamp64 (t div D))"
  proof (cases "0 \<le> t")
    case True
    then have "q = t div D" using sdiv_nonneg [OF True assms(3)] by (simp add: q_def)
    then show ?thesis using left True by simp
  next
    case False
    obtain E where E: "q * D = - E" "0 \<le> E" "E \<le> - t" "- t < E + D" using truncated [OF D, of t] False assms(3) by (auto simp: q_def)
    have f: "t div D = (if t = q * D then q else q - 1)"
    proof (cases "t = q * D")
      case True
      then show ?thesis using D by simp
    next
      case ne: False
      have "t div D = q - 1"
        by (rule int_div_pos_eq [of _ _ _ "t - q * D + D"]) (use E ne in \<open>simp_all add: algebra_simps\<close>)
      then show ?thesis using ne by simp
    qed
    have "q \<le> 0" using E(1,2) assms(3) by (metis mult_le_0_iff neg_le_0_iff_le not_less linorder_not_le)
    show ?thesis
    proof (cases "q \<le> - (2 ^ 63)")
      case True
      then have "clamp64 q = - (2 ^ 63)" "clamp64 (t div D) = - (2 ^ 63)" by (auto simp: clamp64_def f)
      then show ?thesis by simp
    next
      case big: False
      then have "clamp64 q = q" "clamp64 (t div D) = t div D" using \<open>q \<le> 0\<close> by (auto simp: clamp64_def f)
      then show ?thesis using big \<open>q \<le> 0\<close> E f by auto
    qed
  qed
  finally show ?thesis .
qed

lemma FloorToUnit_eq:
  assumes "representable e" "representable (Fin D)" "0 < D"
  shows "FloorToUnit (dur e) (dur (Fin D)) = Inr (ext_floor e D)"
proof (cases e)
  case (Fin t)
  then show ?thesis using FloorToUnit_Fin [of t D] assms by (simp add: ext_floor_def)
next
  case NegInf
  then show ?thesis using IDivDuration_eq [OF assms(1,2)] assms(3)
    by (simp add: FloorToUnit_def ext_div_def ext_rem_def ext_floor_def kint64min_def)
next
  case PosInf
  then show ?thesis using IDivDuration_eq [OF assms(1,2)] assms(3)
    by (simp add: FloorToUnit_def ext_div_def ext_rem_def ext_floor_def kint64min_def)
qed

lemma count_or_floor:
  assumes "representable e" "representable (Fin D)" "D * N = 4000000000" "0 < N" "2 ^ k * N + N \<le> 2 ^ 63" "k < 63"
  shows "(if rep_hi (dur e) \<ge> 0 \<and> drop_bit k (rep_hi (dur e)) = 0
      then bindr (i64 (rep_hi (dur e) * N)) (\<lambda>p. i64 (p + rep_lo (dur e) sdiv D)) else FloorToUnit (dur e) (dur (Fin D)))
    = Inr (ext_floor e D)"
proof -
  have D: "0 < D" using assms(3,4) by (metis zero_less_mult_pos2 zero_less_numeral)
  show ?thesis
  proof (cases "rep_hi (dur e) \<ge> 0 \<and> drop_bit k (rep_hi (dur e)) = 0")
    case True
    have "ext_div e (Fin D) = ext_floor e D"
    proof (cases e)
      case (Fin t)
      then have "0 \<le> t" using True scale_sign [of t] assms(1) by auto
      then show ?thesis using D sdiv_nonneg [of t D] by (simp add: Fin ext_div_def ext_floor_def)
    qed (use True D in \<open>simp_all add: ext_div_def ext_floor_def\<close>)
    then show ?thesis using True count_or_divide [OF assms] by simp
  next
    case False
    then show ?thesis using FloorToUnit_eq [OF assms(1,2) D] by (simp only: if_False)
  qed
qed

lemma time_rep_simps [simp]: "ToUnixDuration (FromUnixDuration d) = d" "time_rep (FromUnixDuration d) = d"
  by (simp_all add: ToUnixDuration_def FromUnixDuration_def)

lemma time_rep_update: "t\<lparr>time_rep := d\<rparr> = FromUnixDuration d"
  by (simp add: FromUnixDuration_def)

lemma ToUnix_eq:
  assumes "representable e"
  shows "ToUnixNanos (FromUnixDuration (dur e)) = Inr (ext_floor e 4)"
    "ToUnixMicros (FromUnixDuration (dur e)) = Inr (ext_floor e 4000)"
    "ToUnixMillis (FromUnixDuration (dur e)) = Inr (ext_floor e 4000000)"
proof -
  have units: "Nanoseconds 1 = Inr (dur (Fin 4))" "Microseconds 1 = Inr (dur (Fin 4000))" "Milliseconds 1 = Inr (dur (Fin 4000000))"
    "representable (Fin 4)" "representable (Fin 4000)" "representable (Fin 4000000)"
    using factories(1-3) [of 1] by (simp_all add: int64_def limit_def)
  have nanos: "x * 1000 * 1000 * 1000 = x * 1000000000" and micros: "x * 1000 * 1000 = x * 1000000" for x :: int by simp_all
  have lit: "(4000 :: int) * 1000 = 4000000" by simp
  show "ToUnixNanos (FromUnixDuration (dur e)) = Inr (ext_floor e 4)"
    unfolding ToUnixNanos_def time_rep_simps units(1) bindr_Inr nanos by (rule count_or_floor [OF assms units(4)]) simp_all
  show "ToUnixMicros (FromUnixDuration (dur e)) = Inr (ext_floor e 4000)"
    unfolding ToUnixMicros_def time_rep_simps units(2) bindr_Inr micros by (rule count_or_floor [OF assms units(5)]) simp_all
  show "ToUnixMillis (FromUnixDuration (dur e)) = Inr (ext_floor e 4000000)"
    unfolding ToUnixMillis_def time_rep_simps units(3) bindr_Inr lit by (rule count_or_floor [OF assms units(6)]) simp_all
qed

text \<open>The epoch of the universal time scale, in ticks: the first day of year one.\<close>

lemma UniversalEpoch_eq:
  "time_rep UniversalEpoch = dur (Fin (day_number 1 1 1 * 86400 * 4000000000))" "day_number 1 1 1 = - 719162"
proof -
  show n: "day_number 1 1 1 = - 719162" by code_simp
  have "dur (Fin (- 62135596800 * 4000000000 + 0)) = MakeDuration (- 62135596800) 0" by (rule dur_parts) simp_all
  then show "time_rep UniversalEpoch = dur (Fin (day_number 1 1 1 * 86400 * 4000000000))"
    by (simp add: UniversalEpoch_def n)
qed

lemma universal_round_trip:
  assumes "int64 n"
  shows "bindr (FromUniversal n) ToUniversal = Inr n"
proof -
  define E :: int where "E = - 719162 * 86400 * 4000000000"
  have e: "time_rep UniversalEpoch = dur (Fin E)" "representable (Fin E)" using UniversalEpoch_eq by (simp_all add: E_def limit_def)
  have r: "representable (Fin (n * 4))" "representable (Fin (n * 400))" "representable (Fin (E + n * 400))" "representable (Fin 400)"
    using assms by (auto simp: int64_def limit_def E_def)
  have sats: "sat (n * 4 * 100) = Fin (n * 400)" "sat (E + n * 400) = Fin (E + n * 400)" "sat (n * 400) = Fin (n * 400)"
    using r(2,3) by (simp_all add: sat_Fin)
  have "Duration_times (dur (Fin (n * 4))) 100 = Inr (dur (Fin (n * 400)))"
    using Duration_times_eq [OF r(1), of 100] sats(1) by (simp add: int64_def)
  moreover have "Duration_plus (dur (Fin E)) (dur (Fin (n * 400))) = Inr (dur (Fin (E + n * 400)))"
    using Duration_plus_Fin [OF e(2) r(2)] sats(2) by simp
  ultimately have f: "FromUniversal n = Inr (FromUnixDuration (dur (Fin (E + n * 400))))"
    by (simp add: FromUniversal_def factories [OF assms] Time_plus_def e(1) time_rep_update)
  have "Duration_minus (dur (Fin (E + n * 400))) (dur (Fin E)) = Inr (dur (Fin (n * 400)))"
    using Duration_minus_Fin [OF r(3) e(2)] sats(3) by simp
  then show ?thesis
    using FloorToUnit_Fin [OF r(2,4)] factories(1) [of 100] int64_clamp [OF assms]
    by (simp add: f ToUniversal_def Time_difference_def e(1) int64_def)
qed

lemma Unix_round_trip:
  assumes "int64 n"
  shows "bindr (FromUnixNanos n) ToUnixNanos = Inr n" "bindr (FromUnixMicros n) ToUnixMicros = Inr n"
    "bindr (FromUnixMillis n) ToUnixMillis = Inr n" "bindr (FromUnixSeconds n) (\<lambda>t. Inr (ToUnixSeconds t)) = Inr n"
proof -
  have r: "representable (Fin (n * 4))" "representable (Fin (n * 4000))" "representable (Fin (n * 4000000))"
    using assms by (simp_all add: int64_def limit_def)
  show "bindr (FromUnixNanos n) ToUnixNanos = Inr n" "bindr (FromUnixMicros n) ToUnixMicros = Inr n"
    "bindr (FromUnixMillis n) ToUnixMillis = Inr n"
    by (simp_all add: FromUnixNanos_def FromUnixMicros_def FromUnixMillis_def factories [OF assms] ToUnix_eq r [unfolded representable_simps]
        ext_floor_def int64_clamp [OF assms])
  show "bindr (FromUnixSeconds n) (\<lambda>t. Inr (ToUnixSeconds t)) = Inr n"
    by (simp add: FromUnixSeconds_def factories [OF assms] ToUnixSeconds_def rep_dur_Fin)
qed

lemma Time_structures:
  assumes "representable (Fin t)"
  shows "Time_ToTimespec (FromUnixDuration (dur (Fin t))) = \<lparr>tv_sec = t div 4 div 1000000000, tv_nsec = t div 4 mod 1000000000\<rparr>"
    "Time_ToTimeval (FromUnixDuration (dur (Fin t))) = \<lparr>val_sec = t div 4000 div 1000000, val_usec = t div 4000 mod 1000000\<rparr>"
proof -
  obtain h l where t: "t = h * 4000000000 + l" "0 \<le> l" "l < 4000000000" "- (2 ^ 63) \<le> h" "h < 2 ^ 63"
      "rep_hi (dur (Fin t)) = h" "rep_lo (dur (Fin t)) = l"
    using finE [OF assms] .
  have w: "narrow64 h = h" using t(4,5) by (intro narrow64_id) (simp add: int64_def)
  have q: "t div 4 = h * 1000000000 + l div 4" "t div 4000 = h * 1000000 + l div 4 div 1000" using t(1) by simp_all
  have p: "t div 4 div 1000000000 = h" "t div 4 mod 1000000000 = l div 4" "t div 4000 div 1000000 = h"
    "t div 4000 mod 1000000 = l div 4 div 1000" unfolding q using t(2,3) by auto
  have s: "l sdiv 4 = l div 4" "(l div 4) sdiv 1000 = l div 4 div 1000" using sdiv_nonneg t(2) by simp_all
  show ts: "Time_ToTimespec (FromUnixDuration (dur (Fin t))) = \<lparr>tv_sec = t div 4 div 1000000000, tv_nsec = t div 4 mod 1000000000\<rparr>"
    unfolding p by (simp add: Time_ToTimespec_def Let_def t(6,7) w s)
  show "Time_ToTimeval (FromUnixDuration (dur (Fin t))) = \<lparr>val_sec = t div 4000 div 1000000, val_usec = t div 4000 mod 1000000\<rparr>"
    unfolding Time_ToTimeval_def ts Let_def p by (simp add: w s)
qed

end
