(* ===== verification/Duration_Claims.thy ===== *)
theory Duration_Claims
  imports Duration_Text Instant_Laws
begin

text \<open>
  The properties of 128-bit integers and durations of the vendored Abseil that the development
  claims: the portable 128-bit arithmetic, the saturating arithmetic of durations, quotients and
  rounding, the conversions, points in time, and the parser.
\<close>

unbundle bit_operations_syntax

section \<open>128-bit integers\<close>

text \<open>C35: the pair of 64-bit words is a 128-bit word. The carries of sums and differences, the
  product by 32-bit halves, shifts by any amount below 128 and the division that shifts and
  subtracts compute what the operations on words of 128 bits compute; no shift on the way is
  undefined.\<close>

theorem uint128_is_128_bit:
  assumes "0 \<le> n" "n < 128" "w128 y \<noteq> 0"
  shows "(uint128_eq x y \<longleftrightarrow> w128 x = w128 y) \<and> (uint128_less x y \<longleftrightarrow> w128 x < w128 y) \<and>
    (uint128_ge x y \<longleftrightarrow> w128 x \<ge> w128 y) \<and> (w128 x = w128 z \<longrightarrow> x = z) \<and>
    w128 (uint128_plus x z) = w128 x + w128 z \<and> w128 (uint128_minus x z) = w128 x - w128 z \<and>
    w128 (uint128_neg x) = - w128 x \<and> w128 (uint128_not x) = NOT (w128 x) \<and>
    w128 (uint128_or x z) = w128 x OR w128 z \<and> w128 (uint128_and x z) = w128 x AND w128 z \<and>
    w128 (uint128_xor x z) = w128 x XOR w128 z \<and>
    (\<exists>l r p q m. uint128_shl x n = Inr l \<and> w128 l = push_bit (nat n) (w128 x) \<and>
       uint128_shr x n = Inr r \<and> w128 r = drop_bit (nat n) (w128 x) \<and>
       uint128_times x z = Inr p \<and> w128 p = w128 x * w128 z \<and>
       uint128_div x y = Inr q \<and> w128 q = w128 x div w128 y \<and>
       uint128_mod x y = Inr m \<and> w128 m = w128 x mod w128 y)"
proof -
  obtain l where l: "uint128_shl x n = Inr l" "w128 l = push_bit (nat n) (w128 x)" using uint128_shl_eq [OF assms(1,2)] .
  obtain r where r: "uint128_shr x n = Inr r" "w128 r = drop_bit (nat n) (w128 x)" using uint128_shr_eq [OF assms(1,2)] .
  obtain p where p: "uint128_times x z = Inr p" "w128 p = w128 x * w128 z" using uint128_times_eq .
  obtain q m where "DivModImpl x y = Inr (q, m)" "w128 q = w128 x div w128 y" "w128 m = w128 x mod w128 y"
    using DivModImpl_eq [OF assms(3)] .
  then have "uint128_div x y = Inr q" "uint128_mod x y = Inr m" "w128 q = w128 x div w128 y" "w128 m = w128 x mod w128 y"
    by (simp_all add: uint128_div_def uint128_mod_def)
  with l r p have ops: "\<exists>l r p q m. uint128_shl x n = Inr l \<and> w128 l = push_bit (nat n) (w128 x) \<and>
       uint128_shr x n = Inr r \<and> w128 r = drop_bit (nat n) (w128 x) \<and>
       uint128_times x z = Inr p \<and> w128 p = w128 x * w128 z \<and>
       uint128_div x y = Inr q \<and> w128 q = w128 x div w128 y \<and>
       uint128_mod x y = Inr m \<and> w128 m = w128 x mod w128 y" by blast
  show ?thesis by (intro conjI ops) (simp_all only: uint128_simps w128_inject simp_thms)
qed

theorem uint128_is_128_bit_witness:
  "w128 (MakeUint128 0 10) \<noteq> 0 \<and>
   (\<exists>q. uint128_div (MakeUint128 1 5) (MakeUint128 0 10) = Inr q \<and> w128 q = (2 ^ 64 + 5) div 10)"
proof -
  have v: "w128 (MakeUint128 0 10) = 10" "w128 (MakeUint128 1 5) = 2 ^ 64 + 5" by code_simp+
  then have "w128 (MakeUint128 0 10) \<noteq> 0" by simp
  with uint128_is_128_bit [of 3 "MakeUint128 0 10" "MakeUint128 1 5"] show ?thesis unfolding v by auto
qed

section \<open>Durations\<close>

text \<open>A computation returns a valid duration with a given number of ticks.\<close>

definition yields :: "Duration result \<Rightarrow> ext \<Rightarrow> bool" where
  "yields r e \<longleftrightarrow> (\<exists>d. r = Inr d \<and> valid_duration d \<and> ticks d = e)"

lemma yieldsI: "r = Inr (dur e) \<Longrightarrow> representable e \<Longrightarrow> yields r e"
  by (auto simp: yields_def valid_dur ticks_dur)

lemma representable_ops:
  assumes "representable a" "representable b"
  shows "representable (ext_plus a b)" "representable (ext_neg a)" "representable (ext_minus a b)"
    "representable (ext_times a r)" "representable (ext_divide a r)"
  using assms by (cases a; cases b; auto simp: ext_minus_def ext_divide_def)+

text \<open>C36: durations are numbers with saturation. On valid durations comparison is the order of
  the ticks, with the two infinities at its ends; negation, sum, difference, product and quotient
  by a 64-bit number return valid durations, with the exact number of ticks (truncated for the
  quotient) whenever it is representable and the infinity of its sign otherwise. None overflows.\<close>

theorem durations_saturate:
  assumes "valid_duration a" "valid_duration b" "int64 r"
  shows "(Duration_less a b \<longleftrightarrow> ticks a < ticks b) \<and> (Duration_eq a b \<longleftrightarrow> ticks a = ticks b) \<and>
    yields (Duration_neg a) (ext_neg (ticks a)) \<and>
    yields (Duration_plus a b) (ext_plus (ticks a) (ticks b)) \<and>
    yields (Duration_minus a b) (ext_minus (ticks a) (ticks b)) \<and>
    yields (Duration_times a r) (ext_times (ticks a) r) \<and>
    yields (Duration_divide a r) (ext_divide (ticks a) r)"
proof -
  obtain x where x: "representable x" "a = dur x" "ticks a = x" using valid_durationE [OF assms(1)] .
  obtain y where y: "representable y" "b = dur y" "ticks b = y" using valid_durationE [OF assms(2)] .
  show ?thesis
    unfolding x(2) y(2) ticks_dur [OF x(1)] ticks_dur [OF y(1)]
    by (intro conjI yieldsI Duration_less_iff Duration_eq_iff Duration_neg_eq Duration_plus_eq Duration_minus_eq
        Duration_times_eq Duration_divide_eq representable_ops [OF x(1) y(1)] x(1) y(1) assms(3))
qed

theorem durations_saturate_witness:
  "valid_duration (MakeDuration (2 ^ 62) 1) \<and> int64 2 \<and>
   yields (Duration_times (MakeDuration (2 ^ 62) 1) 2) PosInf \<and>
   yields (Duration_minus (MakeDuration (2 ^ 62) 1) (MakeDuration (2 ^ 62) 1)) (Fin 0)"
proof -
  have v: "valid_duration (MakeDuration (2 ^ 62) 1)" "int64 2" by (simp_all add: valid_duration_def duration_defs int64_def)
  have "ticks (MakeDuration (2 ^ 62) 1) = Fin (2 ^ 62 * 4000000000 + 1)"
    by (simp add: ticks_def IsInfiniteDuration_def duration_defs)
  with durations_saturate [OF v(1) v(1) v(2)] v show ?thesis by (simp add: sat_def limit_def ext_minus_def)
qed

text \<open>C37: quotients and rounding. For a finite duration and a finite unit that is not zero the fast paths and the 128-bit division agree:
  \<open>IDivDuration\<close> returns the truncated quotient, clamped to 64 bits, and what is left, \<open>%\<close> the
  remainder with the sign of the dividend; \<open>Trunc\<close>, \<open>Floor\<close> and \<open>Ceil\<close> return the multiples of
  the unit next to the duration, towards zero, below and above, or the infinity if it lies beyond
  the range. The smallest duration is not a unit for \<open>Floor\<close>.\<close>

theorem duration_quotients:
  assumes "valid_duration a" "valid_duration b" "ticks a = Fin s" "ticks b = Fin t" "t \<noteq> 0"
  shows "(\<exists>rem. IDivDuration True a b = Inr (clamp64 (s sdiv t), rem) \<and> yields (Inr rem) (Fin (s - clamp64 (s sdiv t) * t))) \<and>
    Duration_div a b = Inr (clamp64 (s sdiv t)) \<and> yields (Duration_mod a b) (Fin (s smod t)) \<and>
    yields (Trunc a b) (Fin (s sdiv t * t)) \<and> yields (Ceil a b) (sat (- ((- s) div \<bar>t\<bar>) * \<bar>t\<bar>)) \<and>
    (t \<noteq> - limit \<longrightarrow> yields (Floor a b) (sat (s div \<bar>t\<bar> * \<bar>t\<bar>)))"
proof -
  have r: "representable (Fin s)" "representable (Fin t)" and d: "a = dur (Fin s)" "b = dur (Fin t)"
    using representable_ticks [OF assms(1)] representable_ticks [OF assms(2)] dur_ticks [OF assms(1)] dur_ticks [OF assms(2)] assms(3,4)
    by simp_all
  note left = clamped_rest_bounds [OF assms(5), of s]
  have div: "IDivDuration True a b = Inr (clamp64 (s sdiv t), dur (Fin (s - clamp64 (s sdiv t) * t)))"
    using IDivDuration_eq [OF r] assms(5) by (simp add: d ext_div_def ext_rem_def)
  have m: "s - s sdiv t * t = s smod t" using sdiv_mult_smod_eq [of s t] by simp
  obtain D where "s sdiv t * t = (if s < 0 then - D else D)" "0 \<le> D" "D \<le> \<bar>s\<bar>" using truncated [OF assms(5)] .
  with r(1) have "representable (Fin (s smod t))" unfolding m [symmetric] by (auto split: if_splits)
  moreover have "Duration_mod a b = Inr (dur (Fin (s smod t)))"
    using Duration_mod_eq [OF r] assms(5) m by (simp add: d ext_rem_def)
  ultimately have "yields (Duration_mod a b) (Fin (s smod t))" by (intro yieldsI)
  moreover have "yields (Trunc a b) (Fin (s sdiv t * t))" unfolding d by (rule yieldsI) (rule Trunc_eq [OF r assms(5)])+
  moreover have "yields (Ceil a b) (sat (- ((- s) div \<bar>t\<bar>) * \<bar>t\<bar>))"
    unfolding d by (rule yieldsI) (simp_all add: Ceil_eq [OF r assms(5)])
  moreover have "yields (Floor a b) (sat (s div \<bar>t\<bar> * \<bar>t\<bar>))" if "t \<noteq> - limit"
    unfolding d by (rule yieldsI) (simp_all add: Floor_eq [OF r assms(5) that])
  moreover have "yields (Inr (dur (Fin (s - clamp64 (s sdiv t) * t)))) (Fin (s - clamp64 (s sdiv t) * t))"
    using left r(1) by (intro yieldsI refl) (auto split: if_splits)
  ultimately show ?thesis using div by (auto simp: Duration_div_def)
qed

theorem duration_quotients_witness:
  "valid_duration (MakeDuration (- 2) 1) \<and> valid_duration (MakeDuration 0 3000000000) \<and>
   ticks (MakeDuration (- 2) 1) = Fin (- 7999999999) \<and> ticks (MakeDuration 0 3000000000) = Fin 3000000000 \<and>
   Duration_div (MakeDuration (- 2) 1) (MakeDuration 0 3000000000) = Inr (- 2) \<and>
   yields (Floor (MakeDuration (- 2) 1) (MakeDuration 0 3000000000)) (Fin (- 9000000000))"
proof -
  have v: "valid_duration (MakeDuration (- 2) 1)" "valid_duration (MakeDuration 0 3000000000)"
      "ticks (MakeDuration (- 2) 1) = Fin (- 7999999999)" "ticks (MakeDuration 0 3000000000) = Fin 3000000000"
    by (simp_all add: valid_duration_def ticks_def IsInfiniteDuration_def duration_defs)
  show ?thesis using duration_quotients [OF v] v by (simp add: sat_def limit_def clamp64_def)
qed

text \<open>\<open>Floor\<close> with the smallest duration as unit: its absolute value is infinite, and so is the result,
  although the smallest duration itself is the multiple below.\<close>

lemma Floor_smallest_unit: "Floor (dur (Fin (- 1))) (dur (Fin (- limit))) = Inr (dur NegInf)"
  by code_simp

section \<open>Conversions\<close>

lemma small_units_round_trip:
  assumes "int64 n"
  shows "bindr (Nanoseconds n) ToInt64Nanoseconds = Inr n" "bindr (Microseconds n) ToInt64Microseconds = Inr n"
    "bindr (Milliseconds n) ToInt64Milliseconds = Inr n" "bindr (Seconds n) ToInt64Seconds = Inr n"
proof -
  have r: "representable (Fin (n * 4))" "representable (Fin (n * 4000))" "representable (Fin (n * 4000000))" "representable (Fin (n * 4000000000))"
    using assms by (simp_all add: int64_def limit_def)
  show "bindr (Nanoseconds n) ToInt64Nanoseconds = Inr n" "bindr (Microseconds n) ToInt64Microseconds = Inr n"
    "bindr (Milliseconds n) ToInt64Milliseconds = Inr n" "bindr (Seconds n) ToInt64Seconds = Inr n"
    using ToInt64_small_units(1) [OF r(1)] ToInt64_small_units(2) [OF r(2)] ToInt64_small_units(3) [OF r(3)] ToInt64_large_units(1) [OF r(4)]
    by (simp_all add: factories [OF assms] ext_div_def times_sdiv int64_clamp [OF assms])
qed

lemma long_units_round_trip:
  assumes "int64 n"
  shows "bindr (Minutes n) ToInt64Minutes = Inr (if int64 (n * 60) then n else if n < 0 then kint64min else kint64max)"
    "bindr (Hours n) ToInt64Hours = Inr (if int64 (n * 3600) then n else if n < 0 then kint64min else kint64max)"
proof -
  have s: "sat (n * c * 4000000000) = (if int64 (n * c) then Fin (n * (4000000000 * c)) else if n < 0 then NegInf else PosInf)" if "0 < c" for c
  proof -
    have "n < 0 \<longleftrightarrow> n * c < 0" using that by (simp add: mult_less_0_iff)
    then show ?thesis by (auto simp: sat_def limit_def int64_def ac_simps)
  qed
  show "bindr (Minutes n) ToInt64Minutes = Inr (if int64 (n * 60) then n else if n < 0 then kint64min else kint64max)"
    using ToInt64_large_units(2) [OF representable_simps(4), of "n * 60 * 4000000000"] s [of 60] times_sdiv [of "4000000000 * 60" n]
    by (auto simp: factories [OF assms] ext_div_def int64_clamp [OF assms] kint64min_def kint64max_def)
  show "bindr (Hours n) ToInt64Hours = Inr (if int64 (n * 3600) then n else if n < 0 then kint64min else kint64max)"
    using ToInt64_large_units(3) [OF representable_simps(4), of "n * 3600 * 4000000000"] s [of 3600] times_sdiv [of "4000000000 * 3600" n]
    by (auto simp: factories [OF assms] ext_div_def int64_clamp [OF assms] kint64min_def kint64max_def)
qed

lemma timespec_round_trip:
  assumes "int64 h" "0 \<le> k" "k < 1000000000"
  shows "bindr (DurationFromTimespec \<lparr>tv_sec = h, tv_nsec = k\<rparr>) ToTimespec = Inr \<lparr>tv_sec = h, tv_nsec = k\<rparr>"
proof -
  have r: "representable (Fin (h * 4000000000 + k * 4))" using assms by (auto simp: int64_def limit_def)
  then have s: "sat (h * 4000000000 + k * 4) = Fin (h * 4000000000 + k * 4)" by (simp add: sat_Fin)
  have "(h * 4000000000 + k * 4) sdiv 4 = h * 1000000000 + k"
    using times_sdiv [of 4 "h * 1000000000 + k"] by (simp add: algebra_simps)
  then show ?thesis
    using DurationFromTimespec_eq [of "\<lparr>tv_sec = h, tv_nsec = k\<rparr>"] assms ToTimespec_Fin [OF r] by (simp add: s int64_def)
qed

lemma timeval_round_trip:
  assumes "int64 h" "0 \<le> k" "k < 1000000"
  shows "bindr (DurationFromTimeval \<lparr>val_sec = h, val_usec = k\<rparr>) ToTimeval = Inr \<lparr>val_sec = h, val_usec = k\<rparr>"
proof -
  have r: "representable (Fin (h * 4000000000 + k * 4000))" using assms by (auto simp: int64_def limit_def)
  then have s: "sat (h * 4000000000 + k * 4000) = Fin (h * 4000000000 + k * 4000)" by (simp add: sat_Fin)
  have "(h * 4000000000 + k * 4000) sdiv 4000 = h * 1000000 + k"
    using times_sdiv [of 4000 "h * 1000000 + k"] by (simp add: algebra_simps)
  then show ?thesis
    using DurationFromTimeval_eq [of "\<lparr>val_sec = h, val_usec = k\<rparr>"] assms ToTimeval_Fin [OF r] by (simp add: s int64_def)
qed

text \<open>C38: conversions are inverse. A number of nanoseconds up to hours is made a duration from which
  the same number is read back; minutes and hours beyond the range come back as the largest or
  smallest number. A normalized \<open>timespec\<close> or \<open>timeval\<close>, negative ones included, is made a duration
  that converts back to it, and a finite duration converts to one with the truncated number of
  nanoseconds or microseconds.\<close>

theorem duration_conversions:
  assumes "int64 n" "int64 h" "0 \<le> k" "k < 1000000000" "0 \<le> u" "u < 1000000" "valid_duration d" "ticks d = Fin t"
  shows "bindr (Nanoseconds n) ToInt64Nanoseconds = Inr n \<and> bindr (Microseconds n) ToInt64Microseconds = Inr n \<and>
    bindr (Milliseconds n) ToInt64Milliseconds = Inr n \<and> bindr (Seconds n) ToInt64Seconds = Inr n \<and>
    bindr (Minutes n) ToInt64Minutes = Inr (if int64 (n * 60) then n else if n < 0 then kint64min else kint64max) \<and>
    bindr (Hours n) ToInt64Hours = Inr (if int64 (n * 3600) then n else if n < 0 then kint64min else kint64max) \<and>
    bindr (DurationFromTimespec \<lparr>tv_sec = h, tv_nsec = k\<rparr>) ToTimespec = Inr \<lparr>tv_sec = h, tv_nsec = k\<rparr> \<and>
    bindr (DurationFromTimeval \<lparr>val_sec = h, val_usec = u\<rparr>) ToTimeval = Inr \<lparr>val_sec = h, val_usec = u\<rparr> \<and>
    (\<exists>ts tv. ToTimespec d = Inr ts \<and> 0 \<le> tv_nsec ts \<and> tv_nsec ts < 1000000000 \<and>
       tv_sec ts * 1000000000 + tv_nsec ts = t sdiv 4 \<and>
       ToTimeval d = Inr tv \<and> 0 \<le> val_usec tv \<and> val_usec tv < 1000000 \<and>
       val_sec tv * 1000000 + val_usec tv = t sdiv 4000)"
proof -
  have "representable (Fin t)" "d = dur (Fin t)"
    using representable_ticks [OF assms(7)] dur_ticks [OF assms(7)] assms(8) by simp_all
  then have d: "ToTimespec d = Inr \<lparr>tv_sec = t sdiv 4 div 1000000000, tv_nsec = t sdiv 4 mod 1000000000\<rparr>"
      "ToTimeval d = Inr \<lparr>val_sec = t sdiv 4000 div 1000000, val_usec = t sdiv 4000 mod 1000000\<rparr>"
    using ToTimespec_Fin ToTimeval_Fin by auto
  show ?thesis
    by (intro conjI small_units_round_trip long_units_round_trip timespec_round_trip timeval_round_trip assms)
      (simp_all add: d)
qed

theorem duration_conversions_witness:
  "int64 (- 90) \<and> valid_duration (MakeDuration (- 1) 3999999999) \<and> ticks (MakeDuration (- 1) 3999999999) = Fin (- 1) \<and>
   bindr (Minutes (- 90)) ToInt64Minutes = Inr (- 90) \<and>
   bindr (DurationFromTimespec \<lparr>tv_sec = - 90, tv_nsec = 5\<rparr>) ToTimespec = Inr \<lparr>tv_sec = - 90, tv_nsec = 5\<rparr>"
proof -
  have v: "int64 (- 90)" "valid_duration (MakeDuration (- 1) 3999999999)" "ticks (MakeDuration (- 1) 3999999999) = Fin (- 1)"
    by (simp_all add: int64_def valid_duration_def ticks_def IsInfiniteDuration_def duration_defs)
  show ?thesis using duration_conversions [OF v(1,1) _ _ _ _ v(2,3), of 5 5] v by (simp add: int64_def)
qed

section \<open>Points in time\<close>

text \<open>C39: conversions of points in time round towards the past, also before the epoch and on the fast
  paths: a finite time converts to the floor of its ticks in each unit, clamped to 64 bits, and to
  the normalized structures of the floor. Numbers of nanoseconds to seconds since the epoch, and of
  100 nanoseconds since the first day of year one, are read back.\<close>

theorem instants_floor:
  assumes "valid_duration d" "ticks d = Fin t" "int64 n"
  shows "ToUnixNanos (FromUnixDuration d) = Inr (clamp64 (t div 4)) \<and>
    ToUnixMicros (FromUnixDuration d) = Inr (clamp64 (t div 4000)) \<and>
    ToUnixMillis (FromUnixDuration d) = Inr (clamp64 (t div 4000000)) \<and>
    ToUnixSeconds (FromUnixDuration d) = t div 4000000000 \<and>
    Time_ToTimespec (FromUnixDuration d) = \<lparr>tv_sec = t div 4 div 1000000000, tv_nsec = t div 4 mod 1000000000\<rparr> \<and>
    Time_ToTimeval (FromUnixDuration d) = \<lparr>val_sec = t div 4000 div 1000000, val_usec = t div 4000 mod 1000000\<rparr> \<and>
    bindr (FromUnixNanos n) ToUnixNanos = Inr n \<and> bindr (FromUnixMicros n) ToUnixMicros = Inr n \<and>
    bindr (FromUnixMillis n) ToUnixMillis = Inr n \<and>
    bindr (FromUnixSeconds n) (\<lambda>t. Inr (ToUnixSeconds t)) = Inr n \<and>
    bindr (FromUniversal n) ToUniversal = Inr n \<and>
    ToUnixSeconds UniversalEpoch = day_number 1 1 1 * 86400"
proof -
  have r: "representable (Fin t)" and d: "d = dur (Fin t)"
    using representable_ticks [OF assms(1)] dur_ticks [OF assms(1)] assms(2) by simp_all
  have "ToUnixSeconds UniversalEpoch = day_number 1 1 1 * 86400"
    unfolding ToUnixSeconds_def ToUnixDuration_def UniversalEpoch_eq(1) rep_dur_Fin by simp
  then show ?thesis
    using ToUnix_eq [OF r] Time_structures [OF r] Unix_round_trip [OF assms(3)] universal_round_trip [OF assms(3)]
    by (simp add: d ext_floor_def ToUnixSeconds_def rep_dur_Fin)
qed

theorem instants_floor_witness:
  "valid_duration (MakeDuration (- 1) 3999999999) \<and> ticks (MakeDuration (- 1) 3999999999) = Fin (- 1) \<and> int64 (- (2 ^ 63)) \<and>
   ToUnixMillis (FromUnixDuration (MakeDuration (- 1) 3999999999)) = Inr (- 1) \<and>
   bindr (FromUniversal (- (2 ^ 63))) ToUniversal = Inr (- (2 ^ 63))"
proof -
  have v: "valid_duration (MakeDuration (- 1) 3999999999)" "ticks (MakeDuration (- 1) 3999999999) = Fin (- 1)" "int64 (- (2 ^ 63))"
    by (simp_all add: int64_def valid_duration_def ticks_def IsInfiniteDuration_def duration_defs)
  show ?thesis using instants_floor [OF v] v by (simp add: clamp64_def)
qed

section \<open>Texts\<close>

lemma split_sign:
  assumes "plain s"
  obtains sign body where "signed_text (c_str s) sign body" "sign = 1 \<or> sign = - 1" "plain body" "CHR 0x00 \<notin> set body"
    "ParseDuration s = parse_body sign body"
proof -
  have c: "plain (c_str s)" "CHR 0x00 \<notin> set (c_str s)"
    using assms by (auto simp: c_str_def list_all_iff dest: set_takeWhileD)
  have p: "ParseDuration s = (let (sign, start) = (if at (c_str s) = CHR ''-'' \<or> at (c_str s) = CHR ''+''
      then (if at (c_str s) = CHR ''-'' then - 1 else 1, tl (c_str s)) else (1, c_str s)) in parse_body sign start)"
    unfolding ParseDuration_def parse_body_def Let_def ..
  show ?thesis
  proof (cases "at (c_str s) = CHR ''-'' \<or> at (c_str s) = CHR ''+''")
    case True
    then obtain x t where t: "c_str s = x # t" "x = CHR ''-'' \<or> x = CHR ''+''" by (cases "c_str s") (auto simp: at_def)
    then show ?thesis
      using c p by (intro that [of "if x = CHR ''-'' then - 1 else 1" t]) (auto simp: signed_text_def at_def)
  next
    case False
    then show ?thesis using c p by (intro that [of 1 "c_str s"]) (auto simp: signed_text_def)
  qed
qed

text \<open>C40: what \<open>ParseDuration\<close> accepts. On a text of 7-bit characters the parser returns, and it
  accepts exactly an optional sign before \<open>0\<close>, \<open>inf\<close> or a sequence of items, each a decimal number
  whose digits before the point fit 64 bits, with an optional fraction and one of the six units.
  The duration is the saturating sum of the items, whole numbers and fractions added in turn.\<close>

theorem ParseDuration_accepts:
  assumes "list_all (\<lambda>c. (of_char c :: nat) < 128) s"
  shows "(\<exists>r. ParseDuration s = Inr r) \<and>
    (ParseDuration s = Inr (Some d) \<longleftrightarrow>
       (\<exists>sign body e. signed_text (c_str s) sign body \<and> duration_text sign body e \<and> d = dur e))"
proof -
  obtain sign body where b: "signed_text (c_str s) sign body" "sign = 1 \<or> sign = - 1" "plain body" "CHR 0x00 \<notin> set body"
      "ParseDuration s = parse_body sign body"
    using split_sign [OF assms] .
  note sound = parse_body_sound [OF b(3,4,2)]
  have complete: "ParseDuration s = Inr (Some (dur e))" if "signed_text (c_str s) g t" "duration_text g t e" for g t e
  proof -
    have "g = 1 \<or> g = - 1" using that(1) by (auto simp: signed_text_def)
    then show ?thesis
      using ParseDuration_body [OF that(1) duration_text_head [OF that(2)]] parse_body_complete(1) [OF that(2)] by simp
  qed
  show ?thesis
  proof (intro conjI iffI)
    show "\<exists>r. ParseDuration s = Inr r" using sound unfolding b(5) by blast
  next
    assume "ParseDuration s = Inr (Some d)"
    then obtain e where "duration_text sign body e" "d = dur e" using sound unfolding b(5) by force
    with b(1) show "\<exists>sign body e. signed_text (c_str s) sign body \<and> duration_text sign body e \<and> d = dur e" by blast
  qed (use complete in blast)
qed

theorem ParseDuration_accepts_witness:
  "list_all (\<lambda>c. (of_char c :: nat) < 128) ''-1.5h'' \<and>
   ParseDuration ''-1.5h'' = Inr (Some (dur (Fin (- 5400 * 4000000000))))"
proof -
  have "list_all item_ok [(''1'', Some ''5'', ''h'')]" "concat (map item_text [(''1'', Some ''5'', ''h'')]) = ''1.5h''"
    "foldl (add_item (- 1)) (Fin 0) [(''1'', Some ''5'', ''h'')] = Fin (- 5400 * 4000000000)" by code_simp+
  then have "duration_text (- 1) ''1.5h'' (Fin (- 5400 * 4000000000))" unfolding duration_text_def by (metis list.discI)
  moreover have "signed_text (c_str ''-1.5h'') (- 1) ''1.5h''" by (simp add: signed_text_def c_str_def)
  ultimately show ?thesis using ParseDuration_accepts [of "''-1.5h''" "dur (Fin (- 5400 * 4000000000))"] by auto
qed

text \<open>The digits of a fraction are multiplied by the unit before they are divided by their power of
  ten, and the product saturates: a third of an hour, written with sixteen digits, is infinite.\<close>

lemma fraction_saturates: "ParseDuration ''0.3333333333333333h'' = Inr (Some InfiniteDuration)"
  by code_simp

end
