(* ===== verification/Spec2Isabelle.thy ===== *)
theory Spec2Isabelle
  imports Programs Absl_Laws Time_Laws Duration_Claims
begin

text \<open>
  \<^bold>\<open>A verification of the chess engine pawn_grabber.\<close>

  \<^bold>\<open>The program.\<close> The engine is one C++ file, \<open>src/src/board.cc\<close>, with its header \<open>board.h\<close>,
  and two programs over it: \<open>eval.cc\<close> evaluates a position, \<open>perft.cc\<close> counts games and compares
  the counts with a table. A board is twelve 64-bit words, one bit per square, with the side to
  move, castling rights, en passant square and two counters. The engine is built on the vendored
  Abseil (\<open>src/lib/abseil-cpp-master/absl\<close>): a position is read from text by splitting and by
  parsing integers, boards and moves are printed by concatenation (\<open>strings\<close>), and the programs
  read the clock, whose readings are points in time and durations (\<open>time\<close>, over the 128-bit
  integers of \<open>numeric\<close>) and civil times (the calendar of \<open>time/internal/cctz\<close>).
  The model is executable; each \<open>ABSL_RAW_CHECK\<close>, \<open>assert\<close>, exception and undefined operation
  is a value of the type \<open>error\<close>, so a result \<open>Inr x\<close> says that none of them happens.

  \<^bold>\<open>The engine.\<close>
  \<^item> \<open>Chess_Prelude\<close>: errors and their monad, the loop over a range, \<open>int\<close> and \<open>int64_t\<close> at
    their width, one-bit words.
  \<^item> \<open>Squares\<close>: squares, directions, names of squares, the bit tricks of \<open>bitboard_split\<close>,
    \<open>pop_count\<close>, \<open>is_square\<close>, \<open>square_idx\<close>. The locale of a step states what the walks along a
    direction rely on; it is interpreted for the eight directions.
  \<^item> \<open>Board_State\<close>: the records \<open>Board\<close> and \<open>Move\<close>; \<open>move_piece\<close> and \<open>remove_piece_on\<close> over
    pointers to the bitboards, whose laws are a locale interpreted for the record.
  \<^item> \<open>Make_Move\<close>: \<open>do_move\<close> with its six kinds of move, \<open>adjust_castling_rights\<close>,
    \<open>undo_move\<close>. \<open>Movegen\<close>: the generators, the attack mask, castling tests and the legality
    filter.
  \<^item> \<open>Rules\<close>: the rules of chess as inductive predicates over coordinates, without bitboards.
    \<open>Movegen_Correct\<close> and \<open>Attacks\<close>: the generators and attack tests agree with the rules.
    \<open>Play\<close>: the abstract position and the effect of a move on it, and \<open>do_move\<close> as a refinement.
    \<open>Positions\<close>: legal positions, preserved by every move. \<open>Material\<close>: captures shrink a rank.
  \<^item> \<open>Game\<close>: the interface of an engine to the tree walks (moves, make, undo), a locale that is
    interpreted for the model. \<open>Perft\<close>: \<open>number_of_moves\<close> counts games. \<open>Search\<close> and
    \<open>Search_Correct\<close>: \<open>static_evaluation\<close> against the balance of the squares, quiescence search and
    alpha-beta against negamax.
  \<^item> \<open>Fen\<close> and \<open>Fen_Correct\<close>: the FEN constructor, a printer of positions as specification, the
    round trip, and what is accepted: the placement field read position by position fixes the
    bitboards. \<open>Pretty\<close>: the pictures of boards. \<open>Programs\<close>: the two \<open>main\<close>
    functions, with the clock as a parameter (the printed times).

  \<^bold>\<open>The library.\<close> Strings are lists of bytes; a string under construction is a buffer of the size
  that the code computes, and a write outside is undefined behaviour.
  \<^item> \<open>Absl_Ascii\<close> (\<open>ascii.cc\<close>, \<open>ascii.h\<close>), \<open>Absl_Strings\<close> (the search for one character),
    \<open>Absl_Numbers\<close> and \<open>Absl_Print\<close> (\<open>numbers.cc\<close>: \<open>SimpleAtoi\<close>, \<open>FastIntToBuffer\<close>),
    \<open>Absl_StrCat\<close> (\<open>str_cat.cc\<close>, \<open>str_cat.h\<close>).
  \<^item> \<open>Absl_Split\<close> (\<open>str_split.cc\<close>, \<open>str_split.h\<close>, \<open>str_split_internal.h\<close>): the delimiters, the
    predicates, the iterator with its three states, and the conversions to containers, vectors,
    pairs and maps. What an iterator relies on in a delimiter is the locale \<open>delimiter\<close>,
    interpreted for every delimiter of the library. \<open>exact_cuts\<close> prescribes the pieces of each
    delimiter and determines them.
  \<^item> \<open>Absl_Join\<close> (\<open>str_join.h\<close>, \<open>str_join_internal.h\<close>): the formatters and the joining algorithms.
    A formatter's contract is the locale \<open>formatter\<close>; that of the two formatters of a pair is
    \<open>pair_formatter\<close>, which gives a \<open>formatter\<close> again. \<open>Absl_Replace\<close> (\<open>str_replace.cc\<close>,
    \<open>str_replace.h\<close>): the sorted vector of pending substitutions, against a left-to-right scan.
  \<^item> \<open>Absl_CEscape\<close>, \<open>Absl_Base64\<close>, \<open>Absl_Hex\<close> (\<open>escaping.cc\<close>, \<open>utf8.cc\<close>). The decoder's
    contract with an alphabet is a locale, interpreted for the standard and the web-safe one.
  \<^item> \<open>Absl_Search\<close> (\<open>string_view.cc\<close>, \<open>memutil\<close>, \<open>match\<close>, \<open>strip.h\<close>). The contract of a
    substring search is a locale, interpreted for the two algorithms and for \<open>find\<close>.
  \<^item> \<open>Absl_Substitute\<close> (\<open>substitute.cc\<close>, \<open>substitute.h\<close>). \<open>Absl_Laws\<close> states the properties of
    the string library.
  \<^item> \<open>Civil_Time\<close> (\<open>civil_time_detail.h\<close>): normalization of fields, steps, differences,
    alignment, comparison, weekdays and days of the year, with every \<open>int_least64_t\<close> operation
    checked for overflow and every narrowing written out. \<open>Civil_Days\<close>: the calendar as a day
    number, the specification. \<open>Civil_Normal\<close> and \<open>Civil_Laws\<close>: the code against it; the walk
    to the next or previous weekday is the locale \<open>day_walk\<close>, interpreted for both.
    \<open>Time_Laws\<close> states the properties.
  \<^item> \<open>Int128\<close> (\<open>int128.h\<close>, \<open>int128.cc\<close>): unsigned 128-bit integers as pairs of words, in the portable
    branch of the code, with the long division. \<open>Int128_Laws\<close>: they are the words of 128 bits, so
    that the branch for compilers with such a type computes the same.
  \<^item> \<open>Durations\<close> (\<open>time.h\<close>, \<open>duration.cc\<close>): all of the integer arithmetic of durations.
    \<open>Duration_Laws\<close> (sums and order), \<open>Duration_Scale\<close> (products and quotients by numbers),
    \<open>Duration_Div\<close> (quotients of durations) and \<open>Duration_Units\<close> (rounding, factories,
    conversions) relate it to the type \<open>ext\<close> of numbers of ticks with two infinities, whose order
    is an instance of \<open>linorder\<close>. \<open>Duration_Parse\<close> is \<open>ParseDuration\<close>, \<open>Duration_Text\<close> its grammar.
  \<^item> \<open>Instants\<close> (\<open>time.h\<close>, \<open>time.cc\<close>) and \<open>Instant_Laws\<close>: points in time and their conversions, which
    round towards the past. \<open>Duration_Claims\<close> states the properties of these theories.

  \<^bold>\<open>The properties.\<close> C1 to C6: generator, moves, attacks and castling against the rules, with
  legality as an invariant of every game. C7 to C10: counting and search. C11 to C13: positions as
  text. C14 to C16: undo, evaluation, squares. C17 to C19: what the programs print. C20 to C30: the
  strings library. C31 to C34: civil times. C35: 128-bit integers. C36 to C40: durations, points in
  time and the text of durations.

  \<^bold>\<open>Bounds.\<close> No definition uses fuel. Most loops have a termination proof, the quiescence search
  by the rank of captures, which is at most 129 in a legal position. The loops whose end depends
  on an argument (the splitting iterator with its delimiter, replacing, the walk to a weekday) are
  partial functions with \<open>None\<close> for not returning, and it is proved that they return. The search
  theorems ask for a move counter that stays below the largest \<open>int\<close> for the depth and 130 plies
  more; counting asks for a count that fits \<open>int64_t\<close>. Sizes of strings are natural numbers: a
  text longer than the address space is not considered. Counters and indices that the code keeps
  in \<open>int\<close> are checked at that width: the counter of \<open>MaxSplits\<close>, the number of replacements, the
  index of \<open>HexStringToBytes\<close>; the theorems say for which texts they overflow. An \<open>assert\<close> is a
  branch of its definition, so that the digit loop for negative numbers fails at an unsigned type.
  The theorems on civil times bound the year (by \<open>2 ^ 62\<close> for normalization, \<open>2 ^ 60\<close> for steps and
  \<open>2 ^ 54\<close> for the number of a day), since outside the signed 64-bit arithmetic of the code
  overflows (\<open>normalization_overflow\<close>); differences hold for all 64-bit years when they fit. Those
  on durations and points in time hold for all valid representations.

  \<^bold>\<open>Not modelled.\<close> The unit tests; of the string library the floating-point conversions,
  \<open>StrFormat\<close>, the formatter for output streams and the conversion to a multimap; of the time
  library hashing, stream output, factors and quotients in floating point (and with them
  \<open>FormatDuration\<close>), the conversions to and from \<open>std::chrono\<close>, time zones and the clock;
  the other parts of Abseil (containers, synchronization, debugging), which the engine does not
  call. The overlap that \<open>ASSERT_NO_OVERLAP\<close> forbids cannot be expressed, since arguments are
  values. The decoder of Base64 is only called with a destination; its branch without one is left
  out. Assertions are active: the build without \<open>NDEBUG\<close>.
\<close>

section \<open>Positions used as concrete inputs\<close>

text \<open>
  White: king e1, rook h1, pawn e5; black: king e8, pawn d5 that has just advanced two
  squares; white may castle kingside and capture en passant.
\<close>

definition endgame :: Board where
  "endgame = \<lparr>
     white_pawns = 0x0800000000, white_rooks = 0x01, white_knights = 0, white_bishops = 0,
     white_queens = 0, white_king = 0x08,
     black_pawns = 0x1000000000, black_rooks = 0, black_knights = 0, black_bishops = 0,
     black_queens = 0, black_king = 0x0800000000000000,
     is_whites_move = True, en_passant_square = Some 0x100000000000,
     white_has_right_to_castle_kingside = True, white_has_right_to_castle_queenside = False,
     black_has_right_to_castle_kingside = False, black_has_right_to_castle_queenside = False,
     fifty_move_clock = 0, num_moves = 30 \<rparr>"

lemma endgame_legal: "legal_position endgame"
  by code_simp

lemma endgame_countable: "countable_move endgame"
  by (simp add: countable_move_def endgame_def)

lemma endgame_good: "n \<le> 1000 \<Longrightarrow> good_position n endgame"
  using endgame_legal by (simp add: good_position_def endgame_def int_max_def)

lemma endgame_generator: "generator_ok endgame" "disjoint_pieces endgame" "castling_ok endgame"
  using wf_boardD [of endgame] endgame_legal by (simp_all add: legal_position_def)

lemma endgame_castles:
  "legal_move endgame ((4, 0), (6, 0), king, castle_kingside)"
proof (rule castles_legal [OF endgame_legal _ endgame_countable])
  have "may_castle_kingside endgame white" by code_simp
  then show "castles endgame ((4, 0), (6, 0), king, castle_kingside)"
    by (simp add: castles_def home_rank_def endgame_def)
qed

section \<open>The generator and the moves\<close>

text \<open>C1: from a legal position whose move counter has room for one more move,
  \<open>legal_moves\<close> succeeds, and the vector it returns holds exactly the legal moves of the
  rules of chess, each once.\<close>

theorem legal_moves_exact:
  assumes "legal_position b" "countable_move b"
  shows "\<exists>ms. legal_moves b = Inr ms \<and> distinct ms \<and> set ms = mv b ` {m. legal_move b m}"
  using legal_moves_spec [OF assms] by metis

theorem legal_moves_exact_witness:
  "legal_position endgame \<and> countable_move endgame \<and>
   (\<exists>ms. legal_moves endgame = Inr ms \<and> distinct ms \<and> set ms = mv endgame ` {m. legal_move endgame m} \<and>
      castle_kingside_move white endgame \<in> set ms)"
  using legal_moves_exact [OF endgame_legal endgame_countable] endgame_legal endgame_countable
    endgame_castles castle_moves_mv(1) [of white endgame]
  by (force simp: home_rank_def)

text \<open>C2: \<open>do_move\<close> refines the abstract game. From a legal position every legal move can be
  made, the new board abstracts to the position after the move (pieces, side to move,
  castling rights, en passant square, move number), and it is a legal position again. The
  fifty-move clock is left as it was.\<close>

theorem do_move_refines_play:
  assumes "legal_position b" "countable_move b" "legal_move b m"
  shows "\<exists>b'. do_move b (mv b m) = Inr b' \<and> position_of b' = play (position_of b) m \<and>
    legal_position b' \<and> fifty_move_clock b' = fifty_move_clock b"
  using legal_step [OF assms] by metis

theorem do_move_refines_play_witness:
  "legal_position endgame \<and> countable_move endgame \<and>
   legal_move endgame ((4, 0), (6, 0), king, castle_kingside) \<and>
   (\<exists>b'. do_move endgame (mv endgame ((4, 0), (6, 0), king, castle_kingside)) = Inr b' \<and>
      position_of b' = play (position_of endgame) ((4, 0), (6, 0), king, castle_kingside) \<and>
      legal_position b' \<and> fifty_move_clock b' = 0)"
  using do_move_refines_play [OF endgame_legal endgame_countable endgame_castles]
    endgame_legal endgame_countable endgame_castles
  by (simp add: endgame_def)

text \<open>C3: every board that a game reaches from the starting position, by any sequence of
  moves that the generator returns, is a legal position: no two pieces share a square, each
  side has one king, pawns stay off the back ranks, the castling rights and the en passant
  square agree with the pieces, and the side that has moved is not in check.\<close>

theorem reachable_from_start:
  assumes "reachable start_board b"
  shows "legal_position b"
  using reachable_legal_position [OF assms start_board_legal] .

definition after_e4 :: Board where
  "after_e4 = start_board\<lparr>white_pawns := 0x0800F700, is_whites_move := False,
     en_passant_square := Some 0x080000\<rparr>"

lemma e4_legal: "legal_move start_board ((4, 1), (4, 3), pawn, two_step_pawn)"
  and e4_made: "do_move start_board (mv start_board ((4, 1), (4, 3), pawn, two_step_pawn)) = Inr after_e4"
proof -
  have p: "pseudolegal start_board white (4, 1) (4, 3) pawn two_step_pawn"
  proof (rule pawn_double)
    show "on start_board (white, pawn) (4, 1)" by code_simp
    show "snd (4 :: int, 1 :: int) = start_rank white" "(4, 3) = cadd (4, 1) 2 (0, forward white)"
      by (simp_all add: start_rank_def cadd_def forward_def)
    show "\<not> occupied start_board (cadd (4, 1) 1 (0, forward white))" "\<not> occupied start_board (4, 3)"
      by code_simp+
  qed
  have c: "candidate start_board ((4, 1), (4, 3), pawn, two_step_pawn)"
    using p by (simp add: candidate_def start_board_def)
  show made: "do_move start_board (mv start_board ((4, 1), (4, 3), pawn, two_step_pawn)) = Inr after_e4"
    by code_simp
  have count: "countable_move start_board" by (simp add: countable_move_def start_board_def)
  obtain b' where b': "do_move start_board (mv start_board ((4, 1), (4, 3), pawn, two_step_pawn)) = Inr b'"
    "wf_board b'" "position_of b' = play (position_of start_board) ((4, 1), (4, 3), pawn, two_step_pawn)"
    "fifty_move_clock b' = fifty_move_clock start_board"
    by (rule candidate_step [OF start_board_legal c count])
  have "\<not> in_check after_e4 white" by code_simp
  with b' made show "legal_move start_board ((4, 1), (4, 3), pawn, two_step_pawn)"
    using legal_move_iff [OF c b'(2,3)] by (simp add: start_board_def)
qed

theorem reachable_from_start_witness:
  "reachable start_board after_e4 \<and> legal_position after_e4"
proof -
  have count: "countable_move start_board" by (simp add: countable_move_def start_board_def)
  obtain ms where ms: "legal_moves start_board = Inr ms" "distinct ms"
    "set ms = mv start_board ` {m. legal_move start_board m}"
    by (rule legal_moves_spec [OF start_board_legal count])
  have "mv start_board ((4, 1), (4, 3), pawn, two_step_pawn) \<in> set ms"
    unfolding ms(3) using e4_legal by blast
  then have r: "reachable start_board after_e4"
    by (rule reachable.move [OF reachable.start ms(1) _ e4_made])
  with reachable_from_start [OF r] show ?thesis by blast
qed

text \<open>C4: on a board with its two kings, no pawn on a back rank, no overlapping pieces and an
  en passant square that is a square, \<open>pseudolegal_moves\<close> returns exactly the pseudolegal
  moves of the side, each once.\<close>

theorem pseudolegal_moves_exact:
  assumes "generator_ok b" "disjoint_pieces b"
  shows "\<exists>ms. pseudolegal_moves b side = Inr ms \<and> distinct ms \<and>
    set ms = {Move_init (csq s) (csq t) k ty b | s t k ty. pseudolegal b side s t k ty}"
  by (rule pseudolegal_moves_spec [OF assms, of side]) blast

theorem pseudolegal_moves_exact_witness:
  "generator_ok endgame \<and> disjoint_pieces endgame \<and>
   (\<exists>ms. pseudolegal_moves endgame white = Inr ms \<and> distinct ms \<and>
      set ms = {Move_init (csq s) (csq t) k ty endgame | s t k ty. pseudolegal endgame white s t k ty})"
  using pseudolegal_moves_exact [OF endgame_generator(1,2), of white] endgame_generator by simp

text \<open>C5: \<open>is_king_attacked\<close> is the check of the rules: it returns true exactly when some
  enemy piece attacks the square of the king.\<close>

theorem king_attack_exact:
  assumes "generator_ok b" "disjoint_pieces b"
  shows "is_king_attacked b side = Inr (in_check b side)"
  by (rule is_king_attacked_eq [OF assms])

theorem king_attack_exact_witness:
  "generator_ok endgame \<and> disjoint_pieces endgame \<and> is_king_attacked endgame white = Inr False"
proof -
  have "\<not> in_check endgame white" by code_simp
  with king_attack_exact [OF endgame_generator(1,2), of white] endgame_generator show ?thesis by simp
qed

text \<open>C6: the two castling tests decide the castling conditions of the rules, although the
  attack mask they use also contains the squares to which enemy pawns can advance.\<close>

theorem castling_tests_exact:
  assumes "generator_ok b" "disjoint_pieces b" "castling_ok b"
  shows "is_castle_kingside_legal b =
      Inr (may_castle_kingside b (if is_whites_move b then white else black)) \<and>
    is_castle_queenside_legal b =
      Inr (may_castle_queenside b (if is_whites_move b then white else black))"
  using castling_legality [OF assms] by blast

theorem castling_tests_exact_witness:
  "generator_ok endgame \<and> disjoint_pieces endgame \<and> castling_ok endgame \<and>
   is_castle_kingside_legal endgame = Inr True \<and> is_castle_queenside_legal endgame = Inr False"
proof -
  have "may_castle_kingside endgame white" "\<not> may_castle_queenside endgame white"
    "is_whites_move endgame"
    by code_simp+
  with castling_tests_exact [OF endgame_generator] endgame_generator show ?thesis by simp
qed

section \<open>Perft\<close>

text \<open>C7: \<open>number_of_moves\<close> counts the games of the given length: from a legal position with
  room in the move counter it returns the number of sequences of legal moves of that length,
  as long as that number fits \<open>int64_t\<close>.\<close>

theorem perft_counts_games:
  assumes "good_position n b" "card {ms. length ms = n \<and> (\<exists>b'. legal_game b ms b')} < 2 ^ 63"
  shows "number_of_moves b (int n) =
    Inr (int (card {ms. length ms = n \<and> (\<exists>b'. legal_game b ms b')}))"
  by (rule number_of_moves_card [OF assms])

theorem perft_counts_games_witness:
  "good_position 3 endgame \<and> number_of_moves endgame (int 3) =
     Inr (int (card {ms. length ms = 3 \<and> (\<exists>b'. legal_game endgame ms b')}))"
proof -
  have g: "good_position 3 endgame" by (rule endgame_good) simp
  have "{ms. length ms = 3 \<and> (\<exists>b'. legal_game endgame ms b')} = set (lines 3 endgame)"
    using set_lines [OF g] by blast
  moreover have "card (set (lines 3 endgame)) \<le> 245760 ^ 3"
    using card_length [of "lines 3 endgame"] length_lines_le [OF g] by linarith
  ultimately have "card {ms. length ms = 3 \<and> (\<exists>b'. legal_game endgame ms b')} < 2 ^ 63" by simp
  from perft_counts_games [OF g this] g show ?thesis by simp
qed

section \<open>Search\<close>

text \<open>C8: alpha-beta is fail-hard correct. For every window inside the range of \<open>int\<close> it
  returns, whatever the order of the moves and the cutoffs, the negamax value of the position
  at that depth clamped to the window; and when the value lies strictly inside the window the
  line it returns is a legal line that ends in a position of exactly that static value.\<close>

theorem alpha_beta_fail_hard:
  assumes "good_position (d + 130) b" "int_min < \<alpha>" "\<alpha> < \<beta>" "\<beta> \<le> int_max"
  shows "\<exists>pv. alpha_beta b (int d) \<alpha> \<beta> [] = Inr (max \<alpha> (min \<beta> (negamax d b)), pv) \<and>
    (\<alpha> < negamax d b \<and> negamax d b < \<beta> \<longrightarrow> realizes b pv (negamax d b))"
  using alpha_beta_ok [OF assms(1)] assms(2-4) unfolding search_ok_def by blast

theorem alpha_beta_fail_hard_witness:
  "good_position (2 + 130) endgame \<and> int_min < -5 \<and> (-5 :: int) < 5 \<and> 5 \<le> int_max \<and>
   (\<exists>pv. alpha_beta endgame (int 2) (-5) 5 [] = Inr (max (-5) (min 5 (negamax 2 endgame)), pv) \<and>
      (-5 < negamax 2 endgame \<and> negamax 2 endgame < 5 \<longrightarrow> realizes endgame pv (negamax 2 endgame)))"
  using alpha_beta_fail_hard [of 2 endgame "-5" 5] endgame_good [of "2 + 130"]
  by (simp add: int_bounds)

text \<open>C9: \<open>evaluation\<close> returns exactly the negamax value, which is at most 1344 in absolute
  value, and a principal variation that realizes it.\<close>

theorem evaluation_exact:
  assumes "good_position (d + 130) b"
  shows "\<exists>pv. evaluation b (int d) [] = Inr (negamax d b, pv) \<and> realizes b pv (negamax d b) \<and>
    \<bar>negamax d b\<bar> \<le> 1344"
  using evaluation_ok [OF assms] by metis

theorem evaluation_exact_witness:
  "good_position (2 + 130) endgame \<and>
   (\<exists>pv. evaluation endgame (int 2) [] = Inr (negamax 2 endgame, pv) \<and>
      realizes endgame pv (negamax 2 endgame) \<and> \<bar>negamax 2 endgame\<bar> \<le> 1344)"
  using evaluation_exact [of 2 endgame] endgame_good [of "2 + 130"] by simp

text \<open>C10: the quiescence search terminates and is fail-hard correct against the quiescence
  value, the best of standing pat and the captures; one ply of room in the move counter per
  possible capture is enough.\<close>

theorem quiescence_fail_hard:
  assumes "good_position n b" "capture_rank b < n" "int_min < \<alpha>" "\<alpha> < \<beta>" "\<beta> \<le> int_max"
  shows "\<exists>pv. quiescence_search b \<alpha> \<beta> [] = Inr (max \<alpha> (min \<beta> (quiesce b)), pv) \<and>
    (\<alpha> < quiesce b \<and> quiesce b < \<beta> \<longrightarrow> realizes b pv (quiesce b))"
  using quiescence_ok [OF assms(1,2)] assms(3-5) unfolding search_ok_def by blast

theorem quiescence_fail_hard_witness:
  "good_position 130 endgame \<and> capture_rank endgame < 130 \<and>
   (\<exists>pv. quiescence_search endgame (-100) 100 [] = Inr (max (-100) (min 100 (quiesce endgame)), pv) \<and>
      (-100 < quiesce endgame \<and> quiesce endgame < 100 \<longrightarrow> realizes endgame pv (quiesce endgame)))"
  using quiescence_fail_hard [of 130 endgame "-100" 100] endgame_good [of 130]
    capture_rank_le [OF endgame_legal]
  by (simp add: int_bounds)

section \<open>Positions as text\<close>

lemma endgame_printable: "printable endgame"
  by (rule legal_printable [OF endgame_legal]) (simp add: endgame_def int_bounds)

text \<open>C11: the FEN constructor reads back the text of a position. For every board whose pieces
  do not overlap, whose counters fit \<open>int\<close> and whose en passant square is a square, the board
  constructed from its Forsyth-Edwards text is the board.\<close>

theorem fen_round_trip:
  assumes "printable b"
  shows "Board_fen storage (fen_of b) = Inr b"
  by (rule Board_fen_fen_of [OF assms])

theorem fen_round_trip_witness:
  "printable endgame \<and> fen_of endgame = ''4k3/8/8/3pP3/8/8/8/4K2R w K d6 0 30'' \<and>
   Board_fen start_board ''4k3/8/8/3pP3/8/8/8/4K2R w K d6 0 30'' = Inr endgame"
proof -
  have "fen_of endgame = ''4k3/8/8/3pP3/8/8/8/4K2R w K d6 0 30''" by code_simp
  with fen_round_trip [OF endgame_printable, of start_board] endgame_printable show ?thesis by simp
qed

text \<open>C12: the default constructor returns the starting position of chess, and no constructor
  depends on what the storage of the object held before: every member is written before the
  constructor returns.\<close>

theorem default_board:
  "Board_default storage = Inr start_board \<and> Board_fen storage fen = Board_fen storage' fen"
proof
  show "Board_default storage = Inr start_board"
    unfolding Board_default_def start_fen [symmetric] by (rule Board_fen_fen_of [OF printable_start])
  show "Board_fen storage fen = Board_fen storage' fen" by (rule Board_fen_storage)
qed

text \<open>C13: what the constructor accepts. A board is built exactly from a text with at least six
  fields: the first has only digits, slashes and piece letters, each at a square of the board,
  the second is \<open>w\<close> or \<open>b\<close>, the fourth is a dash or starts with the name of a square, and the
  fifth and sixth are numbers that fit \<open>int\<close>. The members of the board are the values of these
  fields; a bitboard has a bit exactly where the first field shows its piece: its letter stands
  behind as many slashes as the rank is below the eighth and behind as many squares of the rank
  as the file counts from the a-file.\<close>

theorem fen_accepts:
  "Board_fen storage fen = Inr b \<longleftrightarrow> (\<exists>p side cs e fifty n rest.
    split_on CHR '' '' fen = p # side # cs # e # fifty # n # rest \<and>
    placement_ok p \<and> (\<forall>q i. bit (deref b q) i \<longleftrightarrow> stands_at p (piece_letter q) (int i)) \<and>
    side \<in> {''w'', ''b''} \<and> is_whites_move b = (side = ''w'') \<and>
    white_has_right_to_castle_kingside b = (CHR ''K'' \<in> set cs) \<and>
    white_has_right_to_castle_queenside b = (CHR ''Q'' \<in> set cs) \<and>
    black_has_right_to_castle_kingside b = (CHR ''k'' \<in> set cs) \<and>
    black_has_right_to_castle_queenside b = (CHR ''q'' \<in> set cs) \<and>
    shows_square e (en_passant_square b) \<and>
    SimpleAtoi int32_t fifty = Inr (True, fifty_move_clock b) \<and>
    SimpleAtoi int32_t n = Inr (True, num_moves b))"
  by (simp only: Board_fen_iff fen_reads_def)

theorem fen_accepts_witness:
  "Board_fen start_board (fen_of endgame) = Inr endgame \<and>
   (\<exists>p side cs e fifty n rest. split_on CHR '' '' (fen_of endgame) = p # side # cs # e # fifty # n # rest \<and>
      (\<forall>q i. bit (deref endgame q) i \<longleftrightarrow> stands_at p (piece_letter q) (int i)) \<and>
      side = ''w'' \<and> CHR ''K'' \<in> set cs \<and> SimpleAtoi int32_t n = Inr (True, 30))"
proof -
  have b: "Board_fen start_board (fen_of endgame) = Inr endgame" by (rule Board_fen_fen_of [OF endgame_printable])
  have m: "is_whites_move endgame = True" "white_has_right_to_castle_kingside endgame = True" "num_moves endgame = 30"
    by (simp_all add: endgame_def)
  from fen_accepts [THEN iffD1, OF b] b show ?thesis unfolding m by blast
qed

section \<open>Squares and pieces\<close>

text \<open>C14: undoing a move restores the position. From a position with room in the move counter
  every generated move can be made, and \<open>undo_move\<close> then gives the old board back, all members
  included.\<close>

theorem undo_restores:
  assumes "good_position (Suc n) b" "legal_moves b = Inr ms" "m \<in> set ms"
  shows "\<exists>b'. do_move b m = Inr b' \<and> good_position n b' \<and> undo_move b' m = b"
  by (rule chess.make_ok [OF assms])

theorem undo_restores_witness:
  "good_position (Suc 4) endgame \<and> (\<exists>ms m b'. legal_moves endgame = Inr ms \<and> m \<in> set ms \<and>
     do_move endgame m = Inr b' \<and> undo_move b' m = endgame)"
proof -
  have g: "good_position (Suc 4) endgame" by (rule endgame_good) simp
  obtain ms where ms: "legal_moves endgame = Inr ms" "set ms = mv endgame ` {m. legal_move endgame m}"
    using legal_moves_spec [OF endgame_legal endgame_countable] by metis
  have "mv endgame ((4, 0), (6, 0), king, castle_kingside) \<in> set ms" unfolding ms(2) using endgame_castles by blast
  from undo_restores [OF g ms(1) this] g ms(1) this show ?thesis by blast
qed

text \<open>\<open>move_piece\<close> moves the piece on the source square and no other, whatever its bitboard,
  and fails its check when the source square is empty.\<close>

lemma move_piece_exact:
  assumes "disjoint_pieces b" "on_board c" "on_board d" "c \<noteq> d"
  shows "if occupied b c
    then \<exists>p b'. on b p c \<and> move_piece b (csq c) (csq d) = Inr b' \<and> same_state b b' \<and>
      (\<forall>q e. on b' q e = (on b q e \<and> e \<noteq> c \<or> q = p \<and> e = d))
    else move_piece b (csq c) (csq d) = Inl (Raw_check_failed ''Move not valid.'')"
proof (cases "occupied b c")
  case True
  then obtain p where p: "on b p c" by (auto simp: occupied_def)
  from move_piece_ok [OF assms(1) p assms(3,4)] p True show ?thesis by metis
next
  case False
  with move_piece_cases [OF assms(2), of b "csq d"] show ?thesis by (metis occupied_def)
qed

text \<open>C15: the static evaluation of a legal position. When the rules allow a move it is the material
  balance, counted square by square: pawn 1, knight and bishop 3, rook 5, queen 9, for White
  positive and for Black negative. When they allow none it is the loss of the side to move, 1000,
  also when that side is not in check. The balance of a legal position is at most 558, so that
  material is never mistaken for that score.\<close>

theorem static_evaluation_bounded:
  assumes "legal_position b" "countable_move b"
  shows "static_evaluation b = Inr (if \<exists>m. legal_move b m then balance b
      else if is_whites_move b then - 1000 else 1000) \<and> \<bar>balance b\<bar> \<le> 558"
  using static_evaluation_rules [OF assms] legal_balance_bound [OF assms(1)] by blast

theorem static_evaluation_bounded_witness:
  "legal_position endgame \<and> countable_move endgame \<and> (\<exists>m. legal_move endgame m) \<and>
   static_evaluation endgame = Inr 5"
proof -
  have m: "\<exists>m. legal_move endgame m" using endgame_castles by blast
  have v: "balance endgame = 5" by code_simp
  from static_evaluation_bounded [OF endgame_legal endgame_countable] endgame_legal endgame_countable
  show ?thesis by (simp only: m v if_True simp_thms)
qed

text \<open>The name of a square is read back as the square.\<close>

lemma square_name_round_trip:
  assumes "is_square w"
  shows "bindr (square_to_str w) str_to_square = Inr w"
proof -
  obtain c where "on_board c" "w = csq c" by (rule is_square_coord [OF assms])
  with str_to_square_alg [of c "[]"] show ?thesis by (simp add: square_to_str_csq)
qed

text \<open>\<open>bitboard_split\<close> lists the one-bit boards of a bitboard from the lowest bit up, each
  once, and \<open>pop_count\<close> and \<open>is_square\<close> count its bits.\<close>

lemma bitboard_bits:
  "bitboard_split w = map sqw (filter (bit w) [0..<64]) \<and> pop_count w = int (card {i. bit w i}) \<and>
   (is_square w \<longleftrightarrow> card {i. bit w i} = 1)"
proof -
  have "is_square w \<longleftrightarrow> card {i. bit w i} = 1"
  proof
    assume "is_square w"
    then obtain i where "i < 64" "w = sqw i" by (auto simp: is_square_iff)
    then have "{i. bit w i} = {i}" by (auto simp: bit_sqw)
    then show "card {i. bit w i} = 1" by simp
  next
    assume "card {i. bit w i} = 1"
    then obtain i where i: "{i. bit w i} = {i}" by (rule card_1_singletonE)
    then have "i < 64" using bit_word_bound [of w i] by blast
    moreover have "w = sqw i" by (rule bb_eqI) (use i \<open>i < 64\<close> in \<open>auto simp: bit_sqw\<close>)
    ultimately show "is_square w" by (auto simp: is_square_iff)
  qed
  then show ?thesis by (simp add: bitboard_split_eq pop_count_eq bits_def)
qed

text \<open>C16: a step in one of the eight directions takes a square to the neighbouring square or,
  over the edge of the board, to the empty bitboard; any other argument fails the check.\<close>

theorem steps_stay_on_board:
  assumes "on_board c" "\<not> is_square w"
  shows "direction_to_function d (csq c) =
      Inr (if on_board (cadd c 1 (vec d)) then csq (cadd c 1 (vec d)) else 0) \<and>
    direction_to_function d w = Inl (Raw_check_failed ''Is not square.'')"
  using direction_to_function_csq [OF assms(1), of d] direction_to_function_check [OF assms(2), of d]
  by (simp add: square_or_0_def)

theorem steps_stay_on_board_witness:
  "on_board (7, 0) \<and> \<not> is_square 3 \<and> direction_to_function northwest (csq (7, 0)) = Inr (csq (6, 1)) \<and>
   direction_to_function east (csq (7, 0)) = Inr 0 \<and>
   direction_to_function east 3 = Inl (Raw_check_failed ''Is not square.'')"
proof -
  have n: "\<not> is_square 3" by code_simp
  with steps_stay_on_board [of "(7, 0)" 3 northwest] steps_stay_on_board [of "(7, 0)" 3 east] show ?thesis
    by (simp add: cadd_def)
qed

section \<open>The programs\<close>

text \<open>C17: the evaluator runs to its end. Called with the text of a good position and a depth, the
  program reads them back, searches, and prints the depth, the negamax value and the moves of a
  principal variation that realizes it.\<close>

theorem evaluator_prints:
  assumes "good_position (d + 130) b" "in_int (fifty_move_clock b)" "int d \<le> int_max"
  shows "\<exists>pv. realizes b pv (negamax d b) \<and>
    eval_main storage [prog, fen_of b, show_int (int d)] start elapsed =
      Inr (''Depth: '' @ show_int (int d) @ newline @
        ''Starting evaluation at time: '' @ start @ newline @
        ''Evaluation: '' @ show_int (negamax d b) @ newline @
        ''Principal variation: '' @ newline @ concat (map (\<lambda>m. tab @ coords m @ newline) pv) @
        ''Time taken: '' @ elapsed @ newline)"
  by (rule eval_main_prints [OF assms])

theorem evaluator_prints_witness:
  "good_position (2 + 130) endgame \<and> in_int (fifty_move_clock endgame) \<and>
   (\<exists>pv. realizes endgame pv (negamax 2 endgame) \<and>
    eval_main start_board [''eval'', fen_of endgame, show_int (int 2)] ''now'' ''1s'' =
      Inr (''Depth: '' @ show_int (int 2) @ newline @
        ''Starting evaluation at time: '' @ ''now'' @ newline @
        ''Evaluation: '' @ show_int (negamax 2 endgame) @ newline @
        ''Principal variation: '' @ newline @ concat (map (\<lambda>m. tab @ coords m @ newline) pv) @
        ''Time taken: '' @ ''1s'' @ newline))"
proof -
  have g: "good_position (2 + 130) endgame" by (rule endgame_good) simp
  have i: "in_int (fifty_move_clock endgame)" by (simp add: endgame_def int_bounds)
  from evaluator_prints [OF g i, of start_board "''eval''" "''now''" "''1s''"] g i show ?thesis
    by (simp add: int_bounds)
qed

text \<open>C18: the verdict of the move counter at one depth. It stops exactly when some count differs
  from the entry of its table modulo \<open>2 ^ 32\<close>: both are narrowed to \<open>int\<close> before they are
  compared, so counts that differ by a multiple of \<open>2 ^ 32\<close> are taken for equal, and the entries
  that narrow to \<open>-1\<close> are skipped.\<close>

theorem perft_verdict:
  assumes "\<And>i. i < length boards \<Longrightarrow> number_of_moves (boards ! i) (int depth) = Inr (n i)"
  shows "\<exists>out'. perft_depth boards elapsed depth (out, False) = Inr (out @ out',
    \<exists>i<length boards. narrow (num_nodes ! i ! depth) \<noteq> - 1 \<and>
      n i mod 2 ^ 32 \<noteq> num_nodes ! i ! depth mod 2 ^ 32)"
  by (rule perft_depth_verdict [OF assms])

theorem perft_verdict_witness:
  "number_of_moves start_board (int 0) = Inr 1 \<and>
   (\<exists>out'. perft_depth [start_board] (\<lambda>_ _. ''1s'') 0 ([], False) = Inr (out', False))"
proof -
  have n: "number_of_moves start_board (int 0) = Inr 1" by code_simp
  have "num_nodes ! 0 ! 0 = 1" by code_simp
  with perft_verdict [of "[start_board]" 0 "\<lambda>_. 1" "\<lambda>_ _. ''1s''" "[]"] n show ?thesis by simp
qed

text \<open>C19: the picture of a board succeeds and shows where every piece stands: two boards have the
  same picture exactly when they have the same pieces on the same squares.\<close>

theorem picture_shows_pieces:
  assumes "disjoint_pieces a" "disjoint_pieces b"
  shows "(\<exists>s. to_pretty_str a = Inr s) \<and>
    (to_pretty_str a = to_pretty_str b \<longleftrightarrow> (\<forall>p. deref a p = deref b p))"
proof -
  note pa = places_piece_at [OF assms(1)] and pb = places_piece_at [OF assms(2)]
  have "(\<forall>c. on_board c \<longrightarrow> piece_at a c = piece_at b c) \<longleftrightarrow> (\<forall>p c. on a p c = on b p c)"
  proof
    assume eq: "\<forall>c. on_board c \<longrightarrow> piece_at a c = piece_at b c"
    show "\<forall>p c. on a p c = on b p c"
    proof (intro allI)
      fix p c
      show "on a p c = on b p c"
      proof (cases "on_board c")
        case True
        then have "piece_at a c = piece_at b c" using eq by blast
        then show ?thesis by (simp add: placesD [OF pa] placesD [OF pb])
      qed (auto dest: on_on_board)
    qed
  next
    assume eq: "\<forall>p c. on a p c = on b p c"
    have "piece_at a c = Some p \<longleftrightarrow> piece_at b c = Some p" for p c
      unfolding placesD [OF pa, symmetric] placesD [OF pb, symmetric] using eq by blast
    then show "\<forall>c. on_board c \<longrightarrow> piece_at a c = piece_at b c" by (metis not_None_eq)
  qed
  also have "\<dots> \<longleftrightarrow> (\<forall>p. deref a p = deref b p)" by (auto simp: on_def bb_eq_occ_iff)
  finally show ?thesis by (simp add: to_pretty_str_eq assms picture_inj)
qed

theorem picture_shows_pieces_witness:
  "disjoint_pieces endgame \<and> disjoint_pieces start_board \<and> to_pretty_str endgame \<noteq> to_pretty_str start_board"
proof -
  have s: "disjoint_pieces start_board" using printable_start by (simp add: printable_def)
  have "deref endgame (white, pawn) \<noteq> deref start_board (white, pawn)" by (simp add: endgame_def start_board_def)
  with picture_shows_pieces [OF endgame_generator(2) s] endgame_generator(2) s show ?thesis by blast
qed

end
